(* ===== verification/Prelude.thy ===== *)
theory Prelude
  imports Main "HOL-Library.Word" "HOL-Library.Sublist"
begin

text \<open>
  Shared vocabulary of the development: the machine integer types of the target
  (riscv64gc, so \<open>usize\<close> has 64 bits), panics as error values, the two sequencing
  combinators used to write fallible and stateful Rust code, the model of Rust's
  \<open>Vec\<close> used as a stack, and generic lemmas on lists and words.

  The kernel is built with \<open>cargo build --release\<close> (\<open>os/Makefile\<close>), a profile
  without overflow checks: \<open>+\<close>, \<open>-\<close> and \<open>*\<close> on machine integers wrap
  around, which is what the operations of \<open>'a word\<close> do.
\<close>

unbundle bit_operations_syntax

section \<open>Machine integers\<close>

type_synonym u8 = "8 word"
type_synonym u32 = "32 word"
type_synonym u64 = "64 word"
type_synonym usize = "64 word"

section \<open>Panics and fallible code\<close>

text \<open>
  Every way the modelled Rust code can stop other than by returning. \<open>Deadlock\<close> is a
  \<open>spin::Mutex\<close> locked by the thread that already holds it (the spin loop never ends);
  \<open>AlreadyBorrowed\<close> is \<open>RefCell::borrow_mut\<close> on a borrowed cell; \<open>NoReturn\<close> is a loop
  that does not end.
\<close>

datatype panic =
    UnwrapNone
  | IndexOutOfBounds
  | AssertionFailed
  | ExplicitPanic
  | AlreadyBorrowed
  | Deadlock
  | NoReturn

type_synonym 'a result = "panic + 'a"

definition rbind :: "'a result \<Rightarrow> ('a \<Rightarrow> 'b result) \<Rightarrow> 'b result" where
  "rbind m f = (case m of Inl e \<Rightarrow> Inl e | Inr x \<Rightarrow> f x)"

lemma rbind_simps [simp]:
  "rbind (Inl e) f = Inl e"
  "rbind (Inr x) f = f x"
  by (simp_all add: rbind_def)

lemma rbind_Inr_iff [simp]:
  "rbind m f = Inr y \<longleftrightarrow> (\<exists>x. m = Inr x \<and> f x = Inr y)"
  by (cases m) auto

lemma rbind_Inl_iff:
  "rbind m f = Inl e \<longleftrightarrow> m = Inl e \<or> (\<exists>x. m = Inr x \<and> f x = Inl e)"
  by (cases m) auto

lemma rbind_assoc: "rbind (rbind m f) g = rbind m (\<lambda>x. rbind (f x) g)"
  by (cases m) auto

lemma rbind_cong [fundef_cong]:
  "m = m' \<Longrightarrow> (\<And>x. m' = Inr x \<Longrightarrow> f x = f' x) \<Longrightarrow> rbind m f = rbind m' f'"
  by (cases m') auto

text \<open>\<open>assert!\<close>, \<open>Option::unwrap\<close> and slice indexing.\<close>

definition rassert :: "bool \<Rightarrow> unit result" where
  "rassert b = (if b then Inr () else Inl AssertionFailed)"

definition unwrap :: "'a option \<Rightarrow> 'a result" where
  "unwrap x = (case x of None \<Rightarrow> Inl UnwrapNone | Some y \<Rightarrow> Inr y)"

definition index :: "'a list \<Rightarrow> nat \<Rightarrow> 'a result" where
  "index xs i = (if i < length xs then Inr (xs ! i) else Inl IndexOutOfBounds)"

definition returns :: "'a result option \<Rightarrow> 'a result" where
  "returns x = (case x of None \<Rightarrow> Inl NoReturn | Some r \<Rightarrow> r)"

lemma returns_simps [simp]: "returns None = Inl NoReturn" "returns (Some r) = r"
  by (simp_all add: returns_def)

lemma rassert_Inr [simp]: "rassert b = Inr u \<longleftrightarrow> b"
  by (simp add: rassert_def)

lemma rassert_simps [simp]: "rassert True = Inr ()" "rassert False = Inl AssertionFailed"
  by (simp_all add: rassert_def)

lemma unwrap_simps [simp]: "unwrap None = Inl UnwrapNone" "unwrap (Some y) = Inr y"
  by (simp_all add: unwrap_def)

lemma unwrap_Inr [simp]: "unwrap x = Inr y \<longleftrightarrow> x = Some y"
  by (cases x) auto

lemma index_Inr [simp]: "index xs i = Inr y \<longleftrightarrow> i < length xs \<and> y = xs ! i"
  by (auto simp: index_def)

lemma index_in_range: "i < length xs \<Longrightarrow> index xs i = Inr (xs ! i)"
  by simp

text \<open>
  Total correctness of a computation: it does not panic and its value satisfies the
  postcondition. The rules follow the structure of the code.
\<close>

definition post :: "'a result \<Rightarrow> ('a \<Rightarrow> bool) \<Rightarrow> bool" where
  "post m Q \<longleftrightarrow> (case m of Inl e \<Rightarrow> False | Inr x \<Rightarrow> Q x)"

lemma post_simps [simp]: "post (Inl e) Q \<longleftrightarrow> False" "post (Inr x) Q \<longleftrightarrow> Q x"
  by (simp_all add: post_def)

lemma post_rbind [simp]: "post (rbind m f) Q \<longleftrightarrow> post m (\<lambda>x. post (f x) Q)"
  by (cases m) simp_all

lemma post_rassert [simp]: "post (rassert b) Q \<longleftrightarrow> b \<and> Q ()"
  by (cases b) simp_all

lemma post_unwrap [simp]: "post (unwrap x) Q \<longleftrightarrow> (\<exists>y. x = Some y \<and> Q y)"
  by (cases x) simp_all

lemma post_index [simp]: "post (index xs i) Q \<longleftrightarrow> i < length xs \<and> Q (xs ! i)"
  by (simp add: index_def)

lemma post_iff: "post m Q \<longleftrightarrow> (\<exists>x. m = Inr x \<and> Q x)"
  by (cases m) simp_all

lemma post_mono: "post m P \<Longrightarrow> (\<And>x. P x \<Longrightarrow> Q x) \<Longrightarrow> post m Q"
  by (cases m) simp_all

lemma post_Inr: "m = Inr x \<Longrightarrow> Q x \<Longrightarrow> post m Q"
  by simp

section \<open>\<open>Vec\<close> as a stack, and searching\<close>

text \<open>\<open>Vec::pop\<close>: the last element and the rest.\<close>

definition vec_pop :: "'a list \<Rightarrow> ('a \<times> 'a list) option" where
  "vec_pop xs = (if xs = [] then None else Some (last xs, butlast xs))"

lemma vec_pop_snoc [simp]: "vec_pop (xs @ [x]) = Some (x, xs)"
  by (simp add: vec_pop_def)

lemma vec_pop_Nil [simp]: "vec_pop [] = None"
  by (simp add: vec_pop_def)

lemma vec_pop_None [simp]: "vec_pop xs = None \<longleftrightarrow> xs = []"
  by (simp add: vec_pop_def)

lemma vec_pop_Some: "vec_pop xs = Some (x, ys) \<longleftrightarrow> xs = ys @ [x]"
  by (cases xs rule: rev_cases) (auto simp: vec_pop_def)

text \<open>
  \<open>iter().enumerate().find(..)\<close> and \<open>(0..n).find(..)\<close>: the first index whose element
  satisfies the predicate.
\<close>

fun find_index :: "('a \<Rightarrow> bool) \<Rightarrow> 'a list \<Rightarrow> nat option" where
  "find_index p [] = None"
| "find_index p (x # xs) = (if p x then Some 0 else map_option Suc (find_index p xs))"

lemma find_index_None: "find_index p xs = None \<longleftrightarrow> (\<forall>x \<in> set xs. \<not> p x)"
  by (induction xs) auto

lemma find_index_Some:
  "find_index p xs = Some i \<longleftrightarrow> i < length xs \<and> p (xs ! i) \<and> (\<forall>j < i. \<not> p (xs ! j))"
proof (induction xs arbitrary: i)
  case Nil
  then show ?case by simp
next
  case (Cons x xs)
  show ?case
  proof (cases i)
    case 0
    then show ?thesis by auto
  next
    case (Suc k)
    then show ?thesis using Cons.IH [of k] by (auto simp: All_less_Suc2)
  qed
qed

lemma find_index_SomeD:
  assumes "find_index p xs = Some i"
  shows "i < length xs" "p (xs ! i)" "j < i \<Longrightarrow> \<not> p (xs ! j)"
  using assms by (auto simp: find_index_Some)

text \<open>\<open>Vec::remove(i)\<close> and \<open>VecDeque::remove(i)\<close> at an index that is in range.\<close>

definition remove_at :: "nat \<Rightarrow> 'a list \<Rightarrow> 'a list" where
  "remove_at i xs = take i xs @ drop (Suc i) xs"

lemma length_remove_at: "i < length xs \<Longrightarrow> length (remove_at i xs) = length xs - 1"
  by (simp add: remove_at_def min_def)

lemma set_remove_at_subset: "set (remove_at i xs) \<subseteq> set xs"
  by (auto simp: remove_at_def dest: in_set_takeD in_set_dropD)

lemma remove_at_split: "i < length xs \<Longrightarrow> xs = take i xs @ xs ! i # drop (Suc i) xs"
  by (rule id_take_nth_drop)

lemma set_remove_at_distinct:
  assumes "i < length xs" "distinct xs"
  shows "set (remove_at i xs) = set xs - {xs ! i}"
proof -
  have "distinct (take i xs @ xs ! i # drop (Suc i) xs)"
    using assms remove_at_split [of i xs] by simp
  moreover have "set xs = set (take i xs @ xs ! i # drop (Suc i) xs)"
    using assms remove_at_split [of i xs] by simp
  ultimately show ?thesis by (auto simp: remove_at_def)
qed

lemma distinct_remove_at:
  assumes "distinct xs"
  shows "distinct (remove_at i xs)"
  using assms set_take_disj_set_drop_if_distinct [of xs i "Suc i"]
  by (auto simp: remove_at_def)

section \<open>Words as natural numbers\<close>

lemma unat_less_2p: "unat (w :: 'a::len word) < 2 ^ LENGTH('a)"
  by (fact unsigned_less)

lemma unat_less_2p_64: "unat (w :: 64 word) < 18446744073709551616"
  using unat_less_2p [of w] by simp

lemma unat_of_nat_64: "n < 18446744073709551616 \<Longrightarrow> unat (of_nat n :: 64 word) = n"
  by (simp add: unat_of_nat)

lemma unat_drop_bit: "unat (drop_bit n w) = unat w div 2 ^ n"
  by (subst unat_drop_bit_eq) (rule drop_bit_eq_div)

lemma unat_take_bit: "unat (take_bit n w) = unat w mod 2 ^ n"
  by (subst unsigned_take_bit_eq) (rule take_bit_eq_mod)

lemma unat_and_mask: "unat (w AND mask n) = unat w mod 2 ^ n"
  by (simp only: take_bit_eq_mask [symmetric] unat_take_bit)

lemma unat_minus_one_less: "(x :: 'a::len word) \<noteq> 0 \<Longrightarrow> unat (x - 1) < unat x"
  by (simp add: unat_minus_one unat_gt_0)

end
