(* ===== verification/Allocator_Spec.thy ===== *)
theory Allocator_Spec
  imports Prelude
begin

text \<open>
  The contract of an allocator of identifiers, as the kernel's clients rely on it: the set
  of identifiers that are handed out and not yet given back (\<open>live\<close>), what \<open>alloc\<close> and
  \<open>dealloc\<close> do to it, and the consequence that matters to a client whose handles give their
  identifier back when they are dropped: such a client never meets a panic, and no two of its
  handles ever carry the same identifier. The contract is met by the recycling allocator of
  \<open>os/src/task/utils.rs\<close> (process ids, thread ids, kernel stacks) and by the frame
  allocator of \<open>os/src/mm/frame_allocator.rs\<close>.
\<close>

section \<open>Clients that own handles\<close>

text \<open>
  \<open>Create\<close> asks for an identifier and keeps it in a new handle; \<open>Drop k\<close> drops the
  \<open>k\<close>-th handle, whose \<open>Drop\<close> implementation calls \<open>dealloc\<close>. A client in safe
  Rust can only drop handles it owns, so \<open>Drop k\<close> without a \<open>k\<close>-th handle does nothing.
  A failed allocation leaves the state alone; a panic stops the run.
\<close>

datatype handle_call = Create | Drop nat

fun run_handles ::
  "('a \<Rightarrow> ('i \<times> 'a) option) \<Rightarrow> ('i \<Rightarrow> 'a \<Rightarrow> 'a result) \<Rightarrow> handle_call list \<Rightarrow> 'a \<Rightarrow> 'i list
    \<Rightarrow> ('a \<times> 'i list) result" where
  "run_handles al de [] a held = Inr (a, held)"
| "run_handles al de (Create # cs) a held =
     (case al a of
        None \<Rightarrow> run_handles al de cs a held
      | Some (i, a') \<Rightarrow> run_handles al de cs a' (i # held))"
| "run_handles al de (Drop k # cs) a held =
     (if k < length held
      then rbind (de (held ! k) a) (\<lambda>a'. run_handles al de cs a' (remove_at k held))
      else run_handles al de cs a held)"

section \<open>The contract\<close>

text \<open>
  \<open>fits a n\<close> says that \<open>n\<close> more allocations cannot exhaust the identifier space; a
  bounded allocator that reports exhaustion takes it to be true.
\<close>

locale id_allocator =
  fixes inv :: "'a \<Rightarrow> bool"
    and live :: "'a \<Rightarrow> 'i set"
    and fits :: "'a \<Rightarrow> nat \<Rightarrow> bool"
    and alloc :: "'a \<Rightarrow> ('i \<times> 'a) option"
    and dealloc :: "'i \<Rightarrow> 'a \<Rightarrow> 'a result"
  assumes alloc_fresh:
      "inv a \<Longrightarrow> fits a (Suc n) \<Longrightarrow> alloc a = Some (i, a') \<Longrightarrow>
        inv a' \<and> i \<notin> live a \<and> live a' = insert i (live a) \<and> fits a' n"
    and dealloc_live:
      "inv a \<Longrightarrow> i \<in> live a \<Longrightarrow>
        \<exists>a'. dealloc i a = Inr a' \<and> inv a' \<and> live a' = live a - {i}"
    and dealloc_fits: "fits a n \<Longrightarrow> dealloc i a = Inr a' \<Longrightarrow> fits a' n"
    and fits_mono: "fits a (Suc n) \<Longrightarrow> fits a n"
begin

text \<open>An allocation directly followed by its deallocation restores the set of live identifiers.\<close>

lemma alloc_dealloc_live:
  assumes "inv a" "fits a 1" "alloc a = Some (i, a')"
  shows "\<exists>a''. dealloc i a' = Inr a'' \<and> inv a'' \<and> live a'' = live a"
proof -
  have *: "inv a'" "i \<notin> live a" "live a' = insert i (live a)"
    using alloc_fresh [of a 0 i a'] assms by auto
  then show ?thesis
    using dealloc_live [of a' i] by auto
qed

lemma run_handles_ok:
  assumes "inv a" "live a = set held" "distinct held" "fits a (length cs)"
  shows "\<exists>a' held'. run_handles alloc dealloc cs a held = Inr (a', held')
    \<and> inv a' \<and> live a' = set held' \<and> distinct held'"
  using assms
proof (induction cs arbitrary: a held)
  case Nil
  then show ?case by simp
next
  case (Cons c cs)
  have fit: "fits a (length cs)"
    using Cons.prems(4) by (auto intro: fits_mono)
  show ?case
  proof (cases c)
    case Create
    show ?thesis
    proof (cases "alloc a")
      case None
      then show ?thesis
        using Cons.IH [of a held] Cons.prems Create fit by simp
    next
      case (Some p)
      obtain i b where p: "p = (i, b)" by (cases p)
      have "inv b" "i \<notin> live a" "live b = insert i (live a)" "fits b (length cs)"
        using alloc_fresh [of a "length cs" i b] Cons.prems Some p by auto
      then show ?thesis
        using Cons.IH [of b "i # held"] Cons.prems Create Some p by simp
    qed
  next
    case (Drop k)
    show ?thesis
    proof (cases "k < length held")
      case False
      then show ?thesis
        using Cons.IH [of a held] Cons.prems Drop fit by simp
    next
      case True
      then obtain b where b: "dealloc (held ! k) a = Inr b" "inv b" "live b = live a - {held ! k}"
        using dealloc_live [of a "held ! k"] Cons.prems by auto
      moreover have "fits b (length cs)"
        using dealloc_fits [OF fit b(1)] .
      ultimately show ?thesis
        using Cons.IH [of b "remove_at k held"] Cons.prems Drop True
        by (simp add: set_remove_at_distinct distinct_remove_at)
    qed
  qed
qed

end

text \<open>
  The stronger contract: giving back an identifier that is not live is a panic, so the
  allocator catches every double free.
\<close>

locale checked_id_allocator = id_allocator +
  assumes dealloc_dead: "inv a \<Longrightarrow> i \<notin> live a \<Longrightarrow> \<exists>e. dealloc i a = Inl e"
begin

lemma dealloc_iff_live: "inv a \<Longrightarrow> (\<exists>a'. dealloc i a = Inr a') \<longleftrightarrow> i \<in> live a"
  using dealloc_live [of a i] dealloc_dead [of a i] by fastforce

lemma double_dealloc:
  assumes "inv a" "dealloc i a = Inr a'"
  shows "\<exists>e. dealloc i a' = Inl e"
proof -
  have "i \<in> live a" using assms dealloc_iff_live by blast
  then have "inv a'" "i \<notin> live a'" using dealloc_live [of a i] assms by auto
  then show ?thesis by (rule dealloc_dead)
qed

end

end
