(* ===== verification/Recycle_Allocator.thy ===== *)
theory Recycle_Allocator
  imports Allocator_Spec
begin

text \<open>
  \<open>os/src/task/utils.rs\<close>: the allocator behind process ids (\<open>PID_ALLOCATOR\<close>), thread
  ids (\<open>tid_allocator\<close>) and kernel stacks (\<open>KERNEL_STACK_ALLOCATOR\<close>). The theory holds
  its state and operations, its invariant, and the proof that it meets the checked allocator
  contract.
\<close>

record RecycleAllocator =
  ra_current :: usize
  ra_recycled :: "usize list"

definition ra_new :: RecycleAllocator where
  "ra_new = \<lparr>ra_current = 0, ra_recycled = []\<rparr>"

definition ra_alloc :: "RecycleAllocator \<Rightarrow> usize \<times> RecycleAllocator" where
  "ra_alloc a =
     (case vec_pop (ra_recycled a) of
        Some (ident, rest) \<Rightarrow> (ident, a\<lparr>ra_recycled := rest\<rparr>)
      | None \<Rightarrow>
          let a' = a\<lparr>ra_current := ra_current a + 1\<rparr>
          in (ra_current a' - 1, a'))"

definition ra_dealloc :: "usize \<Rightarrow> RecycleAllocator \<Rightarrow> RecycleAllocator result" where
  "ra_dealloc ident a =
     rbind (rassert (ident < ra_current a)) (\<lambda>_.
     rbind (rassert (\<not> list_ex (\<lambda>target. target = ident) (ra_recycled a))) (\<lambda>_.
     Inr (a\<lparr>ra_recycled := ra_recycled a @ [ident]\<rparr>)))"

section \<open>Invariant and live identifiers\<close>

definition ra_inv :: "RecycleAllocator \<Rightarrow> bool" where
  "ra_inv a \<longleftrightarrow> distinct (ra_recycled a) \<and> (\<forall>id \<in> set (ra_recycled a). id < ra_current a)"

definition ra_live :: "RecycleAllocator \<Rightarrow> usize set" where
  "ra_live a = {id. id < ra_current a} - set (ra_recycled a)"

definition ra_fits :: "RecycleAllocator \<Rightarrow> nat \<Rightarrow> bool" where
  "ra_fits a n \<longleftrightarrow> unat (ra_current a) + n < 2 ^ 64"

lemma ra_new_inv [simp]: "ra_inv ra_new" "ra_live ra_new = {}" "ra_fits ra_new n \<longleftrightarrow> n < 2 ^ 64"
  by (simp_all add: ra_new_def ra_inv_def ra_live_def ra_fits_def)

text \<open>A word that is not the largest one: adding one does not wrap.\<close>

lemma less_plus_1_iff:
  fixes c x :: usize
  assumes "unat c + 1 < 2 ^ 64"
  shows "x < c + 1 \<longleftrightarrow> x < c \<or> x = c"
proof -
  have "unat (c + 1) = unat c + 1"
    using assms by (simp add: unat_word_ariths)
  then show ?thesis
    by (auto simp: word_less_nat_alt word_unat_eq_iff)
qed

lemma ra_alloc_recycled:
  assumes "ra_inv a" "ra_recycled a = xs @ [x]"
  shows "ra_alloc a = (x, a\<lparr>ra_recycled := xs\<rparr>)" "ra_inv (a\<lparr>ra_recycled := xs\<rparr>)"
    "x \<notin> ra_live a" "ra_live (a\<lparr>ra_recycled := xs\<rparr>) = insert x (ra_live a)"
  using assms by (auto simp: ra_alloc_def ra_inv_def ra_live_def)

lemma ra_alloc_current:
  assumes "ra_inv a" "ra_recycled a = []" "ra_fits a (Suc n)"
  shows "ra_alloc a = (ra_current a, a\<lparr>ra_current := ra_current a + 1\<rparr>)"
    "ra_inv (a\<lparr>ra_current := ra_current a + 1\<rparr>)" "ra_current a \<notin> ra_live a"
    "ra_live (a\<lparr>ra_current := ra_current a + 1\<rparr>) = insert (ra_current a) (ra_live a)"
    "ra_fits (a\<lparr>ra_current := ra_current a + 1\<rparr>) n"
proof -
  have lt: "unat (ra_current a) + 1 < 2 ^ 64"
    using assms(3) by (simp add: ra_fits_def)
  then have suc: "unat (ra_current a + 1) = unat (ra_current a) + 1"
    by (simp add: unat_word_ariths)
  show "ra_alloc a = (ra_current a, a\<lparr>ra_current := ra_current a + 1\<rparr>)"
    "ra_inv (a\<lparr>ra_current := ra_current a + 1\<rparr>)" "ra_current a \<notin> ra_live a"
    using assms by (auto simp: ra_alloc_def ra_inv_def ra_live_def)
  show "ra_live (a\<lparr>ra_current := ra_current a + 1\<rparr>) = insert (ra_current a) (ra_live a)"
    using assms less_plus_1_iff [OF lt] by (auto simp: ra_live_def)
  show "ra_fits (a\<lparr>ra_current := ra_current a + 1\<rparr>) n"
    using assms suc by (simp add: ra_fits_def)
qed

lemma ra_dealloc_eq:
  assumes "ra_inv a"
  shows "ra_dealloc i a =
    (if i \<in> ra_live a then Inr (a\<lparr>ra_recycled := ra_recycled a @ [i]\<rparr>) else Inl AssertionFailed)"
  using assms by (auto simp: ra_dealloc_def ra_live_def list_ex_iff rassert_def)

lemma ra_dealloc_live:
  assumes "ra_inv a" "i \<in> ra_live a"
  shows "ra_inv (a\<lparr>ra_recycled := ra_recycled a @ [i]\<rparr>)"
    "ra_live (a\<lparr>ra_recycled := ra_recycled a @ [i]\<rparr>) = ra_live a - {i}"
  using assms by (auto simp: ra_inv_def ra_live_def)

interpretation ra: checked_id_allocator ra_inv ra_live ra_fits "Some \<circ> ra_alloc" ra_dealloc
proof unfold_locales
  fix a n i a'
  assume inv: "ra_inv a" and fits: "ra_fits a (Suc n)" and eq: "(Some \<circ> ra_alloc) a = Some (i, a')"
  show "ra_inv a' \<and> i \<notin> ra_live a \<and> ra_live a' = insert i (ra_live a) \<and> ra_fits a' n"
  proof (cases "ra_recycled a" rule: rev_cases)
    case Nil
    then show ?thesis using ra_alloc_current [OF inv Nil fits] eq by auto
  next
    case (snoc xs x)
    then show ?thesis
      using ra_alloc_recycled [OF inv snoc] eq fits by (auto simp: ra_fits_def)
  qed
next
  fix a n i a'
  assume "ra_fits a n" "ra_dealloc i a = Inr a'"
  then show "ra_fits a' n" by (auto simp: ra_fits_def ra_dealloc_def)
qed (auto simp: ra_dealloc_eq ra_dealloc_live ra_fits_def)

section \<open>How many identifiers a run uses\<close>

text \<open>The largest number of handles alive at the same time in a run that starts with \<open>n\<close> handles.\<close>

fun peak_handles :: "handle_call list \<Rightarrow> nat \<Rightarrow> nat" where
  "peak_handles [] n = n"
| "peak_handles (Create # cs) n = max n (peak_handles cs (n + 1))"
| "peak_handles (Drop k # cs) n = max n (peak_handles cs (if k < n then n - 1 else n))"

lemma peak_handles_ge: "n \<le> peak_handles cs n"
  by (induction cs n rule: peak_handles.induct) auto

text \<open>Every identifier below the counter is in use or recycled.\<close>

lemma ra_count:
  assumes "ra_inv a" "ra_live a = set held" "distinct held"
  shows "unat (ra_current a) = length held + length (ra_recycled a)"
proof -
  have fin: "finite {i. i < ra_current a}" by simp
  have "{i. i < ra_current a} = set held \<union> set (ra_recycled a)" "set held \<inter> set (ra_recycled a) = {}"
    using assms(1,2) by (auto simp: ra_inv_def ra_live_def)
  then have "card {i. i < ra_current a} = length held + length (ra_recycled a)"
    using assms(1,3) by (simp add: card_Un_disjoint distinct_card ra_inv_def)
  moreover have "unat ` {i. i < ra_current a} = {..<unat (ra_current a)}"
  proof (intro equalityI subsetI)
    fix x assume "x \<in> {..<unat (ra_current a)}"
    then have "unat (of_nat x :: usize) = x" "x < unat (ra_current a)"
      using unat_less_2p_64 [of "ra_current a"] by (simp_all add: unat_of_nat_64)
    then show "x \<in> unat ` {i. i < ra_current a}" by (intro image_eqI [of _ _ "of_nat x"]) (simp_all add: word_less_nat_alt)
  qed (auto simp: word_less_nat_alt)
  moreover have "card (unat ` {i. i < ra_current a}) = card {i. i < ra_current a}" by (intro card_image inj_onI) (simp add: word_unat_eq_iff)
  ultimately show ?thesis by simp
qed

lemma ra_current_new: "unat (ra_current ra_new) = 0"
  by (simp add: ra_new_def)

lemma ra_run_peak:
  assumes "ra_inv a" "ra_live a = set held" "distinct held" "ra_fits a (length cs)"
  shows "\<exists>a' held'. run_handles (Some \<circ> ra_alloc) ra_dealloc cs a held = Inr (a', held') \<and> ra_inv a' \<and> ra_live a' = set held'
    \<and> unat (ra_current a') = max (unat (ra_current a)) (peak_handles cs (length held))"
  using assms
proof (induction cs arbitrary: a held)
  case Nil
  then show ?case using ra_count [OF Nil.prems(1-3)] by simp
next
  case (Cons c cs)
  note count = ra_count [OF Cons.prems(1-3)]
  show ?case
  proof (cases c)
    case Create
    show ?thesis
    proof (cases "ra_recycled a" rule: rev_cases)
      case Nil
      note al = ra_alloc_current [OF Cons.prems(1) Nil, of "length cs"]
      have fits: "ra_fits a (Suc (length cs))" using Cons.prems(4) by simp
      have "unat (ra_current a + 1) = unat (ra_current a) + 1"
        using fits by (simp add: ra_fits_def unat_word_ariths)
      then show ?thesis
        using Cons.IH [OF al(2) [OF fits], of "ra_current a # held"] al [OF fits] Cons.prems Create Nil count
          peak_handles_ge [of "length held + 1" cs] by auto
    next
      case (snoc xs x)
      note al = ra_alloc_recycled [OF Cons.prems(1) snoc]
      have "ra_fits (a\<lparr>ra_recycled := xs\<rparr>) (length cs)" using Cons.prems(4) by (simp add: ra_fits_def)
      then show ?thesis
        using Cons.IH [OF al(2), of "x # held"] al Cons.prems Create snoc count by auto
    qed
  next
    case (Drop k)
    show ?thesis
    proof (cases "k < length held")
      case False
      then show ?thesis using Cons.IH [of a held] Cons.prems Drop count by (auto simp: ra_fits_def)
    next
      case True
      let ?a = "a\<lparr>ra_recycled := ra_recycled a @ [held ! k]\<rparr>"
      have live: "held ! k \<in> ra_live a" using True Cons.prems(2) by simp
      note de = ra_dealloc_live [OF Cons.prems(1) live]
      have "ra_dealloc (held ! k) a = Inr ?a" using ra_dealloc_eq [OF Cons.prems(1)] live by simp
      then show ?thesis
        using Cons.IH [OF de(1), of "remove_at k held"] de(2) Cons.prems Drop True count
        by (auto simp: set_remove_at_distinct distinct_remove_at length_remove_at ra_fits_def)
    qed
  qed
qed

section \<open>Properties\<close>

text \<open>
  C13. Owners of identifier handles are safe: whatever sequence of creations and drops of process,
  thread or kernel-stack handles runs from an empty allocator, no \<open>assert!\<close> of
  \<open>dealloc\<close> fails, the handles alive at the end carry pairwise different identifiers, and the
  allocator considers exactly those identifiers to be in use.
\<close>

theorem ra_handles_distinct:
  assumes "length cs < 2 ^ 64"
  shows "\<exists>a held. run_handles (Some \<circ> ra_alloc) ra_dealloc cs ra_new [] = Inr (a, held)
    \<and> distinct held \<and> ra_live a = set held"
  using ra.run_handles_ok [of ra_new "[]" cs] assms by auto

theorem ra_handles_distinct_witness:
  "length [Create, Create, Drop 1, Create] < 2 ^ 64
    \<and> (\<exists>a held. run_handles (Some \<circ> ra_alloc) ra_dealloc [Create, Create, Drop 1, Create] ra_new []
          = Inr (a, held) \<and> distinct held \<and> ra_live a = set held)"
  using ra_handles_distinct [of "[Create, Create, Drop 1, Create]"] by simp

text \<open>
  C14. Identifiers are reused: after any sequence of creations and drops from an empty allocator, the
  identifiers of the handles alive are below the largest number of handles that were alive at the
  same time, and the allocator has never gone beyond that number. So the areas that are computed
  from an identifier, such as kernel stacks, stay as low as the number of threads alive allows.
  Moreover \<open>dealloc\<close> accepts the identifiers of these handles and fails an assertion on every other
  one, one that was given back before included.
\<close>

theorem ra_identifiers_reused:
  assumes "length cs < 2 ^ 64"
  shows "\<exists>a held. run_handles (Some \<circ> ra_alloc) ra_dealloc cs ra_new [] = Inr (a, held)
    \<and> unat (ra_current a) = peak_handles cs 0 \<and> (\<forall>i \<in> set held. unat i < peak_handles cs 0)
    \<and> (\<forall>i. (\<exists>a'. ra_dealloc i a = Inr a') \<longleftrightarrow> i \<in> set held)"
proof -
  obtain a held where run: "run_handles (Some \<circ> ra_alloc) ra_dealloc cs ra_new [] = Inr (a, held)"
    "ra_inv a" "ra_live a = set held" "unat (ra_current a) = max 0 (peak_handles cs 0)"
    using ra_run_peak [of ra_new "[]" cs] assms ra_new_inv(3) [of "length cs"] by (auto simp: ra_current_new)
  moreover have "unat i < unat (ra_current a)" if "i \<in> set held" for i
    using that run(3) by (auto simp: ra_live_def word_less_nat_alt)
  ultimately show ?thesis using ra.dealloc_iff_live [OF run(2)] by auto
qed

theorem ra_identifiers_reused_witness:
  "\<exists>a. run_handles (Some \<circ> ra_alloc) ra_dealloc [Create, Create, Drop 1, Create, Drop 0, Create] ra_new [] = Inr (a, [0, 1])
    \<and> unat (ra_current a) = 2 \<and> (\<exists>e. ra_dealloc 2 a = Inl e) \<and> (\<exists>a'. ra_dealloc 1 a = Inr a')"
proof -
  have run: "run_handles (Some \<circ> ra_alloc) ra_dealloc [Create, Create, Drop 1, Create, Drop 0, Create] ra_new []
      = Inr (\<lparr>ra_current = 2, ra_recycled = []\<rparr>, [0, 1])"
    by (simp add: ra_alloc_def ra_dealloc_def ra_new_def vec_pop_def remove_at_def rassert_def numeral_2_eq_2)
  have "\<forall>i. (\<exists>a'. ra_dealloc i \<lparr>ra_current = 2, ra_recycled = []\<rparr> = Inr a') \<longleftrightarrow> i \<in> set [0, 1]"
    using ra_identifiers_reused [of "[Create, Create, Drop 1, Create, Drop 0, Create]"] run by auto
  then have "\<nexists>a'. ra_dealloc 2 \<lparr>ra_current = 2, ra_recycled = []\<rparr> = Inr a'" "\<exists>a'. ra_dealloc 1 \<lparr>ra_current = 2, ra_recycled = []\<rparr> = Inr a'"
    by simp_all
  then show ?thesis using run by (cases "ra_dealloc 2 \<lparr>ra_current = 2, ra_recycled = []\<rparr>") auto
qed

end
