(* ===== verification/Memory.thy ===== *)
theory Memory
  imports Prelude
begin

text \<open>
  Byte-addressed memory and little-endian machine words. The kernel maps physical memory
  identically, so one function from addresses to bytes is what raw pointers, page-table
  frames and translated user buffers all read and write. The same codec reads the typed
  views of disk blocks in \<open>easy-fs\<close>.
\<close>

section \<open>Little-endian words\<close>

fun le_word :: "u8 list \<Rightarrow> 'a::len word" where
  "le_word [] = 0"
| "le_word (b # bs) = ucast b OR push_bit 8 (le_word bs)"

fun le_bytes :: "nat \<Rightarrow> 'a::len word \<Rightarrow> u8 list" where
  "le_bytes 0 w = []"
| "le_bytes (Suc n) w = ucast w # le_bytes n (drop_bit 8 w)"

lemma length_le_bytes [simp]: "length (le_bytes n w) = n"
  by (induction n arbitrary: w) auto

lemma bit_le_word:
  "bit (le_word bs :: 'a::len word) n \<longleftrightarrow>
     n < LENGTH('a) \<and> n div 8 < length bs \<and> bit (bs ! (n div 8)) (n mod 8)"
proof (induction bs arbitrary: n)
  case Nil
  then show ?case by simp
next
  case (Cons b bs)
  show ?case
  proof (cases "n < 8")
    case True
    then show ?thesis
      by (auto simp: bit_simps)
  next
    case False
    then obtain m where n: "n = m + 8" by (metis add.commute le_Suc_ex not_less)
    have "\<not> bit b n" using False by (auto dest: bit_imp_le_length)
    moreover have "(m + 8) div 8 = Suc (m div 8)" by simp
    ultimately show ?thesis
      using Cons.IH [of m] by (auto simp: n bit_simps simp del: div_add_self2)
  qed
qed

lemma nth_le_bytes:
  "k < n \<Longrightarrow> le_bytes n w ! k = ucast (drop_bit (8 * k) w)"
proof (induction n arbitrary: w k)
  case 0
  then show ?case by simp
next
  case (Suc n)
  then show ?case by (cases k) (auto simp: add.commute)
qed

lemma le_word_le_bytes:
  fixes w :: "'a::len word"
  assumes "LENGTH('a) \<le> 8 * n"
  shows "le_word (le_bytes n w) = w"
proof (rule bit_word_eqI)
  fix i assume i: "i < LENGTH('a)"
  then have "i div 8 < n" using assms by (simp add: less_mult_imp_div_less mult.commute)
  then show "bit (le_word (le_bytes n w) :: 'a word) i = bit w i"
    using i by (simp add: bit_le_word nth_le_bytes bit_simps)
qed

lemma le_bytes_le_word:
  assumes "length bs = n" "8 * n \<le> LENGTH('a::len)"
  shows "le_bytes n (le_word bs :: 'a word) = bs"
proof (rule nth_equalityI)
  show "length (le_bytes n (le_word bs :: 'a word)) = length bs" using assms by simp
next
  fix k assume "k < length (le_bytes n (le_word bs :: 'a word))"
  then have k: "k < n" by simp
  show "le_bytes n (le_word bs :: 'a word) ! k = bs ! k"
  proof (rule bit_word_eqI)
    fix i assume i: "i < LENGTH(8)"
    then show "bit (le_bytes n (le_word bs :: 'a word) ! k) i = bit (bs ! k) i"
      using k assms by (auto simp: nth_le_bytes bit_simps bit_le_word)
  qed
qed

section \<open>Memory\<close>

type_synonym mem = "usize \<Rightarrow> u8"

definition load64 :: "mem \<Rightarrow> usize \<Rightarrow> u64" where
  "load64 m a = le_word (map (\<lambda>k. m (a + of_nat k)) [0..<8])"

definition store64 :: "mem \<Rightarrow> usize \<Rightarrow> u64 \<Rightarrow> mem" where
  "store64 m a v = (\<lambda>x. if x - a < 8 then le_bytes 8 v ! unat (x - a) else m x)"

lemma store64_same:
  assumes "k < 8"
  shows "store64 m a v (a + of_nat k) = le_bytes 8 v ! k"
proof -
  have "unat (of_nat k :: usize) = k"
    using assms by (simp add: unat_of_nat)
  then show ?thesis
    using assms by (simp add: store64_def word_less_nat_alt)
qed

lemma store64_other: "\<not> x - a < 8 \<Longrightarrow> store64 m a v x = m x"
  by (simp add: store64_def)

lemma load64_store64_same [simp]: "load64 (store64 m a v) a = v"
proof -
  have "map (\<lambda>k. store64 m a v (a + of_nat k)) [0..<8] = map (\<lambda>k. le_bytes 8 v ! k) [0..<8]"
    by (rule map_cong) (auto simp: store64_same)
  also have "\<dots> = le_bytes 8 v"
    by (rule nth_equalityI) auto
  finally show ?thesis by (simp add: load64_def le_word_le_bytes)
qed

text \<open>Two aligned words at different addresses do not overlap.\<close>

definition aligned8 :: "usize \<Rightarrow> bool" where
  "aligned8 a \<longleftrightarrow> unat a mod 8 = 0"

lemma unat_add_mod8: "unat (x + y :: usize) mod 8 = (unat x + unat y) mod 8"
  by (simp add: unat_word_ariths mod_mod_cancel)

lemma mod8_add: "b mod 8 = 0 \<Longrightarrow> k < 8 \<Longrightarrow> (b + k) mod 8 = (k::nat)"
  by (metis add_0 mod_add_left_eq mod_less)

lemma aligned8_overlap:
  assumes "aligned8 a" "aligned8 b" "k < 8" "b + of_nat k - a < 8"
  shows "a = b"
proof -
  have k: "unat (of_nat k :: usize) = k" using assms(3) by (simp add: unat_of_nat)
  define d where "d = b + of_nat k - a"
  then have d: "b + of_nat k = a + d" "unat d < 8"
    using assms(4) by (simp_all add: word_less_nat_alt)
  then have "unat (b + of_nat k) mod 8 = unat (a + d) mod 8" by simp
  then have "(unat b + k) mod 8 = (unat a + unat d) mod 8"
    by (simp only: unat_add_mod8 k)
  then have "k = unat d"
    using assms(1-3) d(2) by (simp add: aligned8_def mod8_add)
  then have "d = of_nat k" by simp
  then show ?thesis using d(1) by simp
qed

lemma load64_store64_other:
  assumes "aligned8 a" "aligned8 b" "a \<noteq> b"
  shows "load64 (store64 m a v) b = load64 m b"
proof -
  have "map (\<lambda>k. store64 m a v (b + of_nat k)) [0..<8] = map (\<lambda>k. m (b + of_nat k)) [0..<8]"
  proof (rule map_cong [OF refl])
    fix k :: nat assume "k \<in> set [0..<8]"
    then have "k < 8" by simp
    then have "\<not> b + of_nat k - a < 8"
      using aligned8_overlap [OF assms(1,2)] assms(3) by blast
    then show "store64 m a v (b + of_nat k) = m (b + of_nat k)"
      by (rule store64_other)
  qed
  then show ?thesis by (simp only: load64_def)
qed

lemma load64_cong:
  "(\<And>k. k < 8 \<Longrightarrow> m (a + of_nat k) = m' (a + of_nat k)) \<Longrightarrow> load64 m a = load64 m' a"
  by (auto simp: load64_def intro!: arg_cong [where f = le_word])

lemma load64_zero: "(\<And>k. k < 8 \<Longrightarrow> m (a + of_nat k) = 0) \<Longrightarrow> load64 m a = 0"
  by (intro bit_word_eqI) (auto simp: load64_def bit_le_word)

section \<open>Byte ranges\<close>

text \<open>Reading \<open>n\<close> bytes from an address, and writing a list of bytes to one.\<close>

definition read_bytes :: "mem \<Rightarrow> usize \<Rightarrow> nat \<Rightarrow> u8 list" where
  "read_bytes m a n = map (\<lambda>k. m (a + of_nat k)) [0..<n]"

definition write_bytes :: "mem \<Rightarrow> usize \<Rightarrow> u8 list \<Rightarrow> mem" where
  "write_bytes m a bs = (\<lambda>x. if unat (x - a) < length bs then bs ! unat (x - a) else m x)"

lemma length_read_bytes [simp]: "length (read_bytes m a n) = n"
  by (simp add: read_bytes_def)

lemma nth_read_bytes [simp]: "k < n \<Longrightarrow> read_bytes m a n ! k = m (a + of_nat k)"
  by (simp add: read_bytes_def)

lemma write_bytes_other: "\<not> unat (x - a) < length bs \<Longrightarrow> write_bytes m a bs x = m x"
  by (simp add: write_bytes_def)

lemma write_bytes_Nil [simp]: "write_bytes m a [] = m"
  by (simp add: write_bytes_def)

lemma read_bytes_cong:
  "(\<And>k. k < n \<Longrightarrow> m (a + of_nat k) = m' (a + of_nat k)) \<Longrightarrow> read_bytes m a n = read_bytes m' a n"
  by (simp add: read_bytes_def)

lemma read_write_bytes:
  assumes "length bs \<le> n" "n \<le> 2 ^ 64"
  shows "read_bytes (write_bytes m a bs) a n = bs @ drop (length bs) (read_bytes m a n)"
proof (rule nth_equalityI)
  fix k assume "k < length (read_bytes (write_bytes m a bs) a n)"
  then have k: "k < n" "unat (of_nat k :: usize) = k"
    using assms(2) by (auto simp: unat_of_nat)
  then show "read_bytes (write_bytes m a bs) a n ! k = (bs @ drop (length bs) (read_bytes m a n)) ! k"
    using assms(1) by (auto simp: write_bytes_def nth_append)
qed (use assms in simp)

end
