(* ===== verification/Address.thy ===== *)
theory Address
  imports Memory
begin

text \<open>
  \<open>os/src/mm/address.rs\<close> and the constants of \<open>os/src/config.rs\<close> and
  \<open>os/src/boards/qemu.rs\<close> it depends on: Sv39 physical and virtual addresses, page numbers,
  the conversions between them, the three page-table indexes of a virtual page number, and
  ranges of page numbers. The four newtypes are all \<open>usize\<close> underneath and are kept as type
  synonyms; a \<open>From\<close> implementation that checks or truncates is a function of its own.
\<close>

section \<open>Constants\<close>

definition PAGE_SIZE :: usize where "PAGE_SIZE = 0x1000"
definition PAGE_SIZE_BITS :: nat where "PAGE_SIZE_BITS = 12"
definition USER_STACK_SIZE :: usize where "USER_STACK_SIZE = 0x2000"
definition KERNEL_STACK_SIZE :: usize where "KERNEL_STACK_SIZE = 0x2000"
definition KERNEL_HEAP_SIZE :: usize where "KERNEL_HEAP_SIZE = 0x200000"
definition TRAMPOLINE :: usize where "TRAMPOLINE = - 1 - PAGE_SIZE + 1"
definition TRAP_CONTEXT_BASE :: usize where "TRAP_CONTEXT_BASE = TRAMPOLINE - PAGE_SIZE"
definition MEMORY_END :: usize where "MEMORY_END = 0x88000000"

definition PA_WIDTH_SV39 :: nat where "PA_WIDTH_SV39 = 56"
definition VA_WIDTH_SV39 :: nat where "VA_WIDTH_SV39 = 39"
definition PPN_WIDTH_SV39 :: nat where "PPN_WIDTH_SV39 = PA_WIDTH_SV39 - PAGE_SIZE_BITS"
definition VPN_WIDTH_SV39 :: nat where "VPN_WIDTH_SV39 = VA_WIDTH_SV39 - PAGE_SIZE_BITS"

lemmas width_defs =
  PAGE_SIZE_BITS_def PA_WIDTH_SV39_def VA_WIDTH_SV39_def PPN_WIDTH_SV39_def VPN_WIDTH_SV39_def

section \<open>Addresses and page numbers\<close>

type_synonym PhysAddr = usize
type_synonym PhysPageNum = usize
type_synonym VirtAddr = usize
type_synonym VirtPageNum = usize

text \<open>\<open>v << bits >> bits\<close>, the truncation all four \<open>From<usize>\<close> conversions use.\<close>

definition shl_shr :: "nat \<Rightarrow> usize \<Rightarrow> usize" where
  "shl_shr bits v = drop_bit bits (push_bit bits v)"

definition PhysAddr_from :: "usize \<Rightarrow> PhysAddr" where
  "PhysAddr_from v = shl_shr (64 - PA_WIDTH_SV39) v"

definition PhysPageNum_from :: "usize \<Rightarrow> PhysPageNum" where
  "PhysPageNum_from v = shl_shr (64 - PPN_WIDTH_SV39) v"

definition VirtAddr_from :: "usize \<Rightarrow> VirtAddr" where
  "VirtAddr_from v = shl_shr (64 - VA_WIDTH_SV39) v"

definition VirtPageNum_from :: "usize \<Rightarrow> VirtPageNum" where
  "VirtPageNum_from v = shl_shr (64 - VPN_WIDTH_SV39) v"

definition usize_from_VirtAddr :: "VirtAddr \<Rightarrow> usize" where
  "usize_from_VirtAddr v =
     (if drop_bit (VA_WIDTH_SV39 - 1) v > 0
      then v OR push_bit (VA_WIDTH_SV39 - 1) (NOT 0)
      else v)"

text \<open>\<open>PhysAddr\<close> and \<open>VirtAddr\<close> have the same four methods.\<close>

definition page_offset :: "usize \<Rightarrow> usize" where
  "page_offset a = shl_shr (64 - PAGE_SIZE_BITS) a"

definition addr_floor :: "usize \<Rightarrow> usize" where
  "addr_floor a = drop_bit PAGE_SIZE_BITS a"

definition addr_ceil :: "usize \<Rightarrow> usize" where
  "addr_ceil a = drop_bit PAGE_SIZE_BITS (a + PAGE_SIZE - 1)"

definition addr_aligned :: "usize \<Rightarrow> bool" where
  "addr_aligned a \<longleftrightarrow> page_offset a = 0"

definition PhysPageNum_from_addr :: "PhysAddr \<Rightarrow> PhysPageNum result" where
  "PhysPageNum_from_addr v = rbind (rassert (page_offset v = 0)) (\<lambda>_. Inr (addr_floor v))"

definition PhysAddr_from_ppn :: "PhysPageNum \<Rightarrow> PhysAddr" where
  "PhysAddr_from_ppn v = push_bit PAGE_SIZE_BITS v"

definition VirtPageNum_from_addr :: "VirtAddr \<Rightarrow> VirtPageNum result" where
  "VirtPageNum_from_addr v = rbind (rassert (page_offset v = 0)) (\<lambda>_. Inr (addr_floor v))"

definition VirtAddr_from_vpn :: "VirtPageNum \<Rightarrow> VirtAddr" where
  "VirtAddr_from_vpn v = push_bit PAGE_SIZE_BITS v"

text \<open>The loop of \<open>VirtPageNum::indexes\<close>: \<open>i\<close> runs from 2 down to 0.\<close>

fun indexes_loop :: "nat \<Rightarrow> usize \<Rightarrow> usize list \<Rightarrow> usize list" where
  "indexes_loop 0 vpn res = res"
| "indexes_loop (Suc i) vpn res = indexes_loop i (drop_bit 9 vpn) (res[i := vpn AND 511])"

definition indexes :: "VirtPageNum \<Rightarrow> usize list" where
  "indexes vpn = indexes_loop 3 vpn [0, 0, 0]"

section \<open>Ranges of page numbers\<close>

record SimpleRange =
  sr_l :: usize
  sr_r :: usize

definition SimpleRange_new :: "usize \<Rightarrow> usize \<Rightarrow> SimpleRange result" where
  "SimpleRange_new start stop =
     rbind (rassert (start \<le> stop)) (\<lambda>_. Inr \<lparr>sr_l = start, sr_r = stop\<rparr>)"

text \<open>
  \<open>SimpleRangeIterator::next\<close> stops only when \<open>current == end\<close>, so the items of a
  \<open>for\<close> loop over the range are the page numbers from \<open>l\<close> up to \<open>r\<close>, with the
  wrap-around of \<open>step\<close>.
\<close>

definition range_next :: "usize \<Rightarrow> usize \<Rightarrow> (usize \<times> usize) option" where
  "range_next current stop = (if current = stop then None else Some (current, current + 1))"

function range_items :: "usize \<Rightarrow> usize \<Rightarrow> usize list" where
  "range_items current stop =
     (case range_next current stop of
        None \<Rightarrow> []
      | Some (cur, current') \<Rightarrow> cur # range_items current' stop)"
  by pat_completeness auto
termination
proof (relation "measure (\<lambda>(c, e). unat (e - c))")
  fix current stop :: usize and p cur current'
  assume "range_next current stop = Some p" "(cur, current') = p"
  then have ne: "stop - current \<noteq> 0" and c: "current' = current + 1"
    by (auto simp: range_next_def split: if_splits)
  have "stop - current' = (stop - current) - 1"
    by (simp add: c)
  then show "((current', stop), (current, stop)) \<in> measure (\<lambda>(c, e). unat (e - c))"
    using unat_minus_one_less [OF ne] by (simp only: in_measure prod.case)
qed simp

declare range_items.simps [simp del]

definition items :: "SimpleRange \<Rightarrow> usize list" where
  "items r = range_items (sr_l r) (sr_r r)"

section \<open>The arithmetic behind the shifts\<close>

lemma shl_shr_take_bit: "n \<le> 64 \<Longrightarrow> shl_shr n v = take_bit (64 - n) v"
  by (rule bit_word_eqI) (auto simp: shl_shr_def bit_simps)

lemma unat_shl_shr: "n \<le> 64 \<Longrightarrow> unat (shl_shr n v) = unat v mod 2 ^ (64 - n)"
  by (simp only: shl_shr_take_bit unat_take_bit)

lemma unat_page_offset: "unat (page_offset a) = unat a mod 4096"
  by (simp add: page_offset_def unat_shl_shr width_defs)

lemma unat_addr_floor: "unat (addr_floor a) = unat a div 4096"
  by (simp add: addr_floor_def unat_drop_bit width_defs)

lemma unat_addr_ceil:
  assumes "unat a + 4095 < 2 ^ 64"
  shows "unat (addr_ceil a) = (unat a + 4095) div 4096"
proof -
  have "a + PAGE_SIZE - 1 = a + 4095" by (simp add: PAGE_SIZE_def)
  moreover have "unat (a + 4095) = unat a + 4095"
    using assms by (simp add: unat_word_ariths)
  ultimately show ?thesis
    by (simp only: addr_ceil_def unat_drop_bit width_defs) simp
qed

lemma unat_push_12:
  assumes "unat (p::usize) < 2 ^ 52"
  shows "unat (push_bit 12 p) = unat p * 4096"
  using assms by (simp add: push_bit_eq_mult unat_word_ariths)

lemma unat_PhysAddr_from_ppn: "unat p < 2 ^ 52 \<Longrightarrow> unat (PhysAddr_from_ppn p) = unat p * 4096"
  by (simp add: PhysAddr_from_ppn_def unat_push_12 width_defs)

lemma unat_VirtAddr_from_vpn: "unat p < 2 ^ 52 \<Longrightarrow> unat (VirtAddr_from_vpn p) = unat p * 4096"
  by (simp add: VirtAddr_from_vpn_def unat_push_12 width_defs)

lemma addr_floor_VirtAddr_from_vpn: "unat p < 2 ^ 52 \<Longrightarrow> addr_floor (VirtAddr_from_vpn p) = p"
  by (simp add: word_unat_eq_iff unat_addr_floor unat_VirtAddr_from_vpn)

lemma page_offset_VirtAddr_from_vpn: "unat p < 2 ^ 52 \<Longrightarrow> page_offset (VirtAddr_from_vpn p) = 0"
  by (simp add: word_unat_eq_iff unat_page_offset unat_VirtAddr_from_vpn)

section \<open>Indexes\<close>

lemma indexes_eq: "indexes v = [drop_bit 18 v AND 511, drop_bit 9 v AND 511, v AND 511]"
  by (simp add: indexes_def numeral_3_eq_3)

lemma unat_and_511: "unat (w AND 511 :: usize) = unat w mod 512"
proof -
  have "(511::usize) = mask 9" by (simp add: mask_eq_exp_minus_1)
  then show ?thesis by (simp only: unat_and_mask) simp
qed

lemma unat_indexes:
  "map unat (indexes v) =
     [unat v div 2 ^ 18 mod 512, unat v div 512 mod 512, unat v mod 512]"
  by (simp add: indexes_eq unat_and_511 unat_drop_bit)

lemma length_indexes [simp]: "length (indexes v) = 3"
  by (simp add: indexes_eq)

lemma indexes_less: "i \<in> set (indexes v) \<Longrightarrow> unat i < 512"
  by (auto simp: indexes_eq unat_and_511)

lemma indexes_inject:
  assumes "unat v < 2 ^ 27" "unat w < 2 ^ 27"
  shows "indexes v = indexes w \<longleftrightarrow> v = w"
proof
  assume "indexes v = indexes w"
  then have "unat v div 2 ^ 18 mod 512 = unat w div 2 ^ 18 mod 512"
    "unat v div 512 mod 512 = unat w div 512 mod 512" "unat v mod 512 = unat w mod 512"
    using unat_indexes [of v] unat_indexes [of w] by auto
  then have "unat v div 512 div 512 = unat w div 512 div 512"
    "unat v div 512 mod 512 = unat w div 512 mod 512" "unat v mod 512 = unat w mod 512"
    using assms by (simp_all add: div_mult2_eq [symmetric])
  then have "unat v = unat w" by (metis div_mult_mod_eq)
  then show "v = w" by (simp add: word_unat_eq_iff)
qed simp

section \<open>Ranges\<close>

lemma range_items_eq: "l \<le> r \<Longrightarrow> range_items l r = map of_nat [unat l..<unat r]"
proof (induction l r rule: range_items.induct)
  case (1 l r)
  show ?case
  proof (cases "l = r")
    case True
    then show ?thesis by (simp add: range_items.simps [of r r] range_next_def)
  next
    case False
    then have lt: "unat l < unat r"
      using "1.prems" by (simp add: word_le_nat_alt word_unat_eq_iff)
    then have s: "unat (l + 1) = Suc (unat l)"
      using unat_less_2p_64 [of r] by (simp add: unat_word_ariths)
    have "range_items (l + 1) r = map of_nat [Suc (unat l)..<unat r]"
      using "1.IH" [of "(l, l + 1)"] False lt s by (simp add: range_next_def word_le_nat_alt)
    moreover have "[unat l..<unat r] = unat l # [Suc (unat l)..<unat r]"
      using lt by (rule upt_conv_Cons)
    ultimately show ?thesis
      using False by (simp add: range_items.simps [of l r] range_next_def)
  qed
qed

lemma set_range_items: "l \<le> r \<Longrightarrow> set (range_items l r) = {v. l \<le> v \<and> v < r}"
proof -
  assume le: "l \<le> r"
  have "v \<in> of_nat ` {unat l..<unat r} \<longleftrightarrow> l \<le> v \<and> v < r" for v :: usize
  proof
    assume "v \<in> of_nat ` {unat l..<unat r}"
    then obtain n where "v = of_nat n" "unat l \<le> n" "n < unat r" by auto
    moreover from this have "unat (of_nat n :: usize) = n"
      using unat_less_2p_64 [of r] by (simp add: unat_of_nat)
    ultimately show "l \<le> v \<and> v < r" by (simp add: word_le_nat_alt word_less_nat_alt)
  next
    assume "l \<le> v \<and> v < r"
    then have "v = of_nat (unat v)" "unat v \<in> {unat l..<unat r}"
      by (auto simp: word_le_nat_alt word_less_nat_alt)
    then show "v \<in> of_nat ` {unat l..<unat r}" by blast
  qed
  then show ?thesis using le by (auto simp: range_items_eq)
qed

lemma distinct_range_items: "l \<le> r \<Longrightarrow> distinct (range_items l r)"
proof -
  assume le: "l \<le> r"
  have "inj_on (of_nat :: nat \<Rightarrow> usize) {unat l..<unat r}"
  proof (rule inj_onI)
    fix x y assume xy: "x \<in> {unat l..<unat r}" "y \<in> {unat l..<unat r}" "(of_nat x :: usize) = of_nat y"
    then have "x < 18446744073709551616" "y < 18446744073709551616"
      using unat_less_2p_64 [of r] by simp_all
    then show "x = y" using xy(3) by (metis unat_of_nat_64)
  qed
  then show ?thesis using le by (simp add: range_items_eq distinct_map)
qed

end
