(* ===== verification/Frame_Allocator.thy ===== *)
theory Frame_Allocator
  imports Address Allocator_Spec
begin

text \<open>
  \<open>os/src/mm/frame_allocator.rs\<close>: the allocator of physical page frames. The state
  \<open>phys\<close> pairs physical memory with the global \<open>FRAME_ALLOCATOR\<close>, because creating a
  \<open>FrameTracker\<close> clears the frame it tracks. A tracker is represented by the page number
  it holds. The allocator meets the identifier-allocator contract on the frames between the
  end of the kernel image and the end of memory.
\<close>

record StackFrameAllocator =
  fa_current :: PhysPageNum
  fa_end :: PhysPageNum
  fa_recycled :: "PhysPageNum list"

definition fa_new :: StackFrameAllocator where
  "fa_new = \<lparr>fa_current = PhysPageNum_from 0, fa_end = PhysPageNum_from 0, fa_recycled = []\<rparr>"

definition fa_alloc :: "StackFrameAllocator \<Rightarrow> (PhysPageNum \<times> StackFrameAllocator) option" where
  "fa_alloc a =
     (case vec_pop (fa_recycled a) of
        Some (ppn, rest) \<Rightarrow> Some (ppn, a\<lparr>fa_recycled := rest\<rparr>)
      | None \<Rightarrow>
          if fa_current a = fa_end a then None
          else
            let a' = a\<lparr>fa_current := fa_current a + 1\<rparr>
            in Some (PhysPageNum_from (fa_current a' - 1), a'))"

definition fa_dealloc :: "PhysPageNum \<Rightarrow> StackFrameAllocator \<Rightarrow> StackFrameAllocator result" where
  "fa_dealloc ppn a =
     (if fa_current a \<le> ppn \<or> find (\<lambda>v. v = ppn) (fa_recycled a) \<noteq> None
      then Inl ExplicitPanic
      else Inr (a\<lparr>fa_recycled := fa_recycled a @ [ppn]\<rparr>))"

definition fa_init :: "PhysPageNum \<Rightarrow> PhysPageNum \<Rightarrow> StackFrameAllocator \<Rightarrow> StackFrameAllocator" where
  "fa_init l r a = a\<lparr>fa_current := l, fa_end := r\<rparr>"

section \<open>The global allocator and physical memory\<close>

record phys =
  pm_mem :: mem
  pm_frames :: StackFrameAllocator

text \<open>
  \<open>PhysPageNum::get_bytes_array\<close>: the 4096 bytes of a frame; \<open>in_page\<close> is the set of their
  addresses and \<open>copy_to_page\<close> is \<open>copy_from_slice\<close> to the front of it.
\<close>

definition get_bytes_array :: "PhysPageNum \<Rightarrow> mem \<Rightarrow> u8 list" where
  "get_bytes_array ppn m = read_bytes m (PhysAddr_from_ppn ppn) (unat PAGE_SIZE)"

definition copy_to_page :: "PhysPageNum \<Rightarrow> u8 list \<Rightarrow> mem \<Rightarrow> mem" where
  "copy_to_page ppn bs m = write_bytes m (PhysAddr_from_ppn ppn) bs"

definition in_page :: "PhysPageNum \<Rightarrow> usize \<Rightarrow> bool" where
  "in_page ppn a \<longleftrightarrow> a - PhysAddr_from_ppn ppn < PAGE_SIZE"

definition fill_page :: "PhysPageNum \<Rightarrow> u8 \<Rightarrow> mem \<Rightarrow> mem" where
  "fill_page ppn b m = (\<lambda>a. if in_page ppn a then b else m a)"

text \<open>\<open>FrameTracker::new\<close>; the tracker itself is the page number.\<close>

definition FrameTracker_new :: "PhysPageNum \<Rightarrow> mem \<Rightarrow> mem" where
  "FrameTracker_new ppn m = fill_page ppn 0 m"

text \<open>\<open>ekernel\<close> is a linker symbol: the end of the kernel image.\<close>

definition init_frame_allocator :: "usize \<Rightarrow> phys \<Rightarrow> phys" where
  "init_frame_allocator ekernel s =
     s\<lparr>pm_frames := fa_init (addr_ceil (PhysAddr_from ekernel))
                             (addr_floor (PhysAddr_from MEMORY_END)) (pm_frames s)\<rparr>"

definition frame_alloc :: "phys \<Rightarrow> (PhysPageNum \<times> phys) option" where
  "frame_alloc s =
     map_option (\<lambda>(ppn, fa).
        (ppn, s\<lparr>pm_frames := fa, pm_mem := FrameTracker_new ppn (pm_mem s)\<rparr>))
       (fa_alloc (pm_frames s))"

text \<open>\<open>frame_dealloc\<close>, which is also \<open>FrameTracker::drop\<close>.\<close>

definition frame_dealloc :: "PhysPageNum \<Rightarrow> phys \<Rightarrow> phys result" where
  "frame_dealloc ppn s =
     rbind (fa_dealloc ppn (pm_frames s)) (\<lambda>fa. Inr (s\<lparr>pm_frames := fa\<rparr>))"

section \<open>Pages\<close>

text \<open>Page numbers of the 44-bit physical page space.\<close>

abbreviation ppn_ok :: "PhysPageNum \<Rightarrow> bool" where
  "ppn_ok p \<equiv> unat p < 0x100000000000"

lemma in_page_floor:
  assumes "unat p < 2 ^ 52"
  shows "in_page p a \<longleftrightarrow> addr_floor a = p"
proof -
  let ?P = "unat p * 4096"
  have P: "unat (PhysAddr_from_ppn p) = ?P"
    using assms by (rule unat_PhysAddr_from_ppn)
  have bound: "?P + 4096 \<le> 18446744073709551616"
    using assms by simp
  have "in_page p a \<longleftrightarrow> unat (a - PhysAddr_from_ppn p) < 4096"
    by (simp add: in_page_def PAGE_SIZE_def word_less_nat_alt)
  also have "\<dots> \<longleftrightarrow> unat a div 4096 = unat p"
  proof (cases "?P \<le> unat a")
    case True
    then have "unat (a - PhysAddr_from_ppn p) = unat a - ?P"
      using P by (simp add: unat_sub_if')
    then show ?thesis using True by auto
  next
    case False
    then have "unat (a - PhysAddr_from_ppn p) = unat a + 18446744073709551616 - ?P"
      using P by (simp add: unat_sub_if')
    moreover have "unat a div 4096 < unat p"
      using False by (simp add: div_less_iff_less_mult)
    ultimately show ?thesis using bound by auto
  qed
  finally show ?thesis by (simp add: word_unat_eq_iff unat_addr_floor)
qed

lemma in_page_disjoint: "ppn_ok p \<Longrightarrow> ppn_ok q \<Longrightarrow> in_page p a \<Longrightarrow> in_page q a \<Longrightarrow> p = q"
  by (simp add: in_page_floor)

lemma fill_page_other: "\<not> in_page p a \<Longrightarrow> fill_page p b m a = m a"
  by (simp add: fill_page_def)

lemma fill_page_same: "in_page p a \<Longrightarrow> fill_page p b m a = b"
  by (simp add: fill_page_def)

lemma in_page_offset: "k < 4096 \<Longrightarrow> in_page p (PhysAddr_from_ppn p + of_nat k)"
  by (simp add: in_page_def PAGE_SIZE_def word_less_nat_alt unat_of_nat)

lemma length_get_bytes_array [simp]: "length (get_bytes_array p m) = 4096"
  by (simp add: get_bytes_array_def PAGE_SIZE_def)

text \<open>The bytes of a frame determine, and are determined by, the memory in its page.\<close>

lemma get_bytes_array_eq_iff:
  "get_bytes_array p m = get_bytes_array p m' \<longleftrightarrow> (\<forall>a. in_page p a \<longrightarrow> m a = m' a)"
proof
  assume eq: "get_bytes_array p m = get_bytes_array p m'"
  show "\<forall>a. in_page p a \<longrightarrow> m a = m' a"
  proof (intro allI impI)
    fix a assume "in_page p a"
    then have k: "unat (a - PhysAddr_from_ppn p) < 4096"
      by (simp add: in_page_def PAGE_SIZE_def word_less_nat_alt)
    moreover have "get_bytes_array p m ! unat (a - PhysAddr_from_ppn p)
        = get_bytes_array p m' ! unat (a - PhysAddr_from_ppn p)"
      using eq by simp
    ultimately show "m a = m' a" by (simp add: get_bytes_array_def PAGE_SIZE_def)
  qed
next
  assume "\<forall>a. in_page p a \<longrightarrow> m a = m' a"
  then show "get_bytes_array p m = get_bytes_array p m'"
    unfolding get_bytes_array_def
    by (intro read_bytes_cong) (simp add: PAGE_SIZE_def in_page_offset)
qed

lemma get_bytes_array_fill_same: "get_bytes_array p (fill_page p b m) = replicate 4096 b"
  by (rule nth_equalityI)
    (simp_all add: get_bytes_array_def PAGE_SIZE_def fill_page_same in_page_offset)

lemma get_bytes_array_fill_other:
  "ppn_ok p \<Longrightarrow> ppn_ok q \<Longrightarrow> q \<noteq> p \<Longrightarrow> get_bytes_array q (fill_page p b m) = get_bytes_array q m"
  by (subst get_bytes_array_eq_iff) (auto intro: fill_page_other dest: in_page_disjoint)

lemma copy_to_page_outside:
  assumes "length bs \<le> 4096" "\<not> in_page p a"
  shows "copy_to_page p bs m a = m a"
  using assms
  by (simp add: copy_to_page_def write_bytes_def in_page_def PAGE_SIZE_def word_less_nat_alt)

lemma get_bytes_array_copy_same:
  "length bs \<le> 4096 \<Longrightarrow>
     get_bytes_array p (copy_to_page p bs m) = bs @ drop (length bs) (get_bytes_array p m)"
  by (simp add: get_bytes_array_def copy_to_page_def PAGE_SIZE_def read_write_bytes)

lemma get_bytes_array_copy_other:
  "length bs \<le> 4096 \<Longrightarrow> ppn_ok p \<Longrightarrow> ppn_ok q \<Longrightarrow> q \<noteq> p \<Longrightarrow>
     get_bytes_array q (copy_to_page p bs m) = get_bytes_array q m"
  by (subst get_bytes_array_eq_iff) (auto intro: copy_to_page_outside dest: in_page_disjoint)

section \<open>Invariant and live frames\<close>

text \<open>
  \<open>l\<close> is the first frame the allocator was initialised with; it is not stored in the state,
  so it is a parameter of the invariant.
\<close>

definition fa_inv :: "PhysPageNum \<Rightarrow> StackFrameAllocator \<Rightarrow> bool" where
  "fa_inv l a \<longleftrightarrow> l \<le> fa_current a \<and> fa_current a \<le> fa_end a \<and> ppn_ok (fa_end a)
     \<and> distinct (fa_recycled a) \<and> (\<forall>p \<in> set (fa_recycled a). l \<le> p \<and> p < fa_current a)"

definition fa_live :: "PhysPageNum \<Rightarrow> StackFrameAllocator \<Rightarrow> PhysPageNum set" where
  "fa_live l a = {p. l \<le> p \<and> p < fa_current a} - set (fa_recycled a)"

lemma PhysPageNum_from_id: "ppn_ok p \<Longrightarrow> PhysPageNum_from p = p"
  by (simp add: word_unat_eq_iff PhysPageNum_from_def unat_shl_shr width_defs)

lemma fa_live_ok: "fa_inv l a \<Longrightarrow> p \<in> fa_live l a \<Longrightarrow> ppn_ok p \<and> l \<le> p \<and> p < fa_end a"
  by (auto simp: fa_inv_def fa_live_def word_less_nat_alt word_le_nat_alt)

lemma fa_alloc_recycled:
  assumes "fa_inv l a" "fa_recycled a = xs @ [x]"
  shows "fa_alloc a = Some (x, a\<lparr>fa_recycled := xs\<rparr>)" "fa_inv l (a\<lparr>fa_recycled := xs\<rparr>)"
    "x \<notin> fa_live l a" "fa_live l (a\<lparr>fa_recycled := xs\<rparr>) = insert x (fa_live l a)"
  using assms by (auto simp: fa_alloc_def fa_inv_def fa_live_def)

lemma fa_alloc_current:
  assumes inv: "fa_inv l a" and none: "fa_recycled a = []" and ne: "fa_current a \<noteq> fa_end a"
  defines "a' \<equiv> a\<lparr>fa_current := fa_current a + 1\<rparr>"
  shows "fa_alloc a = Some (fa_current a, a')" "fa_inv l a'" "fa_current a \<notin> fa_live l a"
    "fa_live l a' = insert (fa_current a) (fa_live l a)"
proof -
  have lt: "unat (fa_current a) < unat (fa_end a)" and ok: "ppn_ok (fa_end a)"
    using inv ne by (auto simp: fa_inv_def word_le_nat_alt word_unat_eq_iff)
  then have suc: "unat (fa_current a + 1) = unat (fa_current a) + 1"
    by (simp add: unat_word_ariths)
  have less: "x < fa_current a + 1 \<longleftrightarrow> x < fa_current a \<or> x = fa_current a" for x
    using suc by (auto simp: word_less_nat_alt word_unat_eq_iff)
  show "fa_alloc a = Some (fa_current a, a')"
    using none ne lt ok PhysPageNum_from_id [of "fa_current a"]
    by (simp add: fa_alloc_def a'_def)
  show "fa_inv l a'"
    using inv none lt suc by (auto simp: fa_inv_def a'_def word_le_nat_alt)
  show "fa_current a \<notin> fa_live l a"
    by (simp add: fa_live_def)
  show "fa_live l a' = insert (fa_current a) (fa_live l a)"
    using inv none less by (auto simp: fa_live_def fa_inv_def a'_def)
qed

lemma fa_alloc_None: "fa_alloc a = None \<longleftrightarrow> fa_recycled a = [] \<and> fa_current a = fa_end a"
  by (auto simp: fa_alloc_def Let_def split: option.splits)

lemma fa_alloc_cases:
  assumes "fa_inv l a" "fa_alloc a = Some (p, a')"
  shows "fa_inv l a' \<and> p \<notin> fa_live l a \<and> fa_live l a' = insert p (fa_live l a)
    \<and> fa_end a' = fa_end a"
proof (cases "fa_recycled a" rule: rev_cases)
  case Nil
  then have "fa_current a \<noteq> fa_end a"
    using assms(2) fa_alloc_None [of a] by auto
  then show ?thesis using fa_alloc_current [OF assms(1) Nil] assms(2) by auto
next
  case (snoc xs x)
  then show ?thesis using fa_alloc_recycled [OF assms(1) snoc] assms(2) by auto
qed

lemma fa_dealloc_live:
  assumes "fa_inv l a" "p \<in> fa_live l a"
  shows "\<exists>a'. fa_dealloc p a = Inr a' \<and> fa_inv l a' \<and> fa_live l a' = fa_live l a - {p}"
  using assms
  by (auto simp: fa_dealloc_def fa_inv_def fa_live_def find_None_iff not_le [symmetric])

interpretation fa: id_allocator "fa_inv l" "fa_live l" "\<lambda>_ _. True" fa_alloc fa_dealloc for l
proof unfold_locales
  fix a n i a'
  assume "fa_inv l a" "fa_alloc a = Some (i, a')"
  then show "fa_inv l a' \<and> i \<notin> fa_live l a \<and> fa_live l a' = insert i (fa_live l a) \<and> True"
    using fa_alloc_cases by blast
qed (use fa_dealloc_live in auto)

text \<open>The same facts for \<open>frame_alloc\<close> and \<open>frame_dealloc\<close> on the combined state.\<close>

abbreviation phys_inv :: "PhysPageNum \<Rightarrow> phys \<Rightarrow> bool" where
  "phys_inv l s \<equiv> fa_inv l (pm_frames s)"

abbreviation frames_live :: "PhysPageNum \<Rightarrow> phys \<Rightarrow> PhysPageNum set" where
  "frames_live l s \<equiv> fa_live l (pm_frames s)"

lemma frame_alloc_SomeD:
  assumes "phys_inv l s" "frame_alloc s = Some (p, s')"
  shows "phys_inv l s'" "p \<notin> frames_live l s" "frames_live l s' = insert p (frames_live l s)"
    "ppn_ok p" "pm_mem s' = fill_page p 0 (pm_mem s)"
proof -
  obtain fa where fa: "fa_alloc (pm_frames s) = Some (p, fa)"
    and s': "s' = s\<lparr>pm_frames := fa, pm_mem := FrameTracker_new p (pm_mem s)\<rparr>"
    using assms(2) by (auto simp: frame_alloc_def)
  note * = fa_alloc_cases [OF assms(1) fa]
  then show "phys_inv l s'" "p \<notin> frames_live l s" "frames_live l s' = insert p (frames_live l s)"
    "ppn_ok p" "pm_mem s' = fill_page p 0 (pm_mem s)"
    using fa_live_ok [of l fa p] by (auto simp: s' FrameTracker_new_def)
qed

lemma frame_alloc_None_iff:
  assumes "phys_inv l s"
  shows "frame_alloc s = None \<longleftrightarrow> frames_live l s = {p. l \<le> p \<and> p < fa_end (pm_frames s)}"
proof -
  have cur: "fa_current (pm_frames s) = fa_end (pm_frames s)"
    if "frames_live l s = {p. l \<le> p \<and> p < fa_end (pm_frames s)}"
  proof (rule ccontr)
    assume "fa_current (pm_frames s) \<noteq> fa_end (pm_frames s)"
    then have "fa_current (pm_frames s) \<in> {p. l \<le> p \<and> p < fa_end (pm_frames s)}"
      using assms by (auto simp: fa_inv_def)
    then show False using that by (auto simp: fa_live_def)
  qed
  have "frame_alloc s = None \<longleftrightarrow> fa_recycled (pm_frames s) = []
      \<and> fa_current (pm_frames s) = fa_end (pm_frames s)"
    by (simp add: frame_alloc_def fa_alloc_None)
  also have "\<dots> \<longleftrightarrow> frames_live l s = {p. l \<le> p \<and> p < fa_end (pm_frames s)}"
  proof
    assume "fa_recycled (pm_frames s) = [] \<and> fa_current (pm_frames s) = fa_end (pm_frames s)"
    then show "frames_live l s = {p. l \<le> p \<and> p < fa_end (pm_frames s)}"
      by (simp add: fa_live_def)
  next
    assume live: "frames_live l s = {p. l \<le> p \<and> p < fa_end (pm_frames s)}"
    have "x \<notin> set (fa_recycled (pm_frames s))" for x
    proof
      assume x: "x \<in> set (fa_recycled (pm_frames s))"
      then have "x \<in> {p. l \<le> p \<and> p < fa_end (pm_frames s)}"
        using assms by (fastforce simp: fa_inv_def intro: less_le_trans)
      then have "x \<in> frames_live l s" using live by simp
      then show False using x by (simp add: fa_live_def)
    qed
    then show "fa_recycled (pm_frames s) = [] \<and> fa_current (pm_frames s) = fa_end (pm_frames s)"
      using cur [OF live] by (metis last_in_set)
  qed
  finally show ?thesis .
qed

text \<open>The number of frames that can still be handed out.\<close>

definition fa_avail :: "StackFrameAllocator \<Rightarrow> nat" where
  "fa_avail a = length (fa_recycled a) + (unat (fa_end a) - unat (fa_current a))"

lemma frame_alloc_avail:
  assumes "phys_inv l s" "0 < fa_avail (pm_frames s)"
  shows "\<exists>p s'. frame_alloc s = Some (p, s') \<and> fa_avail (pm_frames s') = fa_avail (pm_frames s) - 1"
proof (cases "fa_recycled (pm_frames s)" rule: rev_cases)
  case Nil
  then have ne: "fa_current (pm_frames s) \<noteq> fa_end (pm_frames s)"
    using assms(2) by (auto simp: fa_avail_def)
  note * = fa_alloc_current [OF assms(1) Nil ne]
  have "unat (fa_current (pm_frames s)) < unat (fa_end (pm_frames s))"
    using assms(2) Nil by (simp add: fa_avail_def)
  then have "unat (fa_current (pm_frames s) + 1) = unat (fa_current (pm_frames s)) + 1"
    using unat_less_2p_64 [of "fa_end (pm_frames s)"] by (simp add: unat_word_ariths)
  then show ?thesis using *(1) Nil by (simp add: frame_alloc_def fa_avail_def)
next
  case (snoc xs x)
  then show ?thesis
    using fa_alloc_recycled(1) [OF assms(1) snoc] by (simp add: frame_alloc_def fa_avail_def)
qed

lemma frame_alloc_avail_eq:
  assumes inv: "phys_inv l s" and f: "frame_alloc s = Some (p, s')"
  shows "fa_avail (pm_frames s) = fa_avail (pm_frames s') + 1"
proof -
  have "0 < fa_avail (pm_frames s)"
  proof (rule ccontr)
    assume "\<not> 0 < fa_avail (pm_frames s)"
    then have "fa_recycled (pm_frames s) = []" "fa_current (pm_frames s) = fa_end (pm_frames s)"
      using inv by (auto simp: fa_avail_def fa_inv_def word_le_nat_alt word_unat_eq_iff)
    then show False using f fa_alloc_None [of "pm_frames s"] by (simp add: frame_alloc_def)
  qed
  then show ?thesis using frame_alloc_avail [OF inv] f by auto
qed

interpretation frames: id_allocator "phys_inv l" "frames_live l" "\<lambda>_ _. True" frame_alloc frame_dealloc
  for l
proof unfold_locales
  fix s n p s'
  assume "phys_inv l s" "frame_alloc s = Some (p, s')"
  then show "phys_inv l s' \<and> p \<notin> frames_live l s \<and> frames_live l s' = insert p (frames_live l s) \<and> True"
    using frame_alloc_SomeD by blast
next
  fix s p
  assume "phys_inv l s" "p \<in> frames_live l s"
  then show "\<exists>s'. frame_dealloc p s = Inr s' \<and> phys_inv l s' \<and> frames_live l s' = frames_live l s - {p}"
    using fa_dealloc_live [of l "pm_frames s" p] by (auto simp: frame_dealloc_def)
qed simp_all

text \<open>The state after \<open>init_frame_allocator\<close>.\<close>

abbreviation first_frame :: "usize \<Rightarrow> PhysPageNum" where
  "first_frame ekernel \<equiv> addr_ceil (PhysAddr_from ekernel)"

lemma PhysAddr_from_small: "unat a < 2 ^ 56 \<Longrightarrow> PhysAddr_from a = a"
  by (simp add: word_unat_eq_iff PhysAddr_from_def unat_shl_shr width_defs)

lemma MEMORY_END_floor: "addr_floor (PhysAddr_from MEMORY_END) = 0x88000"
proof -
  have "PhysAddr_from MEMORY_END = MEMORY_END"
    by (rule PhysAddr_from_small) (simp add: MEMORY_END_def)
  then show ?thesis by (simp add: word_unat_eq_iff unat_addr_floor MEMORY_END_def)
qed

lemma init_frame_allocator_inv:
  assumes "ekernel \<le> MEMORY_END" "pm_frames s = fa_new"
  shows "phys_inv (first_frame ekernel) (init_frame_allocator ekernel s)"
    "frames_live (first_frame ekernel) (init_frame_allocator ekernel s) = {}"
proof -
  have k: "unat ekernel \<le> 0x88000000" using assms(1) by (simp add: MEMORY_END_def word_le_nat_alt)
  have small: "PhysAddr_from ekernel = ekernel" by (rule PhysAddr_from_small) (use k in simp)
  have "unat ekernel + 4095 < 2 ^ 64" using k by simp
  then have "unat (first_frame ekernel) = (unat ekernel + 4095) div 4096"
    unfolding small by (rule unat_addr_ceil)
  then have "first_frame ekernel \<le> 0x88000" using k by (simp add: word_le_nat_alt)
  then show "phys_inv (first_frame ekernel) (init_frame_allocator ekernel s)"
    using assms(2) MEMORY_END_floor
    by (simp add: init_frame_allocator_def fa_init_def fa_inv_def fa_new_def)
  show "frames_live (first_frame ekernel) (init_frame_allocator ekernel s) = {}"
    by (auto simp: init_frame_allocator_def fa_init_def fa_live_def)
qed

section \<open>Properties\<close>

text \<open>
  C9. Frames are never shared: from the state \<open>init_frame_allocator\<close> leaves, any sequence of
  \<open>frame_alloc\<close> calls and \<open>FrameTracker\<close> drops runs without a panic, the trackers alive at
  the end hold pairwise different frames, and all of them lie between the end of the kernel image
  and the end of memory.
\<close>

theorem frame_trackers_distinct:
  assumes "ekernel \<le> MEMORY_END" "pm_frames s = fa_new"
  shows "\<exists>s' held. run_handles frame_alloc frame_dealloc cs (init_frame_allocator ekernel s) []
      = Inr (s', held)
    \<and> distinct held \<and> set held = frames_live (first_frame ekernel) s'
    \<and> (\<forall>p \<in> set held. first_frame ekernel \<le> p \<and> p < fa_end (pm_frames s'))"
proof -
  let ?l = "first_frame ekernel"
  obtain s' held where r: "run_handles frame_alloc frame_dealloc cs (init_frame_allocator ekernel s) []
      = Inr (s', held)" "phys_inv ?l s'" "frames_live ?l s' = set held" "distinct held"
    using frames.run_handles_ok [of ?l "init_frame_allocator ekernel s" "[]" cs]
      init_frame_allocator_inv [OF assms] by auto
  then show ?thesis using fa_live_ok [OF r(2)] by auto
qed

theorem frame_trackers_distinct_witness:
  "(0x80400000 :: usize) \<le> MEMORY_END \<and> pm_frames \<lparr>pm_mem = \<lambda>_. 0, pm_frames = fa_new\<rparr> = fa_new
    \<and> (\<exists>s' held. run_handles frame_alloc frame_dealloc [Create, Create, Drop 0, Create]
          (init_frame_allocator 0x80400000 \<lparr>pm_mem = \<lambda>_. 0, pm_frames = fa_new\<rparr>) [] = Inr (s', held)
        \<and> distinct held \<and> set held = frames_live (first_frame 0x80400000) s'
        \<and> (\<forall>p \<in> set held. first_frame 0x80400000 \<le> p \<and> p < fa_end (pm_frames s')))"
proof -
  have "(0x80400000 :: usize) \<le> MEMORY_END" by (simp add: MEMORY_END_def)
  then show ?thesis
    using frame_trackers_distinct [where ekernel = "0x80400000" and s = "\<lparr>pm_mem = \<lambda>_. 0, pm_frames = fa_new\<rparr>"
        and cs = "[Create, Create, Drop 0, Create]"] by simp
qed

text \<open>
  C12. \<open>frame_alloc\<close> fails only when memory is exhausted: it returns \<open>None\<close> exactly when
  every frame of the range is in use.
\<close>

theorem frame_alloc_fails_iff_exhausted:
  assumes "phys_inv l s"
  shows "frame_alloc s = None \<longleftrightarrow> frames_live l s = {p. l \<le> p \<and> p < fa_end (pm_frames s)}"
  using assms by (rule frame_alloc_None_iff)

theorem frame_alloc_fails_iff_exhausted_witness:
  "phys_inv 3 \<lparr>pm_mem = \<lambda>_. 0, pm_frames = \<lparr>fa_current = 5, fa_end = 5, fa_recycled = []\<rparr>\<rparr>
    \<and> frames_live 3 \<lparr>pm_mem = \<lambda>_. 0, pm_frames = \<lparr>fa_current = 5, fa_end = 5, fa_recycled = []\<rparr>\<rparr>
      = {p. 3 \<le> p \<and> p < 5}"
  using frame_alloc_fails_iff_exhausted
    [of 3 "\<lparr>pm_mem = \<lambda>_. 0, pm_frames = \<lparr>fa_current = 5, fa_end = 5, fa_recycled = []\<rparr>\<rparr>"]
  by (simp add: fa_inv_def frame_alloc_def fa_alloc_def)

end
