(* ===== verification/Paging_Spec.thy ===== *)
theory Paging_Spec
  imports Prelude
begin

text \<open>
  What address spaces rely on in the paging layer: a page table is a partial map from virtual
  pages to entries that \<open>map\<close> extends, \<open>unmap\<close> shrinks and frame allocation leaves
  alone, and frames are handed out once. The client lemmas cover the loops of
  \<open>MemorySegment::map\<close> and \<open>MemorySegment::unmap\<close>.
\<close>

section \<open>The loops over a segment\<close>

text \<open>Mapping consecutive pages, each to a frame allocated for it (\<open>MapType::Framed\<close>).\<close>

fun map_framed_all ::
  "('s \<Rightarrow> ('p \<times> 's) option) \<Rightarrow> ('v \<Rightarrow> 'p \<Rightarrow> 'f \<Rightarrow> 's \<Rightarrow> 's result) \<Rightarrow> 'f \<Rightarrow> 'v list \<Rightarrow> 's
    \<Rightarrow> (('v \<times> 'p) list \<times> 's) result" where
  "map_framed_all al mp f [] s = Inr ([], s)"
| "map_framed_all al mp f (v # vs) s =
     rbind (unwrap (al s)) (\<lambda>(p, s1).
     rbind (mp v p f s1) (\<lambda>s2.
     rbind (map_framed_all al mp f vs s2) (\<lambda>(fs, s3).
     Inr ((v, p) # fs, s3))))"

text \<open>Unmapping them: each frame is given back, then its page is unmapped.\<close>

fun unmap_framed_all ::
  "('p \<Rightarrow> 's \<Rightarrow> 's result) \<Rightarrow> ('v \<Rightarrow> 's \<Rightarrow> 's result) \<Rightarrow> ('v \<times> 'p) list \<Rightarrow> 's \<Rightarrow> 's result" where
  "unmap_framed_all de um [] s = Inr s"
| "unmap_framed_all de um ((v, p) # fs) s =
     rbind (de p s) (\<lambda>s1. rbind (um v s1) (unmap_framed_all de um fs))"

section \<open>The contract\<close>

text \<open>
  \<open>live\<close> are the frames handed out, \<open>tables\<close> those that hold the page table itself and
  \<open>content\<close> the bytes of a frame. No operation touches the content of a live frame that
  holds no table, except the write to it. \<open>avail\<close> counts the frames that are left.
\<close>

locale page_mapper =
  fixes inv :: "'s \<Rightarrow> bool"
    and vok :: "'v \<Rightarrow> bool"
    and lookup :: "'s \<Rightarrow> 'v \<Rightarrow> 'e option"
    and live :: "'s \<Rightarrow> 'p set"
    and tables :: "'s \<Rightarrow> 'p set"
    and content :: "'s \<Rightarrow> 'p \<Rightarrow> 'b list"
    and zero :: "'b list"
    and avail :: "'s \<Rightarrow> nat"
    and entry :: "'p \<Rightarrow> 'f \<Rightarrow> 'e"
    and alloc :: "'s \<Rightarrow> ('p \<times> 's) option"
    and dealloc :: "'p \<Rightarrow> 's \<Rightarrow> 's result"
    and mapp :: "'v \<Rightarrow> 'p \<Rightarrow> 'f \<Rightarrow> 's \<Rightarrow> 's result"
    and unmap :: "'v \<Rightarrow> 's \<Rightarrow> 's result"
    and store :: "'p \<Rightarrow> 'b list \<Rightarrow> 's \<Rightarrow> 's"
  assumes tables_live: "inv s \<Longrightarrow> tables s \<subseteq> live s"
    and alloc_ok:
      "inv s \<Longrightarrow> alloc s = Some (p, s') \<Longrightarrow>
        inv s' \<and> p \<notin> live s \<and> live s' = insert p (live s) \<and> tables s' = tables s
        \<and> (\<forall>w. lookup s' w = lookup s w)
        \<and> content s' p = zero \<and> (\<forall>q \<in> live s. content s' q = content s q)"
    and alloc_avail:
      "inv s \<Longrightarrow> 0 < avail s \<Longrightarrow> \<exists>p s'. alloc s = Some (p, s') \<and> avail s' = avail s - 1"
    and dealloc_ok:
      "inv s \<Longrightarrow> p \<in> live s - tables s \<Longrightarrow>
        \<exists>s'. dealloc p s = Inr s' \<and> inv s' \<and> live s' = live s - {p} \<and> tables s' = tables s
        \<and> (\<forall>w. lookup s' w = lookup s w) \<and> (\<forall>q. content s' q = content s q)"
    and map_ok:
      "inv s \<Longrightarrow> vok v \<Longrightarrow> mapp v p f s = Inr s' \<Longrightarrow>
        inv s' \<and> tables s \<subseteq> tables s' \<and> (tables s' - tables s) \<inter> live s = {}
        \<and> live s' = live s \<union> tables s' \<and> lookup s v = None
        \<and> (\<forall>w. vok w \<longrightarrow> lookup s' w = (if w = v then Some (entry p f) else lookup s w))
        \<and> (\<forall>q \<in> live s - tables s. content s' q = content s q)"
    and map_avail:
      "inv s \<Longrightarrow> vok v \<Longrightarrow> lookup s v = None \<Longrightarrow> 2 \<le> avail s \<Longrightarrow>
        \<exists>s'. mapp v p f s = Inr s' \<and> avail s \<le> avail s' + 2"
    and map_mapped: "lookup s v = Some e \<Longrightarrow> \<exists>err. mapp v p f s = Inl err"
    and unmap_ok:
      "inv s \<Longrightarrow> vok v \<Longrightarrow> lookup s v = Some e \<Longrightarrow>
        \<exists>s'. unmap v s = Inr s' \<and> inv s' \<and> live s' = live s \<and> tables s' = tables s
        \<and> (\<forall>w. vok w \<longrightarrow> lookup s' w = (if w = v then None else lookup s w))
        \<and> (\<forall>q \<in> live s - tables s. content s' q = content s q)"
    and unmap_unmapped: "lookup s v = None \<Longrightarrow> \<exists>err. unmap v s = Inl err"
    and store_ok:
      "inv s \<Longrightarrow> p \<in> live s - tables s \<Longrightarrow> length bs \<le> length zero \<Longrightarrow>
        inv (store p bs s) \<and> live (store p bs s) = live s \<and> tables (store p bs s) = tables s
        \<and> (\<forall>w. lookup (store p bs s) w = lookup s w)
        \<and> (\<forall>q \<in> live s. content (store p bs s) q =
              (if q = p then bs @ drop (length bs) (content s p) else content s q))"
begin

lemma map_framed_all_fresh:
  assumes "inv s" "\<forall>v \<in> set vs. vok v" "map_framed_all alloc mapp f vs s = Inr (fs, s')"
    and "w \<in> set vs"
  shows "lookup s w = None"
  using assms
proof (induction vs arbitrary: s fs)
  case (Cons v vs)
  obtain p s1 s2 gs where al: "alloc s = Some (p, s1)" and mp: "mapp v p f s1 = Inr s2"
    and rest: "map_framed_all alloc mapp f vs s2 = Inr (gs, s')"
    using Cons.prems(3) by auto
  note A = alloc_ok [OF Cons.prems(1) al]
  have v: "vok v" "vok w" using Cons.prems(2,4) by auto
  note M = map_ok [OF conjunct1 [OF A] v(1) mp]
  show ?case
  proof (cases "w = v")
    case True
    then show ?thesis using A M by simp
  next
    case False
    have "lookup s2 w = None" using Cons.IH [OF _ _ rest] M Cons.prems(2,4) False by auto
    then show ?thesis using A M v False by (auto split: if_splits)
  qed
qed simp

text \<open>
  What mapping the pages of a segment establishes: they map to new frames full of zeros, one
  each; every other page keeps its entry and every frame that was in use its content.
\<close>

definition framed :: "'f \<Rightarrow> ('v \<times> 'p) list \<Rightarrow> 's \<Rightarrow> 's \<Rightarrow> bool" where
  "framed f fs s s' \<longleftrightarrow>
     inv s' \<and> distinct (map fst fs) \<and> distinct (map snd fs)
     \<and> snd ` set fs \<inter> (live s \<union> tables s') = {} \<and> live s' = live s \<union> tables s' \<union> snd ` set fs
     \<and> tables s \<subseteq> tables s' \<and> (tables s' - tables s) \<inter> live s = {}
     \<and> (\<forall>w. vok w \<longrightarrow> lookup s' w =
          (case map_of fs w of Some p \<Rightarrow> Some (entry p f) | None \<Rightarrow> lookup s w))
     \<and> (\<forall>p \<in> snd ` set fs. content s' p = zero)
     \<and> (\<forall>q \<in> live s - tables s. content s' q = content s q)"

lemma framed_Cons:
  assumes inv: "inv s" and v: "vok v" "v \<notin> fst ` set fs"
    and al: "alloc s = Some (p, s1)" and mp: "mapp v p f s1 = Inr s2" and rest: "framed f fs s2 s'"
  shows "framed f ((v, p) # fs) s s'"
proof -
  note A = alloc_ok [OF inv al]
  note M = map_ok [OF conjunct1 [OF A] v(1) mp]
  note T = tables_live [OF inv]
  have R: "inv s'" "distinct (map fst fs)" "distinct (map snd fs)"
    "snd ` set fs \<inter> (live s2 \<union> tables s') = {}" "live s' = live s2 \<union> tables s' \<union> snd ` set fs"
    "tables s2 \<subseteq> tables s'" "(tables s' - tables s2) \<inter> live s2 = {}"
    "\<And>w. vok w \<Longrightarrow> lookup s' w =
       (case map_of fs w of Some p \<Rightarrow> Some (entry p f) | None \<Rightarrow> lookup s2 w)"
    "\<forall>p \<in> snd ` set fs. content s' p = zero"
    "\<And>q. q \<in> live s2 - tables s2 \<Longrightarrow> content s' q = content s2 q"
    using rest by (simp_all add: framed_def)
  have S: "live s2 = insert p (live s) \<union> tables s2" "tables s \<subseteq> tables s2"
    "(tables s2 - tables s) \<inter> insert p (live s) = {}" "p \<notin> live s"
    using A M by auto
  have p: "p \<in> live s2" "p \<notin> tables s2" "p \<notin> snd ` set fs" "p \<notin> tables s'"
    using S T R(4,7) by blast+
  have keep: "content s2 q = content s q" if "q \<in> live s - tables s" for q
    using that A M by simp
  have none: "map_of fs v = None" using v(2) by (simp add: map_of_eq_None_iff)
  show ?thesis
    unfolding framed_def
  proof (intro conjI allI impI ballI)
    show "snd ` set ((v, p) # fs) \<inter> (live s \<union> tables s') = {}"
      using R(4) S p by auto
    show "live s' = live s \<union> tables s' \<union> snd ` set ((v, p) # fs)"
      using R(5,6) S by auto
    show "(tables s' - tables s) \<inter> live s = {}"
      using R(7) S by blast
    show "lookup s' w =
        (case map_of ((v, p) # fs) w of Some p \<Rightarrow> Some (entry p f) | None \<Rightarrow> lookup s w)"
      if "vok w" for w
      using R(8) [OF that] that A M none by (auto split: option.splits)
    show "content s' q = zero" if "q \<in> snd ` set ((v, p) # fs)" for q
      using that R(9) R(10) [of p] p A M T by auto
    show "content s' q = content s q" if "q \<in> live s - tables s" for q
      using R(10) [of q] keep [OF that] that S by auto
  qed (use R(1-3,6) S v p in auto)
qed

lemma map_framed_all_ok:
  assumes "inv s" "\<forall>v \<in> set vs. vok v" "map_framed_all alloc mapp f vs s = Inr (fs, s')"
  shows "map fst fs = vs \<and> framed f fs s s' \<and> (\<forall>v \<in> set vs. lookup s v = None)"
proof -
  have "map fst fs = vs \<and> framed f fs s s'"
    using assms
  proof (induction vs arbitrary: s fs)
    case Nil
    then show ?case using tables_live by (auto simp: framed_def)
  next
    case (Cons v vs)
    obtain p s1 s2 gs where al: "alloc s = Some (p, s1)" and mp: "mapp v p f s1 = Inr s2"
      and rest: "map_framed_all alloc mapp f vs s2 = Inr (gs, s')" and fs: "fs = (v, p) # gs"
      using Cons.prems(3) by auto
    have v: "vok v" using Cons.prems(2) by simp
    note M = map_ok [OF conjunct1 [OF alloc_ok [OF Cons.prems(1) al]] v mp]
    have R: "map fst gs = vs" "framed f gs s2 s'"
      using Cons.IH [of s2 gs] Cons.prems(2) M rest by auto
    have "v \<notin> set vs"
      using map_framed_all_fresh [OF _ _ rest, of v] Cons.prems(2) M v by auto
    then show ?case
      using framed_Cons [OF Cons.prems(1) v _ al mp R(2)] R(1) fs by auto
  qed
  then show ?thesis using map_framed_all_fresh [OF assms] by blast
qed

text \<open>
  Removing a segment again: its pages were mapped and its frames in use, so no step panics, and
  afterwards neither is the case.
\<close>

lemma unmap_framed_all_ok:
  assumes "inv s" "\<forall>v \<in> fst ` set fs. vok v \<and> lookup s v \<noteq> None"
    "snd ` set fs \<subseteq> live s - tables s" "distinct (map fst fs)" "distinct (map snd fs)"
  shows "\<exists>s'. unmap_framed_all dealloc unmap fs s = Inr s' \<and> inv s'
    \<and> live s' = live s - snd ` set fs \<and> tables s' = tables s
    \<and> (\<forall>w. vok w \<longrightarrow> lookup s' w = (if w \<in> fst ` set fs then None else lookup s w))
    \<and> (\<forall>q \<in> live s' - tables s. content s' q = content s q)"
  using assms
proof (induction fs arbitrary: s)
  case Nil
  then show ?case by simp
next
  case (Cons vp fs)
  obtain v p where vp: "vp = (v, p)" by (cases vp)
  have p: "p \<in> live s - tables s" and v: "vok v" "lookup s v \<noteq> None"
    using Cons.prems(2,3) vp by auto
  obtain s0 where s0: "dealloc p s = Inr s0" "inv s0" "live s0 = live s - {p}" "tables s0 = tables s"
    "\<And>w. lookup s0 w = lookup s w" "\<And>q. content s0 q = content s q"
    using dealloc_ok [OF Cons.prems(1) p] by blast
  obtain s1 where s1: "unmap v s0 = Inr s1" "inv s1" "live s1 = live s0" "tables s1 = tables s0"
    "\<And>w. vok w \<Longrightarrow> lookup s1 w = (if w = v then None else lookup s0 w)"
    "\<And>q. q \<in> live s0 - tables s0 \<Longrightarrow> content s1 q = content s0 q"
    using unmap_ok [OF s0(2) v(1)] v(2) s0(5) by (metis not_None_eq)
  have pre: "\<forall>u \<in> fst ` set fs. vok u \<and> lookup s1 u \<noteq> None" "snd ` set fs \<subseteq> live s1 - tables s1"
    "distinct (map fst fs)" "distinct (map snd fs)"
    using Cons.prems(2,3,4,5) s0(3,4,5) s1(3,4,5) vp by auto
  obtain s' where s': "unmap_framed_all dealloc unmap fs s1 = Inr s'" "inv s'"
    "live s' = live s1 - snd ` set fs" "tables s' = tables s1"
    "\<And>w. vok w \<Longrightarrow> lookup s' w = (if w \<in> fst ` set fs then None else lookup s1 w)"
    "\<And>q. q \<in> live s' - tables s1 \<Longrightarrow> content s' q = content s1 q"
    using Cons.IH [OF s1(2) pre] by blast
  have "content s' q = content s q" if "q \<in> live s' - tables s" for q
    using that s'(3,4) s'(6) [of q] s1(3,4) s1(6) [of q] s0(3,4,6) by auto
  then show ?case
    using s0(1,3,4,5) s1(1,3,4,5) s'(1-5) vp by auto
qed

text \<open>Mapping a segment needs at most three frames a page: its own and two tables.\<close>

lemma map_framed_all_total:
  assumes "inv s" "\<forall>v \<in> set vs. vok v \<and> lookup s v = None" "distinct vs" "3 * length vs \<le> avail s"
  shows "\<exists>fs s'. map_framed_all alloc mapp f vs s = Inr (fs, s') \<and> avail s \<le> avail s' + 3 * length vs"
  using assms
proof (induction vs arbitrary: s)
  case Nil
  then show ?case by simp
next
  case (Cons v vs)
  have v: "vok v" "lookup s v = None" using Cons.prems(2) by auto
  have "0 < avail s" using Cons.prems(4) by simp
  then obtain p s1 where s1: "alloc s = Some (p, s1)" "avail s1 = avail s - 1"
    using alloc_avail [OF Cons.prems(1)] by blast
  note A = alloc_ok [OF Cons.prems(1) s1(1)]
  have "2 \<le> avail s1" "lookup s1 v = None" using s1(2) Cons.prems(4) A v by auto
  then obtain s2 where s2: "mapp v p f s1 = Inr s2" "avail s1 \<le> avail s2 + 2"
    using map_avail [OF conjunct1 [OF A] v(1)] by blast
  note M = map_ok [OF conjunct1 [OF A] v(1) s2(1)]
  have "\<forall>u \<in> set vs. vok u \<and> lookup s2 u = None"
    using Cons.prems(2,3) A M by auto
  moreover have "3 * length vs \<le> avail s2" using Cons.prems(4) s1(2) s2(2) by simp
  ultimately obtain fs s' where "map_framed_all alloc mapp f vs s2 = Inr (fs, s')"
    "avail s2 \<le> avail s' + 3 * length vs"
    using Cons.IH [of s2] Cons.prems(3) M by auto
  then show ?case using s1 s2 by auto
qed

end

end
