(* ===== verification/Page_Table.thy ===== *)
theory Page_Table
  imports Frame_Allocator Paging_Spec
begin

text \<open>
  \<open>os/src/mm/page_table.rs\<close>: page-table entries, the three-level Sv39 table walk, mapping and
  unmapping, and translation of virtual addresses. Table nodes live in physical memory and
  are read and written as 64-bit words; a reference to an entry is its address.
\<close>

section \<open>Page-table entries\<close>

text \<open>\<open>PTEFlags\<close>: all eight bits are named, so \<open>from_bits\<close> succeeds on every byte.\<close>

definition PTE_V :: u8 where "PTE_V = 1"
definition PTE_R :: u8 where "PTE_R = 2"
definition PTE_W :: u8 where "PTE_W = 4"
definition PTE_X :: u8 where "PTE_X = 8"
definition PTE_U :: u8 where "PTE_U = 16"

type_synonym PageTableEntry = u64

definition PageTableEntry_new :: "PhysPageNum \<Rightarrow> u8 \<Rightarrow> PageTableEntry" where
  "PageTableEntry_new ppn flags = push_bit 10 ppn OR ucast flags"

definition PageTableEntry_empty :: PageTableEntry where
  "PageTableEntry_empty = 0"

definition pte_ppn :: "PageTableEntry \<Rightarrow> PhysPageNum" where
  "pte_ppn bits = PhysPageNum_from (drop_bit 20 (push_bit 10 bits))"

definition pte_flags :: "PageTableEntry \<Rightarrow> u8" where
  "pte_flags bits = ucast bits"

definition is_valid :: "PageTableEntry \<Rightarrow> bool" where
  "is_valid e \<longleftrightarrow> pte_flags e AND PTE_V \<noteq> 0"

definition readable :: "PageTableEntry \<Rightarrow> bool" where
  "readable e \<longleftrightarrow> pte_flags e AND PTE_R \<noteq> 0"

definition writable :: "PageTableEntry \<Rightarrow> bool" where
  "writable e \<longleftrightarrow> pte_flags e AND PTE_W \<noteq> 0"

definition executable :: "PageTableEntry \<Rightarrow> bool" where
  "executable e \<longleftrightarrow> pte_flags e AND PTE_X \<noteq> 0"

section \<open>Page tables\<close>

record PageTable =
  pt_root_ppn :: PhysPageNum
  pt_frames :: "PhysPageNum list"

definition PageTable_new :: "phys \<Rightarrow> (PageTable \<times> phys) result" where
  "PageTable_new s =
     rbind (unwrap (frame_alloc s)) (\<lambda>(frame, s').
     Inr (\<lparr>pt_root_ppn = frame, pt_frames = [frame]\<rparr>, s'))"

text \<open>\<open>&mut ppn.get_pte_array()[i]\<close>: the address of the entry, bounds checked.\<close>

definition pte_addr :: "PhysPageNum \<Rightarrow> usize \<Rightarrow> usize" where
  "pte_addr ppn i = PhysAddr_from_ppn ppn + 8 * i"

definition pte_ref :: "PhysPageNum \<Rightarrow> usize \<Rightarrow> usize result" where
  "pte_ref ppn i = (if i < 512 then Inr (pte_addr ppn i) else Inl IndexOutOfBounds)"

text \<open>
  The loops over \<open>i\<close> in \<open>0..3\<close> take the remaining indexes; \<open>i == 2\<close> is the last one.
\<close>

fun find_pte_create_loop ::
  "usize list \<Rightarrow> PhysPageNum \<Rightarrow> PageTable \<Rightarrow> phys \<Rightarrow> (usize option \<times> PageTable \<times> phys) result" where
  "find_pte_create_loop [] ppn pt s = Inr (None, pt, s)"
| "find_pte_create_loop (i # ids) ppn pt s =
     rbind (pte_ref ppn i) (\<lambda>pte.
       if ids = [] then Inr (Some pte, pt, s)
       else if \<not> is_valid (load64 (pm_mem s) pte) then
         rbind (unwrap (frame_alloc s)) (\<lambda>(frame, s1).
           let s2 = s1\<lparr>pm_mem := store64 (pm_mem s1) pte (PageTableEntry_new frame PTE_V)\<rparr>
           in find_pte_create_loop ids (pte_ppn (load64 (pm_mem s2) pte))
                (pt\<lparr>pt_frames := pt_frames pt @ [frame]\<rparr>) s2)
       else find_pte_create_loop ids (pte_ppn (load64 (pm_mem s) pte)) pt s)"

definition find_pte_create ::
  "VirtPageNum \<Rightarrow> PageTable \<Rightarrow> phys \<Rightarrow> (usize option \<times> PageTable \<times> phys) result" where
  "find_pte_create vpn pt s = find_pte_create_loop (indexes vpn) (pt_root_ppn pt) pt s"

fun find_pte_loop :: "usize list \<Rightarrow> PhysPageNum \<Rightarrow> mem \<Rightarrow> usize option result" where
  "find_pte_loop [] ppn m = Inr None"
| "find_pte_loop (i # ids) ppn m =
     rbind (pte_ref ppn i) (\<lambda>pte.
       if ids = [] then Inr (Some pte)
       else if \<not> is_valid (load64 m pte) then Inr None
       else find_pte_loop ids (pte_ppn (load64 m pte)) m)"

text \<open>A \<open>PageTableView\<close> is the root page number it holds.\<close>

definition find_pte :: "VirtPageNum \<Rightarrow> PhysPageNum \<Rightarrow> mem \<Rightarrow> usize option result" where
  "find_pte vpn root m = find_pte_loop (indexes vpn) root m"

text \<open>
  \<open>Permission\<close> holds a subset of the bits R, W, X, U of \<open>PTEFlags\<close>, so
  \<open>PTEFlags::from_bits(permission.bits())\<close> is the same byte.
\<close>

definition PageTable_map ::
  "VirtPageNum \<Rightarrow> PhysPageNum \<Rightarrow> u8 \<Rightarrow> PageTable \<Rightarrow> phys \<Rightarrow> (PageTable \<times> phys) result" where
  "PageTable_map vpn ppn permission pt s =
     rbind (find_pte_create vpn pt s) (\<lambda>(r, pt', s').
     rbind (unwrap r) (\<lambda>pte.
     rbind (rassert (\<not> is_valid (load64 (pm_mem s') pte))) (\<lambda>_.
     Inr (pt', s'\<lparr>pm_mem := store64 (pm_mem s') pte
                    (PageTableEntry_new ppn (permission OR PTE_V))\<rparr>))))"

definition PageTable_unmap :: "VirtPageNum \<Rightarrow> PageTable \<Rightarrow> phys \<Rightarrow> phys result" where
  "PageTable_unmap vpn pt s =
     rbind (find_pte vpn (pt_root_ppn pt) (pm_mem s)) (\<lambda>r.
     rbind (unwrap r) (\<lambda>pte.
     rbind (rassert (is_valid (load64 (pm_mem s) pte))) (\<lambda>_.
     Inr (s\<lparr>pm_mem := store64 (pm_mem s) pte PageTableEntry_empty\<rparr>))))"

definition PageTable_satp :: "PhysPageNum \<Rightarrow> usize" where
  "PageTable_satp root = push_bit 60 8 OR root"

definition PageTableView_from_satp :: "usize \<Rightarrow> PhysPageNum" where
  "PageTableView_from_satp satp = PhysPageNum_from satp"

definition translate :: "VirtPageNum \<Rightarrow> PhysPageNum \<Rightarrow> mem \<Rightarrow> PageTableEntry option result" where
  "translate vpn root m =
     rbind (find_pte vpn root m) (\<lambda>r. Inr (map_option (load64 m) r))"

definition translate_va :: "VirtAddr \<Rightarrow> PhysPageNum \<Rightarrow> mem \<Rightarrow> PhysAddr option result" where
  "translate_va va root m =
     rbind (find_pte (addr_floor va) root m) (\<lambda>r.
     Inr (map_option (\<lambda>pte.
       PhysAddr_from (PhysAddr_from_ppn (pte_ppn (load64 m pte)) + page_offset va)) r))"

section \<open>Entries as bit fields\<close>

lemma bit_pte_ppn: "bit (pte_ppn e) n \<longleftrightarrow> n < 44 \<and> bit e (n + 10)"
  by (auto simp: pte_ppn_def PhysPageNum_from_def shl_shr_take_bit width_defs bit_simps add.commute)

lemma bit_ppn_ok: "ppn_ok p \<Longrightarrow> bit p n \<Longrightarrow> n < 44"
proof (rule ccontr)
  assume ok: "ppn_ok p" and b: "bit p n" and "\<not> n < 44"
  then have "take_bit 44 p = p"
    by (simp add: word_unat_eq_iff unat_take_bit)
  then have "bit (take_bit 44 p) n" using b by simp
  then show False using \<open>\<not> n < 44\<close> by (simp add: bit_simps)
qed

lemma pte_ppn_new:
  assumes "ppn_ok p"
  shows "pte_ppn (PageTableEntry_new p f) = p"
proof (rule bit_word_eqI)
  fix n assume "n < LENGTH(64)"
  have "\<not> bit f (n + 10)" by (auto dest: bit_imp_le_length)
  then show "bit (pte_ppn (PageTableEntry_new p f)) n = bit p n"
    using bit_ppn_ok [OF assms, of n] by (auto simp: bit_pte_ppn PageTableEntry_new_def bit_simps)
qed

lemma pte_flags_new: "pte_flags (PageTableEntry_new p f) = f"
  by (rule bit_word_eqI) (auto simp: pte_flags_def PageTableEntry_new_def bit_simps)

lemma unat_pte_ppn: "ppn_ok (pte_ppn e)"
  by (simp add: pte_ppn_def PhysPageNum_from_def unat_shl_shr width_defs)

lemma is_valid_new_V: "is_valid (PageTableEntry_new p (f OR PTE_V))"
proof -
  have "bit ((f OR PTE_V) AND PTE_V) 0" by (simp add: PTE_V_def bit_simps)
  then have "(f OR PTE_V) AND PTE_V \<noteq> 0" by (metis bit_0_eq bot_apply bot_bool_def)
  then show ?thesis by (simp add: is_valid_def pte_flags_new)
qed

lemma is_valid_new_PTE_V: "is_valid (PageTableEntry_new p PTE_V)"
  using is_valid_new_V [of p 0] by simp

lemma not_is_valid_0 [simp]: "\<not> is_valid 0"
  by (simp add: is_valid_def pte_flags_def)

section \<open>Slots\<close>

text \<open>Entries of tables in the physical page space: aligned, inside their page, and distinct.\<close>

lemma unat_pte_addr:
  assumes "ppn_ok p" "i < 512"
  shows "unat (pte_addr p i) = unat p * 4096 + 8 * unat i"
proof -
  have i: "unat i < 512" using assms(2) by (simp add: word_less_nat_alt)
  have "unat (8 * i) = 8 * unat i"
    using i by (simp add: unat_word_ariths)
  moreover have "unat (PhysAddr_from_ppn p) = unat p * 4096"
    using assms(1) by (simp add: unat_PhysAddr_from_ppn)
  ultimately show ?thesis
    using i assms(1) by (simp add: pte_addr_def unat_word_ariths)
qed

lemma aligned8_pte_addr: "ppn_ok p \<Longrightarrow> i < 512 \<Longrightarrow> aligned8 (pte_addr p i)"
proof -
  assume a: "ppn_ok p" "i < 512"
  have "unat (pte_addr p i) = 8 * (unat p * 512 + unat i)"
    using unat_pte_addr [OF a] by simp
  then show ?thesis by (simp add: aligned8_def)
qed

lemma pte_addr_in_page:
  assumes "ppn_ok p" "i < 512" "k < 8"
  shows "in_page p (pte_addr p i + of_nat k)"
proof -
  have i: "unat i < 512" using assms(2) by (simp add: word_less_nat_alt)
  have "unat (pte_addr p i + of_nat k) = unat p * 4096 + 8 * unat i + k"
    using unat_pte_addr [OF assms(1,2)] i assms(1,3)
    by (simp add: unat_word_ariths unat_of_nat)
  moreover have "(unat p * 4096 + 8 * unat i + k) div 4096 = unat p"
    using i assms(3) by simp
  ultimately show ?thesis
    using assms(1) by (simp add: in_page_floor word_unat_eq_iff unat_addr_floor)
qed

lemma pte_addr_inject:
  assumes "ppn_ok p" "i < 512" "ppn_ok q" "j < 512"
  shows "pte_addr p i = pte_addr q j \<longleftrightarrow> p = q \<and> i = j"
proof
  assume eq: "pte_addr p i = pte_addr q j"
  have "in_page p (pte_addr p i)" "in_page q (pte_addr q j)"
    using pte_addr_in_page [OF assms(1,2), of 0] pte_addr_in_page [OF assms(3,4), of 0] by simp_all
  then have "p = q" using eq in_page_disjoint [OF assms(1,3)] by simp
  moreover from this have "unat i = unat j"
    using eq unat_pte_addr [OF assms(1,2)] unat_pte_addr [OF assms(3,4)] by simp
  ultimately show "p = q \<and> i = j" by (simp add: word_unat_eq_iff)
qed simp

definition pte_at :: "mem \<Rightarrow> PhysPageNum \<Rightarrow> usize \<Rightarrow> PageTableEntry" where
  "pte_at m p i = load64 m (pte_addr p i)"

lemma pte_at_store_same [simp]: "pte_at (store64 m (pte_addr p i) v) p i = v"
  by (simp add: pte_at_def)

lemma pte_at_store_other:
  assumes "ppn_ok p" "i < 512" "ppn_ok q" "j < 512" "q \<noteq> p \<or> j \<noteq> i"
  shows "pte_at (store64 m (pte_addr p i) v) q j = pte_at m q j"
  unfolding pte_at_def
  by (rule load64_store64_other) (use assms in \<open>auto simp: aligned8_pte_addr pte_addr_inject\<close>)

lemma pte_at_fill_other:
  assumes "ppn_ok p" "ppn_ok q" "j < 512" "q \<noteq> p"
  shows "pte_at (fill_page p b m) q j = pte_at m q j"
  unfolding pte_at_def
proof (rule load64_cong)
  fix k :: nat assume "k < 8"
  then have "\<not> in_page p (pte_addr q j + of_nat k)"
    using pte_addr_in_page [OF assms(2,3)] in_page_disjoint [OF assms(1,2)] assms(4) by blast
  then show "fill_page p b m (pte_addr q j + of_nat k) = m (pte_addr q j + of_nat k)"
    by (rule fill_page_other)
qed

lemma pte_at_fill_same:
  assumes "ppn_ok p" "j < 512"
  shows "pte_at (fill_page p 0 m) p j = 0"
  unfolding pte_at_def
  by (rule load64_zero) (use assms in \<open>simp add: fill_page_same pte_addr_in_page\<close>)

lemma store_slot_outside:
  assumes "ppn_ok p" "i < 512" "\<not> in_page p a"
  shows "store64 m (pte_addr p i) v a = m a"
proof (rule store64_other)
  show "\<not> a - pte_addr p i < 8"
  proof
    assume lt: "a - pte_addr p i < 8"
    define k where "k = unat (a - pte_addr p i)"
    have "k < 8" using lt by (simp add: k_def word_less_nat_alt)
    moreover have "a = pte_addr p i + of_nat k" by (simp add: k_def)
    ultimately show False using pte_addr_in_page [OF assms(1,2)] assms(3) by blast
  qed
qed

section \<open>The table tree\<close>

text \<open>
  \<open>walk m r path\<close> is the table reached from the root by following valid entries. The tables
  of a well-formed page table form a tree of the frames it owns: a table is reached by one path
  only. Leaf entries (paths of length 3) are translations, not tables, and are not constrained.
\<close>

fun walk :: "mem \<Rightarrow> PhysPageNum \<Rightarrow> usize list \<Rightarrow> PhysPageNum option" where
  "walk m r [] = Some r"
| "walk m r (i # is) = (if is_valid (pte_at m r i) then walk m (pte_ppn (pte_at m r i)) is else None)"

definition path_ok :: "usize list \<Rightarrow> bool" where
  "path_ok p \<longleftrightarrow> length p \<le> 2 \<and> (\<forall>i \<in> set p. i < 512)"

definition pt_wf :: "mem \<Rightarrow> PageTable \<Rightarrow> bool" where
  "pt_wf m pt \<longleftrightarrow>
     distinct (pt_frames pt) \<and> (\<forall>f \<in> set (pt_frames pt). ppn_ok f) \<and>
     (\<forall>p t. path_ok p \<longrightarrow> walk m (pt_root_ppn pt) p = Some t \<longrightarrow> t \<in> set (pt_frames pt)) \<and>
     (\<forall>p q t. path_ok p \<longrightarrow> path_ok q \<longrightarrow> walk m (pt_root_ppn pt) p = Some t \<longrightarrow>
        walk m (pt_root_ppn pt) q = Some t \<longrightarrow> p = q)"

text \<open>The valid translation of a virtual page number, if there is one.\<close>

definition pt_lookup :: "mem \<Rightarrow> PhysPageNum \<Rightarrow> VirtPageNum \<Rightarrow> PageTableEntry option" where
  "pt_lookup m r vpn =
     (case walk m r (butlast (indexes vpn)) of
        None \<Rightarrow> None
      | Some t \<Rightarrow>
          (let e = pte_at m t (last (indexes vpn)) in if is_valid e then Some e else None))"

lemma walk_append: "walk m r (p @ q) = Option.bind (walk m r p) (\<lambda>t. walk m t q)"
  by (induction p arbitrary: r) auto

lemma walk_snoc:
  "walk m r (p @ [i]) =
     (case walk m r p of None \<Rightarrow> None
      | Some t \<Rightarrow> if is_valid (pte_at m t i) then Some (pte_ppn (pte_at m t i)) else None)"
  by (auto simp: walk_append split: option.splits)

lemma path_ok_snoc: "path_ok (p @ [i]) \<longleftrightarrow> path_ok p \<and> length p \<le> 1 \<and> i < 512"
  by (auto simp: path_ok_def)

lemma pt_wf_walk: "pt_wf m pt \<Longrightarrow> path_ok p \<Longrightarrow> walk m (pt_root_ppn pt) p = Some t \<Longrightarrow>
    t \<in> set (pt_frames pt) \<and> ppn_ok t"
  by (auto simp: pt_wf_def)

lemma pt_wf_inj: "pt_wf m pt \<Longrightarrow> path_ok p \<Longrightarrow> path_ok q \<Longrightarrow> walk m (pt_root_ppn pt) p = Some t \<Longrightarrow>
    walk m (pt_root_ppn pt) q = Some t \<Longrightarrow> p = q"
  unfolding pt_wf_def by blast

lemma indexes_cases:
  obtains a b c where "indexes vpn = [a, b, c]" "a < 512" "b < 512" "c < 512"
proof -
  have "indexes vpn = [drop_bit 18 vpn AND 511, drop_bit 9 vpn AND 511, vpn AND 511]"
    by (rule indexes_eq)
  moreover have "\<And>i. i \<in> set (indexes vpn) \<Longrightarrow> i < 512"
    using indexes_less by (auto simp: word_less_nat_alt)
  ultimately show ?thesis using that by auto
qed

section \<open>Writing entries\<close>

abbreviation outside :: "PageTable \<Rightarrow> usize \<Rightarrow> bool" where
  "outside pt a \<equiv> \<forall>f \<in> set (pt_frames pt). \<not> in_page f a"

text \<open>A write to entry \<open>i\<close> of the table at \<open>p\<close> changes no walk that avoids that entry.\<close>

lemma walk_store:
  assumes wf: "pt_wf m pt" and p: "path_ok p" "walk m (pt_root_ppn pt) p = Some t" and i: "i < 512"
    and q: "path_ok q" "\<not> prefix (p @ [i]) q"
  shows "walk (store64 m (pte_addr t i) v) (pt_root_ppn pt) q = walk m (pt_root_ppn pt) q"
  using q
proof (induction q rule: rev_induct)
  case Nil
  then show ?case by simp
next
  case (snoc j q)
  let ?r = "pt_root_ppn pt" and ?m = "store64 m (pte_addr t i) v"
  have q: "path_ok q" "j < 512" using snoc.prems(1) by (auto simp: path_ok_snoc)
  have IH: "walk ?m ?r q = walk m ?r q"
    using snoc q by (simp add: prefix_snoc)
  show ?case
  proof (cases "walk m ?r q")
    case None
    then show ?thesis using IH by (simp add: walk_snoc)
  next
    case (Some u)
    have ok: "ppn_ok u" "ppn_ok t" using pt_wf_walk [OF wf] q p Some by auto
    have "u \<noteq> t \<or> j \<noteq> i"
      using pt_wf_inj [OF wf q(1) p(1) Some] p(2) snoc.prems(2) by auto
    then have "pte_at ?m u j = pte_at m u j"
      using pte_at_store_other [OF ok(2) i ok(1) q(2)] by blast
    then show ?thesis using IH Some by (simp add: walk_snoc)
  qed
qed

lemma pt_lookup_eq:
  assumes "indexes vpn = [a, b, c]"
  shows "pt_lookup m r vpn =
    (case walk m r [a, b] of None \<Rightarrow> None
     | Some t \<Rightarrow> if is_valid (pte_at m t c) then Some (pte_at m t c) else None)"
  by (auto simp: pt_lookup_def assms Let_def simp del: walk.simps split: option.splits)

lemma path_ok_2: "a < 512 \<Longrightarrow> b < 512 \<Longrightarrow> path_ok [a, b]"
  by (simp add: path_ok_def)

text \<open>Writing a leaf entry: the tree is unchanged, one translation is.\<close>

lemma store_leaf:
  fixes v :: PageTableEntry
  assumes wf: "pt_wf m pt" and p: "path_ok p" "length p = 2" "walk m (pt_root_ppn pt) p = Some t"
    and i: "i < 512"
  defines "m' \<equiv> store64 m (pte_addr t i) v"
  shows "pt_wf m' pt"
    and "pt_lookup m' (pt_root_ppn pt) vpn =
      (if indexes vpn = p @ [i] then (if is_valid v then Some v else None)
       else pt_lookup m (pt_root_ppn pt) vpn)"
    and "outside pt a \<Longrightarrow> m' a = m a"
proof -
  let ?r = "pt_root_ppn pt"
  have same: "walk m' ?r q = walk m ?r q" if "path_ok q" for q
    unfolding m'_def
  proof (rule walk_store [OF wf p(1,3) i that])
    show "\<not> prefix (p @ [i]) q"
      using that p(2) by (auto simp: path_ok_def dest: prefix_length_le)
  qed
  show "pt_wf m' pt" using wf by (simp add: pt_wf_def same)
  have t: "ppn_ok t" "t \<in> set (pt_frames pt)" using pt_wf_walk [OF wf p(1,3)] by auto
  show "pt_lookup m' ?r vpn =
      (if indexes vpn = p @ [i] then (if is_valid v then Some v else None) else pt_lookup m ?r vpn)"
  proof -
    obtain a b c where abc: "indexes vpn = [a, b, c]" "a < 512" "b < 512" "c < 512"
      by (rule indexes_cases)
    have ab: "path_ok [a, b]" using abc by (simp add: path_ok_2)
    show ?thesis
    proof (cases "walk m ?r [a, b]")
      case None
      then have "[a, b] \<noteq> p" using p(3) by auto
      then have "indexes vpn \<noteq> p @ [i]" using abc(1) p(2) by (auto simp: append_eq_Cons_conv)
      then show ?thesis using None same [OF ab] abc(1) by (simp add: pt_lookup_eq del: walk.simps)
    next
      case (Some u)
      have u: "ppn_ok u" using pt_wf_walk [OF wf ab Some] by simp
      have eq: "indexes vpn = p @ [i] \<longleftrightarrow> u = t \<and> c = i"
        using pt_wf_inj [OF wf ab p(1) Some] p(2,3) Some abc(1)
        by (auto simp: append_eq_Cons_conv Cons_eq_append_conv)
      have "pte_at m' u c = (if u = t \<and> c = i then v else pte_at m u c)"
        unfolding m'_def using pte_at_store_other [OF t(1) i u abc(4)] by auto
      then show ?thesis
        using Some same [OF ab] abc(1) eq by (auto simp: pt_lookup_eq simp del: walk.simps)
    qed
  qed
  show "outside pt a \<Longrightarrow> m' a = m a"
    unfolding m'_def using t i by (auto intro: store_slot_outside)
qed

text \<open>The tree and its translations depend on the pages of the tables only.\<close>

lemma pte_at_cong:
  assumes "ppn_ok t" "j < 512" "\<And>a. in_page t a \<Longrightarrow> m' a = m a"
  shows "pte_at m' t j = pte_at m t j"
  unfolding pte_at_def by (rule load64_cong) (use assms pte_addr_in_page in blast)

lemma pt_cong:
  assumes wf: "pt_wf m pt" and same: "\<And>a. \<not> outside pt a \<Longrightarrow> m' a = m a"
  shows "path_ok q \<Longrightarrow> walk m' (pt_root_ppn pt) q = walk m (pt_root_ppn pt) q"
    and "pt_wf m' pt"
    and "pt_lookup m' (pt_root_ppn pt) vpn = pt_lookup m (pt_root_ppn pt) vpn"
proof -
  let ?r = "pt_root_ppn pt"
  have at: "pte_at m' u j = pte_at m u j" if "path_ok q" "walk m ?r q = Some u" "j < 512" for q u j
    using pt_wf_walk [OF wf that(1,2)] that(3) same by (intro pte_at_cong) auto
  have w: "walk m' ?r q = walk m ?r q" if "path_ok q" for q
    using that
  proof (induction q rule: rev_induct)
    case Nil
    then show ?case by simp
  next
    case (snoc j q)
    then have "path_ok q" "j < 512" by (auto simp: path_ok_snoc)
    then show ?case using snoc.IH at by (auto simp: walk_snoc split: option.splits)
  qed
  then show "path_ok q \<Longrightarrow> walk m' ?r q = walk m ?r q" by blast
  show "pt_wf m' pt" using wf by (simp add: pt_wf_def w)
  obtain a b' c where abc: "indexes vpn = [a, b', c]" "a < 512" "b' < 512" "c < 512"
    by (rule indexes_cases)
  then have ab: "path_ok [a, b']" by (simp add: path_ok_2)
  show "pt_lookup m' ?r vpn = pt_lookup m ?r vpn"
    using w [OF ab] at [OF ab] abc
    by (auto simp: pt_lookup_eq simp del: walk.simps split: option.splits)
qed

text \<open>Clearing a frame that is not a table of the tree changes nothing in it.\<close>

lemma fill_fresh:
  assumes wf: "pt_wf m pt" and f: "ppn_ok f" "f \<notin> set (pt_frames pt)"
  shows "path_ok q \<Longrightarrow> walk (fill_page f b m) (pt_root_ppn pt) q = walk m (pt_root_ppn pt) q"
    and "pt_wf (fill_page f b m) pt"
    and "pt_lookup (fill_page f b m) (pt_root_ppn pt) vpn = pt_lookup m (pt_root_ppn pt) vpn"
proof -
  have "fill_page f b m a = m a" if "\<not> outside pt a" for a
    using that f wf by (intro fill_page_other) (auto simp: pt_wf_def dest: in_page_disjoint)
  then show "path_ok q \<Longrightarrow> walk (fill_page f b m) (pt_root_ppn pt) q = walk m (pt_root_ppn pt) q"
    "pt_wf (fill_page f b m) pt"
    "pt_lookup (fill_page f b m) (pt_root_ppn pt) vpn = pt_lookup m (pt_root_ppn pt) vpn"
    by (blast intro: pt_cong [OF wf])+
qed

text \<open>Hanging a fresh, cleared frame below an invalid interior entry adds a table and no translation.\<close>

lemma create_child:
  assumes wf: "pt_wf m pt" and p: "path_ok p" "length p \<le> 1" "walk m (pt_root_ppn pt) p = Some t"
    and i: "i < 512" and inv: "\<not> is_valid (pte_at m t i)"
    and f: "ppn_ok f" "f \<notin> set (pt_frames pt)"
  defines "m' \<equiv> store64 (fill_page f 0 m) (pte_addr t i) (PageTableEntry_new f PTE_V)"
    and "pt' \<equiv> pt\<lparr>pt_frames := pt_frames pt @ [f]\<rparr>"
  shows "walk m' (pt_root_ppn pt) (p @ [i]) = Some f"
    and "pt_wf m' pt'"
    and "pt_lookup m' (pt_root_ppn pt) vpn = pt_lookup m (pt_root_ppn pt) vpn"
    and "outside pt' a \<Longrightarrow> m' a = m a"
proof -
  let ?r = "pt_root_ppn pt" and ?m1 = "fill_page f 0 m"
  have wf1: "pt_wf ?m1 pt" and w1: "\<And>q. path_ok q \<Longrightarrow> walk ?m1 ?r q = walk m ?r q"
    using fill_fresh [OF wf f] by auto
  have p1: "walk ?m1 ?r p = Some t" using w1 p by simp
  have t: "ppn_ok t" "t \<in> set (pt_frames pt)" "t \<noteq> f" using pt_wf_walk [OF wf p(1,3)] f by auto
  have pi: "path_ok (p @ [i])" using p i by (simp add: path_ok_snoc)
  have other: "walk m' ?r q = walk m ?r q" if "path_ok q" "\<not> prefix (p @ [i]) q" for q
    unfolding m'_def using walk_store [OF wf1 p(1) p1 i that] w1 [OF that(1)] by simp
  have child: "pte_at m' f j = 0" if "j < 512" for j
    unfolding m'_def
    using pte_at_store_other [OF t(1) i f(1) that] pte_at_fill_same [OF f(1) that] t(3) by simp
  have "\<not> prefix (p @ [i]) p" by (auto dest: prefix_length_le)
  then have "walk m' ?r p = Some t" using other p by simp
  then show new: "walk m' ?r (p @ [i]) = Some f"
    by (simp add: walk_snoc m'_def is_valid_new_PTE_V pte_ppn_new [OF f(1)])
  have old: "walk m ?r (p @ [i]) = None" using p(3) inv by (simp add: walk_snoc)
  have ext: "walk m' ?r q = (if q = p @ [i] then Some f else walk m ?r q)" if q: "path_ok q" for q
  proof (cases "prefix (p @ [i]) q")
    case False
    then show ?thesis using other [OF q] by auto
  next
    case True
    then obtain s where s: "q = (p @ [i]) @ s" by (auto simp: prefix_def)
    show ?thesis
    proof (cases s)
      case Nil
      then show ?thesis using new s by simp
    next
      case (Cons j s')
      have "j < 512" using q s Cons by (auto simp: path_ok_def)
      then have "walk m' ?r q = None"
        using s Cons new child walk_append [of m' ?r "p @ [i]" s] by simp
      moreover have "walk m ?r q = None" using s old walk_append [of m ?r "p @ [i]" s] by simp
      ultimately show ?thesis using s Cons by simp
    qed
  qed
  show "pt_wf m' pt'"
    unfolding pt_wf_def
  proof (intro conjI allI impI)
    show "distinct (pt_frames pt')"
      using wf f(2) by (simp add: pt_wf_def pt'_def)
    show "\<forall>x\<in>set (pt_frames pt'). ppn_ok x"
      using wf f(1) by (simp add: pt_wf_def pt'_def)
  next
    fix q u assume "path_ok q" "walk m' (pt_root_ppn pt') q = Some u"
    then show "u \<in> set (pt_frames pt')"
      using ext [of q] pt_wf_walk [OF wf] by (auto simp: pt'_def split: if_splits)
  next
    fix q q' u
    assume "path_ok q" "path_ok q'" "walk m' (pt_root_ppn pt') q = Some u"
      "walk m' (pt_root_ppn pt') q' = Some u"
    then show "q = q'"
      using ext [of q] ext [of q'] pt_wf_walk [OF wf] pt_wf_inj [OF wf] f(2)
      by (auto simp: pt'_def split: if_splits)
  qed
  show "pt_lookup m' ?r vpn = pt_lookup m ?r vpn"
  proof -
    obtain a b c where abc: "indexes vpn = [a, b, c]" "a < 512" "b < 512" "c < 512"
      by (rule indexes_cases)
    then have ab: "path_ok [a, b]" by (simp add: path_ok_2)
    show ?thesis
    proof (cases "[a, b] = p @ [i]")
      case True
      then have "walk m ?r [a, b] = None" "walk m' ?r [a, b] = Some f"
        using old new by metis+
      then show ?thesis
        using child [OF abc(4)] abc(1) by (simp add: pt_lookup_eq del: walk.simps)
    next
      case False
      have "pte_at m' u c = pte_at m u c" if u: "walk m ?r [a, b] = Some u" for u
      proof -
        have uok: "ppn_ok u" "u \<noteq> f" using pt_wf_walk [OF wf ab u] f by auto
        have "u \<noteq> t" using pt_wf_inj [OF wf ab p(1) u] p by auto
        then show ?thesis
          unfolding m'_def
          using pte_at_store_other [OF t(1) i uok(1) abc(4)]
            pte_at_fill_other [OF f(1) uok(1) abc(4) uok(2)] by simp
      qed
      then show ?thesis
        using ext [OF ab] False abc(1)
        by (auto simp: pt_lookup_eq simp del: walk.simps split: option.splits)
    qed
  qed
  show "outside pt' a \<Longrightarrow> m' a = m a"
    unfolding m'_def pt'_def using t i by (auto simp: store_slot_outside fill_page_other)
qed

section \<open>Finding and creating entries\<close>

lemma find_pte_eq:
  assumes "indexes vpn = [a, b, c]" "a < 512" "b < 512" "c < 512"
  shows "find_pte vpn r m = Inr (map_option (\<lambda>t. pte_addr t c) (walk m r [a, b]))"
  using assms by (simp add: find_pte_def pte_ref_def pte_at_def)

lemma translate_eq:
  assumes "indexes vpn = [a, b, c]" "a < 512" "b < 512" "c < 512"
  shows "translate vpn r m = Inr (map_option (\<lambda>t. pte_at m t c) (walk m r [a, b]))"
  using assms by (simp add: translate_def find_pte_eq pte_at_def option.map_comp comp_def del: walk.simps)

text \<open>What the loop of \<open>find_pte_create\<close> keeps, from the table reached so far.\<close>

definition pt_extends :: "PhysPageNum \<Rightarrow> PageTable \<Rightarrow> phys \<Rightarrow> PageTable \<Rightarrow> phys \<Rightarrow> bool" where
  "pt_extends l pt s pt' s' \<longleftrightarrow>
     phys_inv l s' \<and> pt_wf (pm_mem s') pt' \<and>
     pt_root_ppn pt' = pt_root_ppn pt \<and>
     set (pt_frames pt) \<subseteq> set (pt_frames pt') \<and>
     frames_live l s' = frames_live l s \<union> set (pt_frames pt') \<and>
     (set (pt_frames pt') - set (pt_frames pt)) \<inter> frames_live l s = {} \<and>
     (\<forall>vpn. pt_lookup (pm_mem s') (pt_root_ppn pt) vpn = pt_lookup (pm_mem s) (pt_root_ppn pt) vpn) \<and>
     (\<forall>a. outside pt' a \<longrightarrow> pm_mem s' a = pm_mem s a)"

text \<open>The state a page table and the allocator share: a well-formed tree of live frames.\<close>

definition pt_inv :: "PhysPageNum \<Rightarrow> PageTable \<Rightarrow> phys \<Rightarrow> bool" where
  "pt_inv l pt s \<longleftrightarrow> phys_inv l s \<and> pt_wf (pm_mem s) pt \<and> set (pt_frames pt) \<subseteq> frames_live l s"

lemma pt_extends_refl: "pt_inv l pt s \<Longrightarrow> pt_extends l pt s pt s"
  by (auto simp: pt_extends_def pt_inv_def)

lemma pt_extends_inv: "pt_extends l pt s pt' s' \<Longrightarrow> pt_inv l pt' s'"
  by (auto simp: pt_extends_def pt_inv_def)

lemma pt_extends_trans:
  assumes "pt_extends l pt s pt1 s1" "pt_extends l pt1 s1 pt2 s2"
  shows "pt_extends l pt s pt2 s2"
proof -
  have "(set (pt_frames pt2) - set (pt_frames pt)) \<inter> frames_live l s = {}"
    using assms by (auto simp: pt_extends_def)
  moreover have "frames_live l s2 = frames_live l s \<union> set (pt_frames pt2)"
    using assms by (auto simp: pt_extends_def)
  moreover have "pm_mem s2 a = pm_mem s a" if "outside pt2 a" for a
  proof -
    have "outside pt1 a" using that assms(2) by (auto simp: pt_extends_def)
    then show ?thesis using that assms by (simp add: pt_extends_def)
  qed
  ultimately show ?thesis using assms by (auto simp: pt_extends_def)
qed

lemma create_step:
  assumes inv: "pt_inv l pt s" and p: "path_ok p" "length p \<le> 1"
    "walk (pm_mem s) (pt_root_ppn pt) p = Some t"
    and i: "i < 512" "\<not> is_valid (pte_at (pm_mem s) t i)" and f: "frame_alloc s = Some (f, s1)"
  defines "s2 \<equiv> s1\<lparr>pm_mem := store64 (pm_mem s1) (pte_addr t i) (PageTableEntry_new f PTE_V)\<rparr>"
    and "pt1 \<equiv> pt\<lparr>pt_frames := pt_frames pt @ [f]\<rparr>"
  shows "pt_extends l pt s pt1 s2"
    and "walk (pm_mem s2) (pt_root_ppn pt1) (p @ [i]) = Some f"
    and "pte_ppn (PageTableEntry_new f PTE_V) = f"
    and "pm_frames s2 = pm_frames s1"
proof -
  have wf: "pt_wf (pm_mem s) pt" and phys: "phys_inv l s" and live: "set (pt_frames pt) \<subseteq> frames_live l s"
    using inv by (auto simp: pt_inv_def)
  note fa = frame_alloc_SomeD [OF phys f]
  have fresh: "f \<notin> set (pt_frames pt)" using fa(2) live by auto
  have m2: "pm_mem s2 = store64 (fill_page f 0 (pm_mem s)) (pte_addr t i) (PageTableEntry_new f PTE_V)"
    by (simp add: s2_def fa(5))
  note cc = create_child [OF wf p i fa(4) fresh, folded m2 pt1_def]
  show fr: "pm_frames s2 = pm_frames s1" by (simp add: s2_def)
  show "pt_extends l pt s pt1 s2"
    unfolding pt_extends_def using fa cc live by (auto simp: fr pt1_def)
  show "walk (pm_mem s2) (pt_root_ppn pt1) (p @ [i]) = Some f" using cc(1) by (simp add: pt1_def)
  show "pte_ppn (PageTableEntry_new f PTE_V) = f"
    by (rule pte_ppn_new [OF fa(4)])
qed

lemma find_pte_create_loop_inv:
  assumes "pt_inv l pt s" "path_ok p" "walk (pm_mem s) (pt_root_ppn pt) p = Some t"
    and "length p + length ids = 3" "\<forall>i \<in> set ids. i < 512" "ids \<noteq> []"
    and "find_pte_create_loop ids t pt s = Inr (ro, pt', s')"
  shows "\<exists>u. ro = Some (pte_addr u (last ids)) \<and> pt_extends l pt s pt' s'
    \<and> walk (pm_mem s') (pt_root_ppn pt) (p @ butlast ids) = Some u"
  using assms
proof (induction ids arbitrary: p t pt s)
  case Nil
  then show ?case by simp
next
  case (Cons i ids)
  let ?r = "pt_root_ppn pt"
  have i: "i < 512" using Cons.prems(5) by simp
  have slot: "load64 (pm_mem s) (pte_addr t i) = pte_at (pm_mem s) t i" by (simp add: pte_at_def)
  show ?case
  proof (cases "ids = []")
    case True
    then show ?thesis
      using Cons.prems i pt_extends_refl [OF Cons.prems(1)] by (simp add: pte_ref_def)
  next
    case False
    then have len: "length p \<le> 1" using Cons.prems(4) by (cases ids) auto
    have pi: "path_ok (p @ [i])" using Cons.prems(2) len i by (simp add: path_ok_snoc)
    show ?thesis
    proof (cases "is_valid (pte_at (pm_mem s) t i)")
      case True
      then have "find_pte_create_loop ids (pte_ppn (pte_at (pm_mem s) t i)) pt s = Inr (ro, pt', s')"
        using Cons.prems(7) i False by (simp add: pte_ref_def slot)
      moreover have "walk (pm_mem s) ?r (p @ [i]) = Some (pte_ppn (pte_at (pm_mem s) t i))"
        using Cons.prems(3) True by (simp add: walk_snoc)
      ultimately show ?thesis
        using Cons.IH [OF Cons.prems(1) pi] Cons.prems(4,5) False by simp
    next
      case inv: False
      then obtain f s1 where f: "frame_alloc s = Some (f, s1)"
        using Cons.prems(7) i False by (auto simp: pte_ref_def slot)
      define s2 where "s2 = s1\<lparr>pm_mem := store64 (pm_mem s1) (pte_addr t i) (PageTableEntry_new f PTE_V)\<rparr>"
      define pt1 where "pt1 = pt\<lparr>pt_frames := pt_frames pt @ [f]\<rparr>"
      note cs = create_step [OF Cons.prems(1,2) len Cons.prems(3) i inv f, folded s2_def pt1_def]
      have "find_pte_create_loop ids f pt1 s2 = Inr (ro, pt', s')"
        using Cons.prems(7) i False inv f cs(3)
        by (simp add: pte_ref_def slot Let_def s2_def [symmetric] pt1_def [symmetric])
      moreover have "pt_root_ppn pt1 = ?r" by (simp add: pt1_def)
      ultimately obtain u where u: "ro = Some (pte_addr u (last ids))" "pt_extends l pt1 s2 pt' s'"
        "walk (pm_mem s') ?r ((p @ [i]) @ butlast ids) = Some u"
        using Cons.IH [OF pt_extends_inv [OF cs(1)] pi cs(2)] Cons.prems(4,5) False by auto
      then show ?thesis using pt_extends_trans [OF cs(1) u(2)] False by auto
    qed
  qed
qed

section \<open>Mapping and unmapping\<close>

text \<open>Virtual page numbers of the 39-bit virtual address space.\<close>

abbreviation vpn_ok :: "VirtPageNum \<Rightarrow> bool" where
  "vpn_ok v \<equiv> unat v < 0x8000000"

lemma vpn_indexes_inject: "vpn_ok v \<Longrightarrow> vpn_ok w \<Longrightarrow> indexes v = indexes w \<longleftrightarrow> v = w"
  by (rule indexes_inject) simp_all

lemma find_pte_create_spec:
  assumes inv: "pt_inv l pt s" and ok: "find_pte_create vpn pt s = Inr (ro, pt', s')"
    and abc: "indexes vpn = [a, b, c]" "a < 512" "b < 512" "c < 512"
  shows "\<exists>t. ro = Some (pte_addr t c) \<and> pt_extends l pt s pt' s'
    \<and> walk (pm_mem s') (pt_root_ppn pt) [a, b] = Some t"
  using find_pte_create_loop_inv [OF inv, of "[]" "pt_root_ppn pt" "[a, b, c]" ro pt' s'] ok abc
  by (simp add: find_pte_create_def path_ok_def del: find_pte_create_loop.simps walk.simps)
    (simp add: abc)

text \<open>The effect of a successful \<open>map\<close> on everything the page table and its clients share.\<close>

definition pt_maps ::
  "PhysPageNum \<Rightarrow> VirtPageNum \<Rightarrow> PageTableEntry \<Rightarrow> PageTable \<Rightarrow> phys \<Rightarrow> PageTable \<Rightarrow> phys \<Rightarrow> bool" where
  "pt_maps l vpn e pt s pt' s' \<longleftrightarrow>
     pt_inv l pt' s' \<and> pt_root_ppn pt' = pt_root_ppn pt \<and>
     set (pt_frames pt) \<subseteq> set (pt_frames pt') \<and>
     frames_live l s' = frames_live l s \<union> set (pt_frames pt') \<and>
     (set (pt_frames pt') - set (pt_frames pt)) \<inter> frames_live l s = {} \<and>
     (\<forall>w. vpn_ok w \<longrightarrow> pt_lookup (pm_mem s') (pt_root_ppn pt) w =
        (if w = vpn then Some e else pt_lookup (pm_mem s) (pt_root_ppn pt) w)) \<and>
     (\<forall>a. outside pt' a \<longrightarrow> pm_mem s' a = pm_mem s a)"

lemma PageTable_map_spec:
  assumes inv: "pt_inv l pt s" and vpn: "vpn_ok vpn"
    and ok: "PageTable_map vpn ppn perm pt s = Inr (pt', s')"
  shows "pt_maps l vpn (PageTableEntry_new ppn (perm OR PTE_V)) pt s pt' s'"
    and "pt_lookup (pm_mem s) (pt_root_ppn pt) vpn = None"
proof -
  let ?r = "pt_root_ppn pt" and ?e = "PageTableEntry_new ppn (perm OR PTE_V)"
  obtain a b c where abc: "indexes vpn = [a, b, c]" "a < 512" "b < 512" "c < 512"
    by (rule indexes_cases)
  obtain ro s1 where r1: "find_pte_create vpn pt s = Inr (ro, pt', s1)"
    and pte: "\<exists>x. ro = Some x \<and> \<not> is_valid (load64 (pm_mem s1) x)
      \<and> s' = s1\<lparr>pm_mem := store64 (pm_mem s1) x ?e\<rparr>"
    using ok by (auto simp: PageTable_map_def)
  obtain t where t: "ro = Some (pte_addr t c)" and ext: "pt_extends l pt s pt' s1"
    and w: "walk (pm_mem s1) ?r [a, b] = Some t"
    using find_pte_create_spec [OF inv r1 abc] by auto
  have root: "pt_root_ppn pt' = ?r" and wf: "pt_wf (pm_mem s1) pt'"
    using ext by (auto simp: pt_extends_def)
  have inval: "\<not> is_valid (pte_at (pm_mem s1) t c)"
    and m': "pm_mem s' = store64 (pm_mem s1) (pte_addr t c) ?e" and fr: "pm_frames s' = pm_frames s1"
    using pte t by (auto simp: pte_at_def)
  have ab: "path_ok [a, b]" using abc by (simp add: path_ok_2)
  have w': "walk (pm_mem s1) (pt_root_ppn pt') [a, b] = Some t" using w root by simp
  note leaf = store_leaf [where v = ?e, OF wf ab _ w' abc(4), folded m']
  have iff: "indexes v = [a, b] @ [c] \<longleftrightarrow> v = vpn" if "vpn_ok v" for v
    using vpn_indexes_inject [OF that vpn] abc(1) by simp
  show "pt_lookup (pm_mem s) ?r vpn = None"
  proof -
    have "pt_lookup (pm_mem s1) ?r vpn = None"
      using w inval abc(1) by (simp add: pt_lookup_eq del: walk.simps)
    then show ?thesis using ext by (simp add: pt_extends_def)
  qed
  show "pt_maps l vpn ?e pt s pt' s'"
    using ext leaf root iff is_valid_new_V [of ppn perm]
    by (auto simp: pt_maps_def pt_extends_def pt_inv_def fr simp del: append.simps)
qed

lemma PageTable_map_mapped:
  assumes "pt_lookup (pm_mem s) (pt_root_ppn pt) vpn = Some e"
  shows "PageTable_map vpn ppn perm pt s = Inl AssertionFailed"
proof -
  obtain a b c where abc: "indexes vpn = [a, b, c]" "a < 512" "b < 512" "c < 512"
    by (rule indexes_cases)
  then obtain t where t: "walk (pm_mem s) (pt_root_ppn pt) [a, b] = Some t"
    and e: "is_valid (pte_at (pm_mem s) t c)"
    using assms by (auto simp: pt_lookup_eq simp del: walk.simps split: option.splits if_splits)
  from t have "find_pte_create vpn pt s = Inr (Some (pte_addr t c), pt, s)"
    using abc by (auto simp: find_pte_create_def pte_ref_def pte_at_def split: if_splits)
  then show ?thesis using e by (simp add: PageTable_map_def pte_at_def)
qed

text \<open>Two free frames are enough: at most two tables are missing.\<close>

lemma find_pte_create_loop_total:
  assumes "pt_inv l pt s" "path_ok p" "walk (pm_mem s) (pt_root_ppn pt) p = Some t"
    and "length p + length ids = 3" "\<forall>i \<in> set ids. i < 512" "ids \<noteq> []"
    and "length ids \<le> Suc (fa_avail (pm_frames s))"
  shows "\<exists>x. find_pte_create_loop ids t pt s = Inr x"
  using assms
proof (induction ids arbitrary: p t pt s)
  case Nil
  then show ?case by simp
next
  case (Cons i ids)
  have i: "i < 512" using Cons.prems(5) by simp
  show ?case
  proof (cases "ids = []")
    case True
    then show ?thesis using i by (simp add: pte_ref_def)
  next
    case False
    then have len: "length p \<le> 1" using Cons.prems(4) by (cases ids) auto
    have pi: "path_ok (p @ [i])" using Cons.prems(2) len i by (simp add: path_ok_snoc)
    show ?thesis
    proof (cases "is_valid (pte_at (pm_mem s) t i)")
      case True
      then have "walk (pm_mem s) (pt_root_ppn pt) (p @ [i]) = Some (pte_ppn (pte_at (pm_mem s) t i))"
        using Cons.prems(3) by (simp add: walk_snoc)
      then show ?thesis
        using Cons.IH [OF Cons.prems(1) pi] Cons.prems(4,5,7) False True i
        by (simp add: pte_ref_def pte_at_def)
    next
      case inv: False
      have "0 < fa_avail (pm_frames s)" using Cons.prems(7) False by (cases ids) auto
      then obtain f s1 where f: "frame_alloc s = Some (f, s1)"
        and av: "fa_avail (pm_frames s1) = fa_avail (pm_frames s) - 1"
        using frame_alloc_avail [of l s] Cons.prems(1) by (auto simp: pt_inv_def)
      define s2 where "s2 = s1\<lparr>pm_mem := store64 (pm_mem s1) (pte_addr t i) (PageTableEntry_new f PTE_V)\<rparr>"
      define pt1 where "pt1 = pt\<lparr>pt_frames := pt_frames pt @ [f]\<rparr>"
      note cs = create_step [OF Cons.prems(1,2) len Cons.prems(3) i inv f, folded s2_def pt1_def]
      have "length ids \<le> Suc (fa_avail (pm_frames s2))"
        using Cons.prems(7) av cs(4) by simp
      then obtain x where "find_pte_create_loop ids f pt1 s2 = Inr x"
        using Cons.IH [OF pt_extends_inv [OF cs(1)] pi cs(2)] Cons.prems(4,5) False by auto
      then show ?thesis
        using i False inv f cs(3)
        by (cases x) (simp add: pte_ref_def pte_at_def Let_def s2_def [symmetric] pt1_def [symmetric])
    qed
  qed
qed

lemma PageTable_map_total:
  assumes inv: "pt_inv l pt s" and vpn: "vpn_ok vpn"
    and none: "pt_lookup (pm_mem s) (pt_root_ppn pt) vpn = None"
    and av: "2 \<le> fa_avail (pm_frames s)"
  shows "\<exists>pt' s'. PageTable_map vpn ppn perm pt s = Inr (pt', s')"
proof -
  obtain a b c where abc: "indexes vpn = [a, b, c]" "a < 512" "b < 512" "c < 512"
    by (rule indexes_cases)
  obtain ro pt1 s1 where r1: "find_pte_create vpn pt s = Inr (ro, pt1, s1)"
    using find_pte_create_loop_total [OF inv, of "[]" "pt_root_ppn pt" "[a, b, c]"] abc av
    by (auto simp: find_pte_create_def path_ok_def simp del: find_pte_create_loop.simps)
  obtain t where t: "ro = Some (pte_addr t c)" and ext: "pt_extends l pt s pt1 s1"
    and w: "walk (pm_mem s1) (pt_root_ppn pt) [a, b] = Some t"
    using find_pte_create_spec [OF inv r1 abc] by auto
  have "pt_lookup (pm_mem s1) (pt_root_ppn pt) vpn = None" using ext none by (simp add: pt_extends_def)
  then have "\<not> is_valid (pte_at (pm_mem s1) t c)"
    using w abc(1) by (simp add: pt_lookup_eq del: walk.simps split: if_splits)
  then show ?thesis using r1 t by (simp add: PageTable_map_def pte_at_def)
qed

lemma PageTable_unmap_spec:
  assumes inv: "pt_inv l pt s" and vpn: "vpn_ok vpn"
    and some: "pt_lookup (pm_mem s) (pt_root_ppn pt) vpn = Some e"
  shows "\<exists>s'. PageTable_unmap vpn pt s = Inr s' \<and> pt_inv l pt s' \<and> pm_frames s' = pm_frames s
    \<and> (\<forall>w. vpn_ok w \<longrightarrow> pt_lookup (pm_mem s') (pt_root_ppn pt) w =
        (if w = vpn then None else pt_lookup (pm_mem s) (pt_root_ppn pt) w))
    \<and> (\<forall>a. outside pt a \<longrightarrow> pm_mem s' a = pm_mem s a)"
proof -
  let ?r = "pt_root_ppn pt"
  obtain a b c where abc: "indexes vpn = [a, b, c]" "a < 512" "b < 512" "c < 512"
    by (rule indexes_cases)
  then obtain t where t: "walk (pm_mem s) ?r [a, b] = Some t" and v: "is_valid (pte_at (pm_mem s) t c)"
    using some by (auto simp: pt_lookup_eq simp del: walk.simps split: option.splits if_splits)
  have ab: "path_ok [a, b]" using abc by (simp add: path_ok_2)
  have wf: "pt_wf (pm_mem s) pt" using inv by (simp add: pt_inv_def)
  define s' where "s' = s\<lparr>pm_mem := store64 (pm_mem s) (pte_addr t c) PageTableEntry_empty\<rparr>"
  have m': "pm_mem s' = store64 (pm_mem s) (pte_addr t c) PageTableEntry_empty"
    and fr: "pm_frames s' = pm_frames s" by (simp_all add: s'_def)
  note leaf = store_leaf [where v = PageTableEntry_empty, OF wf ab _ t abc(4), folded m']
  have iff: "indexes x = [a, b] @ [c] \<longleftrightarrow> x = vpn" if "vpn_ok x" for x
    using vpn_indexes_inject [OF that vpn] abc(1) by simp
  have "PageTable_unmap vpn pt s = Inr s'"
    using v t find_pte_eq [OF abc, of ?r "pm_mem s"]
    by (simp add: PageTable_unmap_def s'_def pte_at_def del: walk.simps)
  moreover have "pt_inv l pt s'" using inv leaf(1) by (simp add: pt_inv_def fr)
  ultimately show ?thesis
    using leaf(2,3) iff by (auto simp: fr PageTableEntry_empty_def simp del: append.simps)
qed

lemma PageTable_unmap_unmapped:
  assumes none: "pt_lookup (pm_mem s) (pt_root_ppn pt) vpn = None"
  shows "\<exists>e. PageTable_unmap vpn pt s = Inl e"
proof -
  obtain a b c where abc: "indexes vpn = [a, b, c]" "a < 512" "b < 512" "c < 512"
    by (rule indexes_cases)
  show ?thesis
    using none find_pte_eq [OF abc, of "pt_root_ppn pt" "pm_mem s"] abc(1)
    by (auto simp: PageTable_unmap_def pt_lookup_eq pte_at_def simp del: walk.simps
        split: option.splits if_splits)
qed

section \<open>The contract of the paging layer\<close>

lemma find_pte_create_loop_avail:
  assumes "phys_inv l s" "find_pte_create_loop ids ppn pt s = Inr (r, pt', s')"
  shows "fa_avail (pm_frames s) \<le> fa_avail (pm_frames s') + (length ids - 1)"
  using assms
proof (induction ids ppn pt s rule: find_pte_create_loop.induct)
  case (2 i ids ppn pt s)
  obtain pte where pte: "pte_ref ppn i = Inr pte" using 2(4) by auto
  show ?case
  proof (cases "ids = [] \<or> is_valid (load64 (pm_mem s) pte)")
    case True
    then show ?thesis
    proof (cases "ids = []")
      case True
      then show ?thesis using 2(4) pte by simp
    next
      case False
      then have "fa_avail (pm_frames s) \<le> fa_avail (pm_frames s') + (length ids - 1)"
        using 2(2) [OF pte False] 2(3,4) True pte by simp
      then show ?thesis by simp
    qed
  next
    case False
    then obtain f s1 where f: "frame_alloc s = Some (f, s1)" using 2(4) pte by auto
    have av: "fa_avail (pm_frames s) = fa_avail (pm_frames s1) + 1"
      by (rule frame_alloc_avail_eq [OF 2(3) f])
    define s2 where "s2 = s1\<lparr>pm_mem := store64 (pm_mem s1) pte (PageTableEntry_new f PTE_V)\<rparr>"
    have "fa_avail (pm_frames s2) \<le> fa_avail (pm_frames s') + (length ids - 1)"
      using 2(1) [OF pte, of "(f, s1)" f s1 s2] 2(4) False f pte frame_alloc_SomeD(1) [OF 2(3) f]
      by (simp add: s2_def Let_def)
    then show ?thesis using av False by (cases ids) (auto simp: s2_def)
  qed
qed simp

lemma find_pte_create_loop_root:
  "find_pte_create_loop ids ppn pt s = Inr (r, pt', s') \<Longrightarrow> pt_root_ppn pt' = pt_root_ppn pt"
proof (induction ids ppn pt s rule: find_pte_create_loop.induct)
  case (2 i ids ppn pt s)
  then show ?case by (fastforce simp: Let_def split: if_splits)
qed simp

lemma PageTable_map_root:
  "PageTable_map vpn ppn perm pt s = Inr (pt', s') \<Longrightarrow> pt_root_ppn pt' = pt_root_ppn pt"
  by (auto simp: PageTable_map_def find_pte_create_def dest: find_pte_create_loop_root)

lemma PageTable_map_avail:
  assumes "phys_inv l s" "PageTable_map vpn ppn perm pt s = Inr (pt', s')"
  shows "fa_avail (pm_frames s) \<le> fa_avail (pm_frames s') + 2"
proof -
  obtain r s1 where "find_pte_create vpn pt s = Inr (r, pt', s1)" "pm_frames s' = pm_frames s1"
    using assms(2) by (auto simp: PageTable_map_def)
  moreover have "length (indexes vpn) - 1 = 2"
    by (metis indexes_cases length_Cons list.size(3) One_nat_def diff_Suc_1 numeral_2_eq_2)
  ultimately show ?thesis
    using find_pte_create_loop_avail [OF assms(1), of "indexes vpn"] by (fastforce simp: find_pte_create_def)
qed

lemma frame_alloc_pt_inv:
  assumes inv: "pt_inv l pt s" and f: "frame_alloc s = Some (p, s')"
  shows "pt_inv l pt s'"
    and "pt_lookup (pm_mem s') (pt_root_ppn pt) w = pt_lookup (pm_mem s) (pt_root_ppn pt) w"
proof -
  have ph: "phys_inv l s" and wf: "pt_wf (pm_mem s) pt" and li: "set (pt_frames pt) \<subseteq> frames_live l s"
    using inv by (auto simp: pt_inv_def)
  note F = frame_alloc_SomeD [OF ph f]
  have "p \<notin> set (pt_frames pt)" using F(2) li by auto
  note fresh = fill_fresh [OF wf F(4) this]
  show "pt_inv l pt s'" using F li fresh(2) by (auto simp: pt_inv_def)
  show "pt_lookup (pm_mem s') (pt_root_ppn pt) w = pt_lookup (pm_mem s) (pt_root_ppn pt) w"
    using F(5) fresh(3) by simp
qed

lemma frames_live_ok: "phys_inv l s \<Longrightarrow> p \<in> frames_live l s \<Longrightarrow> ppn_ok p"
  using fa_live_ok by blast

text \<open>A frame of the allocator that is not a table lies outside the tree.\<close>

lemma outside_other_page:
  assumes "pt_inv l pt s" "q \<in> frames_live l s - set (pt_frames pt)" "in_page q a"
  shows "outside pt a"
proof (intro ballI notI)
  fix f assume f: "f \<in> set (pt_frames pt)" "in_page f a"
  have "ppn_ok f" "ppn_ok q" "f \<noteq> q"
    using assms(1,2) f(1) frames_live_ok [of l s] by (auto simp: pt_inv_def pt_wf_def)
  then show False using in_page_disjoint [of f q a] f(2) assms(3) by simp
qed

text \<open>The operations of the contract, on a page table paired with physical memory.\<close>

abbreviation pt_alloc :: "PageTable \<times> phys \<Rightarrow> (PhysPageNum \<times> PageTable \<times> phys) option" where
  "pt_alloc \<equiv> \<lambda>(pt, s). map_option (\<lambda>(p, s'). (p, pt, s')) (frame_alloc s)"

abbreviation pt_dealloc :: "PhysPageNum \<Rightarrow> PageTable \<times> phys \<Rightarrow> (PageTable \<times> phys) result" where
  "pt_dealloc \<equiv> \<lambda>p (pt, s). rbind (frame_dealloc p s) (\<lambda>s'. Inr (pt, s'))"

abbreviation pt_map ::
  "VirtPageNum \<Rightarrow> PhysPageNum \<Rightarrow> u8 \<Rightarrow> PageTable \<times> phys \<Rightarrow> (PageTable \<times> phys) result" where
  "pt_map \<equiv> \<lambda>v p f (pt, s). PageTable_map v p f pt s"

abbreviation pt_unmap :: "VirtPageNum \<Rightarrow> PageTable \<times> phys \<Rightarrow> (PageTable \<times> phys) result" where
  "pt_unmap \<equiv> \<lambda>v (pt, s). rbind (PageTable_unmap v pt s) (\<lambda>s'. Inr (pt, s'))"

abbreviation pt_entry :: "PhysPageNum \<Rightarrow> u8 \<Rightarrow> PageTableEntry" where
  "pt_entry \<equiv> \<lambda>p f. PageTableEntry_new p (f OR PTE_V)"

interpretation pt: page_mapper
  "\<lambda>(pt, s). pt_inv l pt s" vpn_ok "\<lambda>(pt, s). pt_lookup (pm_mem s) (pt_root_ppn pt)"
  "\<lambda>(pt, s). frames_live l s" "\<lambda>(pt, s). set (pt_frames pt)"
  "\<lambda>(pt, s) p. get_bytes_array p (pm_mem s)" "replicate 4096 0"
  "\<lambda>(pt, s). fa_avail (pm_frames s)"
  pt_entry pt_alloc pt_dealloc pt_map pt_unmap
  "\<lambda>p bs (pt, s). (pt, s\<lparr>pm_mem := copy_to_page p bs (pm_mem s)\<rparr>)"
  for l
proof (unfold_locales, goal_cases)
  case (1 s)
  then show ?case by (auto simp: pt_inv_def split: prod.splits)
next
  case (2 s p s')
  obtain pt ph where s: "s = (pt, ph)" by (cases s)
  obtain ph' where f: "frame_alloc ph = Some (p, ph')" and s': "s' = (pt, ph')" using 2(2) s by auto
  have inv: "pt_inv l pt ph" using 2(1) s by simp
  then have pi: "phys_inv l ph" by (simp add: pt_inv_def)
  note F = frame_alloc_SomeD [OF pi f]
  have "get_bytes_array q (pm_mem ph') = get_bytes_array q (pm_mem ph)" if "q \<in> frames_live l ph" for q
  proof -
    have "q \<noteq> p" using that F(2) by auto
    then show ?thesis using F(5) get_bytes_array_fill_other [OF F(4) frames_live_ok [OF pi that]] by simp
  qed
  then show ?case
    using F frame_alloc_pt_inv [OF inv f] by (simp add: s s' get_bytes_array_fill_same)
next
  case (3 s)
  then show ?case using frame_alloc_avail [of l "snd s"]
    by (cases s) (auto simp: pt_inv_def)
next
  case (4 s p)
  obtain pt ph where s: "s = (pt, ph)" by (cases s)
  have inv: "pt_inv l pt ph" and p: "p \<in> frames_live l ph" "p \<notin> set (pt_frames pt)" using 4 s by auto
  then obtain a' where "fa_dealloc p (pm_frames ph) = Inr a'" "fa_inv l a'"
    "fa_live l a' = frames_live l ph - {p}"
    using fa_dealloc_live [of l "pm_frames ph" p] by (auto simp: pt_inv_def)
  then show ?case using inv p by (auto simp: s frame_dealloc_def pt_inv_def)
next
  case (5 s v p f s')
  obtain pt ph pt' ph' where s: "s = (pt, ph)" and s': "s' = (pt', ph')" by (cases s, cases s')
  have inv: "pt_inv l pt ph" and ok: "PageTable_map v p f pt ph = Inr (pt', ph')" using 5 s s' by auto
  note M = PageTable_map_spec [OF inv 5(2) ok]
  have inv': "pt_inv l pt' ph'" using M(1) by (simp add: pt_maps_def)
  have "get_bytes_array q (pm_mem ph') = get_bytes_array q (pm_mem ph)"
    if "q \<in> frames_live l ph - set (pt_frames pt)" for q
  proof -
    have "q \<in> frames_live l ph' - set (pt_frames pt')" using that M(1) by (auto simp: pt_maps_def)
    then have "outside pt' a" if "in_page q a" for a using outside_other_page [OF inv'] that by blast
    then show ?thesis using M(1) by (simp add: get_bytes_array_eq_iff pt_maps_def)
  qed
  then show ?case using M by (auto simp: s s' pt_maps_def)
next
  case (6 s v p f)
  obtain pt ph where s: "s = (pt, ph)" by (cases s)
  then have inv: "pt_inv l pt ph" "phys_inv l ph" using 6(1) by (auto simp: pt_inv_def)
  obtain pt' ph' where "PageTable_map v p f pt ph = Inr (pt', ph')"
    using PageTable_map_total [OF inv(1) 6(2), of p f] 6(3,4) s by auto
  then show ?case using PageTable_map_avail [OF inv(2)] s by auto
next
  case (7 s v e p f)
  then show ?case using PageTable_map_mapped by (auto split: prod.splits)
next
  case (8 s v e)
  obtain pt ph where s: "s = (pt, ph)" by (cases s)
  then have inv: "pt_inv l pt ph" using 8 by simp
  obtain ph' where U: "PageTable_unmap v pt ph = Inr ph'" "pt_inv l pt ph'" "pm_frames ph' = pm_frames ph"
    "\<And>w. vpn_ok w \<Longrightarrow> pt_lookup (pm_mem ph') (pt_root_ppn pt) w =
        (if w = v then None else pt_lookup (pm_mem ph) (pt_root_ppn pt) w)"
    "\<And>a. outside pt a \<Longrightarrow> pm_mem ph' a = pm_mem ph a"
    using PageTable_unmap_spec [OF inv 8(2)] 8(3) s by auto
  have "get_bytes_array q (pm_mem ph') = get_bytes_array q (pm_mem ph)"
    if "q \<in> frames_live l ph - set (pt_frames pt)" for q
    using outside_other_page [OF inv that] U(5) by (simp add: get_bytes_array_eq_iff)
  then show ?case using U by (auto simp: s)
next
  case (9 s v)
  then show ?case using PageTable_unmap_unmapped [of "snd s" "fst s" v] by (cases s) auto
next
  case (10 s p bs)
  obtain pt ph where s: "s = (pt, ph)" by (cases s)
  then have inv: "pt_inv l pt ph" and p: "p \<in> frames_live l ph - set (pt_frames pt)" using 10 by auto
  then have ph: "phys_inv l ph" and wf: "pt_wf (pm_mem ph) pt" by (auto simp: pt_inv_def)
  have bs: "length bs \<le> 4096" using 10(3) by simp
  let ?m = "copy_to_page p bs (pm_mem ph)"
  have same: "?m a = pm_mem ph a" if "\<not> outside pt a" for a
    using copy_to_page_outside [OF bs] outside_other_page [OF inv p] that by blast
  have "get_bytes_array q ?m = (if q = p then bs @ drop (length bs) (get_bytes_array p (pm_mem ph))
      else get_bytes_array q (pm_mem ph))" if "q \<in> frames_live l ph" for q
    using that p frames_live_ok [OF ph] bs
    by (simp add: get_bytes_array_copy_same get_bytes_array_copy_other)
  then show ?case
    using pt_cong [OF wf same] inv by (simp add: s pt_inv_def)
qed

section \<open>Properties\<close>

text \<open>A new page table owns its root and translates nothing.\<close>

lemma PageTable_new_spec:
  assumes inv: "phys_inv l s" and ok: "PageTable_new s = Inr (pt, s')"
  shows "pt_inv l pt s'" "pt_lookup (pm_mem s') (pt_root_ppn pt) w = None"
    "set (pt_frames pt) \<inter> frames_live l s = {}"
    "frames_live l s' = frames_live l s \<union> set (pt_frames pt)"
    "q \<in> frames_live l s \<Longrightarrow> get_bytes_array q (pm_mem s') = get_bytes_array q (pm_mem s)"
proof -
  obtain f where f: "frame_alloc s = Some (f, s')" and pt: "pt = \<lparr>pt_root_ppn = f, pt_frames = [f]\<rparr>"
    using ok by (auto simp: PageTable_new_def)
  note F = frame_alloc_SomeD [OF inv f]
  have inval: "\<not> is_valid (pte_at (pm_mem s') f i)" if "i < 512" for i
    using pte_at_fill_same [OF F(4) that] by (simp add: F(5))
  then have walk: "walk (pm_mem s') f p = (if p = [] then Some f else None)" if "path_ok p" for p
    using that by (cases p) (auto simp: path_ok_def)
  then have "pt_wf (pm_mem s') pt" using F(4) by (auto simp: pt_wf_def pt split: if_splits)
  then show "pt_inv l pt s'" using F by (simp add: pt_inv_def pt)
  obtain a b c where abc: "indexes w = [a, b, c]" "a < 512" "b < 512" "c < 512" by (rule indexes_cases)
  then show "pt_lookup (pm_mem s') (pt_root_ppn pt) w = None"
    using inval by (simp add: pt_lookup_eq pt)
  show "set (pt_frames pt) \<inter> frames_live l s = {}"
    "frames_live l s' = frames_live l s \<union> set (pt_frames pt)"
    using F by (auto simp: pt)
  show "get_bytes_array q (pm_mem s') = get_bytes_array q (pm_mem s)" if "q \<in> frames_live l s"
  proof -
    have "q \<noteq> f" using that F(2) by auto
    then show ?thesis using F(5) get_bytes_array_fill_other [OF F(4) frames_live_ok [OF inv that]] by simp
  qed
qed

lemma translate_lookup:
  assumes "pt_lookup m r vpn = Some e"
  shows "translate vpn r m = Inr (Some e)"
proof -
  obtain a b c where abc: "indexes vpn = [a, b, c]" "a < 512" "b < 512" "c < 512" by (rule indexes_cases)
  then show ?thesis
    using assms by (auto simp: translate_eq [OF abc] pt_lookup_eq simp del: walk.simps
        split: option.splits if_splits)
qed

text \<open>A concrete machine for the witnesses: the kernel ends at 0x80400000, one empty page table.\<close>

definition phys0 :: phys where
  "phys0 = init_frame_allocator 0x80400000 \<lparr>pm_mem = \<lambda>_. 0, pm_frames = fa_new\<rparr>"

lemma phys0_inv: "phys_inv (first_frame 0x80400000) phys0"
  unfolding phys0_def by (rule init_frame_allocator_inv) (simp_all add: MEMORY_END_def)

lemma phys0_avail: "fa_avail (pm_frames phys0) = 31744"
proof -
  have "PhysAddr_from 0x80400000 = 0x80400000" by (rule PhysAddr_from_small) simp
  then have "unat (first_frame 0x80400000) = 0x80400" by (simp add: unat_addr_ceil)
  then show ?thesis
    by (simp add: phys0_def init_frame_allocator_def fa_init_def fa_avail_def MEMORY_END_floor fa_new_def)
qed

lemma new_table0:
  obtains pt s where "PageTable_new phys0 = Inr (pt, s)" "pt_inv (first_frame 0x80400000) pt s"
    "\<And>w. pt_lookup (pm_mem s) (pt_root_ppn pt) w = None" "fa_avail (pm_frames s) = 31743"
proof -
  obtain p s where f: "frame_alloc phys0 = Some (p, s)" "fa_avail (pm_frames s) = 31743"
    using frame_alloc_avail [OF phys0_inv] phys0_avail by auto
  then have "PageTable_new phys0 = Inr (\<lparr>pt_root_ppn = p, pt_frames = [p]\<rparr>, s)"
    by (simp add: PageTable_new_def)
  then show ?thesis using that PageTable_new_spec(1,2) [OF phys0_inv] f by blast
qed

text \<open>
  C5. \<open>PageTable::map\<close> adds exactly one translation: on a well-formed page table whose tables are
  live frames, a call that returns found the page unmapped, afterwards \<open>translate\<close> returns the
  new entry (the given frame, the given permission bits and V), every other page of the Sv39 space
  translates as before, the table is still well formed, and of the memory in use before only the
  table's own frames were written.
\<close>

theorem PageTable_map_adds_one:
  assumes "pt_inv l pt s" "vpn_ok vpn" "PageTable_map vpn ppn perm pt s = Inr (pt', s')"
  shows "pt_inv l pt' s' \<and> pt_root_ppn pt' = pt_root_ppn pt
    \<and> pt_lookup (pm_mem s) (pt_root_ppn pt) vpn = None
    \<and> translate vpn (pt_root_ppn pt') (pm_mem s') = Inr (Some (PageTableEntry_new ppn (perm OR PTE_V)))
    \<and> (\<forall>w. vpn_ok w \<and> w \<noteq> vpn \<longrightarrow>
          pt_lookup (pm_mem s') (pt_root_ppn pt') w = pt_lookup (pm_mem s) (pt_root_ppn pt) w)
    \<and> (\<forall>q \<in> frames_live l s - set (pt_frames pt).
          get_bytes_array q (pm_mem s') = get_bytes_array q (pm_mem s))"
proof -
  have M: "pt_maps l vpn (PageTableEntry_new ppn (perm OR PTE_V)) pt s pt' s'"
    and none: "pt_lookup (pm_mem s) (pt_root_ppn pt) vpn = None"
    using PageTable_map_spec [OF assms] by blast+
  then have "translate vpn (pt_root_ppn pt') (pm_mem s') = Inr (Some (PageTableEntry_new ppn (perm OR PTE_V)))"
    using assms(2) by (auto simp: pt_maps_def intro: translate_lookup)
  then show ?thesis
    using M none pt.map_ok [of l "(pt, s)" vpn ppn perm "(pt', s')"] assms by (auto simp: pt_maps_def)
qed

theorem PageTable_map_adds_one_witness:
  "\<exists>pt s pt' s'. pt_inv (first_frame 0x80400000) pt s
    \<and> PageTable_map 5 0x80123 (PTE_R OR PTE_U) pt s = Inr (pt', s')
    \<and> translate 5 (pt_root_ppn pt') (pm_mem s')
        = Inr (Some (PageTableEntry_new 0x80123 ((PTE_R OR PTE_U) OR PTE_V)))"
proof -
  obtain pt s where new: "PageTable_new phys0 = Inr (pt, s)" "pt_inv (first_frame 0x80400000) pt s"
    "\<And>w. pt_lookup (pm_mem s) (pt_root_ppn pt) w = None" "fa_avail (pm_frames s) = 31743"
    by (rule new_table0) blast
  then obtain pt' s' where m: "PageTable_map 5 0x80123 (PTE_R OR PTE_U) pt s = Inr (pt', s')"
    using PageTable_map_total [OF new(2), of 5 "0x80123" "PTE_R OR PTE_U"] by auto
  then show ?thesis using PageTable_map_adds_one [OF new(2) _ m] new(2) by auto
qed

text \<open>
  C10. \<open>PageTable::map\<close> of an unmapped page returns whenever two frames are free (at most two
  tables are missing on the path), and of a mapped page it fails its assertion.
\<close>

theorem PageTable_map_returns:
  assumes "pt_inv l pt s" "vpn_ok vpn" "2 \<le> fa_avail (pm_frames s)"
  shows "(\<exists>pt' s'. PageTable_map vpn ppn perm pt s = Inr (pt', s'))
    \<longleftrightarrow> pt_lookup (pm_mem s) (pt_root_ppn pt) vpn = None"
  using PageTable_map_total [OF assms(1,2) _ assms(3)] PageTable_map_mapped
  by (metis Inr_not_Inl not_None_eq)

theorem PageTable_map_returns_witness:
  "\<exists>pt s pt' s'. pt_inv (first_frame 0x80400000) pt s \<and> 2 \<le> fa_avail (pm_frames s)
    \<and> PageTable_map 5 0x80123 PTE_R pt s = Inr (pt', s')"
proof -
  obtain pt s where new: "PageTable_new phys0 = Inr (pt, s)" "pt_inv (first_frame 0x80400000) pt s"
    "\<And>w. pt_lookup (pm_mem s) (pt_root_ppn pt) w = None" "fa_avail (pm_frames s) = 31743"
    by (rule new_table0) blast
  moreover have "2 \<le> fa_avail (pm_frames s)" using new(4) by simp
  ultimately show ?thesis using PageTable_map_returns [OF new(2), of 5 "0x80123" PTE_R] by fastforce
qed

text \<open>
  C11. \<open>PageTable::unmap\<close> undoes \<open>map\<close>: it returns on every mapped page and panics on an
  unmapped one; afterwards the page is unmapped, every other page translates as before, and no
  frame was allocated or freed.
\<close>

theorem PageTable_unmap_undoes_map:
  assumes "pt_inv l pt s" "vpn_ok vpn" "PageTable_map vpn ppn perm pt s = Inr (pt1, s1)"
  shows "\<exists>s2. PageTable_unmap vpn pt1 s1 = Inr s2 \<and> pt_inv l pt1 s2 \<and> pm_frames s2 = pm_frames s1
    \<and> (\<forall>w. vpn_ok w \<longrightarrow>
          pt_lookup (pm_mem s2) (pt_root_ppn pt1) w = pt_lookup (pm_mem s) (pt_root_ppn pt) w)
    \<and> (\<exists>e. PageTable_unmap vpn pt1 s2 = Inl e)"
proof -
  note M = PageTable_map_spec [OF assms]
  have inv1: "pt_inv l pt1 s1" and root: "pt_root_ppn pt1 = pt_root_ppn pt"
    and look: "\<And>w. vpn_ok w \<Longrightarrow> pt_lookup (pm_mem s1) (pt_root_ppn pt1) w =
       (if w = vpn then Some (PageTableEntry_new ppn (perm OR PTE_V))
        else pt_lookup (pm_mem s) (pt_root_ppn pt) w)"
    using M(1) by (auto simp: pt_maps_def)
  obtain s2 where s2: "PageTable_unmap vpn pt1 s1 = Inr s2" "pt_inv l pt1 s2" "pm_frames s2 = pm_frames s1"
    "\<And>w. vpn_ok w \<Longrightarrow> pt_lookup (pm_mem s2) (pt_root_ppn pt1) w =
        (if w = vpn then None else pt_lookup (pm_mem s1) (pt_root_ppn pt1) w)"
    using PageTable_unmap_spec [OF inv1 assms(2)] look [OF assms(2)] by auto
  then have "pt_lookup (pm_mem s2) (pt_root_ppn pt1) w = pt_lookup (pm_mem s) (pt_root_ppn pt) w"
    if "vpn_ok w" for w
    using look [OF that] M(2) that by simp
  moreover have "\<exists>e. PageTable_unmap vpn pt1 s2 = Inl e"
    by (rule PageTable_unmap_unmapped) (use s2(4) [OF assms(2)] in simp)
  ultimately show ?thesis using s2(1-3) by blast
qed

theorem PageTable_unmap_undoes_map_witness:
  "\<exists>pt s pt1 s1 s2. pt_inv (first_frame 0x80400000) pt s
    \<and> PageTable_map 7 0x80123 PTE_R pt s = Inr (pt1, s1) \<and> PageTable_unmap 7 pt1 s1 = Inr s2"
proof -
  obtain pt s where new: "PageTable_new phys0 = Inr (pt, s)" "pt_inv (first_frame 0x80400000) pt s"
    "\<And>w. pt_lookup (pm_mem s) (pt_root_ppn pt) w = None" "fa_avail (pm_frames s) = 31743"
    by (rule new_table0) blast
  then obtain pt' s' where m: "PageTable_map 7 0x80123 PTE_R pt s = Inr (pt', s')"
    using PageTable_map_total [OF new(2), of 7 "0x80123" PTE_R] by auto
  then obtain s2 where "PageTable_unmap 7 pt' s' = Inr s2"
    using PageTable_unmap_undoes_map [OF new(2) _ m] by auto
  then show ?thesis using new(2) m by blast
qed

end
