(* ===== verification/BTreeMap.thy ===== *)
theory BTreeMap
  imports Prelude
begin

text \<open>
  \<open>alloc::collections::BTreeMap\<close> as the kernel uses it: a map whose iteration order, and so the
  order in which its values are dropped, is the order of the keys. It is represented by the
  ascending list of its entries; \<open>map_of\<close> is the lookup.
\<close>

fun bt_insert :: "'k::linorder \<Rightarrow> 'v \<Rightarrow> ('k \<times> 'v) list \<Rightarrow> 'v option \<times> ('k \<times> 'v) list" where
  "bt_insert k v [] = (None, [(k, v)])"
| "bt_insert k v ((k', v') # m) =
     (if k < k' then (None, (k, v) # (k', v') # m)
      else if k = k' then (Some v', (k, v) # m)
      else let (old, m') = bt_insert k v m in (old, (k', v') # m'))"

fun bt_remove :: "'k \<Rightarrow> ('k \<times> 'v) list \<Rightarrow> 'v option \<times> ('k \<times> 'v) list" where
  "bt_remove k [] = (None, [])"
| "bt_remove k ((k', v') # m) =
     (if k = k' then (Some v', m) else let (old, m') = bt_remove k m in (old, (k', v') # m'))"

abbreviation bt_keys :: "('k \<times> 'v) list \<Rightarrow> 'k list" where
  "bt_keys m \<equiv> map fst m"

definition bt_wf :: "('k::linorder \<times> 'v) list \<Rightarrow> bool" where
  "bt_wf m \<longleftrightarrow> sorted_wrt (<) (bt_keys m)"

lemma bt_wf_simps [simp]:
  "bt_wf []" "bt_wf ((k, v) # m) \<longleftrightarrow> bt_wf m \<and> (\<forall>k' \<in> fst ` set m. k < k')"
  by (auto simp: bt_wf_def)

lemma bt_wf_distinct: "bt_wf m \<Longrightarrow> distinct (bt_keys m)"
  by (simp add: bt_wf_def strict_sorted_iff)

lemma bt_insert_old: "bt_wf m \<Longrightarrow> fst (bt_insert k v m) = map_of m k"
  by (induction k v m rule: bt_insert.induct)
    (auto simp: split_beta Let_def map_of_eq_None_iff [symmetric] dest: map_of_SomeD
      intro!: sym [OF iffD2 [OF map_of_eq_None_iff]])

lemma map_of_bt_insert [simp]: "map_of (snd (bt_insert k v m)) = (map_of m)(k \<mapsto> v)"
  by (induction k v m rule: bt_insert.induct) (auto simp: split_beta Let_def)

lemma keys_bt_insert: "fst ` set (snd (bt_insert k v m)) = insert k (fst ` set m)"
  by (induction k v m rule: bt_insert.induct) (auto simp: split_beta Let_def)

lemma bt_wf_insert: "bt_wf m \<Longrightarrow> bt_wf (snd (bt_insert k v m))"
  by (induction k v m rule: bt_insert.induct) (auto simp: split_beta Let_def keys_bt_insert)

lemma bt_remove_old: "fst (bt_remove k m) = map_of m k"
  by (induction k m rule: bt_remove.induct) (auto simp: split_beta Let_def)

lemma set_bt_remove_subset: "set (snd (bt_remove k m)) \<subseteq> set m"
  by (induction k m rule: bt_remove.induct) (auto simp: split_beta Let_def)

lemma bt_wf_remove: "bt_wf m \<Longrightarrow> bt_wf (snd (bt_remove k m))"
proof (induction k m rule: bt_remove.induct)
  case (2 k k' v' m)
  then show ?case
    using set_bt_remove_subset [of k m] by (auto simp: split_beta Let_def)
qed simp

lemma map_of_bt_remove: "bt_wf m \<Longrightarrow> map_of (snd (bt_remove k m)) = (map_of m)(k := None)"
proof (induction k m rule: bt_remove.induct)
  case (2 k k' v' m)
  show ?case
  proof (cases "k = k'")
    case True
    then have "map_of m k = None" using 2(2) by (auto simp: map_of_eq_None_iff)
    then show ?thesis using True by (auto simp: fun_eq_iff)
  qed (use 2 in \<open>auto simp: split_beta Let_def\<close>)
qed simp

text \<open>Filling a map in ascending order appends, and emptying it in that order pops the front.\<close>

lemma bt_insert_last: "\<forall>k' \<in> fst ` set m. k' < k \<Longrightarrow> bt_insert k v m = (None, m @ [(k, v)])"
  by (induction k v m rule: bt_insert.induct) auto

lemma bt_remove_first: "bt_remove k ((k, v) # m) = (Some v, m)"
  by simp

end
