(* ===== verification/Address_Space.thy ===== *)
theory Address_Space
  imports Page_Table BTreeMap
begin

text \<open>
  \<open>os/src/mm/address_space.rs\<close>: memory segments and the address spaces made of them. A segment
  owns the frames its pages map to (\<open>MapType::Framed\<close>), or maps pages to the frames of the same
  number (\<open>MapType::Identical\<close>). Dropping a \<open>FrameTracker\<close> gives its frame back, so every
  operation that drops trackers is a fallible function of the frame allocator. The linker symbols
  are parameters, and so is what the third-party ELF parser returns.
\<close>

section \<open>Segments\<close>

datatype MapType = Identical | Framed

definition Permission_R :: u8 where "Permission_R = 2"
definition Permission_W :: u8 where "Permission_W = 4"
definition Permission_X :: u8 where "Permission_X = 8"
definition Permission_U :: u8 where "Permission_U = 16"

record MemorySegment =
  ms_vpn_range :: SimpleRange
  ms_data_frames :: "(VirtPageNum \<times> PhysPageNum) list"
  ms_map_type :: MapType
  ms_permission :: u8

definition MemorySegment_new ::
  "VirtAddr \<Rightarrow> VirtAddr \<Rightarrow> MapType \<Rightarrow> u8 \<Rightarrow> MemorySegment result" where
  "MemorySegment_new start_va end_va map_type permission =
     rbind (SimpleRange_new (addr_floor start_va) (addr_ceil end_va)) (\<lambda>r.
     Inr \<lparr>ms_vpn_range = r, ms_data_frames = [], ms_map_type = map_type,
          ms_permission = permission\<rparr>)"

definition MemorySegment_from_other :: "MemorySegment \<Rightarrow> MemorySegment result" where
  "MemorySegment_from_other other =
     rbind (SimpleRange_new (sr_l (ms_vpn_range other)) (sr_r (ms_vpn_range other))) (\<lambda>r.
     Inr \<lparr>ms_vpn_range = r, ms_data_frames = [], ms_map_type = ms_map_type other,
          ms_permission = ms_permission other\<rparr>)"

text \<open>Dropping the tracker an insertion or a removal displaced, if there is one.\<close>

definition drop_displaced :: "PhysPageNum option \<Rightarrow> phys \<Rightarrow> phys result" where
  "drop_displaced old s = (case old of None \<Rightarrow> Inr s | Some p \<Rightarrow> frame_dealloc p s)"

definition map_page ::
  "MemorySegment \<Rightarrow> PageTable \<Rightarrow> VirtPageNum \<Rightarrow> phys \<Rightarrow> (MemorySegment \<times> PageTable \<times> phys) result" where
  "map_page seg pt vpn s =
     (case ms_map_type seg of
        Identical \<Rightarrow>
          rbind (PageTable_map vpn vpn (ms_permission seg) pt s) (\<lambda>(pt', s').
          Inr (seg, pt', s'))
      | Framed \<Rightarrow>
          rbind (unwrap (frame_alloc s)) (\<lambda>(frame, s1).
          let (old, df) = bt_insert vpn frame (ms_data_frames seg) in
          rbind (drop_displaced old s1) (\<lambda>s2.
          rbind (PageTable_map vpn frame (ms_permission seg) pt s2) (\<lambda>(pt', s3).
          Inr (seg\<lparr>ms_data_frames := df\<rparr>, pt', s3)))))"

definition unmap_page ::
  "MemorySegment \<Rightarrow> PageTable \<Rightarrow> VirtPageNum \<Rightarrow> phys \<Rightarrow> (MemorySegment \<times> phys) result" where
  "unmap_page seg pt vpn s =
     (case ms_map_type seg of
        Identical \<Rightarrow> rbind (PageTable_unmap vpn pt s) (\<lambda>s'. Inr (seg, s'))
      | Framed \<Rightarrow>
          let (old, df) = bt_remove vpn (ms_data_frames seg) in
          rbind (drop_displaced old s) (\<lambda>s1.
          rbind (PageTable_unmap vpn pt s1) (\<lambda>s2.
          Inr (seg\<lparr>ms_data_frames := df\<rparr>, s2))))"

fun map_pages ::
  "VirtPageNum list \<Rightarrow> MemorySegment \<Rightarrow> PageTable \<Rightarrow> phys \<Rightarrow> (MemorySegment \<times> PageTable \<times> phys) result"
  where
  "map_pages [] seg pt s = Inr (seg, pt, s)"
| "map_pages (vpn # vpns) seg pt s =
     rbind (map_page seg pt vpn s) (\<lambda>(seg', pt', s'). map_pages vpns seg' pt' s')"

fun unmap_pages ::
  "VirtPageNum list \<Rightarrow> MemorySegment \<Rightarrow> PageTable \<Rightarrow> phys \<Rightarrow> (MemorySegment \<times> phys) result" where
  "unmap_pages [] seg pt s = Inr (seg, s)"
| "unmap_pages (vpn # vpns) seg pt s =
     rbind (unmap_page seg pt vpn s) (\<lambda>(seg', s'). unmap_pages vpns seg' pt s')"

definition MemorySegment_map ::
  "MemorySegment \<Rightarrow> PageTable \<Rightarrow> phys \<Rightarrow> (MemorySegment \<times> PageTable \<times> phys) result" where
  "MemorySegment_map seg pt s = map_pages (items (ms_vpn_range seg)) seg pt s"

definition MemorySegment_unmap ::
  "MemorySegment \<Rightarrow> PageTable \<Rightarrow> phys \<Rightarrow> (MemorySegment \<times> phys) result" where
  "MemorySegment_unmap seg pt s = unmap_pages (items (ms_vpn_range seg)) seg pt s"

text \<open>
  \<open>&data[a..b]\<close>, bounds checked. The offsets of \<open>copy_data\<close> stay below the length of the slice
  plus one page, far from the end of the address space, so they are natural numbers.
\<close>

definition slice :: "nat \<Rightarrow> nat \<Rightarrow> 'a list \<Rightarrow> 'a list result" where
  "slice a b xs = (if a \<le> b \<and> b \<le> length xs then Inr (take (b - a) (drop a xs)) else Inl IndexOutOfBounds)"

fun copy_pages :: "VirtPageNum list \<Rightarrow> nat \<Rightarrow> u8 list \<Rightarrow> PhysPageNum \<Rightarrow> phys \<Rightarrow> phys result" where
  "copy_pages [] start data root s = Inr s"
| "copy_pages (vpn # vpns) start data root s =
     rbind (slice start (min (length data) (start + unat PAGE_SIZE)) data) (\<lambda>src.
     rbind (translate vpn root (pm_mem s)) (\<lambda>r.
     rbind (unwrap r) (\<lambda>pte.
       let s' = s\<lparr>pm_mem := copy_to_page (pte_ppn pte) src (pm_mem s)\<rparr>;
           start' = start + unat PAGE_SIZE
       in if length data \<le> start' then Inr s' else copy_pages vpns start' data root s')))"

definition copy_data :: "MemorySegment \<Rightarrow> PhysPageNum \<Rightarrow> u8 list \<Rightarrow> phys \<Rightarrow> phys result" where
  "copy_data seg root data s =
     rbind (rassert (ms_map_type seg = Framed)) (\<lambda>_.
     copy_pages (items (ms_vpn_range seg)) 0 data root s)"

section \<open>Address spaces\<close>

record AddressSpace =
  as_page_table :: PageTable
  as_segments :: "MemorySegment list"

abbreviation as_root :: "AddressSpace \<Rightarrow> PhysPageNum" where
  "as_root a \<equiv> pt_root_ppn (as_page_table a)"

definition new_bare :: "phys \<Rightarrow> (AddressSpace \<times> phys) result" where
  "new_bare s =
     rbind (PageTable_new s) (\<lambda>(pt, s'). Inr (\<lparr>as_page_table = pt, as_segments = []\<rparr>, s'))"

definition map_trampoline :: "usize \<Rightarrow> AddressSpace \<Rightarrow> phys \<Rightarrow> (AddressSpace \<times> phys) result" where
  "map_trampoline strampoline a s =
     rbind (VirtPageNum_from_addr (VirtAddr_from TRAMPOLINE)) (\<lambda>vpn.
     rbind (PhysPageNum_from_addr (PhysAddr_from strampoline)) (\<lambda>ppn.
     rbind (PageTable_map vpn ppn (Permission_R OR Permission_X) (as_page_table a) s) (\<lambda>(pt, s').
     Inr (a\<lparr>as_page_table := pt\<rparr>, s'))))"

definition add_segment ::
  "MemorySegment \<Rightarrow> u8 list option \<Rightarrow> AddressSpace \<Rightarrow> phys \<Rightarrow> (AddressSpace \<times> phys) result" where
  "add_segment segment data a s =
     rbind (MemorySegment_map segment (as_page_table a) s) (\<lambda>(segment', pt, s1).
     rbind (case data of None \<Rightarrow> Inr s1
            | Some d \<Rightarrow> copy_data segment' (pt_root_ppn pt) d s1) (\<lambda>s2.
     Inr (\<lparr>as_page_table = pt, as_segments = as_segments a @ [segment']\<rparr>, s2)))"

definition add_segment_framed ::
  "VirtAddr \<Rightarrow> VirtAddr \<Rightarrow> u8 \<Rightarrow> AddressSpace \<Rightarrow> phys \<Rightarrow> (AddressSpace \<times> phys) result" where
  "add_segment_framed start_va end_va permission a s =
     rbind (MemorySegment_new start_va end_va Framed permission) (\<lambda>segment.
     add_segment segment None a s)"

text \<open>Dropping a segment drops its trackers in the order of their pages.\<close>

fun drop_frames :: "PhysPageNum list \<Rightarrow> phys \<Rightarrow> phys result" where
  "drop_frames [] s = Inr s"
| "drop_frames (p # ps) s = rbind (frame_dealloc p s) (drop_frames ps)"

definition MemorySegment_drop :: "MemorySegment \<Rightarrow> phys \<Rightarrow> phys result" where
  "MemorySegment_drop seg s = drop_frames (map snd (ms_data_frames seg)) s"

fun drop_segments :: "MemorySegment list \<Rightarrow> phys \<Rightarrow> phys result" where
  "drop_segments [] s = Inr s"
| "drop_segments (seg # segs) s = rbind (MemorySegment_drop seg s) (drop_segments segs)"

definition remove_segment_with_start_vpn ::
  "VirtPageNum \<Rightarrow> AddressSpace \<Rightarrow> phys \<Rightarrow> (AddressSpace \<times> phys) result" where
  "remove_segment_with_start_vpn start_vpn a s =
     (case find_index (\<lambda>segment. sr_l (ms_vpn_range segment) = start_vpn) (as_segments a) of
        None \<Rightarrow> Inr (a, s)
      | Some i \<Rightarrow>
          rbind (MemorySegment_unmap (as_segments a ! i) (as_page_table a) s) (\<lambda>(segment, s1).
          rbind (MemorySegment_drop segment s1) (\<lambda>s2.
          Inr (a\<lparr>as_segments := remove_at i (as_segments a)\<rparr>, s2))))"

definition recycle_data_pages :: "AddressSpace \<Rightarrow> phys \<Rightarrow> (AddressSpace \<times> phys) result" where
  "recycle_data_pages a s =
     rbind (drop_segments (as_segments a) s) (\<lambda>s'. Inr (a\<lparr>as_segments := []\<rparr>, s'))"

text \<open>Dropping the address space itself: the trackers of the page table, then the segments.\<close>

definition AddressSpace_drop :: "AddressSpace \<Rightarrow> phys \<Rightarrow> phys result" where
  "AddressSpace_drop a s =
     rbind (drop_frames (pt_frames (as_page_table a)) s) (drop_segments (as_segments a))"

definition AddressSpace_satp :: "AddressSpace \<Rightarrow> usize" where
  "AddressSpace_satp a = PageTable_satp (as_root a)"

definition AddressSpace_translate ::
  "AddressSpace \<Rightarrow> VirtPageNum \<Rightarrow> mem \<Rightarrow> PageTableEntry option result" where
  "AddressSpace_translate a vpn m = translate vpn (as_root a) m"

text \<open>\<open>from_existed_user\<close>: the inner loop copies the pages of one segment.\<close>

fun copy_existed_pages ::
  "VirtPageNum list \<Rightarrow> AddressSpace \<Rightarrow> AddressSpace \<Rightarrow> phys \<Rightarrow> phys result" where
  "copy_existed_pages [] user_space a s = Inr s"
| "copy_existed_pages (vpn # vpns) user_space a s =
     rbind (AddressSpace_translate user_space vpn (pm_mem s)) (\<lambda>r.
     rbind (unwrap r) (\<lambda>src_pte.
     rbind (AddressSpace_translate a vpn (pm_mem s)) (\<lambda>r'.
     rbind (unwrap r') (\<lambda>dest_pte.
       copy_existed_pages vpns user_space a
         (s\<lparr>pm_mem := copy_to_page (pte_ppn dest_pte)
                        (get_bytes_array (pte_ppn src_pte) (pm_mem s)) (pm_mem s)\<rparr>)))))"

fun copy_existed_segments ::
  "MemorySegment list \<Rightarrow> AddressSpace \<Rightarrow> AddressSpace \<Rightarrow> phys \<Rightarrow> (AddressSpace \<times> phys) result" where
  "copy_existed_segments [] user_space a s = Inr (a, s)"
| "copy_existed_segments (segment # segments) user_space a s =
     rbind (MemorySegment_from_other segment) (\<lambda>new_segment.
     rbind (add_segment new_segment None a s) (\<lambda>(a', s1).
     rbind (copy_existed_pages (items (ms_vpn_range segment)) user_space a' s1) (\<lambda>s2.
     copy_existed_segments segments user_space a' s2)))"

definition from_existed_user :: "usize \<Rightarrow> AddressSpace \<Rightarrow> phys \<Rightarrow> (AddressSpace \<times> phys) result" where
  "from_existed_user strampoline user_space s =
     rbind (new_bare s) (\<lambda>(a, s1).
     rbind (map_trampoline strampoline a s1) (\<lambda>(a', s2).
     copy_existed_segments (as_segments user_space) user_space a' s2))"

subsection \<open>The kernel's own address space\<close>

text \<open>The symbols \<open>linker-qemu.ld\<close> defines.\<close>

record linker_symbols =
  ls_stext :: usize
  ls_etext :: usize
  ls_srodata :: usize
  ls_erodata :: usize
  ls_sdata :: usize
  ls_edata :: usize
  ls_sbss_with_stack :: usize
  ls_ebss :: usize
  ls_ekernel :: usize
  ls_strampoline :: usize

definition MMIO :: "(usize \<times> usize) list" where
  "MMIO = [(0x100000, 0x1000), (0x101000, 0x1000), (0x2000000, 0x10000), (0x10000000, 0x100),
           (0x10001000, 0x1000)]"

definition add_segment_identical ::
  "usize \<Rightarrow> usize \<Rightarrow> u8 \<Rightarrow> AddressSpace \<Rightarrow> phys \<Rightarrow> (AddressSpace \<times> phys) result" where
  "add_segment_identical start_va end_va permission a s =
     rbind (MemorySegment_new (VirtAddr_from start_va) (VirtAddr_from end_va) Identical permission)
       (\<lambda>segment. add_segment segment None a s)"

fun add_mmio :: "(usize \<times> usize) list \<Rightarrow> AddressSpace \<Rightarrow> phys \<Rightarrow> (AddressSpace \<times> phys) result" where
  "add_mmio [] a s = Inr (a, s)"
| "add_mmio (pair # pairs) a s =
     rbind (add_segment_identical (fst pair) (fst pair + snd pair) (Permission_R OR Permission_W) a s)
       (\<lambda>(a', s'). add_mmio pairs a' s')"

definition new_kernel :: "linker_symbols \<Rightarrow> phys \<Rightarrow> (AddressSpace \<times> phys) result" where
  "new_kernel ls s =
     rbind (new_bare s) (\<lambda>(a, s).
     rbind (map_trampoline (ls_strampoline ls) a s) (\<lambda>(a, s).
     rbind (add_segment_identical (ls_stext ls) (ls_etext ls) (Permission_R OR Permission_X) a s) (\<lambda>(a, s).
     rbind (add_segment_identical (ls_srodata ls) (ls_erodata ls) Permission_R a s) (\<lambda>(a, s).
     rbind (add_segment_identical (ls_sdata ls) (ls_edata ls) (Permission_R OR Permission_W) a s) (\<lambda>(a, s).
     rbind (add_segment_identical (ls_sbss_with_stack ls) (ls_ebss ls) (Permission_R OR Permission_W) a s) (\<lambda>(a, s).
     rbind (add_segment_identical (ls_ekernel ls) MEMORY_END (Permission_R OR Permission_W) a s) (\<lambda>(a, s).
     add_mmio MMIO a s)))))))"

subsection \<open>Loading a program\<close>

text \<open>
  What \<open>xmas_elf\<close> returns for a file: the fields \<open>from_elf\<close> reads. The parser itself is a
  parameter; \<open>None\<close> stands for its errors.
\<close>

record program_header =
  ph_load :: "bool option"
  ph_virtual_addr :: u64
  ph_mem_size :: u64
  ph_offset :: u64
  ph_file_size :: u64
  ph_read :: bool
  ph_write :: bool
  ph_execute :: bool

record elf_file =
  elf_magic :: "u8 list"
  elf_program_headers :: "program_header option list"
  elf_entry_point :: u64

definition ph_permission :: "program_header \<Rightarrow> u8" where
  "ph_permission ph =
     (let permission = Permission_U;
          permission = (if ph_read ph then permission OR Permission_R else permission);
          permission = (if ph_write ph then permission OR Permission_W else permission)
      in if ph_execute ph then permission OR Permission_X else permission)"

fun load_segments ::
  "program_header option list \<Rightarrow> u8 list \<Rightarrow> VirtPageNum \<Rightarrow> AddressSpace \<Rightarrow> phys
    \<Rightarrow> (VirtPageNum \<times> AddressSpace \<times> phys) result" where
  "load_segments [] input end_vpn a s = Inr (end_vpn, a, s)"
| "load_segments (header # headers) input end_vpn a s =
     rbind (unwrap header) (\<lambda>ph.
     rbind (unwrap (ph_load ph)) (\<lambda>is_load.
       if is_load then
         rbind (MemorySegment_new (VirtAddr_from (ph_virtual_addr ph))
                  (VirtAddr_from (ph_virtual_addr ph + ph_mem_size ph)) Framed (ph_permission ph))
           (\<lambda>segment.
         rbind (slice (unat (ph_offset ph)) (unat (ph_offset ph + ph_file_size ph)) input) (\<lambda>data.
         rbind (add_segment segment (Some data) a s) (\<lambda>(a', s').
         load_segments headers input (sr_r (ms_vpn_range segment)) a' s')))
       else load_segments headers input end_vpn a s))"

definition from_elf ::
  "(u8 list \<Rightarrow> elf_file option) \<Rightarrow> usize \<Rightarrow> u8 list \<Rightarrow> phys
    \<Rightarrow> (AddressSpace \<times> usize \<times> usize \<times> phys) result" where
  "from_elf ElfFile_new strampoline elf_data s =
     rbind (new_bare s) (\<lambda>(a, s).
     rbind (map_trampoline strampoline a s) (\<lambda>(a, s).
     rbind (unwrap (ElfFile_new elf_data)) (\<lambda>elf.
     rbind (rassert (elf_magic elf = [0x7f, 0x45, 0x4c, 0x46])) (\<lambda>_.
     rbind (load_segments (elf_program_headers elf) elf_data 0 a s) (\<lambda>(segment_end_vpn, a, s).
       let user_stack_base = VirtAddr_from_vpn segment_end_vpn + PAGE_SIZE
       in Inr (a, user_stack_base, elf_entry_point elf, s))))))"

end
