(* ===== verification/Address_Space_Proofs.thy ===== *)
theory Address_Space_Proofs
  imports Address_Space
begin

text \<open>
  The correctness of address spaces: an invariant that ties segments, page table and frame
  allocator together, what each operation does to it, that \<open>fork\<close> copies the user memory into
  frames of the child's own, and that a dropped address space gives back exactly its frames.
\<close>

section \<open>Segments refine the paging contract\<close>

lemma map_pages_framed:
  assumes "ms_map_type seg = Framed" "sorted_wrt (<) (bt_keys (ms_data_frames seg) @ vpns)"
  shows "map_pages vpns seg pt s =
    rbind (map_framed_all pt_alloc pt_map (ms_permission seg) vpns (pt, s)) (\<lambda>(fs, pt', s').
      Inr (seg\<lparr>ms_data_frames := ms_data_frames seg @ fs\<rparr>, pt', s'))"
  using assms
proof (induction vpns arbitrary: seg pt s)
  case Nil
  then show ?case by simp
next
  case (Cons v vs)
  show ?case
  proof (cases "frame_alloc s")
    case None
    then show ?thesis using Cons.prems by (simp add: map_page_def)
  next
    case (Some x)
    obtain f s1 where x: "x = (f, s1)" by (cases x)
    have ins: "bt_insert v f (ms_data_frames seg) = (None, ms_data_frames seg @ [(v, f)])"
      using Cons.prems(2) by (intro bt_insert_last) (auto simp: sorted_wrt_append)
    define seg' where "seg' = seg\<lparr>ms_data_frames := ms_data_frames seg @ [(v, f)]\<rparr>"
    have "map_pages vs seg' pt' s' = rbind (map_framed_all pt_alloc pt_map (ms_permission seg) vs (pt', s'))
        (\<lambda>(fs, pt'', s''). Inr (seg'\<lparr>ms_data_frames := ms_data_frames seg' @ fs\<rparr>, pt'', s''))" for pt' s'
      using Cons.IH [of seg' pt' s'] Cons.prems
      by (cases "map_framed_all pt_alloc pt_map (ms_permission seg) vs (pt', s')") (auto simp: seg'_def)
    note IH = this
    show ?thesis
    proof (cases "PageTable_map v f (ms_permission seg) pt s1")
      case (Inl e)
      then show ?thesis using Some x ins Cons.prems(1) by (simp add: map_page_def drop_displaced_def)
    next
      case (Inr y)
      obtain pt' s' where y: "y = (pt', s')" by (cases y)
      have "map_pages (v # vs) seg pt s = map_pages vs seg' pt' s'"
        using Inr y Some x ins Cons.prems(1) by (simp add: map_page_def drop_displaced_def seg'_def)
      then show ?thesis
        unfolding IH using Inr y Some x
        by (cases "map_framed_all pt_alloc pt_map (ms_permission seg) vs (pt', s')") (auto simp: seg'_def)
    qed
  qed
qed

lemma map_pages_root:
  "map_pages vpns seg pt s = Inr (seg', pt', s') \<Longrightarrow> pt_root_ppn pt' = pt_root_ppn pt"
proof (induction vpns seg pt s rule: map_pages.induct)
  case (2 vpn vpns seg pt s)
  then obtain sg pt1 s1 where m: "map_page seg pt vpn s = Inr (sg, pt1, s1)"
    and r: "map_pages vpns sg pt1 s1 = Inr (seg', pt', s')" by auto
  have "pt_root_ppn pt1 = pt_root_ppn pt"
    using m by (auto simp: map_page_def split_beta Let_def split: MapType.splits dest: PageTable_map_root)
  then show ?case using 2(1) [OF m _ _ r] by simp
qed simp

lemma unmap_pages_framed:
  assumes "ms_map_type seg = Framed" "distinct (bt_keys (ms_data_frames seg))"
  shows "unmap_pages (bt_keys (ms_data_frames seg)) seg pt s =
    rbind (unmap_framed_all pt_dealloc pt_unmap (ms_data_frames seg) (pt, s)) (\<lambda>(pt', s').
      Inr (seg\<lparr>ms_data_frames := []\<rparr>, s'))"
  using assms
proof (induction "ms_data_frames seg" arbitrary: seg s)
  case Nil
  then show ?case by (cases seg) simp
next
  case (Cons vp fs)
  obtain v p where vp: "vp = (v, p)" by (cases vp)
  have df: "ms_data_frames seg = (v, p) # fs" using Cons.hyps(2) vp by simp
  have "unmap_pages (bt_keys fs) (seg\<lparr>ms_data_frames := fs\<rparr>) pt s' =
      rbind (unmap_framed_all pt_dealloc pt_unmap fs (pt, s')) (\<lambda>(pt', s').
        Inr (seg\<lparr>ms_data_frames := []\<rparr>, s'))" for s'
    using Cons.hyps(1) [of "seg\<lparr>ms_data_frames := fs\<rparr>" s'] Cons.prems df by simp
  then show ?case
    using Cons.prems(1) df
    by (cases "frame_dealloc p s"; simp add: unmap_page_def drop_displaced_def rbind_assoc)
qed

lemma sorted_items: "sr_l r \<le> sr_r r \<Longrightarrow> sorted_wrt (<) (items r)"
proof -
  assume le: "sr_l r \<le> sr_r r"
  have lt: "(of_nat i :: usize) < of_nat j" if "i < j" "j < unat (sr_r r)" for i j
  proof -
    have "unat (of_nat i :: usize) = i" "unat (of_nat j :: usize) = j"
      using that unat_less_2p_64 [of "sr_r r"] by (auto intro: unat_of_nat_64)
    then show ?thesis using that by (simp add: word_less_nat_alt)
  qed
  have "sorted_wrt (\<lambda>i j. (of_nat i :: usize) < of_nat j) [unat (sr_l r)..<unat (sr_r r)]"
    by (rule sorted_wrt_mono_rel [where P = "(<)"]) (auto intro: lt)
  then show "sorted_wrt (<) (items r)"
    using le by (simp add: items_def range_items_eq sorted_wrt_map)
qed

text \<open>Ranges of pages below the end of the 39-bit address space.\<close>

definition range_ok :: "SimpleRange \<Rightarrow> bool" where
  "range_ok r \<longleftrightarrow> sr_l r \<le> sr_r r \<and> unat (sr_r r) \<le> 0x8000000"

lemma range_ok_items:
  assumes "range_ok r"
  shows "\<forall>v \<in> set (items r). vpn_ok v" "distinct (items r)"
    "v \<in> set (items r) \<longleftrightarrow> sr_l r \<le> v \<and> v < sr_r r"
proof -
  have le: "sr_l r \<le> sr_r r" using assms by (simp add: range_ok_def)
  show "v \<in> set (items r) \<longleftrightarrow> sr_l r \<le> v \<and> v < sr_r r" for v
    using set_range_items [OF le] by (simp add: items_def)
  then show "\<forall>v \<in> set (items r). vpn_ok v"
    using assms by (auto simp: range_ok_def word_less_nat_alt)
  show "distinct (items r)" using distinct_range_items [OF le] by (simp add: items_def)
qed

lemma length_items: "range_ok r \<Longrightarrow> length (items r) = unat (sr_r r) - unat (sr_l r)"
  by (simp add: items_def range_items_eq range_ok_def)

lemma MemorySegment_map_framed:
  assumes "pt_inv l pt s" "ms_map_type seg = Framed" "ms_data_frames seg = []"
    "range_ok (ms_vpn_range seg)" "MemorySegment_map seg pt s = Inr (seg', pt', s')"
  shows "\<exists>fs. seg' = seg\<lparr>ms_data_frames := fs\<rparr> \<and> bt_keys fs = items (ms_vpn_range seg)
    \<and> pt.framed l (ms_permission seg) fs (pt, s) (pt', s')
    \<and> (\<forall>v \<in> set (items (ms_vpn_range seg)). pt_lookup (pm_mem s) (pt_root_ppn pt) v = None)"
proof -
  let ?vs = "items (ms_vpn_range seg)"
  have "sorted_wrt (<) (bt_keys (ms_data_frames seg) @ ?vs)"
    using assms(3,4) sorted_items by (simp add: range_ok_def)
  then obtain fs where fs: "map_framed_all pt_alloc pt_map (ms_permission seg) ?vs (pt, s) = Inr (fs, pt', s')"
    "seg' = seg\<lparr>ms_data_frames := fs\<rparr>"
    using map_pages_framed [OF assms(2), of ?vs pt s] assms(3,5) by (auto simp: MemorySegment_map_def)
  show ?thesis
    using pt.map_framed_all_ok [of l "(pt, s)", OF _ _ fs(1)] assms(1) range_ok_items(1) [OF assms(4)] fs(2)
    by auto
qed

section \<open>The invariant\<close>

definition seg_inv :: "(VirtPageNum \<Rightarrow> PageTableEntry option) \<Rightarrow> MemorySegment \<Rightarrow> bool" where
  "seg_inv lookup seg \<longleftrightarrow> range_ok (ms_vpn_range seg) \<and>
     (case ms_map_type seg of
        Framed \<Rightarrow> bt_keys (ms_data_frames seg) = items (ms_vpn_range seg)
          \<and> (\<forall>(v, p) \<in> set (ms_data_frames seg). lookup v = Some (pt_entry p (ms_permission seg)))
      | Identical \<Rightarrow> ms_data_frames seg = []
          \<and> (\<forall>v \<in> set (items (ms_vpn_range seg)). lookup v = Some (pt_entry v (ms_permission seg))))"

text \<open>The pages an address space covers and the data frames it owns.\<close>

definition as_pages :: "AddressSpace \<Rightarrow> VirtPageNum list" where
  "as_pages a = concat (map (\<lambda>seg. items (ms_vpn_range seg)) (as_segments a))"

definition as_map :: "AddressSpace \<Rightarrow> (VirtPageNum \<times> PhysPageNum) list" where
  "as_map a = concat (map ms_data_frames (as_segments a))"

abbreviation as_frames :: "AddressSpace \<Rightarrow> PhysPageNum list" where
  "as_frames a \<equiv> map snd (as_map a)"

abbreviation as_lookup :: "AddressSpace \<Rightarrow> mem \<Rightarrow> VirtPageNum \<Rightarrow> PageTableEntry option" where
  "as_lookup a m \<equiv> pt_lookup m (as_root a)"

definition as_owned :: "AddressSpace \<Rightarrow> PhysPageNum set" where
  "as_owned a = set (pt_frames (as_page_table a)) \<union> set (as_frames a)"

definition as_inv :: "PhysPageNum \<Rightarrow> AddressSpace \<Rightarrow> phys \<Rightarrow> bool" where
  "as_inv l a s \<longleftrightarrow>
     pt_inv l (as_page_table a) s \<and> distinct (as_frames a) \<and> distinct (as_pages a)
     \<and> set (as_frames a) \<subseteq> frames_live l s - set (pt_frames (as_page_table a))
     \<and> (\<forall>seg \<in> set (as_segments a). seg_inv (as_lookup a (pm_mem s)) seg)"

lemma as_owned_live: "as_inv l a s \<Longrightarrow> as_owned a \<subseteq> frames_live l s"
  by (auto simp: as_inv_def as_owned_def pt_inv_def)

lemma as_inv_range: "as_inv l a s \<Longrightarrow> seg \<in> set (as_segments a) \<Longrightarrow> range_ok (ms_vpn_range seg)"
  by (simp add: as_inv_def seg_inv_def)

text \<open>The invariant depends on the bytes of the tables only.\<close>

lemma as_inv_cong:
  assumes inv: "as_inv l a s" and ph: "phys_inv l s'" and own: "as_owned a \<subseteq> frames_live l s'"
    and same: "\<And>q. q \<in> set (pt_frames (as_page_table a)) \<Longrightarrow>
      get_bytes_array q (pm_mem s') = get_bytes_array q (pm_mem s)"
  shows "as_inv l a s'" "as_lookup a (pm_mem s') v = as_lookup a (pm_mem s) v"
proof -
  have wf: "pt_wf (pm_mem s) (as_page_table a)" using inv by (simp add: as_inv_def pt_inv_def)
  have "pm_mem s' x = pm_mem s x" if "\<not> outside (as_page_table a) x" for x
    using same that by (auto simp: get_bytes_array_eq_iff)
  note c = pt_cong [OF wf this]
  have look: "as_lookup a (pm_mem s') = as_lookup a (pm_mem s)"
    using c(3) by (intro ext) blast
  have "pt_wf (pm_mem s') (as_page_table a)" using c(2) by blast
  then show "as_inv l a s'"
    using inv ph own look by (auto simp: as_inv_def pt_inv_def as_owned_def)
  show "as_lookup a (pm_mem s') v = as_lookup a (pm_mem s) v" using look by simp
qed

section \<open>Adding a segment\<close>

lemma seg_inv_mono:
  assumes "seg_inv f seg" "\<And>v. v \<in> set (items (ms_vpn_range seg)) \<Longrightarrow> f v \<noteq> None \<Longrightarrow> g v = f v"
  shows "seg_inv g seg"
proof (cases "ms_map_type seg")
  case Identical
  then show ?thesis using assms by (auto simp: seg_inv_def)
next
  case Framed
  have "g v = f v" if "(v, p) \<in> set (ms_data_frames seg)" for v p
  proof -
    have "set (bt_keys (ms_data_frames seg)) = set (items (ms_vpn_range seg))"
      using assms(1) Framed by (simp add: seg_inv_def)
    then have "v \<in> set (items (ms_vpn_range seg))" using that by force
    moreover have "f v \<noteq> None" using assms(1) Framed that by (auto simp: seg_inv_def)
    ultimately show ?thesis by (rule assms(2))
  qed
  then show ?thesis using assms(1) Framed by (fastforce simp: seg_inv_def)
qed

lemma seg_inv_mapped: "seg_inv f seg \<Longrightarrow> v \<in> set (items (ms_vpn_range seg)) \<Longrightarrow> f v \<noteq> None"
proof (cases "ms_map_type seg")
  case Framed
  assume a: "seg_inv f seg" "v \<in> set (items (ms_vpn_range seg))"
  then have "set (bt_keys (ms_data_frames seg)) = set (items (ms_vpn_range seg))"
    using Framed by (simp add: seg_inv_def)
  then obtain p where "(v, p) \<in> set (ms_data_frames seg)" using a(2) by fastforce
  then show ?thesis using a(1) Framed by (auto simp: seg_inv_def)
qed (auto simp: seg_inv_def)

lemma add_segment_inv:
  assumes inv: "as_inv l a s" and seg: "ms_map_type seg = Framed" "ms_data_frames seg = []"
    "range_ok (ms_vpn_range seg)" and ok: "add_segment seg None a s = Inr (a', s')"
  obtains fs where "as_segments a' = as_segments a @ [seg\<lparr>ms_data_frames := fs\<rparr>]"
    "bt_keys fs = items (ms_vpn_range seg)"
    "pt.framed l (ms_permission seg) fs (as_page_table a, s) (as_page_table a', s')"
    "\<And>v. v \<in> set (bt_keys fs) \<Longrightarrow> as_lookup a (pm_mem s) v = None"
    "as_inv l a' s'" "as_root a' = as_root a"
proof -
  obtain seg' pt' where m: "MemorySegment_map seg (as_page_table a) s = Inr (seg', pt', s')"
    and a': "a' = \<lparr>as_page_table = pt', as_segments = as_segments a @ [seg']\<rparr>"
    using ok by (auto simp: add_segment_def)
  have pinv: "pt_inv l (as_page_table a) s" using inv by (simp add: as_inv_def)
  obtain fs where seg': "seg' = seg\<lparr>ms_data_frames := fs\<rparr>" and keys: "bt_keys fs = items (ms_vpn_range seg)"
    and fr: "pt.framed l (ms_permission seg) fs (as_page_table a, s) (pt', s')"
    and new: "\<forall>v \<in> set (items (ms_vpn_range seg)). as_lookup a (pm_mem s) v = None"
    using MemorySegment_map_framed [OF pinv seg m] by blast
  have R: "pt_inv l pt' s'" "distinct (map snd fs)"
    "snd ` set fs \<inter> (frames_live l s \<union> set (pt_frames pt')) = {}"
    "frames_live l s' = frames_live l s \<union> set (pt_frames pt') \<union> snd ` set fs"
    "set (pt_frames (as_page_table a)) \<subseteq> set (pt_frames pt')"
    "(set (pt_frames pt') - set (pt_frames (as_page_table a))) \<inter> frames_live l s = {}"
    "\<And>w. vpn_ok w \<Longrightarrow> pt_lookup (pm_mem s') (pt_root_ppn pt') w =
      (case map_of fs w of Some p \<Rightarrow> Some (pt_entry p (ms_permission seg)) | None \<Rightarrow> as_lookup a (pm_mem s) w)"
    using fr by (simp_all add: pt.framed_def cong: option.case_cong)
  show thesis
  proof (rule that)
    have vok: "\<forall>v \<in> set (items (ms_vpn_range sg)). vpn_ok v" if "sg \<in> set (as_segments a)" for sg
      using inv that range_ok_items(1) by (auto simp: as_inv_def seg_inv_def)
    have old: "as_lookup a' (pm_mem s') v = as_lookup a (pm_mem s) v"
      if "vpn_ok v" "as_lookup a (pm_mem s) v \<noteq> None" for v
    proof -
      have "map_of fs v = None" using new that(2) keys by (metis map_of_eq_None_iff set_map)
      then show ?thesis using R(7) [OF that(1)] by (simp add: a')
    qed
    have segs: "seg_inv (as_lookup a' (pm_mem s')) sg" if "sg \<in> set (as_segments a)" for sg
      using seg_inv_mono [of "as_lookup a (pm_mem s)" sg] old vok [OF that] inv that
      by (auto simp: as_inv_def)
    have "as_lookup a' (pm_mem s') v = Some (pt_entry p (ms_permission seg))" if "(v, p) \<in> set fs" for v p
    proof -
      have d: "distinct (bt_keys fs)" using keys range_ok_items(2) [OF seg(3)] by simp
      then have "map_of fs v = Some p" using that by simp
      moreover have "v \<in> set (bt_keys fs)" using that by force
      then have "vpn_ok v" using keys range_ok_items(1) [OF seg(3)] by auto
      ultimately show ?thesis using R(7) by (simp add: a')
    qed
    then have newseg: "seg_inv (as_lookup a' (pm_mem s')) seg'"
      using seg keys by (auto simp: seg_inv_def seg')
    have "set (as_pages a) \<inter> set (items (ms_vpn_range seg)) = {}"
      using new seg_inv_mapped inv by (fastforce simp: as_pages_def as_inv_def)
    then have pages: "distinct (as_pages a')"
      using inv range_ok_items(2) [OF seg(3)] by (simp add: as_pages_def as_inv_def a' seg')
    have am: "as_map a' = as_map a @ fs" by (simp add: as_map_def a' seg')
    have li: "set (as_frames a) \<subseteq> frames_live l s - set (pt_frames (as_page_table a))"
      using inv by (simp add: as_inv_def)
    have "set (as_frames a) \<inter> set (map snd fs) = {}" using li R(3) by auto
    then have "distinct (as_frames a')" using am inv R(2) by (simp add: as_inv_def)
    moreover have "set (as_frames a') \<subseteq> frames_live l s' - set (pt_frames (as_page_table a'))"
      using am li R(3,4,6) by (auto simp: a')
    ultimately show "as_inv l a' s'"
      using R(1) segs newseg pages by (auto simp: as_inv_def a')
    show "as_segments a' = as_segments a @ [seg\<lparr>ms_data_frames := fs\<rparr>]" by (simp add: a' seg')
    show "bt_keys fs = items (ms_vpn_range seg)" by (fact keys)
    show "pt.framed l (ms_permission seg) fs (as_page_table a, s) (as_page_table a', s')"
      using fr by (simp add: a')
    show "as_lookup a (pm_mem s) v = None" if "v \<in> set (bt_keys fs)" for v
      using new keys that by simp
    show "as_root a' = as_root a"
      using map_pages_root m by (auto simp: MemorySegment_map_def a')
  qed
qed

lemma unmap_framed_all_pt:
  "unmap_framed_all pt_dealloc pt_unmap fs (pt, s) = Inr (pt', s') \<Longrightarrow> pt' = pt"
  by (induction fs arbitrary: s) auto

section \<open>Giving frames back\<close>

lemma drop_frames_ok:
  assumes "phys_inv l s" "distinct ps" "set ps \<subseteq> frames_live l s"
  shows "\<exists>s'. drop_frames ps s = Inr s' \<and> phys_inv l s' \<and> frames_live l s' = frames_live l s - set ps
    \<and> pm_mem s' = pm_mem s"
  using assms
proof (induction ps arbitrary: s)
  case Nil
  then show ?case by simp
next
  case (Cons p ps)
  obtain s1 where s1: "frame_dealloc p s = Inr s1" "phys_inv l s1" "frames_live l s1 = frames_live l s - {p}"
    using frames.dealloc_live [OF Cons.prems(1), of p] Cons.prems(3) by auto
  moreover have "pm_mem s1 = pm_mem s" using s1(1) by (auto simp: frame_dealloc_def)
  moreover obtain s' where "drop_frames ps s1 = Inr s'" "phys_inv l s'"
    "frames_live l s' = frames_live l s1 - set ps" "pm_mem s' = pm_mem s1"
    using Cons.IH [OF s1(2)] Cons.prems(2,3) s1(3) by auto
  ultimately show ?case by auto
qed

lemma drop_frames_append: "drop_frames (ps @ qs) s = rbind (drop_frames ps s) (drop_frames qs)"
proof (induction ps arbitrary: s)
  case (Cons p ps)
  then show ?case by (cases "frame_dealloc p s") simp_all
qed simp

lemma drop_segments_eq: "drop_segments segs s = drop_frames (map snd (concat (map ms_data_frames segs))) s"
proof (induction segs arbitrary: s)
  case (Cons seg segs)
  have "drop_segments segs = drop_frames (map snd (concat (map ms_data_frames segs)))"
    by (rule ext) (rule Cons)
  then show ?case by (simp add: MemorySegment_drop_def drop_frames_append)
qed simp

lemma recycle_data_pages_inv:
  assumes inv: "as_inv l a s"
  shows "\<exists>s'. recycle_data_pages a s = Inr (a\<lparr>as_segments := []\<rparr>, s') \<and> as_inv l (a\<lparr>as_segments := []\<rparr>) s'
    \<and> frames_live l s' = frames_live l s - set (as_frames a) \<and> pm_mem s' = pm_mem s"
proof -
  have "phys_inv l s" "distinct (as_frames a)" "set (as_frames a) \<subseteq> frames_live l s"
    using inv by (auto simp: as_inv_def pt_inv_def)
  then obtain s' where s': "drop_frames (as_frames a) s = Inr s'" "phys_inv l s'"
    "frames_live l s' = frames_live l s - set (as_frames a)" "pm_mem s' = pm_mem s"
    using drop_frames_ok by blast
  moreover have "set (pt_frames (as_page_table a)) \<subseteq> frames_live l s'"
    using inv s'(3) by (auto simp: as_inv_def pt_inv_def)
  ultimately have "as_inv l (a\<lparr>as_segments := []\<rparr>) s'"
    using inv by (simp add: as_inv_def pt_inv_def as_map_def as_pages_def)
  then show ?thesis
    using s' by (simp add: recycle_data_pages_def drop_segments_eq as_map_def)
qed

lemma AddressSpace_drop_owned:
  assumes inv: "as_inv l a s"
  shows "\<exists>s'. AddressSpace_drop a s = Inr s' \<and> phys_inv l s'
    \<and> frames_live l s' = frames_live l s - as_owned a \<and> pm_mem s' = pm_mem s"
proof -
  let ?ps = "pt_frames (as_page_table a) @ as_frames a"
  have "phys_inv l s" "distinct ?ps" "set ?ps \<subseteq> frames_live l s"
    using inv by (auto simp: as_inv_def pt_inv_def pt_wf_def)
  moreover have "AddressSpace_drop a s = drop_frames ?ps s"
    by (simp add: AddressSpace_drop_def drop_frames_append as_map_def)
      (simp add: drop_segments_eq [abs_def])
  ultimately show ?thesis
    using drop_frames_ok [of l s ?ps] by (simp add: as_owned_def)
qed

section \<open>Removing a segment\<close>

lemma MemorySegment_unmap_framed:
  assumes inv: "pt_inv l pt s" and seg: "ms_map_type seg = Framed"
    "seg_inv (pt_lookup (pm_mem s) (pt_root_ppn pt)) seg"
    "distinct (map snd (ms_data_frames seg))"
    "snd ` set (ms_data_frames seg) \<subseteq> frames_live l s - set (pt_frames pt)"
  shows "\<exists>s'. MemorySegment_unmap seg pt s = Inr (seg\<lparr>ms_data_frames := []\<rparr>, s') \<and> pt_inv l pt s'
    \<and> frames_live l s' = frames_live l s - snd ` set (ms_data_frames seg)
    \<and> (\<forall>w. vpn_ok w \<longrightarrow> pt_lookup (pm_mem s') (pt_root_ppn pt) w =
         (if w \<in> set (items (ms_vpn_range seg)) then None else pt_lookup (pm_mem s) (pt_root_ppn pt) w))
    \<and> (\<forall>q \<in> frames_live l s' - set (pt_frames pt).
         get_bytes_array q (pm_mem s') = get_bytes_array q (pm_mem s))"
proof -
  let ?fs = "ms_data_frames seg"
  have keys: "bt_keys ?fs = items (ms_vpn_range seg)" and r: "range_ok (ms_vpn_range seg)"
    using seg(1,2) by (auto simp: seg_inv_def)
  then have d: "distinct (bt_keys ?fs)" using range_ok_items(2) by simp
  have ks: "fst ` set ?fs = set (items (ms_vpn_range seg))" using keys by (metis set_map)
  have "\<forall>v \<in> fst ` set ?fs. vpn_ok v \<and> pt_lookup (pm_mem s) (pt_root_ppn pt) v \<noteq> None"
    using seg_inv_mapped [OF seg(2)] range_ok_items(1) [OF r] unfolding ks by blast
  then obtain st where st: "unmap_framed_all pt_dealloc pt_unmap ?fs (pt, s) = Inr st"
    "(\<lambda>(pt, s). pt_inv l pt s) st" "(\<lambda>(pt, s). frames_live l s) st = frames_live l s - snd ` set ?fs"
    "(\<lambda>(pt, s). set (pt_frames pt)) st = set (pt_frames pt)"
    "\<forall>w. vpn_ok w \<longrightarrow> (\<lambda>(pt, s). pt_lookup (pm_mem s) (pt_root_ppn pt)) st w =
       (if w \<in> fst ` set ?fs then None else pt_lookup (pm_mem s) (pt_root_ppn pt) w)"
    "\<forall>q \<in> (\<lambda>(pt, s). frames_live l s) st - set (pt_frames pt).
       (\<lambda>(pt, s) p. get_bytes_array p (pm_mem s)) st q = get_bytes_array q (pm_mem s)"
    using pt.unmap_framed_all_ok [of l "(pt, s)" ?fs] inv seg(3,4) d by auto
  obtain pt' s' where st': "st = (pt', s')" by (cases st)
  have "pt' = pt"
    using unmap_framed_all_pt [of ?fs pt s pt' s'] st(1) by (simp add: st')
  then show ?thesis
    using unmap_pages_framed [OF seg(1) d, of pt s] st
    by (simp add: MemorySegment_unmap_def keys [symmetric] st')
qed

lemma remove_segment_inv:
  assumes inv: "as_inv l a s"
    and i: "find_index (\<lambda>segment. sr_l (ms_vpn_range segment) = start_vpn) (as_segments a) = Some i"
    and fr: "ms_map_type (as_segments a ! i) = Framed"
  defines "seg \<equiv> as_segments a ! i" and "a' \<equiv> a\<lparr>as_segments := remove_at i (as_segments a)\<rparr>"
  shows "\<exists>s'. remove_segment_with_start_vpn start_vpn a s = Inr (a', s') \<and> as_inv l a' s'
    \<and> frames_live l s' = frames_live l s - snd ` set (ms_data_frames seg)
    \<and> (\<forall>w. vpn_ok w \<longrightarrow> as_lookup a' (pm_mem s') w =
         (if w \<in> set (items (ms_vpn_range seg)) then None else as_lookup a (pm_mem s) w))
    \<and> (\<forall>q \<in> frames_live l s' - set (pt_frames (as_page_table a)).
         get_bytes_array q (pm_mem s') = get_bytes_array q (pm_mem s))"
proof -
  let ?xs = "take i (as_segments a)" and ?ys = "drop (Suc i) (as_segments a)"
  have lt: "i < length (as_segments a)" by (rule find_index_SomeD [OF i])
  have split: "as_segments a = ?xs @ seg # ?ys" unfolding seg_def using lt by (rule remove_at_split)
  have rest: "as_segments a' = ?xs @ ?ys" by (simp add: a'_def remove_at_def)
  have memseg: "seg \<in> set (as_segments a)" using lt by (simp add: seg_def)
  define X S Y where "X = map snd (concat (map ms_data_frames ?xs))"
    and "S = map snd (ms_data_frames seg)" and "Y = map snd (concat (map ms_data_frames ?ys))"
  define P Q R where "P = concat (map (\<lambda>sg. items (ms_vpn_range sg)) ?xs)"
    and "Q = items (ms_vpn_range seg)" and "R = concat (map (\<lambda>sg. items (ms_vpn_range sg)) ?ys)"
  have frames: "as_frames a = X @ S @ Y" "as_frames a' = X @ Y"
    unfolding as_map_def rest X_def S_def Y_def by (subst split, simp) simp
  have pages: "as_pages a = P @ Q @ R" "as_pages a' = P @ R"
    unfolding as_pages_def rest P_def Q_def R_def by (subst split, simp) simp
  have dm: "distinct (X @ S @ Y)" "distinct (P @ Q @ R)"
    "set (X @ S @ Y) \<subseteq> frames_live l s - set (pt_frames (as_page_table a))"
    using inv by (simp_all only: as_inv_def frames pages)
  have pinv: "pt_inv l (as_page_table a) s" using inv by (simp add: as_inv_def)
  have sinv: "seg_inv (as_lookup a (pm_mem s)) seg" using inv memseg by (simp add: as_inv_def)
  obtain s' where s': "MemorySegment_unmap seg (as_page_table a) s = Inr (seg\<lparr>ms_data_frames := []\<rparr>, s')"
    "pt_inv l (as_page_table a) s'" "frames_live l s' = frames_live l s - snd ` set (ms_data_frames seg)"
    "\<And>w. vpn_ok w \<Longrightarrow> as_lookup a (pm_mem s') w =
       (if w \<in> set (items (ms_vpn_range seg)) then None else as_lookup a (pm_mem s) w)"
    "\<forall>q \<in> frames_live l s' - set (pt_frames (as_page_table a)).
       get_bytes_array q (pm_mem s') = get_bytes_array q (pm_mem s)"
    using MemorySegment_unmap_framed [OF pinv _ sinv] fr dm(1,3) by (auto simp: seg_def S_def)
  have "seg_inv (as_lookup a (pm_mem s')) sg" if sg: "sg \<in> set (?xs @ ?ys)" for sg
  proof (rule seg_inv_mono)
    have "sg \<in> set (as_segments a)" using sg by (auto dest: in_set_takeD in_set_dropD)
    then show sgi: "seg_inv (as_lookup a (pm_mem s)) sg" using inv by (simp add: as_inv_def)
    fix v assume v: "v \<in> set (items (ms_vpn_range sg))"
    then have "v \<in> set (P @ R)" using sg by (auto simp: P_def R_def)
    then have "v \<notin> set (items (ms_vpn_range seg))" using dm(2) by (auto simp: Q_def)
    moreover have "vpn_ok v" using sgi v range_ok_items(1) by (auto simp: seg_inv_def)
    ultimately show "as_lookup a (pm_mem s') v = as_lookup a (pm_mem s) v" using s'(4) by simp
  qed
  moreover have "distinct (as_frames a')" "distinct (as_pages a')"
    using dm(1,2) by (auto simp: frames pages)
  moreover have "set (as_frames a') \<subseteq> frames_live l s' - set (pt_frames (as_page_table a))"
    using dm(1,3) s'(3) by (auto simp: frames S_def)
  ultimately have "as_inv l a' s'" using s'(2) rest by (simp add: as_inv_def a'_def)
  moreover have "remove_segment_with_start_vpn start_vpn a s = Inr (a', s')"
    using i s'(1) by (simp add: remove_segment_with_start_vpn_def MemorySegment_drop_def seg_def a'_def)
  ultimately show ?thesis using s'(3,4,5) by (simp add: a'_def)
qed

section \<open>Copying an address space\<close>

lemma as_map_live: "as_inv l a s \<Longrightarrow> (v, p) \<in> set (as_map a) \<Longrightarrow>
    p \<in> set (as_frames a) \<and> p \<in> frames_live l s \<and> ppn_ok p"
  using frames_live_ok [of l s p] by (force simp: as_inv_def pt_inv_def)

lemma as_translate:
  assumes "as_inv l a s" "(v, p) \<in> set (as_map a)"
  shows "\<exists>e. AddressSpace_translate a v (pm_mem s) = Inr (Some e) \<and> pte_ppn e = p"
proof -
  obtain seg where seg: "seg \<in> set (as_segments a)" "(v, p) \<in> set (ms_data_frames seg)"
    using assms(2) by (auto simp: as_map_def)
  then have "seg_inv (as_lookup a (pm_mem s)) seg" using assms(1) by (simp add: as_inv_def)
  then have "as_lookup a (pm_mem s) v = Some (pt_entry p (ms_permission seg))"
    using seg(2) by (auto simp: seg_inv_def split: MapType.splits)
  then show ?thesis
    using translate_lookup pte_ppn_new as_map_live [OF assms] by (auto simp: AddressSpace_translate_def)
qed

text \<open>Writing a data frame of one address space keeps it, and every other one, intact.\<close>

lemma as_store:
  assumes inv: "as_inv l a s" and p: "p \<in> set (as_frames a)" and bs: "length bs \<le> 4096"
  defines "s' \<equiv> s\<lparr>pm_mem := copy_to_page p bs (pm_mem s)\<rparr>"
  shows "as_inv l a s'"
    and "q \<in> frames_live l s \<Longrightarrow>
      get_bytes_array q (pm_mem s') = (if q = p then bs @ drop (length bs) (get_bytes_array p (pm_mem s))
        else get_bytes_array q (pm_mem s))"
proof -
  have live: "p \<in> frames_live l s" "p \<notin> set (pt_frames (as_page_table a))" and ph: "phys_inv l s"
    using inv p by (auto simp: as_inv_def pt_inv_def)
  show bytes: "get_bytes_array q (pm_mem s') = (if q = p then bs @ drop (length bs) (get_bytes_array p (pm_mem s))
      else get_bytes_array q (pm_mem s))"
    if "q \<in> frames_live l s" for q
    using frames_live_ok [OF ph that] frames_live_ok [OF ph live(1)] bs
    by (simp add: s'_def get_bytes_array_copy_same get_bytes_array_copy_other)
  show "as_inv l a s'"
  proof (rule as_inv_cong [OF inv])
    show "as_owned a \<subseteq> frames_live l s'" using as_owned_live [OF inv] by (simp add: s'_def)
    fix q assume q: "q \<in> set (pt_frames (as_page_table a))"
    then have "q \<in> frames_live l s" using inv by (auto simp: as_inv_def pt_inv_def)
    then show "get_bytes_array q (pm_mem s') = get_bytes_array q (pm_mem s)"
      using bytes q live(2) by auto
  qed (use ph in \<open>simp add: s'_def\<close>)
qed

lemma copy_existed_pages_ok:
  assumes "as_inv l u s" "as_inv l a s" "as_owned u \<inter> as_owned a = {}" "distinct vpns"
    "set vpns \<subseteq> fst ` set (as_map u)" "set vpns \<subseteq> fst ` set (as_map a)"
    and da: "distinct (bt_keys (as_map a))" and du: "distinct (bt_keys (as_map u))"
  shows "\<exists>s'. copy_existed_pages vpns u a s = Inr s' \<and> pm_frames s' = pm_frames s
    \<and> as_inv l u s' \<and> as_inv l a s'
    \<and> (\<forall>v q p. v \<in> set vpns \<longrightarrow> (v, q) \<in> set (as_map u) \<longrightarrow> (v, p) \<in> set (as_map a) \<longrightarrow>
          get_bytes_array p (pm_mem s') = get_bytes_array q (pm_mem s))
    \<and> (\<forall>r \<in> frames_live l s. (\<forall>v \<in> set vpns. (v, r) \<notin> set (as_map a)) \<longrightarrow>
          get_bytes_array r (pm_mem s') = get_bytes_array r (pm_mem s))"
  using assms(1-6)
proof (induction vpns arbitrary: s)
  case Nil
  then show ?case by simp
next
  case (Cons v vpns)
  obtain q p where q: "(v, q) \<in> set (as_map u)" and p: "(v, p) \<in> set (as_map a)"
    using Cons.prems(5,6) by auto
  note qp = as_map_live [OF Cons.prems(1) q] as_map_live [OF Cons.prems(2) p]
  have ne: "r \<noteq> p" if "r \<in> as_owned u" for r
    using that qp Cons.prems(3) by (auto simp: as_owned_def)
  obtain e e' where e: "AddressSpace_translate u v (pm_mem s) = Inr (Some e)" "pte_ppn e = q"
    and e': "AddressSpace_translate a v (pm_mem s) = Inr (Some e')" "pte_ppn e' = p"
    using as_translate [OF Cons.prems(1) q] as_translate [OF Cons.prems(2) p] by auto
  define s1 where "s1 = s\<lparr>pm_mem := copy_to_page p (get_bytes_array q (pm_mem s)) (pm_mem s)\<rparr>"
  note st = as_store [OF Cons.prems(2), of p "get_bytes_array q (pm_mem s)", folded s1_def]
  have a1: "as_inv l a s1" using st(1) qp by simp
  have b1: "get_bytes_array r (pm_mem s1) =
      (if r = p then get_bytes_array q (pm_mem s) else get_bytes_array r (pm_mem s))"
    if "r \<in> frames_live l s" for r
    using st(2) that qp by simp
  have f1: "pm_frames s1 = pm_frames s" by (simp add: s1_def)
  have u1: "as_inv l u s1"
  proof (rule as_inv_cong(1) [OF Cons.prems(1)])
    show "as_owned u \<subseteq> frames_live l s1" using as_owned_live [OF Cons.prems(1)] f1 by simp
    show "phys_inv l s1" using Cons.prems(1) f1 by (simp add: as_inv_def pt_inv_def)
    fix r assume "r \<in> set (pt_frames (as_page_table u))"
    then have "r \<in> as_owned u" by (simp add: as_owned_def)
    then show "get_bytes_array r (pm_mem s1) = get_bytes_array r (pm_mem s)"
      using b1 ne as_owned_live [OF Cons.prems(1)] by auto
  qed
  obtain s' where s': "copy_existed_pages vpns u a s1 = Inr s'" "pm_frames s' = pm_frames s1"
    "as_inv l u s'" "as_inv l a s'"
    "\<And>w q p. w \<in> set vpns \<Longrightarrow> (w, q) \<in> set (as_map u) \<Longrightarrow> (w, p) \<in> set (as_map a) \<Longrightarrow>
       get_bytes_array p (pm_mem s') = get_bytes_array q (pm_mem s1)"
    "\<And>r. r \<in> frames_live l s1 \<Longrightarrow> (\<forall>w \<in> set vpns. (w, r) \<notin> set (as_map a)) \<Longrightarrow>
       get_bytes_array r (pm_mem s') = get_bytes_array r (pm_mem s1)"
    using Cons.IH [OF u1 a1 Cons.prems(3)] Cons.prems(4,5,6) by auto
  have uniq: "w = v" if "(w, p) \<in> set (as_map a)" for w
  proof -
    have "inj_on snd (set (as_map a))" using Cons.prems(2) by (simp add: as_inv_def distinct_map)
    from inj_onD [OF this _ that p] show ?thesis by simp
  qed
  have here: "get_bytes_array p (pm_mem s') = get_bytes_array q (pm_mem s)"
  proof -
    have "\<forall>w \<in> set vpns. (w, p) \<notin> set (as_map a)" using uniq Cons.prems(4) by auto
    then show ?thesis using s'(6) [of p] b1 [of p] qp f1 by simp
  qed
  have "get_bytes_array p' (pm_mem s') = get_bytes_array q' (pm_mem s)"
    if w: "w \<in> set (v # vpns)" "(w, q') \<in> set (as_map u)" "(w, p') \<in> set (as_map a)" for w q' p'
  proof (cases "w = v")
    case True
    then have "q' = q" "p' = p" using w(2,3) q p da du by (metis eq_key_imp_eq_value)+
    then show ?thesis using here by simp
  next
    case False
    have "q' \<in> as_owned u" "q' \<in> frames_live l s"
      using as_map_live [OF Cons.prems(1) w(2)] by (auto simp: as_owned_def)
    then show ?thesis using s'(5) [OF _ w(2,3)] w(1) False b1 ne by auto
  qed
  moreover have "get_bytes_array r (pm_mem s') = get_bytes_array r (pm_mem s)"
    if "r \<in> frames_live l s" "\<forall>w \<in> set (v # vpns). (w, r) \<notin> set (as_map a)" for r
    using s'(6) [of r] b1 [of r] that f1 p by auto
  moreover have "copy_existed_pages (v # vpns) u a s = Inr s'"
    using s'(1) e e' by (simp add: s1_def)
  moreover have "pm_frames s' = pm_frames s" using s'(2) f1 by simp
  ultimately show ?case
    using s'(3,4) by (intro exI [of _ s'] conjI allI impI ballI) blast+
qed

lemma copy_existed_pages_frames:
  "copy_existed_pages vpns u a s = Inr s' \<Longrightarrow> pm_frames s' = pm_frames s"
  by (induction vpns arbitrary: s) fastforce+

definition all_framed :: "AddressSpace \<Rightarrow> bool" where
  "all_framed a \<longleftrightarrow> (\<forall>seg \<in> set (as_segments a). ms_map_type seg = Framed)"

lemma as_map_keys: "as_inv l a s \<Longrightarrow> all_framed a \<Longrightarrow> bt_keys (as_map a) = as_pages a"
  by (auto simp: as_map_def as_pages_def map_concat as_inv_def all_framed_def seg_inv_def comp_def
      intro!: arg_cong [where f = concat])

text \<open>A segment and its copy in another address space: same pages, same permissions, same bytes.\<close>

definition seg_copied :: "phys \<Rightarrow> phys \<Rightarrow> MemorySegment \<Rightarrow> MemorySegment \<Rightarrow> bool" where
  "seg_copied s s' seg seg' \<longleftrightarrow>
     ms_vpn_range seg' = ms_vpn_range seg \<and> ms_permission seg' = ms_permission seg
     \<and> ms_map_type seg' = ms_map_type seg
     \<and> (\<forall>v q p. (v, q) \<in> set (ms_data_frames seg) \<longrightarrow> (v, p) \<in> set (ms_data_frames seg') \<longrightarrow>
          get_bytes_array p (pm_mem s') = get_bytes_array q (pm_mem s))"

text \<open>One round of the loop over the segments of the parent \<open>u\<close>.\<close>

lemma copy_existed_segment_ok:
  assumes u: "as_inv l u s" "all_framed u" and a: "as_inv l a s" "all_framed a"
    and disj: "as_owned u \<inter> as_owned a = {}" and seg: "seg \<in> set (as_segments u)"
    and new: "MemorySegment_from_other seg = Inr new_seg" and add: "add_segment new_seg None a s = Inr (a1, s1)"
  shows "\<exists>s2 seg'. copy_existed_pages (items (ms_vpn_range seg)) u a1 s1 = Inr s2
    \<and> as_inv l u s2 \<and> as_inv l a1 s2 \<and> all_framed a1 \<and> as_owned u \<inter> as_owned a1 = {}
    \<and> (\<forall>v. as_lookup a1 (pm_mem s2) v = as_lookup a1 (pm_mem s1) v)
    \<and> as_segments a1 = as_segments a @ [seg'] \<and> seg_copied s s2 seg seg' \<and> as_root a1 = as_root a
    \<and> frames_live l s2 = frames_live l s \<union> as_owned a1 \<and> as_owned a1 - as_owned a \<subseteq> - frames_live l s
    \<and> as_owned a \<subseteq> as_owned a1
    \<and> set (pt_frames (as_page_table a)) \<subseteq> set (pt_frames (as_page_table a1))
    \<and> (\<forall>r \<in> frames_live l s - set (pt_frames (as_page_table a)).
         get_bytes_array r (pm_mem s2) = get_bytes_array r (pm_mem s))"
proof -
  let ?vs = "items (ms_vpn_range seg)"
  have useg: "seg_inv (as_lookup u (pm_mem s)) seg" "ms_map_type seg = Framed"
    using u seg by (auto simp: as_inv_def all_framed_def)
  have r: "range_ok (ms_vpn_range seg)" using useg by (simp add: seg_inv_def)
  have nseg: "new_seg = seg\<lparr>ms_data_frames := []\<rparr>"
    using new by (cases seg) (auto simp: MemorySegment_from_other_def SimpleRange_new_def)
  obtain fs where fs: "as_segments a1 = as_segments a @ [new_seg\<lparr>ms_data_frames := fs\<rparr>]"
    "bt_keys fs = ?vs" "pt.framed l (ms_permission seg) fs (as_page_table a, s) (as_page_table a1, s1)"
    "as_inv l a1 s1" "as_root a1 = as_root a"
    by (rule add_segment_inv [OF a(1) _ _ _ add]) (use useg r in \<open>auto simp: nseg\<close>)
  let ?T = "set (pt_frames (as_page_table a))" and ?T1 = "set (pt_frames (as_page_table a1))"
  have F: "snd ` set fs \<inter> (frames_live l s \<union> ?T1) = {}"
    "frames_live l s1 = frames_live l s \<union> ?T1 \<union> snd ` set fs" "?T \<subseteq> ?T1"
    "(?T1 - ?T) \<inter> frames_live l s = {}"
    "\<And>q. q \<in> frames_live l s - ?T \<Longrightarrow> get_bytes_array q (pm_mem s1) = get_bytes_array q (pm_mem s)"
    using fs(3) by (simp_all add: pt.framed_def)
  have am: "as_map a1 = as_map a @ fs" using fs(1) by (simp add: as_map_def nseg)
  have af: "all_framed a1" using a(2) fs(1) useg(2) by (simp add: all_framed_def nseg)
  have ul: "as_owned u \<subseteq> frames_live l s - ?T" using as_owned_live [OF u(1)] disj by (auto simp: as_owned_def)
  have own: "as_owned a1 - as_owned a \<subseteq> - frames_live l s" using F(1,4) am by (auto simp: as_owned_def)
  have disj1: "as_owned u \<inter> as_owned a1 = {}" using own ul disj by auto
  have u1: "as_inv l u s1"
  proof (rule as_inv_cong(1) [OF u(1)])
    show "phys_inv l s1" using fs(4) by (simp add: as_inv_def pt_inv_def)
    show "as_owned u \<subseteq> frames_live l s1" using ul F(2) by auto
    show "get_bytes_array q (pm_mem s1) = get_bytes_array q (pm_mem s)"
      if "q \<in> set (pt_frames (as_page_table u))" for q
      using that ul by (intro F(5)) (auto simp: as_owned_def)
  qed
  have ku: "distinct (bt_keys (as_map u))" and ka: "distinct (bt_keys (as_map a1))"
    using as_map_keys u as_map_keys [OF fs(4) af] fs(4) by (auto simp: as_inv_def)
  have keq: "bt_keys (ms_data_frames seg) = ?vs" using useg by (simp add: seg_inv_def)
  have sub: "set (ms_data_frames seg) \<subseteq> set (as_map u)" using seg by (auto simp: as_map_def)
  have vu: "set ?vs \<subseteq> fst ` set (as_map u)" using sub keq by (metis image_mono set_map)
  have va: "set ?vs \<subseteq> fst ` set (as_map a1)" using fs(2) am by (metis Un_upper2 image_Un set_append set_map)
  obtain s2 where s2: "copy_existed_pages ?vs u a1 s1 = Inr s2" "pm_frames s2 = pm_frames s1"
    "as_inv l u s2" "as_inv l a1 s2"
    "\<And>v q p. v \<in> set ?vs \<Longrightarrow> (v, q) \<in> set (as_map u) \<Longrightarrow> (v, p) \<in> set (as_map a1) \<Longrightarrow>
       get_bytes_array p (pm_mem s2) = get_bytes_array q (pm_mem s1)"
    "\<And>r. r \<in> frames_live l s1 \<Longrightarrow> (\<forall>v \<in> set ?vs. (v, r) \<notin> set (as_map a1)) \<Longrightarrow>
       get_bytes_array r (pm_mem s2) = get_bytes_array r (pm_mem s1)"
    using copy_existed_pages_ok [OF u1 fs(4) disj1 range_ok_items(2) [OF r] vu va ka ku] by blast
  have look: "as_lookup a1 (pm_mem s2) v = as_lookup a1 (pm_mem s1) v" for v
  proof (rule as_inv_cong(2) [OF fs(4)])
    show "phys_inv l s2" using s2(3) by (simp add: as_inv_def pt_inv_def)
    show "as_owned a1 \<subseteq> frames_live l s2" by (rule as_owned_live [OF s2(4)])
    fix q assume q: "q \<in> ?T1"
    then have "(v, q) \<notin> set (as_map a1)" for v using fs(4) by (force simp: as_inv_def)
    moreover have "q \<in> frames_live l s1" using q F(2) by simp
    ultimately show "get_bytes_array q (pm_mem s2) = get_bytes_array q (pm_mem s1)" using s2(6) by simp
  qed
  have keep: "get_bytes_array q (pm_mem s2) = get_bytes_array q (pm_mem s)" if q: "q \<in> frames_live l s - ?T" for q
  proof -
    have "(v, q) \<notin> set (as_map a1)" if v: "v \<in> set ?vs" for v
    proof
      assume "(v, q) \<in> set (as_map a1)"
      moreover obtain p where "(v, p) \<in> set fs" using v fs(2) by (metis (no_types) fst_conv imageE list.set_map surj_pair)
      ultimately have "(v, q) \<in> set fs" using ka am by (metis UnI2 eq_key_imp_eq_value set_append)
      then show False using F(1) q by force
    qed
    then show ?thesis using s2(6) [of q] F(2,5) q by simp
  qed
  have "seg_copied s s2 seg (new_seg\<lparr>ms_data_frames := fs\<rparr>)"
  proof -
    have "get_bytes_array p (pm_mem s2) = get_bytes_array q (pm_mem s)"
      if vq: "(v, q) \<in> set (ms_data_frames seg)" and vp: "(v, p) \<in> set fs" for v q p
    proof -
      have "v \<in> set (bt_keys fs)" using vp by force
      moreover have "(v, q) \<in> set (as_map u)" using vq sub by auto
      moreover have "(v, p) \<in> set (as_map a1)" using vp am by simp
      ultimately have "get_bytes_array p (pm_mem s2) = get_bytes_array q (pm_mem s1)"
        using s2(5) fs(2) by metis
      moreover have "q \<in> as_owned u" using vq sub by (force simp: as_owned_def)
      ultimately show ?thesis using F(5) ul by auto
    qed
    then show ?thesis by (simp add: seg_copied_def nseg)
  qed
  moreover have "as_owned a1 = as_owned a \<union> ?T1 \<union> snd ` set fs" using am F(3) by (auto simp: as_owned_def)
  then have "frames_live l s2 = frames_live l s \<union> as_owned a1" "as_owned a \<subseteq> as_owned a1"
    using F(2) s2(2) as_owned_live [OF a(1)] by auto
  ultimately show ?thesis
    using s2(1,3,4) af disj1 look fs(1,5) own F(3) keep by blast
qed

lemma copy_existed_segments_ok:
  assumes u: "as_inv l u s" "all_framed u" and a: "as_inv l a s" "all_framed a"
    and disj: "as_owned u \<inter> as_owned a = {}" and segs: "set segs \<subseteq> set (as_segments u)"
    and ok: "copy_existed_segments segs u a s = Inr (a', s')"
  shows "as_inv l u s' \<and> as_inv l a' s' \<and> all_framed a' \<and> as_owned u \<inter> as_owned a' = {}
    \<and> as_root a' = as_root a
    \<and> (\<exists>segs'. as_segments a' = as_segments a @ segs' \<and> list_all2 (seg_copied s s') segs segs')
    \<and> frames_live l s' = frames_live l s \<union> as_owned a' \<and> as_owned a' - as_owned a \<subseteq> - frames_live l s
    \<and> as_owned a \<subseteq> as_owned a'
    \<and> (\<forall>r \<in> frames_live l s - set (pt_frames (as_page_table a)).
         get_bytes_array r (pm_mem s') = get_bytes_array r (pm_mem s))"
  using u a disj segs ok
proof (induction segs arbitrary: a s)
  case Nil
  then show ?case using as_owned_live [of l a s] by auto
next
  case (Cons seg segs)
  obtain new_seg a1 s1 s2 where
    new: "MemorySegment_from_other seg = Inr new_seg" and add: "add_segment new_seg None a s = Inr (a1, s1)"
    and cp: "copy_existed_pages (items (ms_vpn_range seg)) u a1 s1 = Inr s2"
    and rest: "copy_existed_segments segs u a1 s2 = Inr (a', s')"
    using Cons.prems(7) by auto
  let ?T = "set (pt_frames (as_page_table a))" and ?T1 = "set (pt_frames (as_page_table a1))"
  obtain seg' where R: "as_inv l u s2" "as_inv l a1 s2" "all_framed a1" "as_owned u \<inter> as_owned a1 = {}"
    "as_segments a1 = as_segments a @ [seg']" "seg_copied s s2 seg seg'" "as_root a1 = as_root a"
    "frames_live l s2 = frames_live l s \<union> as_owned a1"
    "as_owned a1 - as_owned a \<subseteq> - frames_live l s" "?T \<subseteq> ?T1"
    "\<And>r. r \<in> frames_live l s - ?T \<Longrightarrow> get_bytes_array r (pm_mem s2) = get_bytes_array r (pm_mem s)"
    and mono: "as_owned a \<subseteq> as_owned a1"
    using copy_existed_segment_ok [OF Cons.prems(1-5) _ new add] cp Cons.prems(6) by auto
  obtain segs' where S: "as_inv l u s'" "as_inv l a' s'" "all_framed a'" "as_owned u \<inter> as_owned a' = {}"
    "as_root a' = as_root a1" "as_segments a' = as_segments a1 @ segs'"
    "list_all2 (seg_copied s2 s') segs segs'"
    "frames_live l s' = frames_live l s2 \<union> as_owned a'" "as_owned a' - as_owned a1 \<subseteq> - frames_live l s2"
    "\<And>r. r \<in> frames_live l s2 - ?T1 \<Longrightarrow> get_bytes_array r (pm_mem s') = get_bytes_array r (pm_mem s2)"
    and mono': "as_owned a1 \<subseteq> as_owned a'"
    using Cons.IH [OF R(1) Cons.prems(2) R(2,3,4) _ rest] Cons.prems(6) by auto
  have "set (as_frames a) \<subseteq> set (as_frames a1)" using R(5) by (auto simp: as_map_def)
  then have "set (as_frames a) \<inter> ?T1 = {}" using R(2) by (auto simp: as_inv_def)
  then have T1: "?T1 \<inter> frames_live l s \<subseteq> ?T" using R(9) unfolding as_owned_def by blast
  have uown: "q \<in> frames_live l s - ?T" if "(v, q) \<in> set (as_map u)" for v q
    using as_map_live [OF Cons.prems(1) that] Cons.prems(5) by (auto simp: as_owned_def)
  have "seg_copied s s' sg sg'" if "seg_copied s2 s' sg sg'" "sg \<in> set segs" for sg sg'
  proof -
    have "set (ms_data_frames sg) \<subseteq> set (as_map u)" using that(2) Cons.prems(6) by (auto simp: as_map_def)
    then show ?thesis using that(1) R(11) uown by (auto simp: seg_copied_def)
  qed
  then have later: "list_all2 (seg_copied s s') segs segs'"
    using S(7) by (auto simp: list_all2_conv_all_nth)
  have "seg_copied s s' seg seg'"
  proof -
    have "p \<in> frames_live l s2 - ?T1" if "p \<in> snd ` set (ms_data_frames seg')" for p
      using that R(2,5) by (auto simp: as_inv_def as_map_def)
    then show ?thesis using R(6) S(10) by (fastforce simp: seg_copied_def)
  qed
  moreover have "get_bytes_array r (pm_mem s') = get_bytes_array r (pm_mem s)"
    if r: "r \<in> frames_live l s - ?T" for r
  proof -
    have "r \<in> frames_live l s2 - ?T1" using r R(8) T1 by blast
    then show ?thesis using S(10) R(11) [OF r] by simp
  qed
  moreover have "as_owned a' - as_owned a \<subseteq> - frames_live l s" using R(8,9) S(9) by auto
  moreover have "frames_live l s' = frames_live l s \<union> as_owned a'" "as_owned a \<subseteq> as_owned a'"
    using S(8) R(8) mono mono' by auto
  ultimately show ?case
    using S(1-6) R(5,7) later by auto
qed

lemma new_bare_ok:
  assumes "phys_inv l s" "new_bare s = Inr (a, s')"
  shows "as_inv l a s'" "all_framed a" "as_segments a = []" "as_owned a \<inter> frames_live l s = {}"
    "frames_live l s' = frames_live l s \<union> as_owned a"
    "q \<in> frames_live l s \<Longrightarrow> get_bytes_array q (pm_mem s') = get_bytes_array q (pm_mem s)"
    "as_lookup a (pm_mem s') v = None"
proof -
  obtain pt where pt: "PageTable_new s = Inr (pt, s')" "a = \<lparr>as_page_table = pt, as_segments = []\<rparr>"
    using assms(2) by (auto simp: new_bare_def)
  note N = PageTable_new_spec [OF assms(1) pt(1)]
  show "as_inv l a s'" "all_framed a" "as_segments a = []" "as_owned a \<inter> frames_live l s = {}"
    "frames_live l s' = frames_live l s \<union> as_owned a" "as_lookup a (pm_mem s') v = None"
    "q \<in> frames_live l s \<Longrightarrow> get_bytes_array q (pm_mem s') = get_bytes_array q (pm_mem s)"
    using N by (auto simp: pt(2) as_inv_def as_owned_def as_map_def as_pages_def all_framed_def)
qed

lemma trampoline_vpn: "VirtPageNum_from_addr (VirtAddr_from TRAMPOLINE) = Inr 0x7FFFFFF"
proof -
  have "unat TRAMPOLINE = 0xFFFFFFFFFFFFF000" by (simp add: TRAMPOLINE_def PAGE_SIZE_def)
  then have "unat (VirtAddr_from TRAMPOLINE) = 0x7FFFFFF000"
    by (simp add: VirtAddr_from_def unat_shl_shr width_defs)
  then show ?thesis
    by (simp add: VirtPageNum_from_addr_def word_unat_eq_iff unat_page_offset unat_addr_floor)
qed

lemma map_trampoline_ok:
  assumes inv: "as_inv l a s" and segs: "as_segments a = []" and ok: "map_trampoline st a s = Inr (a', s')"
  shows "as_inv l a' s'" "as_segments a' = []" "as_root a' = as_root a"
    "frames_live l s' = frames_live l s \<union> as_owned a'" "as_owned a \<subseteq> as_owned a'"
    "(as_owned a' - as_owned a) \<inter> frames_live l s = {}"
    "q \<in> frames_live l s - as_owned a \<Longrightarrow> get_bytes_array q (pm_mem s') = get_bytes_array q (pm_mem s)"
proof -
  obtain ppn pt' where m: "PageTable_map 0x7FFFFFF ppn (Permission_R OR Permission_X) (as_page_table a) s = Inr (pt', s')"
    and a': "a' = a\<lparr>as_page_table := pt'\<rparr>"
    using ok by (auto simp: map_trampoline_def trampoline_vpn)
  have pinv: "pt_inv l (as_page_table a) s" using inv by (simp add: as_inv_def)
  note M = pt.map_ok [of l "(as_page_table a, s)" "0x7FFFFFF" ppn "Permission_R OR Permission_X" "(pt', s')"]
  have own: "as_owned a = set (pt_frames (as_page_table a))" "as_owned a' = set (pt_frames pt')"
    using segs by (auto simp: as_owned_def as_map_def a')
  show "as_inv l a' s'" "as_segments a' = []" "as_root a' = as_root a"
    "frames_live l s' = frames_live l s \<union> as_owned a'" "as_owned a \<subseteq> as_owned a'"
    "(as_owned a' - as_owned a) \<inter> frames_live l s = {}"
    "q \<in> frames_live l s - as_owned a \<Longrightarrow> get_bytes_array q (pm_mem s') = get_bytes_array q (pm_mem s)"
    using M pinv m segs PageTable_map_root [OF m] unfolding own
    by (auto simp: a' as_inv_def as_map_def as_pages_def)
qed

text \<open>The copy of a whole user address space, as \<open>fork\<close> makes it.\<close>

lemma from_existed_user_ok:
  assumes u: "as_inv l u s" "all_framed u" and ok: "from_existed_user st u s = Inr (a, s')"
  shows "as_inv l u s'" "as_inv l a s'" "all_framed a" "as_owned a \<inter> frames_live l s = {}"
    "frames_live l s' = frames_live l s \<union> as_owned a"
    "list_all2 (seg_copied s s') (as_segments u) (as_segments a)"
    "\<And>r. r \<in> frames_live l s \<Longrightarrow> get_bytes_array r (pm_mem s') = get_bytes_array r (pm_mem s)"
proof -
  have ph: "phys_inv l s" using u by (simp add: as_inv_def pt_inv_def)
  obtain a0 s0 a1 s1 where b: "new_bare s = Inr (a0, s0)" and t: "map_trampoline st a0 s0 = Inr (a1, s1)"
    and c: "copy_existed_segments (as_segments u) u a1 s1 = Inr (a, s')"
    using ok by (auto simp: from_existed_user_def)
  note B = new_bare_ok [OF ph b]
  note T = map_trampoline_ok [OF B(1,3) t]
  have fresh: "as_owned a1 \<inter> frames_live l s = {}" using B(4,5) T(4,6) by auto
  have same: "get_bytes_array r (pm_mem s1) = get_bytes_array r (pm_mem s)" if "r \<in> frames_live l s" for r
    using that B(4,5) B(6) [OF that] T(7) [of r] by auto
  have u1: "as_inv l u s1"
  proof (rule as_inv_cong(1) [OF u(1)])
    show "phys_inv l s1" using T(1) by (simp add: as_inv_def pt_inv_def)
    show "as_owned u \<subseteq> frames_live l s1" using as_owned_live [OF u(1)] B(5) T(4) by auto
    show "get_bytes_array q (pm_mem s1) = get_bytes_array q (pm_mem s)"
      if "q \<in> set (pt_frames (as_page_table u))" for q
      using that as_owned_live [OF u(1)] same by (auto simp: as_owned_def)
  qed
  have disj: "as_owned u \<inter> as_owned a1 = {}" using fresh as_owned_live [OF u(1)] by auto
  have af: "all_framed a1" using T(2) by (simp add: all_framed_def)
  obtain segs' where C: "as_inv l u s'" "as_inv l a s'" "all_framed a"
    "as_segments a = as_segments a1 @ segs'" "list_all2 (seg_copied s1 s') (as_segments u) segs'"
    "as_owned a - as_owned a1 \<subseteq> - frames_live l s1"
    "frames_live l s' = frames_live l s1 \<union> as_owned a" "as_owned a1 \<subseteq> as_owned a"
    "\<And>r. r \<in> frames_live l s1 - set (pt_frames (as_page_table a1)) \<Longrightarrow>
       get_bytes_array r (pm_mem s') = get_bytes_array r (pm_mem s1)"
    using copy_existed_segments_ok [OF u1 u(2) T(1) af disj _ c] by auto
  show "as_inv l u s'" "as_inv l a s'" "all_framed a" using C by auto
  show "as_owned a \<inter> frames_live l s = {}" using C(6) fresh B(5) T(4) by auto
  show "frames_live l s' = frames_live l s \<union> as_owned a" using C(7,8) B(5) T(4,5) by auto
  show "get_bytes_array r (pm_mem s') = get_bytes_array r (pm_mem s)" if r: "r \<in> frames_live l s" for r
    using C(9) [of r] same [OF r] r fresh B(5) T(4) by (auto simp: as_owned_def)
  have "seg_copied s s' sg sg'" if "seg_copied s1 s' sg sg'" "sg \<in> set (as_segments u)" for sg sg'
  proof -
    have "q \<in> frames_live l s" if "(v, q) \<in> set (ms_data_frames sg)" for v q
      using that as_map_live [OF u(1)] \<open>sg \<in> set (as_segments u)\<close> by (auto simp: as_map_def)
    then show ?thesis using that(1) same by (auto simp: seg_copied_def)
  qed
  then show "list_all2 (seg_copied s s') (as_segments u) (as_segments a)"
    using C(4,5) T(2) by (auto simp: list_all2_conv_all_nth)
qed

end
