(* ===== verification/User_Space.thy ===== *)
theory User_Space
  imports Address_Space_Proofs
begin

text \<open>
  User address spaces: what loading a program puts where, that copying an address space succeeds
  when there are enough frames, and the properties of address spaces.
\<close>

section \<open>Loading data\<close>

text \<open>
  \<open>copy_data\<close> lays the data out over the pages of the segment, from the first byte of the first
  page on; bytes past the end of the segment are dropped and the rest of the segment stays zero.
\<close>

definition padded :: "nat \<Rightarrow> u8 list \<Rightarrow> u8 list" where
  "padded n data = take n data @ replicate (n - length data) 0"

abbreviation frames_bytes :: "PhysPageNum list \<Rightarrow> mem \<Rightarrow> u8 list" where
  "frames_bytes ps m \<equiv> concat (map (\<lambda>p. get_bytes_array p m) ps)"

lemma padded_Suc:
  "4096 \<le> length data \<Longrightarrow> padded (4096 * Suc k) data = take 4096 data @ padded (4096 * k) (drop 4096 data)"
  by (simp add: padded_def take_add)

lemma frames_bytes_zero:
  assumes "\<forall>p \<in> set ps. get_bytes_array p m = replicate 4096 0"
  shows "frames_bytes ps m = replicate (4096 * length ps) 0"
  using assms by (induction ps) (simp_all add: replicate_add)

lemma copy_pages_ok:
  assumes "as_inv l a s" "set fs \<subseteq> set (as_map a)" "distinct (map snd fs)" "start \<le> length data"
    "\<forall>p \<in> snd ` set fs. get_bytes_array p (pm_mem s) = replicate 4096 0"
  shows "\<exists>s'. copy_pages (bt_keys fs) start data (as_root a) s = Inr s' \<and> as_inv l a s'
    \<and> pm_frames s' = pm_frames s
    \<and> frames_bytes (map snd fs) (pm_mem s') = padded (4096 * length fs) (drop start data)
    \<and> (\<forall>q \<in> frames_live l s - snd ` set fs. get_bytes_array q (pm_mem s') = get_bytes_array q (pm_mem s))"
  using assms
proof (induction fs arbitrary: start s)
  case Nil
  then show ?case by (simp add: padded_def)
next
  case (Cons vp fs)
  obtain v p where vp: "vp = (v, p)" by (cases vp)
  have pm: "(v, p) \<in> set (as_map a)" using Cons.prems(2) vp by simp
  note P = as_map_live [OF Cons.prems(1) pm]
  obtain e where e: "translate v (as_root a) (pm_mem s) = Inr (Some e)" "pte_ppn e = p"
    using as_translate [OF Cons.prems(1) pm] by (auto simp: AddressSpace_translate_def)
  define src where "src = take 4096 (drop start data)"
  have sl: "slice start (min (length data) (start + unat PAGE_SIZE)) data = Inr src"
    using Cons.prems(4) by (auto simp: slice_def src_def PAGE_SIZE_def min_def)
  have len: "length src \<le> 4096" by (simp add: src_def)
  define s1 where "s1 = s\<lparr>pm_mem := copy_to_page p src (pm_mem s)\<rparr>"
  note st = as_store [OF Cons.prems(1) _ len, of p, folded s1_def]
  have zero: "get_bytes_array p (pm_mem s) = replicate 4096 0" using Cons.prems(5) vp by simp
  have a1: "as_inv l a s1" and f1: "pm_frames s1 = pm_frames s" using st(1) P by (simp_all add: s1_def)
  have b1: "get_bytes_array q (pm_mem s1) =
      (if q = p then src @ replicate (4096 - length src) 0 else get_bytes_array q (pm_mem s))"
    if "q \<in> frames_live l s" for q
    using st(2) [OF _ that] P zero by simp
  have np: "p \<notin> snd ` set fs" using Cons.prems(3) vp by simp
  have live: "q \<in> frames_live l s" if "q \<in> snd ` set fs" for q
    using that as_map_live [OF Cons.prems(1)] Cons.prems(2) by auto
  have zeros: "\<forall>q \<in> snd ` set fs. get_bytes_array q (pm_mem s1) = replicate 4096 0"
    using b1 live np Cons.prems(5) vp by auto
  show ?case
  proof (cases "length data \<le> start + 4096")
    case True
    have "frames_bytes (map snd fs) (pm_mem s1) = replicate (4096 * length fs) 0"
      using frames_bytes_zero [of "map snd fs" "pm_mem s1"] zeros by simp
    moreover have "padded (4096 * length (vp # fs)) (drop start data)
        = src @ replicate (4096 - length src) 0 @ replicate (4096 * length fs) 0"
      using True by (simp add: padded_def src_def replicate_add [symmetric])
    ultimately have "frames_bytes (map snd (vp # fs)) (pm_mem s1) = padded (4096 * length (vp # fs)) (drop start data)"
      using b1 P vp by simp
    moreover have "copy_pages (bt_keys (vp # fs)) start data (as_root a) s = Inr s1"
      using sl e True by (simp add: vp PAGE_SIZE_def s1_def)
    ultimately show ?thesis using a1 f1 b1 vp by auto
  next
    case False
    then have le: "start + 4096 \<le> length data" by simp
    obtain s' where s': "copy_pages (bt_keys fs) (start + 4096) data (as_root a) s1 = Inr s'" "as_inv l a s'"
      "pm_frames s' = pm_frames s1"
      "frames_bytes (map snd fs) (pm_mem s') = padded (4096 * length fs) (drop (start + 4096) data)"
      "\<And>q. q \<in> frames_live l s1 - snd ` set fs \<Longrightarrow> get_bytes_array q (pm_mem s') = get_bytes_array q (pm_mem s1)"
      using Cons.IH [OF a1 _ _ le zeros] Cons.prems(2,3) by auto
    have "get_bytes_array p (pm_mem s') = src"
      using s'(5) [of p] b1 [of p] P np f1 le by (simp add: src_def)
    then have "frames_bytes (map snd (vp # fs)) (pm_mem s') = padded (4096 * length (vp # fs)) (drop start data)"
      using s'(4) padded_Suc [of "drop start data" "length fs"] le by (simp add: vp src_def add.commute)
    moreover have "copy_pages (bt_keys (vp # fs)) start data (as_root a) s = Inr s'"
      using sl e False s'(1) by (simp add: vp PAGE_SIZE_def s1_def)
    moreover have "get_bytes_array q (pm_mem s') = get_bytes_array q (pm_mem s)"
      if "q \<in> frames_live l s - snd ` set (vp # fs)" for q
      using that s'(5) [of q] b1 [of q] f1 vp by auto
    ultimately show ?thesis using s'(2,3) f1 by auto
  qed
qed

text \<open>Adding a segment with data.\<close>

lemma add_segment_data:
  assumes inv: "as_inv l a s" and seg: "ms_map_type seg = Framed" "ms_data_frames seg = []"
    "range_ok (ms_vpn_range seg)" and ok: "add_segment seg (Some data) a s = Inr (a', s')"
  obtains fs where "as_segments a' = as_segments a @ [seg\<lparr>ms_data_frames := fs\<rparr>]"
    "bt_keys fs = items (ms_vpn_range seg)" "as_inv l a' s'"
    "snd ` set fs \<inter> frames_live l s = {}"
    "frames_bytes (map snd fs) (pm_mem s') = padded (4096 * length fs) data"
    "\<And>q. q \<in> frames_live l s - set (pt_frames (as_page_table a)) \<Longrightarrow>
       q \<in> frames_live l s' - set (pt_frames (as_page_table a'))
       \<and> get_bytes_array q (pm_mem s') = get_bytes_array q (pm_mem s)"
proof -
  obtain s1 seg' pt where m: "MemorySegment_map seg (as_page_table a) s = Inr (seg', pt, s1)"
    and c: "copy_data seg' (pt_root_ppn pt) data s1 = Inr s'"
    and a': "a' = \<lparr>as_page_table = pt, as_segments = as_segments a @ [seg']\<rparr>"
    using ok by (auto simp: add_segment_def)
  then have none: "add_segment seg None a s = Inr (a', s1)" by (simp add: add_segment_def)
  obtain fs where fs: "as_segments a' = as_segments a @ [seg\<lparr>ms_data_frames := fs\<rparr>]"
    "bt_keys fs = items (ms_vpn_range seg)"
    "pt.framed l (ms_permission seg) fs (as_page_table a, s) (as_page_table a', s1)" "as_inv l a' s1"
    by (rule add_segment_inv [OF inv seg none]) blast
  have F: "distinct (map snd fs)" "snd ` set fs \<inter> frames_live l s = {}"
    "frames_live l s - set (pt_frames (as_page_table a)) \<subseteq> frames_live l s1 - set (pt_frames (as_page_table a'))"
    "\<forall>p \<in> snd ` set fs. get_bytes_array p (pm_mem s1) = replicate 4096 0"
    "\<And>q. q \<in> frames_live l s - set (pt_frames (as_page_table a)) \<Longrightarrow>
       get_bytes_array q (pm_mem s1) = get_bytes_array q (pm_mem s)"
    using fs(3) by (auto simp: pt.framed_def)
  have sub: "set fs \<subseteq> set (as_map a')" using fs(1) by (simp add: as_map_def)
  have seg'_eq: "seg' = seg\<lparr>ms_data_frames := fs\<rparr>" using fs(1) a' by simp
  obtain s'' where s'': "copy_pages (bt_keys fs) 0 data (as_root a') s1 = Inr s''" "as_inv l a' s''"
    "pm_frames s'' = pm_frames s1"
    "frames_bytes (map snd fs) (pm_mem s'') = padded (4096 * length fs) data"
    "\<And>q. q \<in> frames_live l s1 - snd ` set fs \<Longrightarrow> get_bytes_array q (pm_mem s'') = get_bytes_array q (pm_mem s1)"
    using copy_pages_ok [OF fs(4) sub F(1) _ F(4), of 0 data] by auto
  have eq: "s'' = s'" using c s''(1) fs(2) seg(1) by (simp add: copy_data_def seg'_eq a')
  have "q \<in> frames_live l s' - set (pt_frames (as_page_table a'))
      \<and> get_bytes_array q (pm_mem s') = get_bytes_array q (pm_mem s)"
    if q: "q \<in> frames_live l s - set (pt_frames (as_page_table a))" for q
    using s''(5) [of q] F(5) [OF q] F(2,3) q eq s''(3) by auto
  then show ?thesis
    using that [OF fs(1,2)] s''(2,4) F(2) eq by blast
qed

section \<open>Enough frames\<close>

abbreviation avail :: "phys \<Rightarrow> nat" where
  "avail s \<equiv> fa_avail (pm_frames s)"

lemma add_segment_total:
  assumes inv: "as_inv l a s" and seg: "ms_map_type seg = Framed" "ms_data_frames seg = []"
    "range_ok (ms_vpn_range seg)"
    and free: "\<forall>v \<in> set (items (ms_vpn_range seg)). as_lookup a (pm_mem s) v = None"
    and av: "3 * length (items (ms_vpn_range seg)) \<le> avail s"
  shows "\<exists>a' s'. add_segment seg None a s = Inr (a', s')
    \<and> avail s \<le> avail s' + 3 * length (items (ms_vpn_range seg))"
proof -
  let ?vs = "items (ms_vpn_range seg)"
  have "pt_inv l (as_page_table a) s" using inv by (simp add: as_inv_def)
  then obtain fs st where st: "map_framed_all pt_alloc pt_map (ms_permission seg) ?vs (as_page_table a, s) = Inr (fs, st)"
    "avail s \<le> (\<lambda>(pt, s). avail s) st + 3 * length ?vs"
    using pt.map_framed_all_total [of l "(as_page_table a, s)" ?vs "ms_permission seg"]
      range_ok_items(1,2) [OF seg(3)] free av by auto
  have "sorted_wrt (<) (bt_keys (ms_data_frames seg) @ ?vs)"
    using seg(2,3) sorted_items by (simp add: range_ok_def)
  then show ?thesis
    using map_pages_framed [OF seg(1), of ?vs "as_page_table a" s] st
    by (cases st) (auto simp: add_segment_def MemorySegment_map_def)
qed

lemma add_segment_data_total:
  assumes inv: "as_inv l a s" and seg: "ms_map_type seg = Framed" "ms_data_frames seg = []"
    "range_ok (ms_vpn_range seg)"
    and free: "\<forall>v \<in> set (items (ms_vpn_range seg)). as_lookup a (pm_mem s) v = None"
    and av: "3 * length (items (ms_vpn_range seg)) \<le> avail s"
  shows "\<exists>a' s'. add_segment seg (Some data) a s = Inr (a', s')"
proof -
  obtain a' s1 where add: "add_segment seg None a s = Inr (a', s1)"
    using add_segment_total [OF inv seg free av] by blast
  then obtain seg' pt where m: "MemorySegment_map seg (as_page_table a) s = Inr (seg', pt, s1)"
    and a': "a' = \<lparr>as_page_table = pt, as_segments = as_segments a @ [seg']\<rparr>"
    by (auto simp: add_segment_def)
  obtain fs where fs: "as_segments a' = as_segments a @ [seg\<lparr>ms_data_frames := fs\<rparr>]"
    "bt_keys fs = items (ms_vpn_range seg)"
    "pt.framed l (ms_permission seg) fs (as_page_table a, s) (as_page_table a', s1)" "as_inv l a' s1"
    by (rule add_segment_inv [OF inv seg add]) blast
  have "distinct (map snd fs)" "\<forall>p \<in> snd ` set fs. get_bytes_array p (pm_mem s1) = replicate 4096 0"
    using fs(3) by (auto simp: pt.framed_def)
  moreover have "set fs \<subseteq> set (as_map a')" using fs(1) by (simp add: as_map_def)
  ultimately obtain s2 where "copy_pages (bt_keys fs) 0 data (as_root a') s1 = Inr s2"
    using copy_pages_ok [OF fs(4)] by blast
  moreover have "seg' = seg\<lparr>ms_data_frames := fs\<rparr>" using fs(1) a' by simp
  ultimately show ?thesis using m seg(1) fs(2) a' by (simp add: add_segment_def copy_data_def)
qed

lemma copy_existed_segments_total:
  assumes "as_inv l u s" "all_framed u" "as_inv l a s" "all_framed a" "as_owned u \<inter> as_owned a = {}"
    "set segs \<subseteq> set (as_segments u)" "distinct (concat (map (\<lambda>sg. items (ms_vpn_range sg)) segs))"
    "\<forall>sg \<in> set segs. \<forall>v \<in> set (items (ms_vpn_range sg)). as_lookup a (pm_mem s) v = None"
    "3 * length (concat (map (\<lambda>sg. items (ms_vpn_range sg)) segs)) \<le> avail s"
  shows "\<exists>a' s'. copy_existed_segments segs u a s = Inr (a', s')"
  using assms
proof (induction segs arbitrary: a s)
  case Nil
  then show ?case by simp
next
  case (Cons seg segs)
  let ?vs = "items (ms_vpn_range seg)"
  have seg: "seg \<in> set (as_segments u)" using Cons.prems(6) by simp
  have useg: "ms_map_type seg = Framed" "range_ok (ms_vpn_range seg)"
    using Cons.prems(1,2) seg by (auto simp: as_inv_def all_framed_def seg_inv_def)
  define new where "new = seg\<lparr>ms_data_frames := []\<rparr>"
  have n: "MemorySegment_from_other seg = Inr new"
    using useg by (cases seg) (auto simp: MemorySegment_from_other_def SimpleRange_new_def new_def range_ok_def)
  have newp: "ms_map_type new = Framed" "ms_data_frames new = []" "range_ok (ms_vpn_range new)"
    "ms_vpn_range new = ms_vpn_range seg" using useg by (auto simp: new_def)
  obtain a1 s1 where add: "add_segment new None a s = Inr (a1, s1)" "avail s \<le> avail s1 + 3 * length ?vs"
    using add_segment_total [OF Cons.prems(3) newp(1-3)] Cons.prems(8,9) newp(4) by auto
  obtain fs where fs: "bt_keys fs = items (ms_vpn_range new)"
    "pt.framed l (ms_permission new) fs (as_page_table a, s) (as_page_table a1, s1)" "as_inv l a1 s1"
    by (rule add_segment_inv [OF Cons.prems(3) newp(1-3) add(1)]) blast
  obtain s2 where cp: "copy_existed_pages ?vs u a1 s1 = Inr s2" "as_inv l u s2" "as_inv l a1 s2"
    "all_framed a1" "as_owned u \<inter> as_owned a1 = {}"
    and look: "\<And>v. as_lookup a1 (pm_mem s2) v = as_lookup a1 (pm_mem s1) v"
    using copy_existed_segment_ok [OF Cons.prems(1-5) seg n add(1)] by blast
  have fr: "pm_frames s2 = pm_frames s1" by (rule copy_existed_pages_frames [OF cp(1)])
  have free: "as_lookup a1 (pm_mem s2) v = None"
    if sg: "sg \<in> set segs" "v \<in> set (items (ms_vpn_range sg))" for sg v
  proof -
    have "v \<notin> set ?vs" using Cons.prems(7) sg by auto
    then have "map_of fs v = None" using fs(1) newp(4) by (metis map_of_eq_None_iff set_map)
    moreover have "vpn_ok v"
      using sg Cons.prems(6) range_ok_items(1) [OF as_inv_range [OF Cons.prems(1)], of sg] by auto
    ultimately show ?thesis
      using fs(2) Cons.prems(8) sg look by (simp add: pt.framed_def cong: option.case_cong)
  qed
  have "\<exists>a' s'. copy_existed_segments segs u a1 s2 = Inr (a', s')"
    using Cons.IH [OF cp(2) Cons.prems(2) cp(3,4,5)] Cons.prems(6,7,9) free add(2) fr by auto
  then show ?case using n add(1) cp(1) by auto
qed

lemma from_existed_user_total:
  assumes u: "as_inv l u s" "all_framed u" and st: "page_offset (PhysAddr_from st) = 0"
    and tramp: "0x7FFFFFF \<notin> set (as_pages u)" and av: "3 + 3 * length (as_pages u) \<le> avail s"
  shows "\<exists>a s'. from_existed_user st u s = Inr (a, s')"
proof -
  have ph: "phys_inv l s" using u by (simp add: as_inv_def pt_inv_def)
  obtain p s0 where f: "frame_alloc s = Some (p, s0)" "avail s0 = avail s - 1"
    using frame_alloc_avail [OF ph] av by auto
  define a0 where "a0 = \<lparr>as_page_table = \<lparr>pt_root_ppn = p, pt_frames = [p]\<rparr>, as_segments = []\<rparr>"
  have b: "new_bare s = Inr (a0, s0)" using f by (simp add: new_bare_def PageTable_new_def a0_def)
  note B = new_bare_ok [OF ph b]
  have pinv: "pt_inv l (as_page_table a0) s0" using B(1) by (simp add: as_inv_def)
  have "2 \<le> avail s0" using f(2) av by simp
  then obtain pt1 s1 where m: "PageTable_map 0x7FFFFFF (addr_floor (PhysAddr_from st)) (Permission_R OR Permission_X)
      (as_page_table a0) s0 = Inr (pt1, s1)"
    using PageTable_map_total [OF pinv, of "0x7FFFFFF" "addr_floor (PhysAddr_from st)" "Permission_R OR Permission_X"]
      B(7) by auto
  define a1 where "a1 = a0\<lparr>as_page_table := pt1\<rparr>"
  have t: "map_trampoline st a0 s0 = Inr (a1, s1)"
    using m st by (simp add: map_trampoline_def trampoline_vpn PhysPageNum_from_addr_def a1_def)
  note T = map_trampoline_ok [OF B(1,3) t]
  have "phys_inv l s0" using pinv by (simp add: pt_inv_def)
  from PageTable_map_avail [OF this m] have av1: "3 * length (as_pages u) \<le> avail s1"
    using f(2) av by simp
  have fresh: "as_owned a1 \<inter> frames_live l s = {}" using B(4,5) T(4,6) by auto
  have u1: "as_inv l u s1"
  proof (rule as_inv_cong(1) [OF u(1)])
    show "phys_inv l s1" using T(1) by (simp add: as_inv_def pt_inv_def)
    show "as_owned u \<subseteq> frames_live l s1" using as_owned_live [OF u(1)] B(5) T(4) by auto
    fix q assume "q \<in> set (pt_frames (as_page_table u))"
    then have q: "q \<in> frames_live l s" using as_owned_live [OF u(1)] by (auto simp: as_owned_def)
    then show "get_bytes_array q (pm_mem s1) = get_bytes_array q (pm_mem s)"
      using B(4,5) B(6) [OF q] T(7) [of q] by auto
  qed
  have free: "as_lookup a1 (pm_mem s1) v = None" if "v \<in> set (as_pages u)" for v
  proof -
    have "vpn_ok v" using that range_ok_items(1) [OF as_inv_range [OF u(1)]] by (auto simp: as_pages_def)
    moreover have "v \<noteq> 0x7FFFFFF" using that tramp by auto
    ultimately show ?thesis
      using PageTable_map_spec(1) [OF pinv _ m] B(7) by (simp add: a1_def pt_maps_def)
  qed
  have "\<exists>a s'. copy_existed_segments (as_segments u) u a1 s1 = Inr (a, s')"
  proof (rule copy_existed_segments_total [OF u1 u(2) T(1)])
    show "all_framed a1" using T(2) by (simp add: all_framed_def)
    show "as_owned u \<inter> as_owned a1 = {}" using fresh as_owned_live [OF u(1)] by auto
    show "distinct (concat (map (\<lambda>sg. items (ms_vpn_range sg)) (as_segments u)))"
      using u(1) by (simp add: as_inv_def as_pages_def)
  qed (use free av1 in \<open>auto simp: as_pages_def\<close>)
  then show ?thesis using b t by (simp add: from_existed_user_def)
qed

section \<open>Segments from virtual addresses\<close>

lemma MemorySegment_new_ok:
  assumes "unat start_va < 2 ^ 39" "unat end_va < 2 ^ 39"
    and "MemorySegment_new start_va end_va mt perm = Inr seg"
  shows "range_ok (ms_vpn_range seg)" "ms_data_frames seg = []" "ms_map_type seg = mt"
    "ms_permission seg = perm"
    "sr_l (ms_vpn_range seg) = addr_floor start_va" "sr_r (ms_vpn_range seg) = addr_ceil end_va"
proof -
  have "unat (addr_ceil end_va) = (unat end_va + 4095) div 4096"
    by (rule unat_addr_ceil) (use assms(2) in simp)
  then have "unat (addr_ceil end_va) \<le> 0x8000000" using assms(2) by simp
  then show "range_ok (ms_vpn_range seg)" "ms_data_frames seg = []" "ms_map_type seg = mt"
    "ms_permission seg = perm"
    "sr_l (ms_vpn_range seg) = addr_floor start_va" "sr_r (ms_vpn_range seg) = addr_ceil end_va"
    using assms(3) by (auto simp: MemorySegment_new_def SimpleRange_new_def range_ok_def)
qed

lemma unat_VirtAddr_from: "unat (VirtAddr_from v) < 2 ^ 39"
  by (simp add: VirtAddr_from_def unat_shl_shr width_defs)

section \<open>Loading a program\<close>

text \<open>The bytes a loadable program header contributes, and the segment made from it.\<close>

definition loaded :: "u8 list \<Rightarrow> mem \<Rightarrow> program_header \<Rightarrow> MemorySegment \<Rightarrow> bool" where
  "loaded input m ph seg \<longleftrightarrow>
     sr_l (ms_vpn_range seg) = addr_floor (VirtAddr_from (ph_virtual_addr ph))
     \<and> sr_r (ms_vpn_range seg) = addr_ceil (VirtAddr_from (ph_virtual_addr ph + ph_mem_size ph))
     \<and> ms_permission seg = ph_permission ph
     \<and> frames_bytes (map snd (ms_data_frames seg)) m =
         padded (4096 * length (items (ms_vpn_range seg)))
           (take (unat (ph_offset ph + ph_file_size ph) - unat (ph_offset ph))
             (drop (unat (ph_offset ph)) input))"

abbreviation load_headers :: "program_header option list \<Rightarrow> program_header list" where
  "load_headers hs \<equiv> filter (\<lambda>ph. ph_load ph = Some True) (map the hs)"

lemma loaded_cong:
  assumes "loaded input m ph seg"
    and "\<And>p. p \<in> snd ` set (ms_data_frames seg) \<Longrightarrow> get_bytes_array p m' = get_bytes_array p m"
  shows "loaded input m' ph seg"
proof -
  have "map (\<lambda>p. get_bytes_array p m') (map snd (ms_data_frames seg))
      = map (\<lambda>p. get_bytes_array p m) (map snd (ms_data_frames seg))"
    by (rule map_cong) (use assms(2) in auto)
  then show ?thesis using assms(1) by (simp only: loaded_def)
qed

lemma load_segments_ok:
  assumes "as_inv l a s" "all_framed a"
    "load_segments hs input end_vpn a s = Inr (end_vpn', a', s')"
  shows "as_inv l a' s' \<and> all_framed a'
    \<and> (\<exists>segs. as_segments a' = as_segments a @ segs
         \<and> list_all2 (loaded input (pm_mem s')) (load_headers hs) segs)
    \<and> (\<forall>q \<in> frames_live l s - set (pt_frames (as_page_table a)).
         q \<in> frames_live l s' - set (pt_frames (as_page_table a'))
         \<and> get_bytes_array q (pm_mem s') = get_bytes_array q (pm_mem s))"
  using assms
proof (induction hs arbitrary: end_vpn a s)
  case Nil
  then show ?case by simp
next
  case (Cons h hs)
  obtain ph ld where ph: "h = Some ph" "ph_load ph = Some ld" using Cons.prems(3) by auto
  show ?case
  proof (cases ld)
    case False
    then show ?thesis using Cons.IH [OF Cons.prems(1,2)] Cons.prems(3) ph by auto
  next
    case True
    obtain seg data a1 s1 where
      seg: "MemorySegment_new (VirtAddr_from (ph_virtual_addr ph))
         (VirtAddr_from (ph_virtual_addr ph + ph_mem_size ph)) Framed (ph_permission ph) = Inr seg"
      and data: "slice (unat (ph_offset ph)) (unat (ph_offset ph + ph_file_size ph)) input = Inr data"
      and add: "add_segment seg (Some data) a s = Inr (a1, s1)"
      and rest: "load_segments hs input (sr_r (ms_vpn_range seg)) a1 s1 = Inr (end_vpn', a', s')"
      using Cons.prems(3) ph True by auto
    note N = MemorySegment_new_ok [OF unat_VirtAddr_from unat_VirtAddr_from seg]
    obtain fs where fs: "as_segments a1 = as_segments a @ [seg\<lparr>ms_data_frames := fs\<rparr>]"
      "bt_keys fs = items (ms_vpn_range seg)" "as_inv l a1 s1" "snd ` set fs \<inter> frames_live l s = {}"
      "frames_bytes (map snd fs) (pm_mem s1) = padded (4096 * length fs) data"
      "\<And>q. q \<in> frames_live l s - set (pt_frames (as_page_table a)) \<Longrightarrow>
         q \<in> frames_live l s1 - set (pt_frames (as_page_table a1))
         \<and> get_bytes_array q (pm_mem s1) = get_bytes_array q (pm_mem s)"
      by (rule add_segment_data [OF Cons.prems(1) N(3,2,1) add]) blast
    have af: "all_framed a1" using Cons.prems(2) fs(1) N(3) by (simp add: all_framed_def)
    obtain segs where S: "as_inv l a' s'" "all_framed a'" "as_segments a' = as_segments a1 @ segs"
      "list_all2 (loaded input (pm_mem s')) (load_headers hs) segs"
      "\<And>q. q \<in> frames_live l s1 - set (pt_frames (as_page_table a1)) \<Longrightarrow>
         q \<in> frames_live l s' - set (pt_frames (as_page_table a'))
         \<and> get_bytes_array q (pm_mem s') = get_bytes_array q (pm_mem s1)"
      using Cons.IH [OF fs(3) af rest] by blast
    have len: "length fs = length (items (ms_vpn_range seg))" using fs(2) by (metis length_map)
    let ?seg = "seg\<lparr>ms_data_frames := fs\<rparr>"
    have l1: "loaded input (pm_mem s1) ph ?seg"
      using N fs(5) len data by (simp add: loaded_def slice_def split: if_splits)
    have "snd ` set fs \<subseteq> set (as_frames a1)" using fs(1) by (auto simp: as_map_def)
    then have sub: "snd ` set fs \<subseteq> frames_live l s1 - set (pt_frames (as_page_table a1))"
      using fs(3) unfolding as_inv_def by blast
    have "loaded input (pm_mem s') ph ?seg"
    proof (rule loaded_cong [OF l1])
      fix p assume "p \<in> snd ` set (ms_data_frames ?seg)"
      then have "p \<in> snd ` set fs" by simp
      then show "get_bytes_array p (pm_mem s') = get_bytes_array p (pm_mem s1)" using S(5) sub by blast
    qed
    then have "list_all2 (loaded input (pm_mem s')) (load_headers (h # hs)) (seg\<lparr>ms_data_frames := fs\<rparr> # segs)"
      using S(4) ph True by simp
    moreover have "as_segments a' = as_segments a @ seg\<lparr>ms_data_frames := fs\<rparr> # segs"
      using S(3) fs(1) by simp
    moreover have "q \<in> frames_live l s' - set (pt_frames (as_page_table a'))
        \<and> get_bytes_array q (pm_mem s') = get_bytes_array q (pm_mem s)"
      if "q \<in> frames_live l s - set (pt_frames (as_page_table a))" for q
      using S(5) [of q] fs(6) [OF that] by simp
    ultimately show ?thesis using S(1,2) by blast
  qed
qed

section \<open>Properties\<close>

text \<open>What a user program sees at a virtual page: the flags of its entry and the bytes behind it.\<close>

definition user_page :: "AddressSpace \<Rightarrow> mem \<Rightarrow> VirtPageNum \<Rightarrow> (u8 \<times> u8 list) option" where
  "user_page a m v = map_option (\<lambda>e. (pte_flags e, get_bytes_array (pte_ppn e) m)) (as_lookup a m v)"

lemma user_page_seg:
  assumes "as_inv l a s" "seg \<in> set (as_segments a)" "(v, p) \<in> set (ms_data_frames seg)"
  shows "user_page a (pm_mem s) v = Some (ms_permission seg OR PTE_V, get_bytes_array p (pm_mem s))"
proof -
  have "(v, p) \<in> set (as_map a)" using assms(2,3) by (auto simp: as_map_def)
  then have "ppn_ok p" using as_map_live [OF assms(1)] by blast
  moreover have "seg_inv (as_lookup a (pm_mem s)) seg" using assms(1,2) by (simp add: as_inv_def)
  then have "as_lookup a (pm_mem s) v = Some (pt_entry p (ms_permission seg))"
    using assms(3) by (auto simp: seg_inv_def split: MapType.splits)
  ultimately show ?thesis by (simp add: user_page_def pte_flags_new pte_ppn_new)
qed

lemma seg_page_frame:
  assumes "as_inv l a s" "seg \<in> set (as_segments a)" "ms_map_type seg = Framed"
    "v \<in> set (items (ms_vpn_range seg))"
  obtains p where "(v, p) \<in> set (ms_data_frames seg)"
proof -
  have "bt_keys (ms_data_frames seg) = items (ms_vpn_range seg)"
    using assms(1-3) by (auto simp: as_inv_def seg_inv_def)
  then have "v \<in> fst ` set (ms_data_frames seg)" using assms(4) by (metis set_map)
  then show thesis using that by auto
qed

text \<open>
  C6. \<open>fork\<close> copies the address space: if \<open>from_existed_user\<close> returns, then every page of the
  parent reads the same in the child, byte for byte and with the same permission flags; the frames
  of the child were all free before, so nothing is shared; the parent still satisfies its invariant
  and no frame that was in use has changed.
\<close>

theorem from_existed_user_copies:
  assumes "as_inv l u s" "all_framed u" "from_existed_user st u s = Inr (a, s')"
  shows "as_inv l a s' \<and> as_inv l u s' \<and> as_owned a \<inter> frames_live l s = {}
    \<and> (\<forall>v \<in> set (as_pages u). user_page a (pm_mem s') v = user_page u (pm_mem s) v)
    \<and> (\<forall>q \<in> frames_live l s. get_bytes_array q (pm_mem s') = get_bytes_array q (pm_mem s))"
proof -
  note F = from_existed_user_ok [OF assms]
  have "user_page a (pm_mem s') v = user_page u (pm_mem s) v" if "v \<in> set (as_pages u)" for v
  proof -
    obtain sg where sg: "sg \<in> set (as_segments u)" "v \<in> set (items (ms_vpn_range sg))"
      using \<open>v \<in> set (as_pages u)\<close> by (auto simp: as_pages_def)
    then obtain i where i: "i < length (as_segments u)" "sg = as_segments u ! i" by (auto simp: in_set_conv_nth)
    let ?sg' = "as_segments a ! i"
    have cp: "seg_copied s s' sg ?sg'" and sg': "?sg' \<in> set (as_segments a)"
      using F(6) i by (auto simp: list_all2_conv_all_nth)
    have fr: "ms_map_type sg = Framed" "ms_map_type ?sg' = Framed"
      using assms(2) F(3) sg(1) sg' by (auto simp: all_framed_def)
    obtain q where q: "(v, q) \<in> set (ms_data_frames sg)"
      using seg_page_frame [OF assms(1) sg(1) fr(1) sg(2)] .
    obtain p where p: "(v, p) \<in> set (ms_data_frames ?sg')"
      using seg_page_frame [OF F(2) sg' fr(2)] cp sg(2) by (auto simp: seg_copied_def)
    show ?thesis
      using user_page_seg [OF assms(1) sg(1) q] user_page_seg [OF F(2) sg' p] cp q p
      by (simp add: seg_copied_def)
  qed
  then show ?thesis using F by blast
qed

text \<open>A user address space for the witnesses: two pages at 0x10000 on the machine of \<open>phys0\<close>.\<close>

abbreviation frame0 :: PhysPageNum where
  "frame0 \<equiv> first_frame 0x80400000"

lemma bare0:
  obtains a s where "as_inv frame0 a s" "all_framed a" "as_segments a = []"
    "\<And>v. as_lookup a (pm_mem s) v = None" "avail s = 31743"
proof -
  obtain p s where f: "frame_alloc phys0 = Some (p, s)" "avail s = 31743"
    using frame_alloc_avail [OF phys0_inv] phys0_avail by auto
  then have "new_bare phys0 = Inr (\<lparr>as_page_table = \<lparr>pt_root_ppn = p, pt_frames = [p]\<rparr>, as_segments = []\<rparr>, s)"
    by (simp add: new_bare_def PageTable_new_def)
  then show thesis using that new_bare_ok [OF phys0_inv] f(2) by blast
qed

lemma floor_0x10000: "addr_floor 0x10000 = 0x10" "addr_ceil 0x12000 = 0x12"
  by (simp_all add: word_unat_eq_iff unat_addr_floor unat_addr_ceil)

lemma items_0x10: "items \<lparr>sr_l = 0x10, sr_r = 0x12\<rparr> = [0x10, 0x11]"
  by (simp add: items_def range_items_eq upt_conv_Cons)

lemma user_space0:
  obtains a0 s0 a s where "as_inv frame0 a0 s0"
    "add_segment_framed 0x10000 0x12000 (Permission_R OR Permission_U) a0 s0 = Inr (a, s)"
    "as_inv frame0 a s" "all_framed a" "as_pages a = [0x10, 0x11]" "31737 \<le> avail s"
    "find_index (\<lambda>segment. sr_l (ms_vpn_range segment) = 0x10) (as_segments a) = Some 0"
proof -
  obtain a0 s0 where b: "as_inv frame0 a0 s0" "all_framed a0" "as_segments a0 = []"
    "\<And>v. as_lookup a0 (pm_mem s0) v = None" "avail s0 = 31743" using bare0 by blast
  define seg where "seg = \<lparr>ms_vpn_range = \<lparr>sr_l = 0x10, sr_r = 0x12\<rparr>, ms_data_frames = [],
    ms_map_type = Framed, ms_permission = Permission_R OR Permission_U\<rparr>"
  have new: "MemorySegment_new 0x10000 0x12000 Framed (Permission_R OR Permission_U) = Inr seg"
    by (simp add: MemorySegment_new_def SimpleRange_new_def floor_0x10000 seg_def)
  have seg: "ms_map_type seg = Framed" "ms_data_frames seg = []" "range_ok (ms_vpn_range seg)"
    by (simp_all add: seg_def range_ok_def)
  have it: "items (ms_vpn_range seg) = [0x10, 0x11]" by (simp add: seg_def items_0x10)
  obtain a s where add: "add_segment seg None a0 s0 = Inr (a, s)" "31743 \<le> avail s + 6"
    using add_segment_total [OF b(1) seg] b(4,5) it by auto
  obtain fs where fs: "as_segments a = as_segments a0 @ [seg\<lparr>ms_data_frames := fs\<rparr>]" "as_inv frame0 a s"
    by (rule add_segment_inv [OF b(1) seg add(1)]) blast
  show thesis
  proof (rule that)
    show "add_segment_framed 0x10000 0x12000 (Permission_R OR Permission_U) a0 s0 = Inr (a, s)"
      using new add(1) by (simp add: add_segment_framed_def)
    show "find_index (\<lambda>segment. sr_l (ms_vpn_range segment) = 0x10) (as_segments a) = Some 0"
      using fs(1) b(3) by (simp add: seg_def)
  qed (use b fs add(2) it seg in \<open>auto simp: all_framed_def as_pages_def\<close>)
qed

lemma aligned_0x80200000: "page_offset (PhysAddr_from 0x80200000) = 0"
proof -
  have "PhysAddr_from 0x80200000 = 0x80200000" by (rule PhysAddr_from_small) simp
  then show ?thesis by (simp add: word_unat_eq_iff unat_page_offset)
qed

theorem from_existed_user_copies_witness:
  "\<exists>u s a s'. as_inv frame0 u s \<and> all_framed u \<and> as_pages u = [0x10, 0x11]
    \<and> from_existed_user 0x80200000 u s = Inr (a, s')
    \<and> user_page a (pm_mem s') 0x10 = user_page u (pm_mem s) 0x10"
proof -
  obtain u s where u: "as_inv frame0 u s" "all_framed u" "as_pages u = [0x10, 0x11]" "31737 \<le> avail s"
    by (rule user_space0) blast
  then obtain a s' where f: "from_existed_user 0x80200000 u s = Inr (a, s')"
    using from_existed_user_total [OF u(1,2) aligned_0x80200000] by auto
  then show ?thesis using from_existed_user_copies [OF u(1,2) f] u by auto
qed

text \<open>
  C15. Copying succeeds when memory suffices: with three frames for the new page table and its
  trampoline, and three per page of the parent, \<open>from_existed_user\<close> returns.
\<close>

theorem from_existed_user_returns:
  assumes "as_inv l u s" "all_framed u" "page_offset (PhysAddr_from st) = 0"
    "0x7FFFFFF \<notin> set (as_pages u)" "3 + 3 * length (as_pages u) \<le> fa_avail (pm_frames s)"
  shows "\<exists>a s'. from_existed_user st u s = Inr (a, s')"
  using assms by (rule from_existed_user_total)

theorem from_existed_user_returns_witness:
  "\<exists>u s. as_inv frame0 u s \<and> as_pages u = [0x10, 0x11] \<and> (\<exists>a s'. from_existed_user 0x80200000 u s = Inr (a, s'))"
proof -
  obtain u s where u: "as_inv frame0 u s" "all_framed u" "as_pages u = [0x10, 0x11]" "31737 \<le> avail s"
    by (rule user_space0) blast
  then show ?thesis using from_existed_user_returns [OF u(1,2) aligned_0x80200000] by auto
qed

text \<open>
  C16. No frame leaks: dropping the child that \<open>from_existed_user\<close> made does not panic, gives back
  exactly the frames the copy took, page tables included, and leaves the parent valid.
\<close>

theorem fork_then_drop_restores:
  assumes "as_inv l u s" "all_framed u" "from_existed_user st u s = Inr (a, s')"
  shows "\<exists>s''. AddressSpace_drop a s' = Inr s'' \<and> frames_live l s'' = frames_live l s \<and> as_inv l u s''"
proof -
  note F = from_existed_user_ok [OF assms]
  obtain s'' where d: "AddressSpace_drop a s' = Inr s''" "phys_inv l s''"
    "frames_live l s'' = frames_live l s' - as_owned a" "pm_mem s'' = pm_mem s'"
    using AddressSpace_drop_owned [OF F(2)] by blast
  have live: "frames_live l s'' = frames_live l s" using d(3) F(4,5) by auto
  have "as_inv l u s''"
    by (rule as_inv_cong(1) [OF F(1) d(2)]) (use as_owned_live [OF assms(1)] live d(4) in auto)
  then show ?thesis using d(1) live by blast
qed

theorem fork_then_drop_restores_witness:
  "\<exists>u s a s' s''. as_inv frame0 u s \<and> from_existed_user 0x80200000 u s = Inr (a, s')
    \<and> AddressSpace_drop a s' = Inr s'' \<and> frames_live frame0 s'' = frames_live frame0 s"
proof -
  obtain u s where u: "as_inv frame0 u s" "all_framed u" "as_pages u = [0x10, 0x11]" "31737 \<le> avail s"
    by (rule user_space0) blast
  then obtain a s' where f: "from_existed_user 0x80200000 u s = Inr (a, s')"
    using from_existed_user_total [OF u(1,2) aligned_0x80200000] by auto
  then show ?thesis using fork_then_drop_restores [OF u(1,2) f] u(1) by blast
qed

text \<open>
  C17. \<open>add_segment_framed\<close> maps new zeroed pages and records them: if it returns, the address space has
  one more segment, with the pages from the page of \<open>start_va\<close> to the page before the rounded-up
  \<open>end_va\<close> and the given permissions. The segment owns one frame for each of its pages; these frames
  are different and were free, and apart from them and the tables of the address space no frame has
  become live. Each page was unmapped and is now mapped to its frame, with the given permissions, and
  reads as zeros; every other page keeps its entry, no frame in use has changed, and the address space
  keeps its invariant.
\<close>

theorem add_segment_framed_maps_zero_pages:
  assumes "as_inv l a s" "unat start_va < 2 ^ 39" "unat end_va < 2 ^ 39"
    "add_segment_framed start_va end_va perm a s = Inr (a', s')"
  shows "\<exists>fs. as_inv l a' s'
    \<and> as_segments a' = as_segments a @ [\<lparr>ms_vpn_range = \<lparr>sr_l = addr_floor start_va, sr_r = addr_ceil end_va\<rparr>,
         ms_data_frames = fs, ms_map_type = Framed, ms_permission = perm\<rparr>]
    \<and> fst ` set fs = {v. addr_floor start_va \<le> v \<and> v < addr_ceil end_va} \<and> distinct (map fst fs)
    \<and> distinct (map snd fs) \<and> snd ` set fs \<inter> frames_live l s = {}
    \<and> frames_live l s' = frames_live l s \<union> snd ` set fs \<union> set (pt_frames (as_page_table a'))
    \<and> (\<forall>(v, p) \<in> set fs. as_lookup a (pm_mem s) v = None \<and> as_lookup a' (pm_mem s') v = Some (pt_entry p perm)
         \<and> user_page a' (pm_mem s') v = Some (perm OR PTE_V, replicate 4096 0))
    \<and> (\<forall>v. vpn_ok v \<and> \<not> (addr_floor start_va \<le> v \<and> v < addr_ceil end_va) \<longrightarrow>
         as_lookup a' (pm_mem s') v = as_lookup a (pm_mem s) v)
    \<and> (\<forall>q \<in> frames_live l s - set (pt_frames (as_page_table a)).
         get_bytes_array q (pm_mem s') = get_bytes_array q (pm_mem s))"
proof -
  obtain seg where new: "MemorySegment_new start_va end_va Framed perm = Inr seg"
    and add: "add_segment seg None a s = Inr (a', s')"
    using assms(4) by (auto simp: add_segment_framed_def)
  note N = MemorySegment_new_ok [OF assms(2,3) new]
  obtain fs where fs: "as_segments a' = as_segments a @ [seg\<lparr>ms_data_frames := fs\<rparr>]"
    "bt_keys fs = items (ms_vpn_range seg)"
    "pt.framed l (ms_permission seg) fs (as_page_table a, s) (as_page_table a', s')"
    "\<And>v. v \<in> set (bt_keys fs) \<Longrightarrow> as_lookup a (pm_mem s) v = None" "as_inv l a' s'"
    by (rule add_segment_inv [OF assms(1) N(3,2,1) add]) blast
  have pages: "v \<in> set (bt_keys fs) \<longleftrightarrow> addr_floor start_va \<le> v \<and> v < addr_ceil end_va" for v
    using range_ok_items(3) [OF N(1)] N(5,6) fs(2) by simp
  have seg: "seg\<lparr>ms_data_frames := fs\<rparr> = \<lparr>ms_vpn_range = \<lparr>sr_l = addr_floor start_va, sr_r = addr_ceil end_va\<rparr>,
      ms_data_frames = fs, ms_map_type = Framed, ms_permission = perm\<rparr>" using N(3-6) by simp
  have keys: "distinct (map fst fs)" using fs(2) range_ok_items(2) [OF N(1)] by simp
  have ok: "vpn_ok v" if "v \<in> set (bt_keys fs)" for v using range_ok_items(1) [OF N(1)] fs(2) that by simp
  have F: "distinct (map snd fs)" "snd ` set fs \<inter> (frames_live l s \<union> set (pt_frames (as_page_table a'))) = {}"
    "frames_live l s' = frames_live l s \<union> set (pt_frames (as_page_table a')) \<union> snd ` set fs"
    "\<And>w. vpn_ok w \<Longrightarrow> as_lookup a' (pm_mem s') w =
      (case map_of fs w of Some p \<Rightarrow> Some (pt_entry p perm) | None \<Rightarrow> as_lookup a (pm_mem s) w)"
    "\<forall>p \<in> set fs. get_bytes_array (snd p) (pm_mem s') = replicate 4096 0"
    "\<And>q. q \<in> frames_live l s - set (pt_frames (as_page_table a)) \<Longrightarrow> get_bytes_array q (pm_mem s') = get_bytes_array q (pm_mem s)"
    using fs(3) N(4) by (simp_all add: pt.framed_def cong: option.case_cong)
  have page: "as_lookup a (pm_mem s) v = None" "as_lookup a' (pm_mem s') v = Some (pt_entry p perm)"
    "user_page a' (pm_mem s') v = Some (perm OR PTE_V, replicate 4096 0)" if "(v, p) \<in> set fs" for v p
  proof -
    have v: "v \<in> set (bt_keys fs)" using that by force
    show "as_lookup a (pm_mem s) v = None" by (rule fs(4) [OF v])
    show "as_lookup a' (pm_mem s') v = Some (pt_entry p perm)"
      using F(4) [OF ok [OF v]] map_of_is_SomeI [OF keys that] by simp
    have "get_bytes_array p (pm_mem s') = replicate 4096 0" using F(5) that by fastforce
    then show "user_page a' (pm_mem s') v = Some (perm OR PTE_V, replicate 4096 0)"
      using user_page_seg [OF fs(5), of "seg\<lparr>ms_data_frames := fs\<rparr>" v p] fs(1) that N(4) by simp
  qed
  have "as_lookup a' (pm_mem s') v = as_lookup a (pm_mem s) v" if "vpn_ok v" "v \<notin> set (bt_keys fs)" for v
  proof -
    have "map_of fs v = None" using that(2) by (simp add: map_of_eq_None_iff)
    then show ?thesis using F(4) [OF that(1)] by simp
  qed
  moreover have "fst ` set fs = {v. addr_floor start_va \<le> v \<and> v < addr_ceil end_va}" using pages by auto
  moreover have "snd ` set fs \<inter> frames_live l s = {}" using F(2) by blast
  moreover have "frames_live l s' = frames_live l s \<union> snd ` set fs \<union> set (pt_frames (as_page_table a'))" using F(3) by blast
  moreover have "\<forall>(v, p) \<in> set fs. as_lookup a (pm_mem s) v = None \<and> as_lookup a' (pm_mem s') v = Some (pt_entry p perm)
      \<and> user_page a' (pm_mem s') v = Some (perm OR PTE_V, replicate 4096 0)" using page by blast
  ultimately show ?thesis
    using fs(1,5) keys F(1,6) pages unfolding seg by (intro exI [of _ fs] conjI) simp_all
qed

theorem add_segment_framed_maps_zero_pages_witness:
  "\<exists>a s a' s' p. as_inv frame0 a s
    \<and> add_segment_framed 0x10000 0x12000 (Permission_R OR Permission_U) a s = Inr (a', s')
    \<and> p \<notin> frames_live frame0 s \<and> as_lookup a' (pm_mem s') 0x10 = Some (pt_entry p (Permission_R OR Permission_U))
    \<and> user_page a' (pm_mem s') 0x10 = Some ((Permission_R OR Permission_U) OR PTE_V, replicate 4096 0)"
proof -
  obtain a s a' s' where u: "as_inv frame0 a s"
    "add_segment_framed 0x10000 0x12000 (Permission_R OR Permission_U) a s = Inr (a', s')"
    by (rule user_space0) blast
  have h: "unat (0x10000 :: usize) < 2 ^ 39" "unat (0x12000 :: usize) < 2 ^ 39" by simp_all
  obtain fs where fs: "fst ` set fs = {v. addr_floor 0x10000 \<le> v \<and> v < addr_ceil 0x12000}" "snd ` set fs \<inter> frames_live frame0 s = {}"
    "\<forall>(v, p) \<in> set fs. as_lookup a (pm_mem s) v = None \<and> as_lookup a' (pm_mem s') v = Some (pt_entry p (Permission_R OR Permission_U))
       \<and> user_page a' (pm_mem s') v = Some ((Permission_R OR Permission_U) OR PTE_V, replicate 4096 0)"
    using add_segment_framed_maps_zero_pages [OF u(1) h u(2)] by (elim exE conjE) (rule that)
  have "0x10 \<in> fst ` set fs" unfolding fs(1) by (simp add: floor_0x10000)
  then obtain p where "(0x10, p) \<in> set fs" by auto
  then have "p \<notin> frames_live frame0 s" "as_lookup a' (pm_mem s') 0x10 = Some (pt_entry p (Permission_R OR Permission_U))"
    "user_page a' (pm_mem s') 0x10 = Some ((Permission_R OR Permission_U) OR PTE_V, replicate 4096 0)"
    using fs(2,3) by (auto simp: disjoint_iff image_iff dest!: bspec)
  then show ?thesis using u by blast
qed

text \<open>
  C18. \<open>remove_segment_with_start_vpn\<close> removes the first segment that starts at the given page: it
  does not panic, the pages of the segment become unmapped, exactly its data frames become free, all
  other pages keep their entries, and the address space keeps its invariant.
\<close>

theorem remove_segment_frees:
  assumes "as_inv l a s"
    "find_index (\<lambda>segment. sr_l (ms_vpn_range segment) = start_vpn) (as_segments a) = Some i"
    "ms_map_type (as_segments a ! i) = Framed"
  shows "\<exists>a' s'. remove_segment_with_start_vpn start_vpn a s = Inr (a', s')
    \<and> as_segments a' = remove_at i (as_segments a) \<and> as_inv l a' s'
    \<and> frames_live l s' = frames_live l s - snd ` set (ms_data_frames (as_segments a ! i))
    \<and> (\<forall>v. vpn_ok v \<longrightarrow> as_lookup a' (pm_mem s') v =
         (if v \<in> set (items (ms_vpn_range (as_segments a ! i))) then None else as_lookup a (pm_mem s) v))"
  using remove_segment_inv [OF assms] by fastforce

theorem remove_segment_frees_witness:
  "\<exists>a s a' s'. as_inv frame0 a s \<and> as_pages a = [0x10, 0x11]
    \<and> remove_segment_with_start_vpn 0x10 a s = Inr (a', s') \<and> as_segments a' = remove_at 0 (as_segments a)"
proof -
  obtain a s where u: "as_inv frame0 a s" "all_framed a" "as_pages a = [0x10, 0x11]"
    "find_index (\<lambda>segment. sr_l (ms_vpn_range segment) = 0x10) (as_segments a) = Some 0"
    by (rule user_space0) blast
  have "ms_map_type (as_segments a ! 0) = Framed"
    using u(2) find_index_SomeD(1) [OF u(4)] by (simp add: all_framed_def)
  then show ?thesis using remove_segment_frees [OF u(1,4)] u(1,3) by blast
qed

text \<open>
  C19. \<open>from_elf\<close> loads the image: whatever the ELF parser returns, if \<open>from_elf\<close> returns then
  the address space is well formed, it has one segment for each loadable program header, in order,
  spanning the pages of the header's virtual range with the header's permissions (and user access),
  the bytes of the segment are the bytes of the header's file range followed by zeros, and no frame
  that was in use has changed.
\<close>

theorem from_elf_loads_image:
  assumes "phys_inv l s" "from_elf ElfFile_new st elf_data s = Inr (a, stack_base, entry, s')"
  shows "\<exists>elf. ElfFile_new elf_data = Some elf \<and> entry = elf_entry_point elf \<and> as_inv l a s' \<and> all_framed a
    \<and> list_all2 (loaded elf_data (pm_mem s')) (load_headers (elf_program_headers elf)) (as_segments a)
    \<and> (\<forall>q \<in> frames_live l s. get_bytes_array q (pm_mem s') = get_bytes_array q (pm_mem s))"
proof -
  obtain a0 s0 a1 s1 elf ev where b: "new_bare s = Inr (a0, s0)" and t: "map_trampoline st a0 s0 = Inr (a1, s1)"
    and elf: "ElfFile_new elf_data = Some elf" "entry = elf_entry_point elf"
    and ld: "load_segments (elf_program_headers elf) elf_data 0 a1 s1 = Inr (ev, a, s')"
    using assms(2) by (auto simp: from_elf_def Let_def)
  note B = new_bare_ok [OF assms(1) b]
  note T = map_trampoline_ok [OF B(1,3) t]
  have af: "all_framed a1" using T(2) by (simp add: all_framed_def)
  note L = load_segments_ok [OF T(1) af ld]
  have "get_bytes_array q (pm_mem s') = get_bytes_array q (pm_mem s)" if q: "q \<in> frames_live l s" for q
  proof -
    have q0: "q \<in> frames_live l s0 - as_owned a0" using q B(4,5) by auto
    then have "q \<in> frames_live l s1 - set (pt_frames (as_page_table a1))"
      using T(4,6) by (auto simp: as_owned_def)
    then show ?thesis using L T(7) [OF q0] B(6) [OF q] by simp
  qed
  then show ?thesis using L T(2) elf by auto
qed

text \<open>An image with one header: three bytes at 0x10000, in a segment of two pages.\<close>

definition elf0 :: elf_file where
  "elf0 = \<lparr>elf_magic = [0x7f, 0x45, 0x4c, 0x46],
     elf_program_headers = [Some \<lparr>ph_load = Some True, ph_virtual_addr = 0x10000, ph_mem_size = 0x2000,
       ph_offset = 1, ph_file_size = 3, ph_read = True, ph_write = False, ph_execute = True\<rparr>],
     elf_entry_point = 0x10000\<rparr>"

lemma VirtAddr_from_small: "unat v < 2 ^ 39 \<Longrightarrow> VirtAddr_from v = v"
  by (simp add: word_unat_eq_iff VirtAddr_from_def unat_shl_shr width_defs)

theorem from_elf_loads_image_witness:
  "phys_inv frame0 phys0 \<and> (\<exists>a stack_base entry s'.
     from_elf (\<lambda>_. Some elf0) 0x80200000 [0, 7, 8, 9] phys0 = Inr (a, stack_base, entry, s')
     \<and> entry = 0x10000 \<and> as_inv frame0 a s')"
proof -
  obtain p s0 where f: "frame_alloc phys0 = Some (p, s0)" "avail s0 = 31743"
    using frame_alloc_avail [OF phys0_inv] phys0_avail by auto
  define a0 where "a0 = \<lparr>as_page_table = \<lparr>pt_root_ppn = p, pt_frames = [p]\<rparr>, as_segments = []\<rparr>"
  have b: "new_bare phys0 = Inr (a0, s0)" using f by (simp add: new_bare_def PageTable_new_def a0_def)
  note B = new_bare_ok [OF phys0_inv b]
  have pinv: "pt_inv frame0 (as_page_table a0) s0" using B(1) by (simp add: as_inv_def)
  obtain pt1 s1 where m: "PageTable_map 0x7FFFFFF (addr_floor (PhysAddr_from 0x80200000))
      (Permission_R OR Permission_X) (as_page_table a0) s0 = Inr (pt1, s1)"
    using PageTable_map_total [OF pinv, of "0x7FFFFFF" "addr_floor (PhysAddr_from 0x80200000)"
        "Permission_R OR Permission_X"] B(7) f(2) by auto
  define a1 where "a1 = a0\<lparr>as_page_table := pt1\<rparr>"
  have t: "map_trampoline 0x80200000 a0 s0 = Inr (a1, s1)"
    using m aligned_0x80200000
    by (simp add: map_trampoline_def trampoline_vpn PhysPageNum_from_addr_def a1_def)
  note T = map_trampoline_ok [OF B(1,3) t]
  have "phys_inv frame0 s0" using pinv by (simp add: pt_inv_def)
  then have av: "6 \<le> avail s1" using PageTable_map_avail [OF _ m] f(2) by fastforce
  define seg where "seg = \<lparr>ms_vpn_range = \<lparr>sr_l = 0x10, sr_r = 0x12\<rparr>, ms_data_frames = [],
    ms_map_type = Framed, ms_permission = ph_permission (the (hd (elf_program_headers elf0)))\<rparr>"
  have it: "items (ms_vpn_range seg) = [0x10, 0x11]" by (simp add: seg_def items_0x10)
  have "as_lookup a1 (pm_mem s1) v = None" if "v \<in> {0x10, 0x11}" for v
    using that PageTable_map_spec(1) [OF pinv _ m] B(7) by (auto simp: a1_def pt_maps_def)
  then obtain a s' where add: "add_segment seg (Some [7, 8, 9]) a1 s1 = Inr (a, s')"
    using add_segment_data_total [OF T(1), of seg "[7, 8, 9]"] av it by (auto simp: seg_def range_ok_def)
  have "MemorySegment_new (VirtAddr_from 0x10000) (VirtAddr_from (0x10000 + 0x2000)) Framed perm
      = Inr (seg\<lparr>ms_permission := perm\<rparr>)" for perm
    by (simp add: VirtAddr_from_small MemorySegment_new_def SimpleRange_new_def floor_0x10000 seg_def)
  then have "from_elf (\<lambda>_. Some elf0) 0x80200000 [0, 7, 8, 9] phys0
      = Inr (a, VirtAddr_from_vpn 0x12 + PAGE_SIZE, 0x10000, s')"
    using b t add by (simp add: from_elf_def elf0_def slice_def seg_def Let_def)
  from from_elf_loads_image [OF phys0_inv this] this show ?thesis using phys0_inv by auto
qed

end
