(* ===== verification/User_Memory.thy ===== *)
theory User_Memory
  imports Page_Table
begin

text \<open>
  The second half of \<open>os/src/mm/page_table.rs\<close>: how system calls reach user memory. A translated
  slice is the address and the length of a piece of physical memory, a \<open>UserBuffer\<close> a list of
  such pieces. The loops of \<open>translated_byte_buffer\<close> and \<open>translated_str\<close> do not end on every
  input, so they are partial functions; not returning is the value \<open>None\<close>.
\<close>

section \<open>Translated pointers\<close>

type_synonym user_slice = "usize \<times> usize"

text \<open>\<open>&mut ppn.get_bytes_array()[from..]\<close> or \<open>[from..to]\<close>, as the code chooses.\<close>

definition page_slice :: "PhysPageNum \<Rightarrow> VirtAddr \<Rightarrow> VirtAddr \<Rightarrow> user_slice result" where
  "page_slice ppn start_va end_va =
     (if page_offset end_va = 0
      then Inr (PhysAddr_from_ppn ppn + page_offset start_va, PAGE_SIZE - page_offset start_va)
      else if page_offset start_va \<le> page_offset end_va
      then Inr (PhysAddr_from_ppn ppn + page_offset start_va, page_offset end_va - page_offset start_va)
      else Inl IndexOutOfBounds)"

partial_function (option) byte_buffer_loop ::
  "usize \<Rightarrow> usize \<Rightarrow> PhysPageNum \<Rightarrow> mem \<Rightarrow> user_slice list \<Rightarrow> user_slice list result option" where
  "byte_buffer_loop start stop root m v =
     (if start < stop then
        case rbind (translate (addr_floor (VirtAddr_from start)) root m) unwrap of
          Inl e \<Rightarrow> Some (Inl e)
        | Inr pte \<Rightarrow>
            (case page_slice (pte_ppn pte) (VirtAddr_from start)
                    (min (VirtAddr_from_vpn (addr_floor (VirtAddr_from start) + 1)) (VirtAddr_from stop)) of
               Inl e \<Rightarrow> Some (Inl e)
             | Inr piece \<Rightarrow>
                 byte_buffer_loop
                   (usize_from_VirtAddr
                     (min (VirtAddr_from_vpn (addr_floor (VirtAddr_from start) + 1)) (VirtAddr_from stop)))
                   stop root m (v @ [piece]))
      else Some (Inr v))"

definition translated_byte_buffer :: "usize \<Rightarrow> usize \<Rightarrow> usize \<Rightarrow> mem \<Rightarrow> user_slice list result option" where
  "translated_byte_buffer satp ptr len m =
     byte_buffer_loop ptr (ptr + len) (PageTableView_from_satp satp) m []"

text \<open>\<open>PhysAddr::get_ref\<close> and \<open>get_mut\<close>: a null pointer is refused.\<close>

definition PhysAddr_get_mut :: "PhysAddr \<Rightarrow> usize result" where
  "PhysAddr_get_mut pa = (if pa = 0 then Inl UnwrapNone else Inr pa)"

definition translated_refmut :: "usize \<Rightarrow> usize \<Rightarrow> mem \<Rightarrow> usize result" where
  "translated_refmut satp ptr m =
     rbind (translate_va (VirtAddr_from ptr) (PageTableView_from_satp satp) m) (\<lambda>r.
     rbind (unwrap r) PhysAddr_get_mut)"

definition translated_ref :: "usize \<Rightarrow> usize \<Rightarrow> mem \<Rightarrow> usize result" where
  "translated_ref satp ptr m =
     rbind (translate_va (VirtAddr_from ptr) (PageTableView_from_satp satp) m) (\<lambda>r.
     rbind (unwrap r) PhysAddr_get_mut)"

partial_function (option) str_loop :: "usize \<Rightarrow> usize \<Rightarrow> mem \<Rightarrow> u8 list \<Rightarrow> u8 list result option" where
  "str_loop va satp m string =
     (case translated_refmut satp va m of
        Inl e \<Rightarrow> Some (Inl e)
      | Inr p \<Rightarrow>
          if m p = 0 then Some (Inr string) else str_loop (va + 1) satp m (string @ [m p]))"

definition translated_str :: "usize \<Rightarrow> usize \<Rightarrow> mem \<Rightarrow> u8 list result option" where
  "translated_str satp ptr m = str_loop ptr satp m []"

section \<open>User buffers\<close>

fun UserBuffer_len :: "user_slice list \<Rightarrow> usize" where
  "UserBuffer_len [] = 0"
| "UserBuffer_len (b # bs) = snd b + UserBuffer_len bs"

record UserBufferIterator =
  ub_buffers :: "user_slice list"
  ub_buffer_id :: nat
  ub_offset :: usize

definition UserBuffer_into_iter :: "user_slice list \<Rightarrow> UserBufferIterator" where
  "UserBuffer_into_iter bufs = \<lparr>ub_buffers = bufs, ub_buffer_id = 0, ub_offset = 0\<rparr>"

definition UserBufferIterator_next ::
  "UserBufferIterator \<Rightarrow> (usize option \<times> UserBufferIterator) result" where
  "UserBufferIterator_next it =
     (if length (ub_buffers it) \<le> ub_buffer_id it then Inr (None, it)
      else
        let (addr, len) = ub_buffers it ! ub_buffer_id it in
        if ub_offset it < len then
          Inr (Some (addr + ub_offset it),
               if ub_offset it + 1 = len
               then it\<lparr>ub_buffer_id := ub_buffer_id it + 1, ub_offset := 0\<rparr>
               else it\<lparr>ub_offset := ub_offset it + 1\<rparr>)
        else Inl IndexOutOfBounds)"

section \<open>Addresses of a buffer\<close>

definition slice_addrs :: "user_slice \<Rightarrow> usize list" where
  "slice_addrs b = map (\<lambda>k. fst b + of_nat k) [0..<unat (snd b)]"

abbreviation buffer_addrs :: "user_slice list \<Rightarrow> usize list" where
  "buffer_addrs bs \<equiv> concat (map slice_addrs bs)"

definition buffer_ok :: "user_slice list \<Rightarrow> bool" where
  "buffer_ok bs \<longleftrightarrow> (\<forall>b \<in> set bs. 0 < snd b)"

text \<open>The addresses an iterator has still to produce.\<close>

definition iter_addrs :: "UserBufferIterator \<Rightarrow> usize list" where
  "iter_addrs it =
     (if ub_buffer_id it < length (ub_buffers it)
      then drop (unat (ub_offset it)) (slice_addrs (ub_buffers it ! ub_buffer_id it))
        @ buffer_addrs (drop (Suc (ub_buffer_id it)) (ub_buffers it))
      else [])"

definition iter_ok :: "UserBufferIterator \<Rightarrow> bool" where
  "iter_ok it \<longleftrightarrow> buffer_ok (ub_buffers it)
     \<and> (ub_buffer_id it < length (ub_buffers it) \<longrightarrow> ub_offset it < snd (ub_buffers it ! ub_buffer_id it))
     \<and> (length (ub_buffers it) \<le> ub_buffer_id it \<longrightarrow> ub_offset it = 0)"

lemma into_iter_ok: "buffer_ok bs \<Longrightarrow> iter_ok (UserBuffer_into_iter bs)"
  by (cases bs) (auto simp: iter_ok_def buffer_ok_def UserBuffer_into_iter_def)

lemma into_iter_addrs: "iter_addrs (UserBuffer_into_iter bs) = buffer_addrs bs"
  by (cases bs) (auto simp: iter_addrs_def UserBuffer_into_iter_def)

lemma length_slice_addrs [simp]: "length (slice_addrs b) = unat (snd b)"
  by (simp add: slice_addrs_def)

lemma iter_next_None: "iter_ok it \<Longrightarrow> iter_addrs it = [] \<Longrightarrow> UserBufferIterator_next it = Inr (None, it)"
  by (auto simp: iter_addrs_def iter_ok_def UserBufferIterator_next_def word_less_nat_alt split: if_splits)

lemma iter_next_Some:
  assumes ok: "iter_ok it" and eq: "iter_addrs it = a # as"
  shows "\<exists>it'. UserBufferIterator_next it = Inr (Some a, it') \<and> iter_ok it' \<and> iter_addrs it' = as"
proof -
  let ?bs = "ub_buffers it" and ?i = "ub_buffer_id it" and ?o = "ub_offset it"
  have i: "?i < length ?bs" using eq by (auto simp: iter_addrs_def split: if_splits)
  obtain ad len where b: "?bs ! ?i = (ad, len)" by (cases "?bs ! ?i")
  have o: "unat ?o < unat len" using ok i b by (simp add: iter_ok_def word_less_nat_alt)
  have hd: "drop (unat ?o) (slice_addrs (ad, len)) = (ad + ?o) # drop (Suc (unat ?o)) (slice_addrs (ad, len))"
    using o by (simp add: Cons_nth_drop_Suc [symmetric]) (simp add: slice_addrs_def)
  have a: "a = ad + ?o" and as: "as = drop (Suc (unat ?o)) (slice_addrs (ad, len)) @ buffer_addrs (drop (Suc ?i) ?bs)"
    using eq i b hd by (auto simp: iter_addrs_def)
  have suc: "unat (?o + 1) = Suc (unat ?o)"
    using o unat_less_2p_64 [of len] by (simp add: unat_word_ariths)
  show ?thesis
  proof (cases "?o + 1 = len")
    case True
    define it' where "it' = it\<lparr>ub_buffer_id := ?i + 1, ub_offset := 0\<rparr>"
    have "UserBufferIterator_next it = Inr (Some a, it')"
      using i b o True a by (simp add: UserBufferIterator_next_def it'_def word_less_nat_alt)
    moreover have "iter_ok it'"
      using ok by (auto simp: iter_ok_def it'_def buffer_ok_def)
    moreover have "iter_addrs it' = as"
    proof (cases "Suc ?i < length ?bs")
      case True
      then show ?thesis
        using as suc \<open>?o + 1 = len\<close>
        by (simp add: iter_addrs_def it'_def Cons_nth_drop_Suc [symmetric])
    next
      case False
      then show ?thesis using as suc \<open>?o + 1 = len\<close> by (simp add: iter_addrs_def it'_def)
    qed
    ultimately show ?thesis by blast
  next
    case False
    define it' where "it' = it\<lparr>ub_offset := ?o + 1\<rparr>"
    have "UserBufferIterator_next it = Inr (Some a, it')"
      using i b o False a by (simp add: UserBufferIterator_next_def it'_def word_less_nat_alt)
    moreover have "?o + 1 < len"
      using o suc False by (simp add: word_less_nat_alt word_unat_eq_iff)
    then have "iter_ok it'" using ok i b by (simp add: iter_ok_def it'_def)
    moreover have "iter_addrs it' = as" using i b suc as by (simp add: iter_addrs_def it'_def)
    ultimately show ?thesis by blast
  qed
qed

text \<open>\<open>UserBuffer::len\<close> counts the addresses (modulo the machine word).\<close>

lemma UserBuffer_len_eq: "UserBuffer_len bs = of_nat (length (buffer_addrs bs))"
  by (induction bs) simp_all

section \<open>Translation of a user range\<close>

text \<open>The physical address behind a user address.\<close>

definition user_pa :: "PhysPageNum \<Rightarrow> mem \<Rightarrow> usize \<Rightarrow> usize" where
  "user_pa root m a =
     (case pt_lookup m root (addr_floor a) of
        Some e \<Rightarrow> PhysAddr_from_ppn (pte_ppn e) + page_offset a
      | None \<Rightarrow> 0)"

definition user_mapped :: "PhysPageNum \<Rightarrow> mem \<Rightarrow> usize \<Rightarrow> bool" where
  "user_mapped root m a \<longleftrightarrow> pt_lookup m root (addr_floor a) \<noteq> None"

lemma VirtAddr_from_low: "unat a < 2 ^ 39 \<Longrightarrow> VirtAddr_from a = a"
  by (simp add: word_unat_eq_iff VirtAddr_from_def unat_shl_shr width_defs)

lemma usize_from_low: "unat a < 2 ^ 38 \<Longrightarrow> usize_from_VirtAddr a = a"
proof -
  assume "unat a < 2 ^ 38"
  then have "unat (drop_bit 38 a) = 0" by (simp add: unat_drop_bit)
  then show ?thesis by (simp add: usize_from_VirtAddr_def width_defs unat_eq_0)
qed

lemma find_pte_Some:
  assumes "pt_lookup m r vpn = Some e"
  shows "\<exists>pte. find_pte vpn r m = Inr (Some pte) \<and> load64 m pte = e"
  using translate_lookup [OF assms] by (auto simp: translate_def)

lemma translate_va_mapped:
  assumes "user_mapped root m a"
  shows "translate_va a root m = Inr (Some (user_pa root m a))"
proof -
  obtain e where e: "pt_lookup m root (addr_floor a) = Some e" using assms by (auto simp: user_mapped_def)
  have p: "unat (pte_ppn e) < 0x100000000000" by (rule unat_pte_ppn)
  have o: "unat (page_offset a) < 4096" by (simp add: unat_page_offset)
  have "unat (PhysAddr_from_ppn (pte_ppn e)) = unat (pte_ppn e) * 4096"
    using p by (intro unat_PhysAddr_from_ppn) simp
  then have "unat (PhysAddr_from_ppn (pte_ppn e) + page_offset a) < 2 ^ 56"
    using p o by (simp add: unat_word_ariths)
  then show ?thesis
    using find_pte_Some [OF e] e
    by (auto simp: translate_va_def user_pa_def PhysAddr_from_small)
qed

text \<open>One round of the loop.\<close>

lemma page_arith:
  fixes q r k :: nat
  assumes "r + k < 4096"
  shows "(q * 4096 + r + k) div 4096 = q" "(q * 4096 + r + k) mod 4096 = r + k"
proof -
  have e: "q * 4096 + r + k = (r + k) + q * 4096" by simp
  show "(q * 4096 + r + k) div 4096 = q" "(q * 4096 + r + k) mod 4096 = r + k"
    using assms unfolding e by simp_all
qed

text \<open>Consecutive user addresses in one page are consecutive in its frame.\<close>

lemma user_pa_page:
  assumes map: "pt_lookup m root (addr_floor a) = Some e"
    and a: "unat a = q * 4096 + r" and k: "r + k < 4096"
  shows "user_pa root m (a + of_nat k) = PhysAddr_from_ppn (pte_ppn e) + page_offset a + of_nat k"
proof -
  have r: "r < 4096" using k by simp
  have uk: "unat (of_nat k :: usize) = k" using k by (intro unat_of_nat_64) simp
  have q: "q * 4096 + r < 18446744073709551616" using unat_less_2p_64 [of a] a by simp
  then have "q < 4503599627370496" by simp
  then have small: "q * 4096 + r + k < 18446744073709551616" using k by simp
  have u: "unat (a + of_nat k) = q * 4096 + r + k"
    using a uk small by (simp add: unat_word_ariths)
  have "addr_floor (a + of_nat k) = addr_floor a"
    using page_arith(1) [OF k, of q] page_arith(1) [of r 0 q] r
    by (simp add: word_unat_eq_iff unat_addr_floor u a)
  moreover have "page_offset (a + of_nat k) = page_offset a + of_nat k"
  proof -
    have "unat (page_offset (a + of_nat k)) = r + k"
      using page_arith(2) [OF k, of q] by (simp add: unat_page_offset u)
    moreover have "unat (page_offset a) = r" using page_arith(2) [of r 0 q] r by (simp add: unat_page_offset a)
    then have "unat (page_offset a + of_nat k) = r + k" using uk k by (simp add: unat_word_ariths)
    ultimately show ?thesis by (simp only: word_unat_eq_iff)
  qed
  ultimately show ?thesis using map by (simp add: user_pa_def)
qed

lemma page_slice_addrs:
  assumes lo: "unat a < unat b" "unat b < 2 ^ 38" and map: "pt_lookup m root (addr_floor a) = Some e"
  defines "c \<equiv> min (VirtAddr_from_vpn (addr_floor a + 1)) b"
  shows "unat a < unat c" "c \<le> b"
    "\<exists>piece. page_slice (pte_ppn e) a c = Inr piece \<and> 0 < snd piece
      \<and> slice_addrs piece = map (\<lambda>k. user_pa root m (of_nat k)) [unat a..<unat c]"
proof -
  obtain q r where a: "unat a = q * 4096 + r" and r: "r < 4096"
    by (metis div_mult_mod_eq mod_less_divisor zero_less_numeral)
  have fl: "unat (addr_floor a) = q" "unat (page_offset a) = r"
    using page_arith [of r 0 q] r by (simp_all add: unat_addr_floor unat_page_offset a)
  have ql: "q < 67108864" using lo a by simp
  then have q1: "unat (addr_floor a + 1) = q + 1" using fl by (simp add: unat_word_ariths)
  then have "unat (VirtAddr_from_vpn (addr_floor a + 1)) = (q + 1) * 4096"
    using ql by (subst unat_VirtAddr_from_vpn) simp_all
  then have c: "unat c = min ((q + 1) * 4096) (unat b)"
    unfolding c_def by (simp add: min_def word_le_nat_alt)
  show lt: "unat a < unat c" using c lo(1) a r by (simp add: min_def)
  show "c \<le> b" using c by (simp add: word_le_nat_alt)
  define n where "n = unat c - unat a"
  have n: "0 < n" "r + n \<le> 4096" "unat c = q * 4096 + r + n" using lt c a by (auto simp: n_def)
  have nw: "unat (of_nat n :: usize) = n" using n by (intro unat_of_nat_64) simp
  have piece: "page_slice (pte_ppn e) a c = Inr (PhysAddr_from_ppn (pte_ppn e) + page_offset a, of_nat n)"
  proof (cases "r + n = 4096")
    case True
    then have "unat c = (q + 1) * 4096" using n(3) by simp
    then have "page_offset c = 0" by (simp add: word_unat_eq_iff unat_page_offset)
    moreover have "PAGE_SIZE - page_offset a = of_nat n"
      using True fl(2) r nw by (simp add: word_unat_eq_iff unat_sub_if' PAGE_SIZE_def)
    ultimately show ?thesis by (simp add: page_slice_def)
  next
    case False
    then have "r + n < 4096" using n(2) by simp
    then have co: "unat (page_offset c) = r + n"
      using page_arith(2) [of r n q] n(3) by (simp add: unat_page_offset)
    then have "page_offset c \<noteq> 0" using n(1) by auto
    moreover have "page_offset c - page_offset a = of_nat n"
      using co fl(2) nw by (simp add: word_unat_eq_iff unat_sub_if')
    moreover have "page_offset a \<le> page_offset c" using co fl(2) by (simp add: word_le_nat_alt)
    ultimately show ?thesis by (simp add: page_slice_def)
  qed
  have "slice_addrs (PhysAddr_from_ppn (pte_ppn e) + page_offset a, of_nat n)
      = map (\<lambda>k. user_pa root m (a + of_nat k)) [0..<n]"
    using user_pa_page [OF map a] n(2) by (auto simp: slice_addrs_def nw)
  also have "\<dots> = map (\<lambda>k. user_pa root m (of_nat k)) [unat a..<unat c]"
    by (intro nth_equalityI) (auto simp: n_def)
  finally show "\<exists>piece. page_slice (pte_ppn e) a c = Inr piece \<and> 0 < snd piece
      \<and> slice_addrs piece = map (\<lambda>k. user_pa root m (of_nat k)) [unat a..<unat c]"
    using piece n(1) nw by (intro exI conjI) (auto simp: word_less_nat_alt)
qed

lemma byte_buffer_loop_ok:
  assumes "unat stop < 2 ^ 38" "\<forall>k. unat start \<le> k \<and> k < unat stop \<longrightarrow> user_mapped root m (of_nat k)"
  shows "\<exists>bs. byte_buffer_loop start stop root m v = Some (Inr (v @ bs)) \<and> buffer_ok bs
    \<and> buffer_addrs bs = map (\<lambda>k. user_pa root m (of_nat k)) [unat start..<unat stop]"
  using assms
proof (induction "unat stop - unat start" arbitrary: start v rule: less_induct)
  case less
  show ?case
  proof (cases "start < stop")
    case False
    then have "unat stop \<le> unat start" by (simp add: word_less_nat_alt)
    moreover have "byte_buffer_loop start stop root m v = Some (Inr v)"
      using False by (subst byte_buffer_loop.simps) simp
    ultimately show ?thesis by (intro exI [of _ "[]"]) (simp add: buffer_ok_def)
  next
    case True
    then have lt: "unat start < unat stop" by (simp add: word_less_nat_alt)
    have va: "VirtAddr_from start = start" "VirtAddr_from stop = stop"
      using less.prems(1) lt by (auto intro!: VirtAddr_from_low)
    have "user_mapped root m start" using less.prems(2) [rule_format, of "unat start"] lt by simp
    then obtain e where e: "pt_lookup m root (addr_floor start) = Some e" by (auto simp: user_mapped_def)
    define c where "c = min (VirtAddr_from_vpn (addr_floor start + 1)) stop"
    note P = page_slice_addrs [OF lt less.prems(1) e, folded c_def]
    obtain piece where piece: "page_slice (pte_ppn e) start c = Inr piece" "0 < snd piece"
      "slice_addrs piece = map (\<lambda>k. user_pa root m (of_nat k)) [unat start..<unat c]" using P(3) by blast
    have cb: "unat c \<le> unat stop" using P(2) by (simp add: word_le_nat_alt)
    then have uc: "usize_from_VirtAddr c = c" using less.prems(1) by (intro usize_from_low) simp
    have "byte_buffer_loop start stop root m v = byte_buffer_loop c stop root m (v @ [piece])"
      using True va translate_lookup [OF e] piece(1) uc
      by (subst byte_buffer_loop.simps) (simp add: c_def)
    moreover obtain bs where bs: "byte_buffer_loop c stop root m (v @ [piece]) = Some (Inr ((v @ [piece]) @ bs))"
      "buffer_ok bs" "buffer_addrs bs = map (\<lambda>k. user_pa root m (of_nat k)) [unat c..<unat stop]"
    proof -
      have "unat stop - unat c < unat stop - unat start" using P(1) cb lt by simp
      moreover have "\<forall>k. unat c \<le> k \<and> k < unat stop \<longrightarrow> user_mapped root m (of_nat k)"
        using less.prems(2) P(1) by simp
      ultimately show thesis using less.hyps [of c "v @ [piece]"] less.prems(1) that by blast
    qed
    moreover have "[unat start..<unat stop] = [unat start..<unat c] @ [unat c..<unat stop]"
      using P(1) cb by (metis le_add_diff_inverse less_imp_le_nat upt_add_eq_append)
    ultimately show ?thesis
      using piece by (intro exI [of _ "piece # bs"]) (auto simp: buffer_ok_def)
  qed
qed

lemma str_loop_ok:
  assumes "PageTableView_from_satp satp = root" "unat va + n < 2 ^ 38"
    "\<forall>k \<le> n. user_mapped root m (va + of_nat k) \<and> user_pa root m (va + of_nat k) \<noteq> 0"
    "\<forall>k < n. m (user_pa root m (va + of_nat k)) \<noteq> 0" "m (user_pa root m (va + of_nat n)) = 0"
  shows "str_loop va satp m acc = Some (Inr (acc @ map (\<lambda>k. m (user_pa root m (va + of_nat k))) [0..<n]))"
  using assms
proof (induction n arbitrary: va acc)
  case 0
  have "VirtAddr_from va = va" using 0 by (intro VirtAddr_from_low) simp
  then show ?case
    using 0 translate_va_mapped [of root m va]
    by (subst str_loop.simps) (auto simp: translated_refmut_def PhysAddr_get_mut_def)
next
  case (Suc n)
  have va: "VirtAddr_from va = va" using Suc.prems(2) by (intro VirtAddr_from_low) simp
  have h: "user_mapped root m va" "user_pa root m va \<noteq> 0" "m (user_pa root m va) \<noteq> 0"
    using Suc.prems(3,4) [rule_format, of 0] by auto
  have u: "unat (va + 1) = unat va + 1" using Suc.prems(2) by (simp add: unat_word_ariths)
  have sh: "va + 1 + of_nat k = va + of_nat (Suc k)" for k by simp
  have "str_loop va satp m acc = str_loop (va + 1) satp m (acc @ [m (user_pa root m va)])"
    using va h translate_va_mapped [OF h(1)] Suc.prems(1)
    by (subst str_loop.simps) (simp add: translated_refmut_def PhysAddr_get_mut_def)
  also have "\<dots> = Some (Inr ((acc @ [m (user_pa root m va)])
      @ map (\<lambda>k. m (user_pa root m (va + 1 + of_nat k))) [0..<n]))"
  proof (rule Suc.IH)
    show "unat (va + 1) + n < 2 ^ 38" using Suc.prems(2) u by simp
    show "\<forall>k \<le> n. user_mapped root m (va + 1 + of_nat k) \<and> user_pa root m (va + 1 + of_nat k) \<noteq> 0"
      "\<forall>k < n. m (user_pa root m (va + 1 + of_nat k)) \<noteq> 0"
      "m (user_pa root m (va + 1 + of_nat n)) = 0"
      using Suc.prems(3,4,5) unfolding sh by auto
  qed (fact Suc.prems(1))
  also have "map (\<lambda>k. m (user_pa root m (va + of_nat k))) [0..<Suc n]
      = m (user_pa root m va) # map (\<lambda>k. m (user_pa root m (va + 1 + of_nat k))) [0..<n]"
    unfolding sh by (subst upt_conv_Cons) (auto simp: map_Suc_upt [symmetric] simp del: upt_Suc)
  ultimately show ?case by simp
qed

section \<open>Properties\<close>

lemma PageTableView_from_satp_satp: "ppn_ok root \<Longrightarrow> PageTableView_from_satp (PageTable_satp root) = root"
proof (rule bit_word_eqI)
  fix n assume "ppn_ok root" "n < LENGTH(64)"
  then show "bit (PageTableView_from_satp (PageTable_satp root)) n = bit root n"
    using bit_ppn_ok [of root n]
    by (auto simp: PageTableView_from_satp_def PageTable_satp_def PhysPageNum_from_def shl_shr_take_bit
        width_defs bit_simps)
qed

text \<open>Draining an iterator: all the addresses it produces until it is exhausted.\<close>

fun drain :: "nat \<Rightarrow> UserBufferIterator \<Rightarrow> usize list result" where
  "drain 0 it = Inr []"
| "drain (Suc n) it =
     rbind (UserBufferIterator_next it) (\<lambda>(r, it').
       case r of None \<Rightarrow> Inr [] | Some a \<Rightarrow> rbind (drain n it') (\<lambda>as. Inr (a # as)))"

lemma drain_ok: "iter_ok it \<Longrightarrow> length (iter_addrs it) \<le> n \<Longrightarrow> drain n it = Inr (iter_addrs it)"
proof (induction n arbitrary: it)
  case (Suc n)
  show ?case
  proof (cases "iter_addrs it")
    case Nil
    then show ?thesis using iter_next_None [OF Suc.prems(1)] by simp
  next
    case (Cons a as)
    then show ?thesis using iter_next_Some [OF Suc.prems(1) Cons] Suc by auto
  qed
qed simp

text \<open>
  C20. A user buffer is the user's range: for a range below the middle of the address space whose
  pages are all mapped, \<open>translated_byte_buffer\<close> returns, and iterating over the
  \<open>UserBuffer\<close> produces exactly the physical addresses \<open>translate_va\<close> gives for the bytes of
  the range, in order, without panicking; \<open>UserBuffer::len\<close> is the length asked for.
\<close>

theorem user_buffer_is_user_range:
  assumes "ppn_ok root" "unat ptr + unat len < 2 ^ 38"
    "\<forall>k < unat len. user_mapped root m (ptr + of_nat k)"
  shows "\<exists>bs. translated_byte_buffer (PageTable_satp root) ptr len m = Some (Inr bs)
    \<and> UserBuffer_len bs = len
    \<and> drain (unat len) (UserBuffer_into_iter bs) = Inr (map (\<lambda>k. user_pa root m (ptr + of_nat k)) [0..<unat len])
    \<and> (\<forall>k < unat len. translate_va (ptr + of_nat k) root m = Inr (Some (user_pa root m (ptr + of_nat k))))"
proof -
  have stop: "unat (ptr + len) = unat ptr + unat len" using assms(2) by (simp add: unat_word_ariths)
  have "user_mapped root m (of_nat k)" if "unat ptr \<le> k" "k < unat (ptr + len)" for k
    using assms(3) [rule_format, of "k - unat ptr"] that stop by simp
  then obtain bs where bs: "byte_buffer_loop ptr (ptr + len) root m [] = Some (Inr bs)" "buffer_ok bs"
    "buffer_addrs bs = map (\<lambda>k. user_pa root m (of_nat k)) [unat ptr..<unat (ptr + len)]"
    using byte_buffer_loop_ok [of "ptr + len" ptr root m "[]"] assms(2) stop by auto
  have addrs: "buffer_addrs bs = map (\<lambda>k. user_pa root m (ptr + of_nat k)) [0..<unat len]"
    unfolding bs(3) stop by (intro nth_equalityI) auto
  moreover have "UserBuffer_len bs = len" using addrs by (simp add: UserBuffer_len_eq)
  moreover have "drain (unat len) (UserBuffer_into_iter bs) = Inr (buffer_addrs bs)"
    using drain_ok [OF into_iter_ok [OF bs(2)], of "unat len"] addrs by (simp add: into_iter_addrs)
  moreover have "translated_byte_buffer (PageTable_satp root) ptr len m = Some (Inr bs)"
    using bs(1) assms(1) by (simp add: translated_byte_buffer_def PageTableView_from_satp_satp)
  ultimately show ?thesis using translate_va_mapped assms(3) by auto
qed

text \<open>A page table with one user page, number 16, for the witnesses.\<close>

lemma user_table0:
  obtains pt s where "pt_inv (first_frame 0x80400000) pt s"
    "pt_lookup (pm_mem s) (pt_root_ppn pt) 16 = Some (PageTableEntry_new 0x80300 (PTE_R OR PTE_V))"
    "ppn_ok (pt_root_ppn pt)"
proof -
  obtain pt s where new: "pt_inv (first_frame 0x80400000) pt s"
    "\<And>w. pt_lookup (pm_mem s) (pt_root_ppn pt) w = None" "fa_avail (pm_frames s) = 31743"
    by (rule new_table0) blast
  then obtain pt' s' where m: "PageTable_map 16 0x80300 PTE_R pt s = Inr (pt', s')"
    using PageTable_map_total [OF new(1), of 16 "0x80300" PTE_R] by auto
  have M: "pt_maps (first_frame 0x80400000) 16 (pt_entry 0x80300 PTE_R) pt s pt' s'"
    using PageTable_map_spec(1) [OF new(1) _ m] by simp
  have inv: "pt_inv (first_frame 0x80400000) pt' s'" using M by (simp add: pt_maps_def)
  then have "ppn_ok (pt_root_ppn pt')"
    using pt_wf_walk [of "pm_mem s'" pt' "[]" "pt_root_ppn pt'"] by (auto simp: pt_inv_def path_ok_def)
  then show thesis using that M inv by (auto simp: pt_maps_def)
qed

lemma floor_page16: "k < 4096 \<Longrightarrow> addr_floor (0x10000 + of_nat k) = 16"
proof -
  assume "k < 4096"
  then have "unat (0x10000 + of_nat k :: usize) = 0x10000 + k"
    by (simp add: unat_word_ariths unat_of_nat)
  then show ?thesis using \<open>k < 4096\<close> by (simp add: word_unat_eq_iff unat_addr_floor)
qed

theorem user_buffer_is_user_range_witness:
  "\<exists>root m bs. ppn_ok root \<and> (\<forall>k < 100. user_mapped root m (0x10000 + of_nat k))
    \<and> translated_byte_buffer (PageTable_satp root) 0x10000 100 m = Some (Inr bs) \<and> UserBuffer_len bs = 100"
proof -
  obtain pt :: PageTable and s :: phys where t: "pt_lookup (pm_mem s) (pt_root_ppn pt) 16 = Some (PageTableEntry_new 0x80300 (PTE_R OR PTE_V))"
    "ppn_ok (pt_root_ppn pt)" by (rule user_table0) blast
  have m: "user_mapped (pt_root_ppn pt) (pm_mem s) (0x10000 + of_nat k)" if "k < 100" for k
    using t(1) floor_page16 [of k] that by (simp add: user_mapped_def)
  then show ?thesis
    using user_buffer_is_user_range [OF t(2), of "0x10000" 100 "pm_mem s"] t(2) by auto
qed

text \<open>
  C21. \<open>translated_str\<close> reads the user's C string: if the bytes from \<open>ptr\<close> on are mapped, the
  first zero among them is at offset \<open>n\<close>, and the string ends below the middle of the address
  space, the loop terminates and returns exactly the \<open>n\<close> bytes before the zero.
\<close>

theorem translated_str_reads_c_string:
  assumes "ppn_ok root" "unat ptr + n < 2 ^ 38"
    "\<forall>k \<le> n. user_mapped root m (ptr + of_nat k) \<and> user_pa root m (ptr + of_nat k) \<noteq> 0"
    "\<forall>k < n. m (user_pa root m (ptr + of_nat k)) \<noteq> 0" "m (user_pa root m (ptr + of_nat n)) = 0"
  shows "translated_str (PageTable_satp root) ptr m =
    Some (Inr (map (\<lambda>k. m (user_pa root m (ptr + of_nat k))) [0..<n]))"
  using str_loop_ok [OF PageTableView_from_satp_satp [OF assms(1)] assms(2-5), of "[]"]
  by (simp add: translated_str_def)

lemma user_pa_page16:
  assumes "pt_lookup m root 16 = Some (PageTableEntry_new 0x80300 f)" "k < 4096"
  shows "user_pa root m (0x10000 + of_nat k) = 0x80300000 + of_nat k"
proof -
  have u: "unat (0x10000 :: usize) = 16 * 4096 + 0" by simp
  have "addr_floor 0x10000 = 16" using floor_page16 [of 0] by simp
  moreover have "page_offset 0x10000 = 0" by (simp add: word_unat_eq_iff unat_page_offset)
  moreover have "PhysAddr_from_ppn 0x80300 = 0x80300000"
    by (simp add: word_unat_eq_iff unat_PhysAddr_from_ppn)
  ultimately show ?thesis
    using user_pa_page [of m root "0x10000" "PageTableEntry_new 0x80300 f", OF _ u] assms
    by (simp add: pte_ppn_new)
qed

theorem translated_str_reads_c_string_witness:
  "\<exists>root m. ppn_ok root \<and> translated_str (PageTable_satp root) 0x10000 m = Some (Inr [104, 105])"
proof -
  obtain pt s where t: "pt_inv (first_frame 0x80400000) pt s"
    "pt_lookup (pm_mem s) (pt_root_ppn pt) 16 = Some (PageTableEntry_new 0x80300 (PTE_R OR PTE_V))"
    "ppn_ok (pt_root_ppn pt)" by (rule user_table0) blast
  let ?r = "pt_root_ppn pt"
  define m where "m = copy_to_page 0x80300 [104, 105, 0] (pm_mem s)"
  have wf: "pt_wf (pm_mem s) pt" and live: "set (pt_frames pt) \<subseteq> fa_live (first_frame 0x80400000) (pm_frames s)"
    and ph: "fa_inv (first_frame 0x80400000) (pm_frames s)" using t(1) by (auto simp: pt_inv_def)
  have "0x80300 < first_frame 0x80400000"
  proof -
    have "PhysAddr_from 0x80400000 = 0x80400000" by (rule PhysAddr_from_small) simp
    then have "unat (first_frame 0x80400000) = 0x80400" by (simp add: unat_addr_ceil)
    then show ?thesis by (simp add: word_less_nat_alt)
  qed
  then have nt: "0x80300 \<notin> set (pt_frames pt)" using fa_live_ok [OF ph, of "0x80300"] live not_le by blast
  have "m x = pm_mem s x" if out: "\<not> outside pt x" for x
  proof -
    obtain f where f: "f \<in> set (pt_frames pt)" "in_page f x" using out by auto
    then have "\<not> in_page 0x80300 x" using nt wf in_page_disjoint [of f "0x80300" x] by (auto simp: pt_wf_def)
    then show ?thesis unfolding m_def by (rule copy_to_page_outside [rotated]) simp
  qed
  from pt_cong(3) [OF wf this] have look: "pt_lookup m ?r 16 = Some (PageTableEntry_new 0x80300 (PTE_R OR PTE_V))"
    using t(2) by simp
  have pa: "user_pa ?r m (0x10000 + of_nat k) = 0x80300000 + of_nat k" if "k \<le> 2" for k
    using user_pa_page16 [OF look, of k] that by simp
  have um: "user_mapped ?r m (0x10000 + of_nat k)" if "k \<le> 2" for k
    using look floor_page16 [of k] that by (simp add: user_mapped_def)
  have base: "PhysAddr_from_ppn 0x80300 = 0x80300000" by (simp add: word_unat_eq_iff unat_PhysAddr_from_ppn)
  have by': "m (0x80300000 + of_nat k) = [104, 105, 0] ! k" if "k \<le> 2" for k
    using that by (simp add: m_def copy_to_page_def write_bytes_def base unat_of_nat)
  have nz: "user_pa ?r m (0x10000 + of_nat k) \<noteq> 0" if "k \<le> 2" for k
    using that pa [OF that] by (auto simp: word_unat_eq_iff unat_word_ariths unat_of_nat)
  have "translated_str (PageTable_satp ?r) 0x10000 m
      = Some (Inr (map (\<lambda>k. m (user_pa ?r m (0x10000 + of_nat k))) [0..<2]))"
  proof (rule translated_str_reads_c_string [OF t(3)])
    show "\<forall>k < 2. m (user_pa ?r m (0x10000 + of_nat k)) \<noteq> 0"
    proof (intro allI impI)
      fix k :: nat assume k: "k < 2"
      then have "m (user_pa ?r m (0x10000 + of_nat k)) = [104, 105, 0] ! k" using pa [of k] by' [of k] by simp
      then show "m (user_pa ?r m (0x10000 + of_nat k)) \<noteq> 0" using k by (cases k) auto
    qed
    show "m (user_pa ?r m (0x10000 + of_nat 2)) = 0" using pa [of 2] by' [of 2] by simp
  qed (use um nz in auto)
  moreover have "map (\<lambda>k. m (user_pa ?r m (0x10000 + of_nat k))) [0..<2] = [104, 105]"
    using pa [of 0] pa [of 1] by' [of 0] by' [of 1] by (simp add: upt_conv_Cons numeral_2_eq_2)
  ultimately show ?thesis using t(3) by auto
qed

end
