(* ===== verification/Queue_Spec.thy ===== *)
theory Queue_Spec
  imports Prelude
begin

text \<open>
  The contract of a bounded first-in first-out buffer, as a pipe relies on it: an abstraction to the
  list of the elements inside, a capacity, and what the two counters and the two transfer operations
  do. The client lemmas cover the bulk transfers a pipe performs between two scheduling points.
\<close>

fun pull :: "('s \<Rightarrow> ('a \<times> 's) result) \<Rightarrow> nat \<Rightarrow> 's \<Rightarrow> ('a list \<times> 's) result" where
  "pull rd 0 s = Inr ([], s)"
| "pull rd (Suc n) s =
     rbind (rd s) (\<lambda>(x, s1). rbind (pull rd n s1) (\<lambda>(xs, s2). Inr (x # xs, s2)))"

fun push :: "('a \<Rightarrow> 's \<Rightarrow> 's result) \<Rightarrow> 'a list \<Rightarrow> 's \<Rightarrow> 's result" where
  "push wr [] s = Inr s"
| "push wr (x # xs) s = rbind (wr x s) (push wr xs)"

locale bounded_queue =
  fixes inv :: "'s \<Rightarrow> bool"
    and abs :: "'s \<Rightarrow> 'a list"
    and cap :: nat
    and new :: 's
    and used :: "'s \<Rightarrow> nat"
    and free :: "'s \<Rightarrow> nat"
    and rd :: "'s \<Rightarrow> ('a \<times> 's) result"
    and wr :: "'a \<Rightarrow> 's \<Rightarrow> 's result"
  assumes new_ok: "inv new" "abs new = []"
    and bounded: "inv s \<Longrightarrow> length (abs s) \<le> cap"
    and used_ok: "inv s \<Longrightarrow> used s = length (abs s)"
    and free_ok: "inv s \<Longrightarrow> free s = cap - length (abs s)"
    and rd_ok: "inv s \<Longrightarrow> abs s = x # xs \<Longrightarrow> \<exists>s'. rd s = Inr (x, s') \<and> inv s' \<and> abs s' = xs"
    and wr_ok: "inv s \<Longrightarrow> length (abs s) < cap \<Longrightarrow> \<exists>s'. wr x s = Inr s' \<and> inv s' \<and> abs s' = abs s @ [x]"
begin

lemma pull_ok:
  assumes "inv s" "n \<le> used s"
  shows "\<exists>s'. pull rd n s = Inr (take n (abs s), s') \<and> inv s' \<and> abs s' = drop n (abs s)"
  using assms
proof (induction n arbitrary: s)
  case (Suc n)
  then obtain x xs where x: "abs s = x # xs" by (cases "abs s") (auto simp: used_ok)
  obtain s1 where s1: "rd s = Inr (x, s1)" "inv s1" "abs s1 = xs" using rd_ok [OF Suc.prems(1) x] by blast
  then obtain s' where "pull rd n s1 = Inr (take n xs, s')" "inv s'" "abs s' = drop n xs"
    using Suc.IH [OF s1(2)] Suc.prems x by (auto simp: used_ok)
  then show ?case using s1 x by simp
qed simp

lemma push_ok:
  assumes "inv s" "length xs \<le> free s"
  shows "\<exists>s'. push wr xs s = Inr s' \<and> inv s' \<and> abs s' = abs s @ xs"
  using assms
proof (induction xs arbitrary: s)
  case (Cons x xs)
  have "length (abs s) < cap" using Cons.prems by (simp add: free_ok)
  then obtain s1 where s1: "wr x s = Inr s1" "inv s1" "abs s1 = abs s @ [x]"
    using wr_ok [OF Cons.prems(1)] by blast
  moreover have "length xs \<le> free s1" using s1 Cons.prems by (simp add: free_ok)
  ultimately obtain s' where "push wr xs s1 = Inr s'" "inv s'" "abs s' = abs s1 @ xs"
    using Cons.IH [OF s1(2)] by blast
  then show ?case using s1 by simp
qed simp

text \<open>What goes in comes out, in order.\<close>

lemma push_pull:
  assumes "inv s" "abs s = []" "length xs \<le> cap"
  shows "\<exists>s1 s2. push wr xs s = Inr s1 \<and> pull rd (length xs) s1 = Inr (xs, s2) \<and> abs s2 = []"
proof -
  obtain s1 where s1: "push wr xs s = Inr s1" "inv s1" "abs s1 = xs"
    using push_ok [of s xs] assms by (auto simp: free_ok)
  then show ?thesis using pull_ok [of s1 "length xs"] by (auto simp: used_ok)
qed

end

end
