(* ===== verification/Pipe.thy ===== *)
theory Pipe
  imports User_Memory Queue_Spec
begin

text \<open>
  \<open>os/src/fs/pipe.rs\<close>: the 32-byte ring buffer behind a pipe and the two ends that read and write
  it. The body of the loops in \<open>Pipe::read\<close> and \<open>Pipe::write\<close> runs without interruption until
  it returns or gives up the processor, so one pass of the body is one step; what happens while the
  thread is suspended is the business of the other end. Whether the last handle of the write end is
  gone is a question to the reference counts, a parameter here.
\<close>

section \<open>The ring buffer\<close>

definition RING_BUFFER_SIZE :: nat where "RING_BUFFER_SIZE = 32"

datatype RingBufferStatus = Full | Empty | Normal

record PipeRingBuffer =
  rb_arr :: "u8 list"
  rb_head :: nat
  rb_tail :: nat
  rb_status :: RingBufferStatus
  rb_write_end :: "nat option"

definition PipeRingBuffer_new :: PipeRingBuffer where
  "PipeRingBuffer_new =
     \<lparr>rb_arr = replicate RING_BUFFER_SIZE 0, rb_head = 0, rb_tail = 0, rb_status = Empty,
      rb_write_end = None\<rparr>"

definition set_write_end :: "nat \<Rightarrow> PipeRingBuffer \<Rightarrow> PipeRingBuffer" where
  "set_write_end write_end rb = rb\<lparr>rb_write_end := Some write_end\<rparr>"

definition read_byte :: "PipeRingBuffer \<Rightarrow> (u8 \<times> PipeRingBuffer) result" where
  "read_byte rb =
     rbind (index (rb_arr rb) (rb_head rb)) (\<lambda>c.
       let head = (rb_head rb + 1) mod RING_BUFFER_SIZE
       in Inr (c, rb\<lparr>rb_head := head,
                     rb_status := (if head = rb_tail rb then Empty else Normal)\<rparr>))"

definition available_read :: "PipeRingBuffer \<Rightarrow> nat" where
  "available_read rb =
     (if rb_status rb = Empty then 0
      else if rb_head rb < rb_tail rb then rb_tail rb - rb_head rb
      else rb_tail rb + RING_BUFFER_SIZE - rb_head rb)"

definition write_byte :: "u8 \<Rightarrow> PipeRingBuffer \<Rightarrow> PipeRingBuffer result" where
  "write_byte byte rb =
     (if rb_tail rb < length (rb_arr rb) then
        let tail = (rb_tail rb + 1) mod RING_BUFFER_SIZE
        in Inr (rb\<lparr>rb_arr := (rb_arr rb)[rb_tail rb := byte], rb_tail := tail,
                   rb_status := (if tail = rb_head rb then Full else Normal)\<rparr>)
      else Inl IndexOutOfBounds)"

definition available_write :: "PipeRingBuffer \<Rightarrow> nat" where
  "available_write rb = RING_BUFFER_SIZE - available_read rb"

definition all_write_ends_closed :: "(nat \<Rightarrow> bool) \<Rightarrow> PipeRingBuffer \<Rightarrow> bool result" where
  "all_write_ends_closed alive rb = rbind (unwrap (rb_write_end rb)) (\<lambda>w. Inr (\<not> alive w))"

section \<open>Pipes\<close>

record Pipe =
  pipe_readable :: bool
  pipe_writable :: bool
  pipe_buffer :: nat

definition read_end_of_buffer :: "nat \<Rightarrow> Pipe" where
  "read_end_of_buffer buffer = \<lparr>pipe_readable = True, pipe_writable = False, pipe_buffer = buffer\<rparr>"

definition write_end_of_buffer :: "nat \<Rightarrow> Pipe" where
  "write_end_of_buffer buffer = \<lparr>pipe_readable = False, pipe_writable = True, pipe_buffer = buffer\<rparr>"

text \<open>
  \<open>make_pipe\<close> with the names of the new ring buffer and of the new write end: the two ends and
  the contents of the buffer.
\<close>

definition make_pipe :: "nat \<Rightarrow> nat \<Rightarrow> Pipe \<times> Pipe \<times> PipeRingBuffer" where
  "make_pipe buffer write_end =
     (read_end_of_buffer buffer, write_end_of_buffer buffer, set_write_end write_end PipeRingBuffer_new)"

text \<open>How a pass of the outer loop ends.\<close>

datatype pass_end = Return usize | Suspend | Again

text \<open>The \<open>for\<close> loop of \<open>Pipe::read\<close>; the flag says that it returned.\<close>

fun read_loop ::
  "nat \<Rightarrow> usize \<Rightarrow> usize \<Rightarrow> PipeRingBuffer \<Rightarrow> UserBufferIterator \<Rightarrow> mem
    \<Rightarrow> (bool \<times> usize \<times> PipeRingBuffer \<times> UserBufferIterator \<times> mem) result" where
  "read_loop 0 buf_len already rb it m = Inr (False, already, rb, it, m)"
| "read_loop (Suc n) buf_len already rb it m =
     rbind (UserBufferIterator_next it) (\<lambda>(r, it').
     rbind (unwrap r) (\<lambda>byte_ref.
     rbind (read_byte rb) (\<lambda>(c, rb').
       if already + 1 = buf_len then Inr (True, already + 1, rb', it', m(byte_ref := c))
       else read_loop n buf_len (already + 1) rb' it' (m(byte_ref := c)))))"

definition pipe_read_pass ::
  "(nat \<Rightarrow> bool) \<Rightarrow> usize \<Rightarrow> usize \<Rightarrow> PipeRingBuffer \<Rightarrow> UserBufferIterator \<Rightarrow> mem
    \<Rightarrow> (pass_end \<times> usize \<times> PipeRingBuffer \<times> UserBufferIterator \<times> mem) result" where
  "pipe_read_pass alive buf_len already rb it m =
     (if available_read rb = 0 then
        rbind (all_write_ends_closed alive rb) (\<lambda>closed.
        Inr (if closed then Return already else Suspend, already, rb, it, m))
      else
        rbind (read_loop (available_read rb) buf_len already rb it m)
          (\<lambda>(returned, already', rb', it', m').
        Inr (if returned then Return already' else Again, already', rb', it', m')))"

fun write_loop ::
  "nat \<Rightarrow> usize \<Rightarrow> usize \<Rightarrow> PipeRingBuffer \<Rightarrow> UserBufferIterator \<Rightarrow> mem
    \<Rightarrow> (bool \<times> usize \<times> PipeRingBuffer \<times> UserBufferIterator) result" where
  "write_loop 0 buf_len already rb it m = Inr (False, already, rb, it)"
| "write_loop (Suc n) buf_len already rb it m =
     rbind (UserBufferIterator_next it) (\<lambda>(r, it').
     rbind (unwrap r) (\<lambda>byte_ref.
     rbind (write_byte (m byte_ref) rb) (\<lambda>rb'.
       if already + 1 = buf_len then Inr (True, already + 1, rb', it')
       else write_loop n buf_len (already + 1) rb' it' m)))"

definition pipe_write_pass ::
  "usize \<Rightarrow> usize \<Rightarrow> PipeRingBuffer \<Rightarrow> UserBufferIterator \<Rightarrow> mem
    \<Rightarrow> (pass_end \<times> usize \<times> PipeRingBuffer \<times> UserBufferIterator) result" where
  "pipe_write_pass buf_len already rb it m =
     (if available_write rb = 0 then Inr (Suspend, already, rb, it)
      else
        rbind (write_loop (available_write rb) buf_len already rb it m)
          (\<lambda>(returned, already', rb', it').
        Inr (if returned then Return already' else Again, already', rb', it')))"

text \<open>\<open>Pipe::read\<close> and \<open>Pipe::write\<close> up to their first pass.\<close>

definition pipe_read_start :: "Pipe \<Rightarrow> user_slice list \<Rightarrow> (usize \<times> UserBufferIterator) result" where
  "pipe_read_start p buf =
     rbind (rassert (pipe_readable p)) (\<lambda>_. Inr (UserBuffer_len buf, UserBuffer_into_iter buf))"

definition pipe_write_start :: "Pipe \<Rightarrow> user_slice list \<Rightarrow> (usize \<times> UserBufferIterator) result" where
  "pipe_write_start p buf =
     rbind (rassert (pipe_writable p)) (\<lambda>_. Inr (UserBuffer_len buf, UserBuffer_into_iter buf))"

section \<open>The ring buffer is a bounded queue\<close>

definition rb_len :: "PipeRingBuffer \<Rightarrow> nat" where
  "rb_len rb = available_read rb"

definition rb_abs :: "PipeRingBuffer \<Rightarrow> u8 list" where
  "rb_abs rb = map (\<lambda>k. rb_arr rb ! ((rb_head rb + k) mod 32)) [0..<available_read rb]"

definition rb_inv :: "PipeRingBuffer \<Rightarrow> bool" where
  "rb_inv rb \<longleftrightarrow> length (rb_arr rb) = 32 \<and> rb_head rb < 32 \<and> rb_tail rb < 32
     \<and> (rb_status rb = Normal \<longrightarrow> rb_head rb \<noteq> rb_tail rb)
     \<and> (rb_status rb \<noteq> Normal \<longrightarrow> rb_head rb = rb_tail rb)"

lemma rb_tail_eq: "rb_inv rb \<Longrightarrow> rb_tail rb = (rb_head rb + available_read rb) mod 32"
  by (cases "rb_status rb") (auto simp: rb_inv_def available_read_def RING_BUFFER_SIZE_def)

lemma available_read_le: "rb_inv rb \<Longrightarrow> available_read rb \<le> 32"
  by (cases "rb_status rb") (auto simp: rb_inv_def available_read_def RING_BUFFER_SIZE_def)

lemma length_rb_abs [simp]: "length (rb_abs rb) = available_read rb"
  by (simp add: rb_abs_def)

lemma available_read_0: "rb_inv rb \<Longrightarrow> available_read rb = 0 \<longleftrightarrow> rb_status rb = Empty"
  by (cases "rb_status rb") (auto simp: rb_inv_def available_read_def RING_BUFFER_SIZE_def)

lemma mod32_step: "(h::nat) < 32 \<Longrightarrow> Suc h mod 32 = (if h = 31 then 0 else Suc h)"
  by (simp add: mod_Suc)

lemma read_byte_step:
  assumes inv: "rb_inv rb" and ne: "0 < available_read rb"
  shows "\<exists>rb'. read_byte rb = Inr (rb_arr rb ! rb_head rb, rb') \<and> rb_inv rb'
    \<and> available_read rb' = available_read rb - 1 \<and> rb_head rb' = (rb_head rb + 1) mod 32
    \<and> rb_arr rb' = rb_arr rb \<and> rb_write_end rb' = rb_write_end rb"
  using inv ne
  by (cases "rb_status rb")
    (auto simp: read_byte_def rb_inv_def available_read_def RING_BUFFER_SIZE_def Let_def mod32_step
      index_def split: if_splits)

lemma write_byte_step:
  assumes inv: "rb_inv rb" and ne: "available_read rb < 32"
  shows "\<exists>rb'. write_byte b rb = Inr rb' \<and> rb_inv rb'
    \<and> available_read rb' = available_read rb + 1 \<and> rb_head rb' = rb_head rb
    \<and> rb_arr rb' = (rb_arr rb)[rb_tail rb := b] \<and> rb_write_end rb' = rb_write_end rb"
  using inv ne
  by (cases "rb_status rb")
    (auto simp: write_byte_def rb_inv_def available_read_def RING_BUFFER_SIZE_def Let_def mod32_step
      split: if_splits)

lemma rb_read_ok:
  assumes inv: "rb_inv rb" and abs: "rb_abs rb = x # xs"
  shows "\<exists>rb'. read_byte rb = Inr (x, rb') \<and> rb_inv rb' \<and> rb_abs rb' = xs"
proof -
  have ne: "0 < available_read rb" using abs by (metis length_rb_abs length_Cons zero_less_Suc)
  obtain rb' where rb': "read_byte rb = Inr (rb_arr rb ! rb_head rb, rb')" "rb_inv rb'"
    "available_read rb' = available_read rb - 1" "rb_head rb' = (rb_head rb + 1) mod 32"
    "rb_arr rb' = rb_arr rb"
    using read_byte_step [OF inv ne] by blast
  have h: "rb_head rb < 32" using inv by (simp add: rb_inv_def)
  have "rb_abs rb = rb_arr rb ! rb_head rb # map (\<lambda>k. rb_arr rb ! ((rb_head rb + Suc k) mod 32)) [0..<available_read rb - 1]"
    using ne h map_Suc_upt [of 0 "available_read rb - 1", symmetric] unfolding rb_abs_def
    by (subst upt_conv_Cons) (simp_all add: comp_def del: upt_Suc)
  moreover have "rb_abs rb' = map (\<lambda>k. rb_arr rb ! ((rb_head rb + Suc k) mod 32)) [0..<available_read rb - 1]"
    by (simp add: rb_abs_def rb' mod_add_left_eq)
  ultimately show ?thesis using rb'(1,2) abs by simp
qed

lemma rb_write_ok:
  assumes inv: "rb_inv rb" and len: "length (rb_abs rb) < 32"
  shows "\<exists>rb'. write_byte b rb = Inr rb' \<and> rb_inv rb' \<and> rb_abs rb' = rb_abs rb @ [b]"
proof -
  let ?n = "available_read rb"
  have n: "?n < 32" using len by simp
  obtain rb' where rb': "write_byte b rb = Inr rb'" "rb_inv rb'" "available_read rb' = ?n + 1"
    "rb_head rb' = rb_head rb" "rb_arr rb' = (rb_arr rb)[rb_tail rb := b]"
    using write_byte_step [OF inv n] by blast
  have t: "rb_tail rb = (rb_head rb + ?n) mod 32" by (rule rb_tail_eq [OF inv])
  have arr: "length (rb_arr rb) = 32" using inv by (simp add: rb_inv_def)
  have other: "(rb_head rb + k) mod 32 \<noteq> (rb_head rb + ?n) mod 32" if "k < ?n" for k
  proof
    assume "(rb_head rb + k) mod 32 = (rb_head rb + ?n) mod 32"
    then have "32 dvd ?n - k" using that mod_eq_dvd_iff_nat [of "rb_head rb + k" "rb_head rb + ?n" 32] by simp
    then show False using that n by (auto dest: dvd_imp_le)
  qed
  have "rb_abs rb' = map (\<lambda>k. rb_arr rb ! ((rb_head rb + k) mod 32)) [0..<?n] @ [b]"
    using other [THEN not_sym] t arr by (simp add: rb_abs_def rb' nth_list_update)
  then show ?thesis using rb'(1,2) by (simp add: rb_abs_def)
qed

interpretation rb: bounded_queue rb_inv rb_abs RING_BUFFER_SIZE PipeRingBuffer_new available_read
  available_write read_byte write_byte
proof unfold_locales
  show "rb_inv PipeRingBuffer_new" "rb_abs PipeRingBuffer_new = []"
    by (simp_all add: PipeRingBuffer_new_def rb_inv_def rb_abs_def available_read_def RING_BUFFER_SIZE_def)
qed (auto simp: available_read_le RING_BUFFER_SIZE_def available_write_def rb_read_ok rb_write_ok)

section \<open>One pass of a reader and of a writer\<close>

lemma read_byte_Inr:
  assumes "rb_inv rb" "rb_abs rb = x # xs"
  obtains rb' where "read_byte rb = Inr (x, rb')" "rb_inv rb'" "rb_abs rb' = xs"
    "rb_write_end rb' = rb_write_end rb"
proof -
  obtain rb' where rb': "read_byte rb = Inr (x, rb')" "rb_inv rb'" "rb_abs rb' = xs"
    using rb.rd_ok [OF assms] by blast
  have "0 < available_read rb" using assms(2) by (metis length_rb_abs length_Cons zero_less_Suc)
  then show thesis using read_byte_step [OF assms(1)] rb' that by auto
qed

lemma write_byte_Inr:
  assumes "rb_inv rb" "available_read rb < 32"
  obtains rb' where "write_byte b rb = Inr rb'" "rb_inv rb'" "rb_abs rb' = rb_abs rb @ [b]"
    "rb_write_end rb' = rb_write_end rb"
proof -
  obtain rb' where "write_byte b rb = Inr rb'" "rb_inv rb'" "rb_abs rb' = rb_abs rb @ [b]"
    using rb.wr_ok [OF assms(1), of b] assms(2) by (auto simp: RING_BUFFER_SIZE_def)
  then show thesis using write_byte_step [OF assms, of b] that by auto
qed

lemma usize_count:
  fixes already buf_len :: usize
  assumes "unat already + Suc n = unat buf_len"
  shows "unat (already + 1) + n = unat buf_len" "already + 1 = buf_len \<longleftrightarrow> n = 0"
proof -
  have "unat (already + 1) = unat already + 1"
    using assms unat_less_2p_64 [of buf_len] by (simp add: unat_word_ariths)
  then show "unat (already + 1) + n = unat buf_len" "already + 1 = buf_len \<longleftrightarrow> n = 0"
    using assms by (auto simp: word_unat_eq_iff)
qed

lemma read_loop_ok:
  assumes "rb_inv rb" "iter_ok it" "n \<le> available_read rb" "iter_addrs it \<noteq> []" "distinct (iter_addrs it)"
    "unat already + length (iter_addrs it) = unat buf_len"
  defines "k \<equiv> min n (length (iter_addrs it))"
  shows "\<exists>already' rb' it' m'. read_loop n buf_len already rb it m
        = Inr (length (iter_addrs it) \<le> n, already', rb', it', m')
      \<and> unat already' = unat already + k \<and> rb_inv rb' \<and> rb_abs rb' = drop k (rb_abs rb)
      \<and> rb_write_end rb' = rb_write_end rb \<and> iter_ok it' \<and> iter_addrs it' = drop k (iter_addrs it)
      \<and> map m' (take k (iter_addrs it)) = take k (rb_abs rb)
      \<and> (\<forall>a. a \<notin> set (take k (iter_addrs it)) \<longrightarrow> m' a = m a)"
  using assms(1-6) unfolding k_def
proof (induction n arbitrary: already rb it m)
  case 0
  then show ?case by simp
next
  case (Suc n)
  obtain a as where as: "iter_addrs it = a # as" using Suc.prems by (cases "iter_addrs it") auto
  obtain x xs where x: "rb_abs rb = x # xs" using Suc.prems(3) by (metis length_rb_abs Suc_le_length_iff)
  obtain it1 where it1: "UserBufferIterator_next it = Inr (Some a, it1)" "iter_ok it1" "iter_addrs it1 = as"
    using iter_next_Some [OF Suc.prems(2) as] by blast
  obtain rb1 where rb1: "read_byte rb = Inr (x, rb1)" "rb_inv rb1" "rb_abs rb1 = xs"
    "rb_write_end rb1 = rb_write_end rb" using read_byte_Inr [OF Suc.prems(1) x] by blast
  have cnt: "unat (already + 1) + length as = unat buf_len" "already + 1 = buf_len \<longleftrightarrow> length as = 0"
    using usize_count [of already "length as" buf_len] Suc.prems(6) as by auto
  have one: "unat (already + 1) = unat already + 1" using cnt(1) Suc.prems(6) as by simp
  show ?case
  proof (cases "as = []")
    case True
    then show ?thesis using as x it1 rb1 cnt one by (auto simp: min_def)
  next
    case False
    have "n \<le> available_read rb1" using Suc.prems(3) rb1(3) x by (metis length_rb_abs length_Cons Suc_le_mono)
    moreover have "distinct as" using Suc.prems(5) as by simp
    ultimately obtain already' rb' it' m' where IH:
      "read_loop n buf_len (already + 1) rb1 it1 (m(a := x)) = Inr (length as \<le> n, already', rb', it', m')"
      "unat already' = unat (already + 1) + min n (length as)" "rb_inv rb'"
      "rb_abs rb' = drop (min n (length as)) xs" "rb_write_end rb' = rb_write_end rb1" "iter_ok it'"
      "iter_addrs it' = drop (min n (length as)) as"
      "map m' (take (min n (length as)) as) = take (min n (length as)) xs"
      "\<forall>b. b \<notin> set (take (min n (length as)) as) \<longrightarrow> m' b = (m(a := x)) b"
      using Suc.IH [of rb1 it1 "already + 1" "m(a := x)", unfolded it1(3) rb1(3)] rb1(2) it1(2) False cnt(1)
      by blast
    have "a \<notin> set (take (min n (length as)) as)" using Suc.prems(5) as by (auto dest: in_set_takeD)
    then have "m' a = x" using IH(9) by simp
    moreover have "read_loop (Suc n) buf_len already rb it m = Inr (length as \<le> n, already', rb', it', m')"
      using it1 rb1 cnt(2) False IH(1) by simp
    ultimately show ?thesis
      using IH(2-9) as x one rb1(4)
      by (intro exI [of _ already'] exI [of _ rb'] exI [of _ it'] exI [of _ m']) (simp del: read_loop.simps)
  qed
qed

lemma write_loop_ok:
  assumes "rb_inv rb" "iter_ok it" "n \<le> available_write rb" "iter_addrs it \<noteq> []"
    "unat already + length (iter_addrs it) = unat buf_len"
  defines "k \<equiv> min n (length (iter_addrs it))"
  shows "\<exists>already' rb' it'. write_loop n buf_len already rb it m
        = Inr (length (iter_addrs it) \<le> n, already', rb', it')
      \<and> unat already' = unat already + k \<and> rb_inv rb'
      \<and> rb_abs rb' = rb_abs rb @ map m (take k (iter_addrs it))
      \<and> rb_write_end rb' = rb_write_end rb \<and> iter_ok it' \<and> iter_addrs it' = drop k (iter_addrs it)"
  using assms(1-5) unfolding k_def
proof (induction n arbitrary: already rb it)
  case 0
  then show ?case by simp
next
  case (Suc n)
  obtain a as where as: "iter_addrs it = a # as" using Suc.prems by (cases "iter_addrs it") auto
  obtain it1 where it1: "UserBufferIterator_next it = Inr (Some a, it1)" "iter_ok it1" "iter_addrs it1 = as"
    using iter_next_Some [OF Suc.prems(2) as] by blast
  have room: "available_read rb < 32"
    using Suc.prems(3) by (simp add: available_write_def RING_BUFFER_SIZE_def)
  obtain rb1 where rb1: "write_byte (m a) rb = Inr rb1" "rb_inv rb1" "rb_abs rb1 = rb_abs rb @ [m a]"
    "rb_write_end rb1 = rb_write_end rb" using write_byte_Inr [OF Suc.prems(1) room] by blast
  have cnt: "unat (already + 1) + length as = unat buf_len" "already + 1 = buf_len \<longleftrightarrow> length as = 0"
    using usize_count [of already "length as" buf_len] Suc.prems(5) as by auto
  have one: "unat (already + 1) = unat already + 1" using cnt(1) Suc.prems(5) as by simp
  show ?case
  proof (cases "as = []")
    case True
    then show ?thesis using as it1 rb1 cnt one by (auto simp: min_def)
  next
    case False
    have "available_read rb1 = available_read rb + 1"
      using rb1(3) by (metis length_rb_abs length_append_singleton Suc_eq_plus1)
    then have "n \<le> available_write rb1" using Suc.prems(3) by (simp add: available_write_def)
    then obtain already' rb' it' where IH:
      "write_loop n buf_len (already + 1) rb1 it1 m = Inr (length as \<le> n, already', rb', it')"
      "unat already' = unat (already + 1) + min n (length as)" "rb_inv rb'"
      "rb_abs rb' = rb_abs rb1 @ map m (take (min n (length as)) as)" "rb_write_end rb' = rb_write_end rb1"
      "iter_ok it'" "iter_addrs it' = drop (min n (length as)) as"
      using Suc.IH [of rb1 it1 "already + 1"] rb1 it1 False cnt(1) by auto
    have "write_loop (Suc n) buf_len already rb it m = Inr (length as \<le> n, already', rb', it')"
      using it1 rb1 cnt(2) False IH(1) by simp
    then show ?thesis
      using IH(2-7) as one rb1(3,4)
      by (intro exI [of _ already'] exI [of _ rb'] exI [of _ it']) (simp del: write_loop.simps)
  qed
qed

section \<open>A reader and a writer\<close>

text \<open>
  One thread inside \<open>Pipe::read\<close> and one inside \<open>Pipe::write\<close>, scheduled in any order. The
  handle of the write end is dropped at some moment after the writer has returned.
\<close>

record pipe_sys =
  ps_rb :: PipeRingBuffer
  ps_mem :: mem
  ps_riter :: UserBufferIterator
  ps_already_read :: usize
  ps_read :: "usize option"
  ps_witer :: UserBufferIterator
  ps_already_write :: usize
  ps_written :: "usize option"
  ps_open :: bool

definition returned :: "pass_end \<Rightarrow> usize option" where
  "returned e = (case e of Return n \<Rightarrow> Some n | _ \<Rightarrow> None)"

definition reader_step :: "usize \<Rightarrow> pipe_sys \<Rightarrow> (pass_end \<times> pipe_sys) result" where
  "reader_step rlen s =
     rbind (pipe_read_pass (\<lambda>_. ps_open s) rlen (ps_already_read s) (ps_rb s) (ps_riter s) (ps_mem s))
       (\<lambda>(e, already, rb, it, m).
     Inr (e, s\<lparr>ps_rb := rb, ps_mem := m, ps_riter := it, ps_already_read := already, ps_read := returned e\<rparr>))"

definition writer_step :: "usize \<Rightarrow> pipe_sys \<Rightarrow> (pass_end \<times> pipe_sys) result" where
  "writer_step wlen s =
     rbind (pipe_write_pass wlen (ps_already_write s) (ps_rb s) (ps_witer s) (ps_mem s))
       (\<lambda>(e, already, rb, it).
     Inr (e, s\<lparr>ps_rb := rb, ps_witer := it, ps_already_write := already, ps_written := returned e\<rparr>))"

definition pipe_start :: "user_slice list \<Rightarrow> user_slice list \<Rightarrow> mem \<Rightarrow> pipe_sys" where
  "pipe_start rbuf wbuf m =
     (case make_pipe 0 0 of (r, w, rb) \<Rightarrow>
      \<lparr>ps_rb = rb, ps_mem = m,
       ps_riter = UserBuffer_into_iter rbuf, ps_already_read = 0, ps_read = None,
       ps_witer = UserBuffer_into_iter wbuf, ps_already_write = 0, ps_written = None,
       ps_open = True\<rparr>)"

inductive pipe_run :: "user_slice list \<Rightarrow> user_slice list \<Rightarrow> mem \<Rightarrow> pipe_sys \<Rightarrow> bool"
  for rbuf wbuf m where
  start: "pipe_run rbuf wbuf m (pipe_start rbuf wbuf m)"
| reader: "pipe_run rbuf wbuf m s \<Longrightarrow> ps_read s = None
    \<Longrightarrow> reader_step (UserBuffer_len rbuf) s = Inr (e, s') \<Longrightarrow> pipe_run rbuf wbuf m s'"
| writer: "pipe_run rbuf wbuf m s \<Longrightarrow> ps_written s = None
    \<Longrightarrow> writer_step (UserBuffer_len wbuf) s = Inr (e, s') \<Longrightarrow> pipe_run rbuf wbuf m s'"
| close: "pipe_run rbuf wbuf m s \<Longrightarrow> ps_written s \<noteq> None \<Longrightarrow> pipe_run rbuf wbuf m (s\<lparr>ps_open := False\<rparr>)"

text \<open>
  The two buffers of a transfer: not empty, shorter than the address space, without repeated or
  shared bytes.
\<close>

definition transfer_ok :: "user_slice list \<Rightarrow> user_slice list \<Rightarrow> bool" where
  "transfer_ok rbuf wbuf \<longleftrightarrow> buffer_ok rbuf \<and> buffer_ok wbuf \<and> rbuf \<noteq> [] \<and> wbuf \<noteq> []
     \<and> length (buffer_addrs rbuf) < 2 ^ 64 \<and> length (buffer_addrs wbuf) < 2 ^ 64
     \<and> distinct (buffer_addrs rbuf) \<and> set (buffer_addrs rbuf) \<inter> set (buffer_addrs wbuf) = {}"

text \<open>The invariant: \<open>i\<close> bytes have been received and \<open>j\<close> sent; the pipe holds those between.\<close>

definition pipe_inv :: "usize list \<Rightarrow> usize list \<Rightarrow> mem \<Rightarrow> pipe_sys \<Rightarrow> bool" where
  "pipe_inv ra wa m s \<longleftrightarrow>
     (let i = unat (ps_already_read s); j = unat (ps_already_write s) in
      rb_inv (ps_rb s) \<and> rb_write_end (ps_rb s) \<noteq> None \<and> iter_ok (ps_riter s) \<and> iter_ok (ps_witer s)
      \<and> i \<le> length ra \<and> iter_addrs (ps_riter s) = drop i ra
      \<and> j \<le> length wa \<and> iter_addrs (ps_witer s) = drop j wa
      \<and> map (ps_mem s) wa = map m wa
      \<and> map (ps_mem s) (take i ra) @ rb_abs (ps_rb s) = map m (take j wa)
      \<and> (\<forall>a. a \<notin> set ra \<longrightarrow> ps_mem s a = m a)
      \<and> (ps_read s = None \<longrightarrow> i < length ra)
      \<and> (\<forall>n. ps_read s = Some n \<longrightarrow> n = ps_already_read s \<and> (i = length ra \<or> \<not> ps_open s \<and> i = length wa))
      \<and> (ps_written s = None \<longrightarrow> j < length wa \<and> ps_open s)
      \<and> (\<forall>n. ps_written s = Some n \<longrightarrow> n = ps_already_write s \<and> j = length wa))"

lemma pipe_invI:
  assumes "unat (ps_already_read s) = i" "unat (ps_already_write s) = j"
    and "rb_inv (ps_rb s)" "rb_write_end (ps_rb s) \<noteq> None" "iter_ok (ps_riter s)" "iter_ok (ps_witer s)"
    and "i \<le> length ra" "iter_addrs (ps_riter s) = drop i ra" "j \<le> length wa" "iter_addrs (ps_witer s) = drop j wa"
    and "map (ps_mem s) wa = map m wa" "map (ps_mem s) (take i ra) @ rb_abs (ps_rb s) = map m (take j wa)"
    and "\<forall>a. a \<notin> set ra \<longrightarrow> ps_mem s a = m a"
    and "ps_read s = None \<Longrightarrow> i < length ra"
    and "\<And>n. ps_read s = Some n \<Longrightarrow> n = ps_already_read s \<and> (i = length ra \<or> \<not> ps_open s \<and> i = length wa)"
    and "ps_written s = None \<Longrightarrow> j < length wa \<and> ps_open s"
    and "\<And>n. ps_written s = Some n \<Longrightarrow> n = ps_already_write s \<and> j = length wa"
  shows "pipe_inv ra wa m s"
  unfolding pipe_inv_def Let_def using assms by (intro conjI) blast+

lemma pipe_invD:
  assumes "pipe_inv ra wa m s"
  shows "rb_inv (ps_rb s)" "\<exists>w. rb_write_end (ps_rb s) = Some w" "iter_ok (ps_riter s)" "iter_ok (ps_witer s)"
    "unat (ps_already_read s) \<le> length ra" "iter_addrs (ps_riter s) = drop (unat (ps_already_read s)) ra"
    "unat (ps_already_write s) \<le> length wa" "iter_addrs (ps_witer s) = drop (unat (ps_already_write s)) wa"
    "map (ps_mem s) wa = map m wa"
    "map (ps_mem s) (take (unat (ps_already_read s)) ra) @ rb_abs (ps_rb s)
       = map m (take (unat (ps_already_write s)) wa)"
    "a \<notin> set ra \<Longrightarrow> ps_mem s a = m a"
    "ps_read s = None \<Longrightarrow> unat (ps_already_read s) < length ra"
    "ps_written s = None \<Longrightarrow> unat (ps_already_write s) < length wa \<and> ps_open s"
    "ps_written s \<noteq> None \<Longrightarrow> unat (ps_already_write s) = length wa"
    "ps_read s = Some n \<Longrightarrow> n = ps_already_read s
      \<and> (unat (ps_already_read s) = length ra \<or> \<not> ps_open s \<and> unat (ps_already_read s) = length wa)"
    "ps_written s = Some n \<Longrightarrow> n = ps_already_write s"
  using assms by (auto simp: pipe_inv_def Let_def)

lemma pipe_inv_balance:
  assumes "pipe_inv ra wa m s"
  shows "unat (ps_already_read s) + available_read (ps_rb s) = unat (ps_already_write s)"
proof -
  have "length (map (ps_mem s) (take (unat (ps_already_read s)) ra) @ rb_abs (ps_rb s))
      = length (map m (take (unat (ps_already_write s)) wa))"
    by (simp only: pipe_invD(10) [OF assms])
  then show ?thesis using pipe_invD(5,7) [OF assms] by simp
qed

lemma reader_step_empty:
  assumes inv: "pipe_inv ra wa m s" and none: "ps_read s = None" and empty: "available_read (ps_rb s) = 0"
  defines "e \<equiv> if ps_open s then Suspend else Return (ps_already_read s)"
  shows "reader_step rlen s = Inr (e, s\<lparr>ps_read := returned e\<rparr>)" "pipe_inv ra wa m (s\<lparr>ps_read := returned e\<rparr>)"
proof -
  obtain w where w: "rb_write_end (ps_rb s) = Some w" using pipe_invD(2) [OF inv] by blast
  show "reader_step rlen s = Inr (e, s\<lparr>ps_read := returned e\<rparr>)"
    using w empty by (simp add: reader_step_def pipe_read_pass_def all_write_ends_closed_def e_def)
  show "pipe_inv ra wa m (s\<lparr>ps_read := returned e\<rparr>)"
  proof (cases "ps_open s")
    case True
    then show ?thesis using inv none by (auto simp: e_def returned_def pipe_inv_def Let_def)
  next
    case False
    then have "unat (ps_already_read s) = length wa"
      using pipe_inv_balance [OF inv] empty pipe_invD(13,14) [OF inv] by fastforce
    then show ?thesis using inv False by (auto simp: e_def returned_def pipe_inv_def Let_def)
  qed
qed

lemma reader_step_data:
  assumes inv: "pipe_inv ra wa m s" and none: "ps_read s = None" and data: "0 < available_read (ps_rb s)"
    and ra: "distinct ra" "set ra \<inter> set wa = {}" "unat rlen = length ra"
  shows "\<exists>e s'. reader_step rlen s = Inr (e, s') \<and> e \<noteq> Suspend \<and> pipe_inv ra wa m s'
    \<and> ps_already_read s < ps_already_read s'"
proof -
  define i where "i = unat (ps_already_read s)"
  define n where "n = available_read (ps_rb s)"
  note I = pipe_invD [OF inv]
  have i: "i < length ra" using I(12) none by (simp add: i_def)
  have it: "iter_addrs (ps_riter s) = drop i ra" using I(6) by (simp add: i_def)
  define k where "k = min n (length ra - i)"
  have ne: "iter_addrs (ps_riter s) \<noteq> []" "distinct (iter_addrs (ps_riter s))"
    "unat (ps_already_read s) + length (iter_addrs (ps_riter s)) = unat rlen"
    using it i ra by (simp_all add: i_def)
  obtain already' rb' it' m' where L:
    "read_loop n rlen (ps_already_read s) (ps_rb s) (ps_riter s) (ps_mem s)
       = Inr (length ra - i \<le> n, already', rb', it', m')"
    "unat already' = i + k" "rb_inv rb'" "rb_abs rb' = drop k (rb_abs (ps_rb s))"
    "rb_write_end rb' = rb_write_end (ps_rb s)" "iter_ok it'" "iter_addrs it' = drop k (drop i ra)"
    "map m' (take k (drop i ra)) = take k (rb_abs (ps_rb s))"
    "\<And>a. a \<notin> set (take k (drop i ra)) \<Longrightarrow> m' a = ps_mem s a"
    using read_loop_ok [OF I(1) I(3) _ ne, of n "ps_mem s", unfolded it] n_def k_def i_def by auto
  define e where "e = (if length ra - i \<le> n then Return already' else Again)"
  define s' where "s' = s\<lparr>ps_rb := rb', ps_mem := m', ps_riter := it', ps_already_read := already',
    ps_read := returned e\<rparr>"
  have sel: "ps_mem s' = m'" "ps_rb s' = rb'" by (simp_all add: s'_def)
  have step: "reader_step rlen s = Inr (e, s')"
    using L(1) data by (simp add: reader_step_def pipe_read_pass_def n_def e_def s'_def)
  have sub: "set (take k (drop i ra)) \<subseteq> set ra" by (meson in_set_dropD in_set_takeD subsetI)
  have mw: "map m' wa = map m wa"
  proof -
    have "m' a = ps_mem s a" if "a \<in> set wa" for a using that L(9) sub ra(2) by blast
    then show ?thesis using I(9) by simp
  qed
  have "m' a = ps_mem s a" if "a \<in> set (take i ra)" for a
  proof (rule L(9))
    have "set (take i ra) \<inter> set (drop i ra) = {}" using ra(1) by (simp add: set_take_disj_set_drop_if_distinct)
    then show "a \<notin> set (take k (drop i ra))" using that by (auto dest: in_set_takeD)
  qed
  then have "map m' (take (i + k) ra) @ rb_abs rb' = map (ps_mem s) (take i ra) @ rb_abs (ps_rb s)"
    using L(8) by (simp only: take_add map_append append_assoc L(4)) simp
  then have stream: "map m' (take (i + k) ra) @ rb_abs rb' = map m (take (unat (ps_already_write s)) wa)"
    using I(10) by (simp only: i_def)
  have other: "\<forall>a. a \<notin> set ra \<longrightarrow> m' a = m a"
  proof (intro allI impI)
    fix a assume a: "a \<notin> set ra"
    then have "a \<notin> set (take k (drop i ra))" using sub by blast
    then show "m' a = m a" using L(9) I(11) [OF a] by simp
  qed
  have "pipe_inv ra wa m s'"
  proof (rule pipe_invI [of s' "i + k" "unat (ps_already_write s)"])
    show "rb_write_end (ps_rb s') \<noteq> None" using L(5) I(2) by (auto simp: s'_def)
    show "ps_written s' = None \<Longrightarrow> unat (ps_already_write s) < length wa \<and> ps_open s'"
      using I(13) by (simp add: s'_def)
    show "n = ps_already_write s' \<and> unat (ps_already_write s) = length wa" if "ps_written s' = Some n" for n
      using I(14,16) that by (simp add: s'_def)
    show "i + k \<le> length ra" "ps_read s' = None \<Longrightarrow> i + k < length ra"
      using i by (auto simp: s'_def e_def returned_def k_def split: if_splits)
    show "n = ps_already_read s' \<and> (i + k = length ra \<or> \<not> ps_open s' \<and> i + k = length wa)"
      if "ps_read s' = Some n" for n
      using i that by (auto simp: s'_def e_def returned_def k_def split: if_splits)
    show "iter_addrs (ps_riter s') = drop (i + k) ra" using L(7) by (simp add: s'_def add.commute)
    show "map (ps_mem s') wa = map m wa" "\<forall>a. a \<notin> set ra \<longrightarrow> ps_mem s' a = m a"
      "map (ps_mem s') (take (i + k) ra) @ rb_abs (ps_rb s') = map m (take (unat (ps_already_write s)) wa)"
      using mw other stream by (simp_all only: sel)
  qed (use I(4,7,8) L(2,3,6) in \<open>simp_all add: s'_def\<close>)
  moreover have "ps_already_read s < ps_already_read s'"
    using L(2) i data by (simp add: s'_def word_less_nat_alt i_def k_def n_def)
  ultimately show ?thesis using step by (auto simp: e_def)
qed

lemma writer_step_full:
  assumes inv: "pipe_inv ra wa m s" and none: "ps_written s = None" and full: "available_write (ps_rb s) = 0"
  shows "writer_step wlen s = Inr (Suspend, s)" "pipe_inv ra wa m s"
  using inv none full by (simp_all add: writer_step_def pipe_write_pass_def returned_def)

lemma writer_step_room:
  assumes inv: "pipe_inv ra wa m s" and none: "ps_written s = None" and room: "0 < available_write (ps_rb s)"
    and wa: "unat wlen = length wa"
  shows "\<exists>e s'. writer_step wlen s = Inr (e, s') \<and> e \<noteq> Suspend \<and> pipe_inv ra wa m s'
    \<and> ps_already_write s < ps_already_write s'"
proof -
  define j where "j = unat (ps_already_write s)"
  define n where "n = available_write (ps_rb s)"
  note I = pipe_invD [OF inv]
  have j: "j < length wa" and op: "ps_open s" using I(13) none by (simp_all add: j_def)
  have it: "iter_addrs (ps_witer s) = drop j wa" using I(8) by (simp add: j_def)
  define k where "k = min n (length wa - j)"
  have ne: "iter_addrs (ps_witer s) \<noteq> []"
    "unat (ps_already_write s) + length (iter_addrs (ps_witer s)) = unat wlen"
    using it j wa by (simp_all add: j_def)
  obtain already' rb' it' where L:
    "write_loop n wlen (ps_already_write s) (ps_rb s) (ps_witer s) (ps_mem s)
       = Inr (length wa - j \<le> n, already', rb', it')"
    "unat already' = j + k" "rb_inv rb'" "rb_abs rb' = rb_abs (ps_rb s) @ map (ps_mem s) (take k (drop j wa))"
    "rb_write_end rb' = rb_write_end (ps_rb s)" "iter_ok it'" "iter_addrs it' = drop k (drop j wa)"
    using write_loop_ok [OF I(1) I(4) _ ne, of n "ps_mem s", unfolded it] n_def k_def j_def by auto
  define e where "e = (if length wa - j \<le> n then Return already' else Again)"
  define s' where "s' = s\<lparr>ps_rb := rb', ps_witer := it', ps_already_write := already', ps_written := returned e\<rparr>"
  have sel: "ps_mem s' = ps_mem s" "ps_rb s' = rb'" by (simp_all add: s'_def)
  have step: "writer_step wlen s = Inr (e, s')"
    using L(1) room by (simp add: writer_step_def pipe_write_pass_def n_def e_def s'_def)
  have "map (ps_mem s) (take k (drop j wa)) = map m (take k (drop j wa))"
    using I(9) by (metis drop_map take_map)
  then have stream: "map (ps_mem s) (take (unat (ps_already_read s)) ra) @ rb_abs rb' = map m (take (j + k) wa)"
    using I(10) by (simp add: L(4) take_add j_def flip: append_assoc)
  have "pipe_inv ra wa m s'"
  proof (rule pipe_invI [of s' "unat (ps_already_read s)" "j + k"])
    show "rb_write_end (ps_rb s') \<noteq> None" using L(5) I(2) by (auto simp: s'_def)
    show "ps_read s' = None \<Longrightarrow> unat (ps_already_read s) < length ra" using I(12) by (simp add: s'_def)
    show "n = ps_already_read s' \<and> (unat (ps_already_read s) = length ra
        \<or> \<not> ps_open s' \<and> unat (ps_already_read s) = length wa)" if "ps_read s' = Some n" for n
      using I(15) that by (simp add: s'_def)
    show "j + k \<le> length wa" "ps_written s' = None \<Longrightarrow> j + k < length wa \<and> ps_open s'"
      using j op by (auto simp: s'_def e_def returned_def k_def split: if_splits)
    show "n = ps_already_write s' \<and> j + k = length wa" if "ps_written s' = Some n" for n
      using j that by (auto simp: s'_def e_def returned_def k_def split: if_splits)
    show "iter_addrs (ps_witer s') = drop (j + k) wa" using L(7) by (simp add: s'_def add.commute)
    show "map (ps_mem s') (take (unat (ps_already_read s)) ra) @ rb_abs (ps_rb s') = map m (take (j + k) wa)"
      "map (ps_mem s') wa = map m wa"
      using stream I(9) by (simp_all only: sel)
  qed (use I(3,5,6,11) L(2,3,6) in \<open>simp_all add: s'_def\<close>)
  moreover have "ps_already_write s < ps_already_write s'"
    using L(2) j room by (simp add: s'_def word_less_nat_alt j_def k_def n_def)
  ultimately show ?thesis using step by (auto simp: e_def)
qed

lemma pipe_inv_close: "pipe_inv ra wa m s \<Longrightarrow> ps_written s \<noteq> None \<Longrightarrow> pipe_inv ra wa m (s\<lparr>ps_open := False\<rparr>)"
  by (auto simp: pipe_inv_def Let_def)

lemma buffer_addrs_nonempty: "buffer_ok bs \<Longrightarrow> bs \<noteq> [] \<Longrightarrow> buffer_addrs bs \<noteq> []"
  by (cases bs) (auto simp: buffer_ok_def slice_addrs_def word_less_nat_alt)

lemma pipe_inv_start:
  assumes "transfer_ok rbuf wbuf"
  shows "pipe_inv (buffer_addrs rbuf) (buffer_addrs wbuf) m (pipe_start rbuf wbuf m)"
proof -
  have "rb_inv (set_write_end 0 PipeRingBuffer_new)" "rb_abs (set_write_end 0 PipeRingBuffer_new) = []"
    by (simp_all add: set_write_end_def PipeRingBuffer_new_def rb_inv_def rb_abs_def available_read_def
        RING_BUFFER_SIZE_def)
  moreover have "rb_write_end (set_write_end 0 PipeRingBuffer_new) \<noteq> None" by (simp add: set_write_end_def)
  moreover have "buffer_addrs rbuf \<noteq> []" "buffer_addrs wbuf \<noteq> []"
    using assms buffer_addrs_nonempty by (auto simp: transfer_ok_def)
  ultimately show ?thesis
    using assms by (simp add: pipe_inv_def pipe_start_def make_pipe_def transfer_ok_def into_iter_ok
        into_iter_addrs)
qed

lemma unat_UserBuffer_len: "length (buffer_addrs bs) < 2 ^ 64 \<Longrightarrow> unat (UserBuffer_len bs) = length (buffer_addrs bs)"
  by (simp add: UserBuffer_len_eq unat_of_nat_64)

lemma pipe_run_inv:
  assumes ok: "transfer_ok rbuf wbuf" and run: "pipe_run rbuf wbuf m s"
  shows "pipe_inv (buffer_addrs rbuf) (buffer_addrs wbuf) m s"
  using run
proof induction
  case start
  show ?case by (rule pipe_inv_start [OF ok])
next
  case (reader s e s')
  then show ?case
    using reader_step_empty [OF reader.IH reader.hyps(2)] reader_step_data [OF reader.IH reader.hyps(2), of "UserBuffer_len rbuf"]
      ok unat_UserBuffer_len [of rbuf]
    by (cases "available_read (ps_rb s) = 0") (auto simp: transfer_ok_def)
next
  case (writer s e s')
  then show ?case
    using writer_step_full [OF writer.IH writer.hyps(2)] writer_step_room [OF writer.IH writer.hyps(2), of "UserBuffer_len wbuf"]
      ok unat_UserBuffer_len [of wbuf]
    by (cases "available_write (ps_rb s) = 0") (auto simp: transfer_ok_def)
next
  case (close s)
  then show ?case by (simp add: pipe_inv_close)
qed

section \<open>Properties\<close>

text \<open>A small transfer, for the witnesses: two bytes, the reader's buffer in two pieces.\<close>

definition rbuf0 :: "user_slice list" where "rbuf0 = [(0x1000, 1), (0x5000, 1)]"
definition wbuf0 :: "user_slice list" where "wbuf0 = [(0x2000, 2)]"
definition mem0 :: mem where "mem0 a = (if a = 0x2000 then 7 else if a = 0x2001 then 9 else 0)"

lemma transfer_ok0: "transfer_ok rbuf0 wbuf0"
  by (simp add: transfer_ok_def rbuf0_def wbuf0_def buffer_ok_def slice_addrs_def upt_conv_Cons)

lemma addrs0: "buffer_addrs rbuf0 = [0x1000, 0x5000]" "buffer_addrs wbuf0 = [0x2000, 0x2001]"
  by (simp_all add: rbuf0_def wbuf0_def slice_addrs_def upt_conv_Cons)

lemma pipe_eval0:
  "case writer_step 2 (pipe_start rbuf0 wbuf0 mem0) of Inl _ \<Rightarrow> False
   | Inr (e, s1) \<Rightarrow> ps_read s1 = None \<and> available_read (ps_rb s1) = 2
     \<and> (case reader_step 2 s1 of Inl _ \<Rightarrow> False | Inr (e, s2) \<Rightarrow> ps_read s2 = Some 2)"
  by code_simp

lemma pipe_run0:
  "\<exists>s1 s2. pipe_run rbuf0 wbuf0 mem0 s1 \<and> available_read (ps_rb s1) = 2 \<and> ps_read s1 = None
     \<and> pipe_run rbuf0 wbuf0 mem0 s2 \<and> ps_read s2 = Some 2"
proof -
  have len: "UserBuffer_len rbuf0 = 2" "UserBuffer_len wbuf0 = 2" by (simp_all add: rbuf0_def wbuf0_def)
  have none: "ps_written (pipe_start rbuf0 wbuf0 mem0) = None" by (simp add: pipe_start_def make_pipe_def)
  obtain e s1 where w: "writer_step 2 (pipe_start rbuf0 wbuf0 mem0) = Inr (e, s1)"
    using pipe_eval0 by (cases "writer_step 2 (pipe_start rbuf0 wbuf0 mem0)") auto
  then have s1: "ps_read s1 = None" "available_read (ps_rb s1) = 2" using pipe_eval0 by simp_all
  obtain e2 s2 where r: "reader_step 2 s1 = Inr (e2, s2)" "ps_read s2 = Some 2"
    using pipe_eval0 w by (cases "reader_step 2 s1") auto
  have run1: "pipe_run rbuf0 wbuf0 mem0 s1"
    by (rule pipe_run.writer [OF pipe_run.start none]) (simp only: len w)
  have "pipe_run rbuf0 wbuf0 mem0 s2"
    by (rule pipe_run.reader [OF run1 s1(1)]) (simp only: len r(1))
  then show ?thesis using run1 s1 r by blast
qed

text \<open>
  C22. The ring buffer implements a queue of at most 32 bytes: the counters are the length of the
  queue and the room left, reading removes the first byte of a queue that is not empty, writing
  appends to a queue that is not full, and neither panics.
\<close>

theorem ring_buffer_refines_queue:
  assumes "rb_inv rb"
  shows "available_read rb = length (rb_abs rb) \<and> available_write rb = 32 - length (rb_abs rb)
    \<and> length (rb_abs rb) \<le> 32
    \<and> (\<forall>x xs. rb_abs rb = x # xs \<longrightarrow> (\<exists>rb'. read_byte rb = Inr (x, rb') \<and> rb_inv rb' \<and> rb_abs rb' = xs))
    \<and> (length (rb_abs rb) < 32 \<longrightarrow>
         (\<forall>b. \<exists>rb'. write_byte b rb = Inr rb' \<and> rb_inv rb' \<and> rb_abs rb' = rb_abs rb @ [b]))"
  using rb.free_ok [OF assms] rb.bounded [OF assms] rb.rd_ok [OF assms] rb.wr_ok [OF assms]
  unfolding RING_BUFFER_SIZE_def by (intro conjI allI impI length_rb_abs [symmetric]) blast+

theorem ring_buffer_refines_queue_witness:
  "available_write PipeRingBuffer_new = 32
   \<and> (\<exists>rb'. write_byte 5 PipeRingBuffer_new = Inr rb' \<and> rb_inv rb' \<and> rb_abs rb' = [5])"
  using ring_buffer_refines_queue [OF rb.new_ok(1)] rb.new_ok(2) by simp

text \<open>
  C8. In every state that a reader and a writer of a pipe can reach, in any interleaving, the bytes
  already stored in the reader's buffer followed by the bytes in the ring buffer are exactly the
  bytes the writer has handed over so far, in order; at most 32 bytes are in flight, and no memory
  outside the reader's buffer has changed.
\<close>

theorem pipe_is_fifo:
  assumes "transfer_ok rbuf wbuf" "pipe_run rbuf wbuf m s"
  shows "map (ps_mem s) (take (unat (ps_already_read s)) (buffer_addrs rbuf)) @ rb_abs (ps_rb s)
      = map m (take (unat (ps_already_write s)) (buffer_addrs wbuf))
    \<and> length (rb_abs (ps_rb s)) \<le> 32
    \<and> (\<forall>a. a \<notin> set (buffer_addrs rbuf) \<longrightarrow> ps_mem s a = m a)"
  using pipe_invD(1,10,11) [OF pipe_run_inv [OF assms]] available_read_le
  by (intro conjI allI impI) auto

theorem pipe_is_fifo_witness:
  "\<exists>s1. pipe_run rbuf0 wbuf0 mem0 s1 \<and> available_read (ps_rb s1) = 2
     \<and> map (ps_mem s1) (take (unat (ps_already_read s1)) [0x1000, 0x5000]) @ rb_abs (ps_rb s1)
         = map mem0 (take (unat (ps_already_write s1)) [0x2000, 0x2001])"
  using pipe_run0 pipe_is_fifo [OF transfer_ok0, of mem0] by (auto simp only: addrs0)

text \<open>
  C23. When \<open>Pipe::read\<close> returns, it has received as many bytes as the shorter of the two buffers
  holds, and they are the first bytes the writer sent.
\<close>

theorem pipe_read_delivers:
  assumes "transfer_ok rbuf wbuf" "pipe_run rbuf wbuf m s" "ps_read s = Some n"
  shows "unat n = min (length (buffer_addrs rbuf)) (length (buffer_addrs wbuf))
    \<and> map (ps_mem s) (take (unat n) (buffer_addrs rbuf)) = map m (take (unat n) (buffer_addrs wbuf))"
proof
  note inv = pipe_run_inv [OF assms(1,2)]
  note I = pipe_invD [OF inv]
  have n: "n = ps_already_read s" using I(15) assms(3) by blast
  show "unat n = min (length (buffer_addrs rbuf)) (length (buffer_addrs wbuf))"
    using I(15) [OF assms(3)] I(5,7) pipe_inv_balance [OF inv] by auto
  have "take (unat n) (map (ps_mem s) (take (unat n) (buffer_addrs rbuf)) @ rb_abs (ps_rb s))
      = take (unat n) (map m (take (unat (ps_already_write s)) (buffer_addrs wbuf)))"
    using I(10) by (simp only: n)
  moreover have "length (map (ps_mem s) (take (unat n) (buffer_addrs rbuf))) = unat n" using I(5) n by simp
  moreover have "unat n \<le> unat (ps_already_write s)" using pipe_inv_balance [OF inv] n by simp
  ultimately show "map (ps_mem s) (take (unat n) (buffer_addrs rbuf)) = map m (take (unat n) (buffer_addrs wbuf))"
    by (simp add: take_map min_def)
qed

theorem pipe_read_delivers_witness:
  "\<exists>s. pipe_run rbuf0 wbuf0 mem0 s \<and> ps_read s = Some 2 \<and> ps_mem s 0x1000 = 7 \<and> ps_mem s 0x5000 = 9"
proof -
  obtain s where s: "pipe_run rbuf0 wbuf0 mem0 s" "ps_read s = Some 2" using pipe_run0 by blast
  have "map (ps_mem s) (take 2 [0x1000, 0x5000]) = map mem0 (take 2 [0x2000, 0x2001])"
    using pipe_read_delivers [OF transfer_ok0 s] by (simp add: addrs0)
  then show ?thesis using s by (auto simp: mem0_def)
qed

text \<open>
  C24. No deadlock and no panic: as long as \<open>Pipe::read\<close> has not returned, its next pass runs
  without a panic; if that pass only gives up the processor, then either the writer is still at work
  and its next pass transfers bytes, or the writer has returned and its handle is still open.
\<close>

theorem pipe_no_deadlock:
  assumes "transfer_ok rbuf wbuf" "pipe_run rbuf wbuf m s" "ps_read s = None"
  shows "\<exists>e s'. reader_step (UserBuffer_len rbuf) s = Inr (e, s')
    \<and> (e = Suspend \<longrightarrow>
         (ps_written s = None \<and> (\<exists>e' t. writer_step (UserBuffer_len wbuf) s = Inr (e', t)
            \<and> ps_already_write s < ps_already_write t))
         \<or> (ps_written s \<noteq> None \<and> ps_open s))"
proof -
  note inv = pipe_run_inv [OF assms(1,2)]
  have ok: "distinct (buffer_addrs rbuf)" "set (buffer_addrs rbuf) \<inter> set (buffer_addrs wbuf) = {}"
    "unat (UserBuffer_len rbuf) = length (buffer_addrs rbuf)"
    "unat (UserBuffer_len wbuf) = length (buffer_addrs wbuf)"
    using assms(1) unat_UserBuffer_len by (auto simp: transfer_ok_def)
  show ?thesis
  proof (cases "available_read (ps_rb s) = 0")
    case False
    then show ?thesis using reader_step_data [OF inv assms(3) _ ok(1-3)] by fastforce
  next
    case True
    then have "0 < available_write (ps_rb s)" by (simp add: available_write_def RING_BUFFER_SIZE_def)
    then show ?thesis
      using reader_step_empty(1) [OF inv assms(3) True] writer_step_room [OF inv _ _ ok(4)]
      by (cases "ps_written s") (auto split: if_splits)
  qed
qed

theorem pipe_no_deadlock_witness:
  "\<exists>e s'. reader_step 2 (pipe_start rbuf0 wbuf0 mem0) = Inr (e, s')"
  using pipe_no_deadlock [OF transfer_ok0 pipe_run.start [of rbuf0 wbuf0 mem0]]
  by (auto simp: pipe_start_def make_pipe_def rbuf0_def)

text \<open>
  C25. Reading zero bytes from a pipe that holds data panics: the loop takes an address from the
  exhausted iterator before it compares the count with the length.
\<close>

theorem pipe_read_zero_panics:
  assumes "available_read rb \<noteq> 0"
  shows "pipe_read_pass alive (UserBuffer_len []) 0 rb (UserBuffer_into_iter []) m = Inl UnwrapNone"
proof -
  obtain n where "available_read rb = Suc n" using assms by (cases "available_read rb") auto
  then show ?thesis by (simp add: pipe_read_pass_def UserBuffer_into_iter_def UserBufferIterator_next_def)
qed

theorem pipe_read_zero_panics_witness:
  "pipe_read_pass (\<lambda>_. True) 0 0 (PipeRingBuffer_new\<lparr>rb_tail := 1, rb_status := Normal\<rparr>)
     (UserBuffer_into_iter []) (\<lambda>_. 0) = Inl UnwrapNone"
  using pipe_read_zero_panics [of "PipeRingBuffer_new\<lparr>rb_tail := 1, rb_status := Normal\<rparr>"]
  by (simp add: available_read_def PipeRingBuffer_new_def)

end
