(* ===== verification/Trap_Context.thy ===== *)
theory Trap_Context
  imports Frame_Allocator
begin

text \<open>
  \<open>os/src/trap/context.rs\<close> and \<open>os/src/task/thread/context.rs\<close>: the register contexts. A
  \<open>TrapContext\<close> lives at the start of a physical page, as 37 consecutive 64-bit words
  (\<open>#[repr(C)]\<close>), and is reached by \<open>PhysPageNum::get_mut\<close>. The \<open>sstatus\<close> register with its
  \<open>SPP\<close> field set to \<open>User\<close> comes from the \<open>riscv\<close> package and is an argument.
\<close>

section \<open>The trap context\<close>

record TrapContext =
  tc_gprs :: "usize list"
  tc_sstatus :: usize
  tc_sepc :: usize
  tc_kernel_satp :: usize
  tc_kernel_stack_top :: usize
  tc_trap_handler :: usize

definition app_initial_context :: "usize \<Rightarrow> usize \<Rightarrow> usize \<Rightarrow> usize \<Rightarrow> usize \<Rightarrow> usize \<Rightarrow> TrapContext" where
  "app_initial_context sstatus entry_point user_sp kernel_satp kernel_stack_top trap_handler =
     \<lparr>tc_gprs = (replicate 32 0)[2 := user_sp], tc_sstatus = sstatus, tc_sepc = entry_point,
      tc_kernel_satp = kernel_satp, tc_kernel_stack_top = kernel_stack_top,
      tc_trap_handler = trap_handler\<rparr>"

text \<open>The field offsets, in words.\<close>

abbreviation (input) SSTATUS_WORD :: nat where "SSTATUS_WORD \<equiv> 32"
abbreviation (input) SEPC_WORD :: nat where "SEPC_WORD \<equiv> 33"
abbreviation (input) KERNEL_SATP_WORD :: nat where "KERNEL_SATP_WORD \<equiv> 34"
abbreviation (input) KERNEL_STACK_TOP_WORD :: nat where "KERNEL_STACK_TOP_WORD \<equiv> 35"
abbreviation (input) TRAP_HANDLER_WORD :: nat where "TRAP_HANDLER_WORD \<equiv> 36"

text \<open>\<open>PhysPageNum::get_mut\<close>: the first page gives a null pointer, which is refused.\<close>

definition PhysPageNum_get_mut :: "PhysPageNum \<Rightarrow> usize result" where
  "PhysPageNum_get_mut ppn =
     (if PhysAddr_from_ppn ppn = 0 then Inl UnwrapNone else Inr (PhysAddr_from_ppn ppn))"

definition trap_cx_word :: "usize \<Rightarrow> nat \<Rightarrow> usize" where
  "trap_cx_word cx i = cx + 8 * of_nat i"

definition trap_cx_words :: "TrapContext \<Rightarrow> usize list" where
  "trap_cx_words cx =
     tc_gprs cx @ [tc_sstatus cx, tc_sepc cx, tc_kernel_satp cx, tc_kernel_stack_top cx, tc_trap_handler cx]"

definition load_trap_cx :: "usize \<Rightarrow> mem \<Rightarrow> TrapContext" where
  "load_trap_cx cx m =
     \<lparr>tc_gprs = map (\<lambda>i. load64 m (trap_cx_word cx i)) [0..<32],
      tc_sstatus = load64 m (trap_cx_word cx SSTATUS_WORD),
      tc_sepc = load64 m (trap_cx_word cx SEPC_WORD),
      tc_kernel_satp = load64 m (trap_cx_word cx KERNEL_SATP_WORD),
      tc_kernel_stack_top = load64 m (trap_cx_word cx KERNEL_STACK_TOP_WORD),
      tc_trap_handler = load64 m (trap_cx_word cx TRAP_HANDLER_WORD)\<rparr>"

definition store_trap_cx :: "usize \<Rightarrow> TrapContext \<Rightarrow> mem \<Rightarrow> mem" where
  "store_trap_cx cx c m =
     fold (\<lambda>(i, v) m. store64 m (trap_cx_word cx i) v) (enumerate 0 (trap_cx_words c)) m"

section \<open>The task context\<close>

record TaskContext =
  tk_sp :: usize
  tk_ra :: usize
  tk_s :: "usize list"

definition TaskContext_zero_init :: TaskContext where
  "TaskContext_zero_init = \<lparr>tk_sp = 0, tk_ra = 0, tk_s = replicate 12 0\<rparr>"

definition goto_trap_return :: "usize \<Rightarrow> usize \<Rightarrow> TaskContext" where
  "goto_trap_return trap_return kernel_stack_top =
     \<lparr>tk_sp = kernel_stack_top, tk_ra = trap_return, tk_s = replicate 12 0\<rparr>"

section \<open>Storing and loading a context\<close>

definition store_words :: "usize \<Rightarrow> usize list \<Rightarrow> mem \<Rightarrow> mem" where
  "store_words cx vs m = fold (\<lambda>(i, v) m. store64 m (trap_cx_word cx i) v) (enumerate 0 vs) m"

lemma store_words_Nil [simp]: "store_words cx [] m = m"
  by (simp add: store_words_def)

lemma store_words_snoc: "store_words cx (vs @ [v]) m = store64 (store_words cx vs m) (trap_cx_word cx (length vs)) v"
  by (simp add: store_words_def enumerate_append_eq)

lemma store_trap_cx_words: "store_trap_cx cx c m = store_words cx (trap_cx_words c) m"
  by (simp add: store_trap_cx_def store_words_def)

lemma unat_word_offset: "i < 2 ^ 60 \<Longrightarrow> unat (8 * of_nat i :: usize) = 8 * i"
  by (simp add: unat_word_ariths unat_of_nat)

lemma aligned8_word: "aligned8 cx \<Longrightarrow> i < 2 ^ 60 \<Longrightarrow> aligned8 (trap_cx_word cx i)"
  unfolding aligned8_def trap_cx_word_def unat_add_mod8 unat_word_offset by (simp add: mod_add_left_eq [symmetric])

lemma trap_cx_word_eq: "i < 2 ^ 60 \<Longrightarrow> j < 2 ^ 60 \<Longrightarrow> trap_cx_word cx i = trap_cx_word cx j \<longleftrightarrow> i = j"
  unfolding trap_cx_word_def add_left_cancel by (metis unat_word_offset mult_cancel1 zero_neq_numeral)

lemma load_store_words:
  assumes "aligned8 cx" "length vs \<le> 2 ^ 60" "j < length vs"
  shows "load64 (store_words cx vs m) (trap_cx_word cx j) = vs ! j"
  using assms
proof (induction vs rule: rev_induct)
  case (snoc v vs)
  show ?case
  proof (cases "j = length vs")
    case True
    then show ?thesis by (simp add: store_words_snoc)
  next
    case False
    then have "load64 (store_words cx (vs @ [v]) m) (trap_cx_word cx j) = load64 (store_words cx vs m) (trap_cx_word cx j)"
      using snoc.prems unfolding store_words_snoc
      by (intro load64_store64_other aligned8_word) (auto simp: trap_cx_word_eq)
    then show ?thesis using snoc False by (simp add: nth_append)
  qed
qed simp

lemma store_words_other:
  assumes "length vs \<le> 2 ^ 60" "\<not> unat (x - cx) < 8 * length vs"
  shows "store_words cx vs m x = m x"
  using assms
proof (induction vs rule: rev_induct)
  case (snoc v vs)
  define d where "d = x - cx"
  have n: "unat (8 * of_nat (length vs) :: usize) = 8 * length vs"
    using snoc.prems by (intro unat_word_offset) simp
  have d: "8 * length vs + 8 \<le> unat d" using snoc.prems(2) by (simp add: d_def)
  have "x - trap_cx_word cx (length vs) = d - 8 * of_nat (length vs)"
    by (simp add: trap_cx_word_def d_def)
  moreover have "unat (d - 8 * of_nat (length vs)) = unat d - 8 * length vs"
    using n d by (subst unat_sub) (simp_all add: word_le_nat_alt)
  ultimately have "\<not> x - trap_cx_word cx (length vs) < 8"
    using d by (simp add: word_less_nat_alt)
  then show ?case using snoc by (simp add: store_words_snoc store64_other)
qed simp

definition trap_cx_ok :: "TrapContext \<Rightarrow> bool" where
  "trap_cx_ok c \<longleftrightarrow> length (tc_gprs c) = 32"

lemma length_trap_cx_words [simp]: "length (trap_cx_words c) = length (tc_gprs c) + 5"
  by (simp add: trap_cx_words_def)

lemma app_initial_context_ok: "trap_cx_ok (app_initial_context st e sp ks kt th)"
  by (simp add: trap_cx_ok_def app_initial_context_def)

lemma load_trap_cx_ok: "trap_cx_ok (load_trap_cx cx m)"
  by (simp add: trap_cx_ok_def load_trap_cx_def)

lemma load_store_trap_cx:
  assumes "aligned8 cx" "trap_cx_ok c"
  shows "load_trap_cx cx (store_trap_cx cx c m) = c"
proof -
  have len: "length (tc_gprs c) = 32" using assms(2) by (simp add: trap_cx_ok_def)
  have w: "load64 (store_trap_cx cx c m) (trap_cx_word cx j) = trap_cx_words c ! j" if "j < 37" for j
    unfolding store_trap_cx_words using that len by (intro load_store_words assms(1)) simp_all
  have "map (\<lambda>i. load64 (store_trap_cx cx c m) (trap_cx_word cx i)) [0..<32] = tc_gprs c"
    using len w by (intro nth_equalityI) (simp_all add: trap_cx_words_def nth_append)
  then show ?thesis
    using w [of 32] w [of 33] w [of 34] w [of 35] w [of 36] len
    by (simp add: load_trap_cx_def trap_cx_words_def nth_append)
qed

lemma store_trap_cx_other: "trap_cx_ok c \<Longrightarrow> \<not> unat (x - cx) < 296 \<Longrightarrow> store_trap_cx cx c m x = m x"
  unfolding store_trap_cx_words by (rule store_words_other) (simp_all add: trap_cx_ok_def)

end
