(* ===== verification/Scheduler.thy ===== *)
theory Scheduler
  imports Trap_Context
begin

text \<open>
  The scheduler: \<open>os/src/task/scheduler/task_manager.rs\<close> (the queue of ready threads),
  \<open>os/src/task/scheduler/processor.rs\<close> (the running thread and the idle loop) and the two ways a
  thread gives up the processor in \<open>os/src/task/mod.rs\<close>. A shared pointer
  \<open>Arc<TaskControlBlock>\<close> is the number of the thread, and \<open>sc_tcb\<close> is the store of thread control
  blocks. The state is an extensible record, so that the operations work unchanged on the larger
  state of the kernel. \<open>schedule\<close> hands the processor to the idle loop; everything before that call
  is the effect of the operation, and one round of the idle loop is \<open>run_tasks_iter\<close>.
\<close>

section \<open>Thread control blocks\<close>

datatype TaskStatus = Ready | Running | Blocked

record TaskUserResource =
  ur_tid :: usize
  ur_user_stack_base :: usize
  ur_process :: nat

record TaskControlBlock =
  tcb_process :: nat
  tcb_kernel_stack :: usize
  tcb_user_resource :: "TaskUserResource option"
  tcb_status :: TaskStatus
  tcb_task_cx :: TaskContext
  tcb_trap_cx_ppn :: PhysPageNum
  tcb_exit_code :: "32 word option"
  tcb_trap_cx_backup :: "TrapContext option"

record sched =
  sc_ready_queue :: "nat list"
  sc_current :: "nat option"
  sc_tcb :: "nat \<Rightarrow> TaskControlBlock"

definition set_status :: "nat \<Rightarrow> TaskStatus \<Rightarrow> 'a sched_scheme \<Rightarrow> 'a sched_scheme" where
  "set_status t st s = s\<lparr>sc_tcb := (sc_tcb s)(t := (sc_tcb s t)\<lparr>tcb_status := st\<rparr>)\<rparr>"

section \<open>The task manager\<close>

definition add_task :: "nat \<Rightarrow> 'a sched_scheme \<Rightarrow> 'a sched_scheme" where
  "add_task task s = s\<lparr>sc_ready_queue := sc_ready_queue s @ [task]\<rparr>"

definition fetch_task :: "'a sched_scheme \<Rightarrow> nat option \<times> 'a sched_scheme" where
  "fetch_task s =
     (case sc_ready_queue s of
        [] \<Rightarrow> (None, s)
      | t # ts \<Rightarrow> (Some t, s\<lparr>sc_ready_queue := ts\<rparr>))"

definition remove_task :: "nat \<Rightarrow> 'a sched_scheme \<Rightarrow> 'a sched_scheme" where
  "remove_task task s =
     (case find_index (\<lambda>t. t = task) (sc_ready_queue s) of
        Some i \<Rightarrow> s\<lparr>sc_ready_queue := remove_at i (sc_ready_queue s)\<rparr>
      | None \<Rightarrow> s)"

definition wakeup_task :: "nat \<Rightarrow> 'a sched_scheme \<Rightarrow> 'a sched_scheme" where
  "wakeup_task task s = add_task task (set_status task Ready s)"

section \<open>The processor\<close>

definition take_current_task :: "'a sched_scheme \<Rightarrow> nat option \<times> 'a sched_scheme" where
  "take_current_task s = (sc_current s, s\<lparr>sc_current := None\<rparr>)"

definition current_task :: "'a sched_scheme \<Rightarrow> nat result" where
  "current_task s = unwrap (sc_current s)"

text \<open>One round of the idle loop; without a ready thread the machine is shut down.\<close>

datatype 'a idle_round = Shutdown | Dispatched 'a

definition run_tasks_iter :: "'a sched_scheme \<Rightarrow> 'a sched_scheme idle_round" where
  "run_tasks_iter s =
     (case fetch_task s of
        (Some task, s1) \<Rightarrow> Dispatched ((set_status task Running s1)\<lparr>sc_current := Some task\<rparr>)
      | (None, s1) \<Rightarrow> Shutdown)"

section \<open>Giving up the processor\<close>

definition suspend_current :: "'a sched_scheme \<Rightarrow> 'a sched_scheme result" where
  "suspend_current s =
     (case take_current_task s of (r, s1) \<Rightarrow>
      rbind (unwrap r) (\<lambda>task. Inr (add_task task (set_status task Ready s1))))"

definition block_current :: "'a sched_scheme \<Rightarrow> 'a sched_scheme result" where
  "block_current s =
     (case take_current_task s of (r, s1) \<Rightarrow>
      rbind (unwrap r) (\<lambda>task. Inr (set_status task Blocked s1)))"

section \<open>Lemmas\<close>

lemmas sched_defs = set_status_def add_task_def fetch_task_def wakeup_task_def take_current_task_def
  current_task_def run_tasks_iter_def suspend_current_def block_current_def

abbreviation status :: "'a sched_scheme \<Rightarrow> nat \<Rightarrow> TaskStatus" where
  "status s t \<equiv> tcb_status (sc_tcb s t)"

text \<open>
  The invariant: the ready queue has no repetition, its threads are \<open>Ready\<close>, the running thread is
  \<open>Running\<close> (and so not in the queue), and no other thread is \<open>Running\<close>, but for threads that have
  ended, whose status is left as it was.
\<close>

definition sched_inv :: "'a sched_scheme \<Rightarrow> bool" where
  "sched_inv s \<longleftrightarrow> distinct (sc_ready_queue s) \<and> (\<forall>t \<in> set (sc_ready_queue s). status s t = Ready)
     \<and> (\<forall>t. sc_current s = Some t \<longrightarrow> status s t = Running)
     \<and> (\<forall>t. status s t = Running \<longrightarrow> sc_current s = Some t \<or> tcb_exit_code (sc_tcb s t) \<noteq> None)"

lemma sched_invD:
  assumes "sched_inv s"
  shows "distinct (sc_ready_queue s)" "t \<in> set (sc_ready_queue s) \<Longrightarrow> status s t = Ready"
    "sc_current s = Some t \<Longrightarrow> status s t = Running"
    "status s t = Running \<Longrightarrow> tcb_exit_code (sc_tcb s t) = None \<Longrightarrow> sc_current s = Some t"
    "sc_current s = Some t \<Longrightarrow> t \<notin> set (sc_ready_queue s)" "status s t = Blocked \<Longrightarrow> t \<notin> set (sc_ready_queue s)"
    "status s t = Blocked \<Longrightarrow> sc_current s \<noteq> Some t"
proof -
  show "distinct (sc_ready_queue s)" and ready: "t \<in> set (sc_ready_queue s) \<Longrightarrow> status s t = Ready"
    and cur: "sc_current s = Some t \<Longrightarrow> status s t = Running"
    and "status s t = Running \<Longrightarrow> tcb_exit_code (sc_tcb s t) = None \<Longrightarrow> sc_current s = Some t"
    using assms unfolding sched_inv_def by blast+
  show "t \<notin> set (sc_ready_queue s)" if "sc_current s = Some t"
    using ready cur [OF that] by (rule_tac notI) simp
  show "t \<notin> set (sc_ready_queue s)" if "status s t = Blocked"
    using ready that by (rule_tac notI) simp
  show "sc_current s \<noteq> Some t" if "status s t = Blocked"
    using cur that by (rule_tac notI) simp
qed

lemma status_set_status [simp]: "status (set_status t st s) u = (if u = t then st else status s u)"
  by (simp add: set_status_def)

lemma exit_code_sel [simp]:
  "tcb_exit_code (sc_tcb (set_status t st s) u) = tcb_exit_code (sc_tcb s u)"
  "tcb_exit_code (sc_tcb (wakeup_task t s) u) = tcb_exit_code (sc_tcb s u)"
  by (simp_all add: sched_defs)

lemma sched_sel [simp]:
  "sc_ready_queue (set_status t st s) = sc_ready_queue s" "sc_current (set_status t st s) = sc_current s"
  "sc_ready_queue (add_task t s) = sc_ready_queue s @ [t]" "sc_current (add_task t s) = sc_current s"
  "sc_tcb (add_task t s) = sc_tcb s"
  "sc_ready_queue (wakeup_task t s) = sc_ready_queue s @ [t]" "sc_current (wakeup_task t s) = sc_current s"
  "status (wakeup_task t s) u = (if u = t then Ready else status s u)"
  by (simp_all add: sched_defs)

lemma suspend_current_Inr [simp]:
  "suspend_current s = Inr s' \<longleftrightarrow>
     (\<exists>t. sc_current s = Some t \<and> s' = add_task t (set_status t Ready (s\<lparr>sc_current := None\<rparr>)))"
  by (auto simp: suspend_current_def take_current_task_def)

lemma block_current_Inr [simp]:
  "block_current s = Inr s' \<longleftrightarrow>
     (\<exists>t. sc_current s = Some t \<and> s' = set_status t Blocked (s\<lparr>sc_current := None\<rparr>))"
  by (auto simp: block_current_def take_current_task_def)

lemma run_tasks_iter_Dispatched [simp]:
  "run_tasks_iter s = Dispatched s' \<longleftrightarrow>
     (\<exists>t ts. sc_ready_queue s = t # ts
        \<and> s' = (set_status t Running (s\<lparr>sc_ready_queue := ts\<rparr>))\<lparr>sc_current := Some t\<rparr>)"
  by (auto simp: run_tasks_iter_def fetch_task_def split: list.splits)

lemma run_tasks_iter_Shutdown: "run_tasks_iter s = Shutdown \<longleftrightarrow> sc_ready_queue s = []"
  by (auto simp: run_tasks_iter_def fetch_task_def split: list.splits)

lemma sched_inv_leave:
  assumes "sched_inv s" "sc_current s = Some t" "st \<noteq> Running"
  shows "sched_inv (set_status t st (s\<lparr>sc_current := None\<rparr>))"
    "t \<notin> set (sc_ready_queue s)"
proof -
  show t: "t \<notin> set (sc_ready_queue s)" using sched_invD(5) [OF assms(1,2)] .
  have ended: "tcb_exit_code (sc_tcb s u) \<noteq> None" if "u \<noteq> t" "status s u = Running" for u
    using sched_invD(4) [OF assms(1) that(2)] that(1) assms(2) by auto
  have "\<forall>u \<in> set (sc_ready_queue s). status (set_status t st s) u = Ready" using sched_invD(2) [OF assms(1)] t by auto
  then show "sched_inv (set_status t st (s\<lparr>sc_current := None\<rparr>))"
    using sched_invD(1) [OF assms(1)] assms(3) ended unfolding sched_inv_def by (auto split: if_splits)
qed

lemma sched_invI:
  assumes "distinct (sc_ready_queue s)" "\<And>t. t \<in> set (sc_ready_queue s) \<Longrightarrow> status s t = Ready"
    "\<And>t. sc_current s = Some t \<Longrightarrow> status s t = Running"
    "\<And>t. status s t = Running \<Longrightarrow> tcb_exit_code (sc_tcb s t) = None \<Longrightarrow> sc_current s = Some t"
  shows "sched_inv s"
  using assms unfolding sched_inv_def by blast

lemma sched_inv_add:
  "sched_inv s \<Longrightarrow> t \<notin> set (sc_ready_queue s) \<Longrightarrow> status s t = Ready \<Longrightarrow> sched_inv (add_task t s)"
  by (auto simp: sched_inv_def)

lemma sched_inv_suspend: "sched_inv s \<Longrightarrow> suspend_current s = Inr s' \<Longrightarrow> sched_inv s'"
  using sched_inv_leave [of s _ Ready] by (auto intro!: sched_inv_add)

lemma sched_inv_block: "sched_inv s \<Longrightarrow> block_current s = Inr s' \<Longrightarrow> sched_inv s'"
  using sched_inv_leave(1) [of s _ Blocked] by auto

lemma sched_inv_wakeup:
  assumes "sched_inv s" "status s t = Blocked"
  shows "sched_inv (wakeup_task t s)"
  using sched_invD(6,7) [OF assms] sched_invD(1) [OF assms(1)]
  by (intro sched_invI)
    (auto split: if_splits dest: sched_invD(2) [OF assms(1)] sched_invD(3) [OF assms(1)] sched_invD(4) [OF assms(1)])

lemma sched_inv_dispatch:
  assumes "sched_inv s" "sc_current s = None" "run_tasks_iter s = Dispatched s'"
  shows "sched_inv s'"
proof -
  obtain t ts where q: "sc_ready_queue s = t # ts"
    and s': "s' = (set_status t Running (s\<lparr>sc_ready_queue := ts\<rparr>))\<lparr>sc_current := Some t\<rparr>"
    using assms(3) by auto
  have "status s u = Ready" if "u \<in> set ts" for u using sched_invD(2) [OF assms(1), of u] q that by simp
  then show ?thesis
    using sched_invD(1) [OF assms(1)] assms(2) q unfolding s'
    by (intro sched_invI) (auto split: if_splits dest: sched_invD(4) [OF assms(1)])
qed

lemma remove_task_set:
  assumes "distinct (sc_ready_queue s)"
  shows "set (sc_ready_queue (remove_task t s)) = set (sc_ready_queue s) - {t}"
    "distinct (sc_ready_queue (remove_task t s))" "sc_current (remove_task t s) = sc_current s"
    "sc_tcb (remove_task t s) = sc_tcb s"
  using assms
  by (auto simp: remove_task_def find_index_None find_index_Some set_remove_at_distinct distinct_remove_at
      split: option.splits)

lemma sched_inv_remove:
  assumes "sched_inv s"
  shows "sched_inv (remove_task t s)"
proof (rule sched_invI)
  note r = remove_task_set [OF sched_invD(1) [OF assms], of t]
  show "distinct (sc_ready_queue (remove_task t s))" by (rule r(2))
  show "status (remove_task t s) u = Ready" if "u \<in> set (sc_ready_queue (remove_task t s))" for u
    using that sched_invD(2) [OF assms] by (simp add: r)
  show "status (remove_task t s) u = Running" if "sc_current (remove_task t s) = Some u" for u
    using that sched_invD(3) [OF assms] by (simp add: r)
  show "sc_current (remove_task t s) = Some u"
    if "status (remove_task t s) u = Running" "tcb_exit_code (sc_tcb (remove_task t s) u) = None" for u
    using that sched_invD(4) [OF assms] by (simp add: r)
qed

section \<open>Round robin\<close>

text \<open>
  \<open>k\<close> time slices in which the running thread only gives up the processor: the timer interrupt
  suspends it and the idle loop dispatches the next one.
\<close>

fun time_slices :: "nat \<Rightarrow> 'a sched_scheme \<Rightarrow> 'a sched_scheme result option" where
  "time_slices 0 s = Some (Inr s)"
| "time_slices (Suc k) s =
     (case suspend_current s of
        Inl e \<Rightarrow> Some (Inl e)
      | Inr s1 \<Rightarrow> (case run_tasks_iter s1 of Shutdown \<Rightarrow> None | Dispatched s2 \<Rightarrow> time_slices k s2))"

lemma time_slices_rotate:
  assumes "sched_inv s" "sc_current s = Some t" "sc_ready_queue s = q"
  shows "\<exists>s'. time_slices k s = Some (Inr s') \<and> sched_inv s' \<and> sc_current s' = Some (hd (rotate k (t # q)))
    \<and> sc_ready_queue s' = tl (rotate k (t # q)) \<and> (\<forall>u. tcb_exit_code (sc_tcb s' u) = tcb_exit_code (sc_tcb s u))"
  using assms
proof (induction k arbitrary: s t q)
  case 0
  then show ?case by simp
next
  case (Suc k)
  define s1 where "s1 = add_task t (set_status t Ready (s\<lparr>sc_current := None\<rparr>))"
  have s1: "suspend_current s = Inr s1" "sc_ready_queue s1 = q @ [t]" "sc_current s1 = None"
    using Suc.prems by (auto simp: s1_def)
  have inv1: "sched_inv s1" by (rule sched_inv_suspend [OF Suc.prems(1) s1(1)])
  obtain u r where u: "q @ [t] = u # r" by (cases q) auto
  define s2 where "s2 = (set_status u Running (s1\<lparr>sc_ready_queue := r\<rparr>))\<lparr>sc_current := Some u\<rparr>"
  have s2: "run_tasks_iter s1 = Dispatched s2" using s1(2) u by (simp add: s2_def)
  have inv2: "sched_inv s2" by (rule sched_inv_dispatch [OF inv1 s1(3) s2])
  have "rotate (Suc k) (t # q) = rotate k (u # r)" using u by (simp add: rotate1_rotate_swap)
  moreover have "time_slices (Suc k) s = time_slices k s2" by (simp only: time_slices.simps s1(1) s2 sum.case idle_round.case)
  moreover have "sc_current s2 = Some u" "sc_ready_queue s2 = r" by (simp_all add: s2_def)
  moreover have "tcb_exit_code (sc_tcb s2 v) = tcb_exit_code (sc_tcb s v)" for v by (simp add: s2_def s1_def)
  ultimately show ?case using Suc.IH [OF inv2, of u r] by simp
qed

section \<open>Properties\<close>

definition tcb0 :: TaskControlBlock where
  "tcb0 = \<lparr>tcb_process = 0, tcb_kernel_stack = 0, tcb_user_resource = None, tcb_status = Ready,
           tcb_task_cx = TaskContext_zero_init, tcb_trap_cx_ppn = 1, tcb_exit_code = None,
           tcb_trap_cx_backup = None\<rparr>"

text \<open>Three threads; thread 0 runs.\<close>

definition sched0 :: sched where
  "sched0 = \<lparr>sc_ready_queue = [1, 2], sc_current = Some 0,
             sc_tcb = (\<lambda>_. tcb0)(0 := tcb0\<lparr>tcb_status := Running\<rparr>)\<rparr>"

lemma sched0_inv: "sched_inv sched0"
  by (auto simp: sched_inv_def sched0_def tcb0_def split: if_splits)

text \<open>
  C26. Round robin: if the running thread is only ever preempted by the timer, then a thread at
  position \<open>k\<close> of the ready queue (counting from 0) has the processor after \<open>k + 1\<close> time
  slices, the scheduler never shuts the machine down, and its invariant (one \<open>Running\<close> thread among
  those that have not ended, a queue of \<open>Ready\<close> threads without repetition) is kept; no thread ends.
\<close>

theorem round_robin:
  assumes "sched_inv s" "sc_current s = Some t" "k < length (sc_ready_queue s)"
  shows "\<exists>s'. time_slices (Suc k) s = Some (Inr s') \<and> sched_inv s' \<and> sc_current s' = Some (sc_ready_queue s ! k)
    \<and> (\<forall>u. tcb_exit_code (sc_tcb s' u) = tcb_exit_code (sc_tcb s u))"
proof -
  have "rotate (Suc k) (t # sc_ready_queue s) = drop (Suc k) (t # sc_ready_queue s) @ take (Suc k) (t # sc_ready_queue s)"
    using assms(3) by (subst rotate_drop_take) simp
  then have "hd (rotate (Suc k) (t # sc_ready_queue s)) = sc_ready_queue s ! k"
    using assms(3) by (simp add: hd_append hd_drop_conv_nth)
  then show ?thesis using time_slices_rotate [OF assms(1,2) refl, of "Suc k"] by auto
qed

theorem round_robin_witness:
  "\<exists>s'. time_slices 2 sched0 = Some (Inr s') \<and> sched_inv s' \<and> sc_current s' = Some 2"
  using round_robin [OF sched0_inv, of 0 1] by (auto simp: sched0_def numeral_2_eq_2)

end
