(* ===== verification/Sync.thy ===== *)
theory Sync
  imports Scheduler
begin

text \<open>
  The synchronisation primitives of \<open>os/src/sync\<close>. A call that gives up the processor says how it
  continues when the thread runs again: \<open>Retry\<close> is another round of a spinning loop, \<open>Waits\<close> is a
  return to the caller. The \<open>Mutex\<close> trait is a contract, which both implementations meet; mutual
  exclusion is proved from the contract, for all interleavings of the threads that use the mutex.
\<close>

datatype lock_end = Acquired | Retry | Waits

section \<open>Mutexes\<close>

definition MutexSpin_new :: bool where "MutexSpin_new = False"

definition MutexSpin_lock :: "bool \<Rightarrow> 'a sched_scheme \<Rightarrow> (lock_end \<times> bool \<times> 'a sched_scheme) result" where
  "MutexSpin_lock locked s =
     (if locked then rbind (suspend_current s) (\<lambda>s'. Inr (Retry, locked, s'))
      else Inr (Acquired, True, s))"

definition MutexSpin_unlock :: "bool \<Rightarrow> 'a sched_scheme \<Rightarrow> (bool \<times> 'a sched_scheme) result" where
  "MutexSpin_unlock locked s = Inr (False, s)"

record MutexBlockingInner =
  mb_locked :: bool
  mb_waiter_queue :: "nat list"

definition MutexBlocking_new :: MutexBlockingInner where
  "MutexBlocking_new = \<lparr>mb_locked = False, mb_waiter_queue = []\<rparr>"

definition MutexBlocking_lock ::
  "MutexBlockingInner \<Rightarrow> 'a sched_scheme \<Rightarrow> (lock_end \<times> MutexBlockingInner \<times> 'a sched_scheme) result" where
  "MutexBlocking_lock m s =
     (if mb_locked m then
        rbind (current_task s) (\<lambda>t.
        rbind (block_current s) (\<lambda>s'.
        Inr (Waits, m\<lparr>mb_waiter_queue := mb_waiter_queue m @ [t]\<rparr>, s')))
      else Inr (Acquired, m\<lparr>mb_locked := True\<rparr>, s))"

definition MutexBlocking_unlock ::
  "MutexBlockingInner \<Rightarrow> 'a sched_scheme \<Rightarrow> (MutexBlockingInner \<times> 'a sched_scheme) result" where
  "MutexBlocking_unlock m s =
     rbind (rassert (mb_locked m)) (\<lambda>_.
     case mb_waiter_queue m of
       waiter # ws \<Rightarrow> Inr (m\<lparr>mb_waiter_queue := ws\<rparr>, wakeup_task waiter s)
     | [] \<Rightarrow> Inr (m\<lparr>mb_locked := False\<rparr>, s))"

text \<open>\<open>dyn Mutex\<close>.\<close>

datatype Mutex = MutexSpin bool | MutexBlocking MutexBlockingInner

fun Mutex_lock :: "Mutex \<Rightarrow> 'a sched_scheme \<Rightarrow> (lock_end \<times> Mutex \<times> 'a sched_scheme) result" where
  "Mutex_lock (MutexSpin l) s = rbind (MutexSpin_lock l s) (\<lambda>(e, l', s'). Inr (e, MutexSpin l', s'))"
| "Mutex_lock (MutexBlocking m) s = rbind (MutexBlocking_lock m s) (\<lambda>(e, m', s'). Inr (e, MutexBlocking m', s'))"

fun Mutex_unlock :: "Mutex \<Rightarrow> 'a sched_scheme \<Rightarrow> (Mutex \<times> 'a sched_scheme) result" where
  "Mutex_unlock (MutexSpin l) s = rbind (MutexSpin_unlock l s) (\<lambda>(l', s'). Inr (MutexSpin l', s'))"
| "Mutex_unlock (MutexBlocking m) s = rbind (MutexBlocking_unlock m s) (\<lambda>(m', s'). Inr (MutexBlocking m', s'))"

fun Mutex_locked :: "Mutex \<Rightarrow> bool" where
  "Mutex_locked (MutexSpin l) = l"
| "Mutex_locked (MutexBlocking m) = mb_locked m"

fun Mutex_waiters :: "Mutex \<Rightarrow> nat list" where
  "Mutex_waiters (MutexSpin l) = []"
| "Mutex_waiters (MutexBlocking m) = mb_waiter_queue m"

section \<open>Semaphores\<close>

record Semaphore =
  sem_count :: "64 word"
  sem_waiter_queue :: "nat list"

definition Semaphore_new :: "usize \<Rightarrow> Semaphore" where
  "Semaphore_new res_count = \<lparr>sem_count = res_count, sem_waiter_queue = []\<rparr>"

definition Semaphore_up :: "Semaphore \<Rightarrow> 'a sched_scheme \<Rightarrow> Semaphore \<times> 'a sched_scheme" where
  "Semaphore_up sem s =
     (let sem1 = sem\<lparr>sem_count := sem_count sem + 1\<rparr> in
      if sint (sem_count sem1) \<le> 0 then
        (case sem_waiter_queue sem1 of
           task # ws \<Rightarrow> (sem1\<lparr>sem_waiter_queue := ws\<rparr>, wakeup_task task s)
         | [] \<Rightarrow> (sem1, s))
      else (sem1, s))"

definition Semaphore_down :: "Semaphore \<Rightarrow> 'a sched_scheme \<Rightarrow> (lock_end \<times> Semaphore \<times> 'a sched_scheme) result" where
  "Semaphore_down sem s =
     (let sem1 = sem\<lparr>sem_count := sem_count sem - 1\<rparr> in
      if sint (sem_count sem1) < 0 then
        rbind (current_task s) (\<lambda>t.
        rbind (block_current s) (\<lambda>s'.
        Inr (Waits, sem1\<lparr>sem_waiter_queue := sem_waiter_queue sem1 @ [t]\<rparr>, s')))
      else Inr (Acquired, sem1, s))"

section \<open>Condition variables\<close>

type_synonym Condvar = "nat list"

definition Condvar_new :: Condvar where "Condvar_new = []"

definition Condvar_signal :: "Condvar \<Rightarrow> 'a sched_scheme \<Rightarrow> Condvar \<times> 'a sched_scheme" where
  "Condvar_signal waiter_queue s =
     (case waiter_queue of
        task # ws \<Rightarrow> (ws, wakeup_task task s)
      | [] \<Rightarrow> (waiter_queue, s))"

text \<open>\<open>Condvar::wait\<close> up to the moment the thread is blocked; \<open>mutex.lock()\<close> follows when it runs again.\<close>

definition Condvar_wait :: "Condvar \<Rightarrow> Mutex \<Rightarrow> 'a sched_scheme \<Rightarrow> (Condvar \<times> Mutex \<times> 'a sched_scheme) result" where
  "Condvar_wait waiter_queue mutex s =
     rbind (Mutex_unlock mutex s) (\<lambda>(mutex', s1).
     rbind (current_task s1) (\<lambda>t.
     rbind (block_current s1) (\<lambda>s2.
     Inr (waiter_queue @ [t], mutex', s2))))"

section \<open>Threads that share a mutex\<close>

text \<open>
  Where a thread is with respect to one mutex. A thread that waits owns the mutex as soon as it has
  been taken out of the waiter queue, and is back from \<open>lock\<close> when it is dispatched.
\<close>

datatype phase = Outside | Spinning | Waiting | Inside

definition phase_after :: "lock_end \<Rightarrow> phase" where
  "phase_after e = (case e of Acquired \<Rightarrow> Inside | Retry \<Rightarrow> Spinning | Waits \<Rightarrow> Waiting)"

definition resumed :: "phase \<Rightarrow> phase" where
  "resumed p = (if p = Waiting then Inside else p)"

text \<open>
  The runs of a system of threads and one mutex: any thread may lock it when it is outside and
  unlock it when it is inside, may be preempted, may block and be woken up for other reasons.
\<close>

inductive mutex_run ::
  "('m \<Rightarrow> sched \<Rightarrow> (lock_end \<times> 'm \<times> sched) result) \<Rightarrow> ('m \<Rightarrow> sched \<Rightarrow> ('m \<times> sched) result) \<Rightarrow> 'm
    \<Rightarrow> 'm \<Rightarrow> sched \<Rightarrow> (nat \<Rightarrow> phase) \<Rightarrow> bool"
  for lock unlock m0 where
  start: "sched_inv s \<Longrightarrow> mutex_run lock unlock m0 m0 s (\<lambda>_. Outside)"
| lock: "mutex_run lock unlock m0 m s ph \<Longrightarrow> sc_current s = Some t \<Longrightarrow> ph t = Outside \<or> ph t = Spinning
    \<Longrightarrow> lock m s = Inr (e, m', s') \<Longrightarrow> mutex_run lock unlock m0 m' s' (ph(t := phase_after e))"
| unlock: "mutex_run lock unlock m0 m s ph \<Longrightarrow> sc_current s = Some t \<Longrightarrow> ph t = Inside
    \<Longrightarrow> unlock m s = Inr (m', s') \<Longrightarrow> mutex_run lock unlock m0 m' s' (ph(t := Outside))"
| preempt: "mutex_run lock unlock m0 m s ph \<Longrightarrow> suspend_current s = Inr s' \<Longrightarrow> mutex_run lock unlock m0 m s' ph"
| block: "mutex_run lock unlock m0 m s ph \<Longrightarrow> block_current s = Inr s' \<Longrightarrow> mutex_run lock unlock m0 m s' ph"
| wake: "mutex_run lock unlock m0 m s ph \<Longrightarrow> status s t = Blocked \<Longrightarrow> ph t \<noteq> Waiting
    \<Longrightarrow> mutex_run lock unlock m0 m (wakeup_task t s) ph"
| dispatch: "mutex_run lock unlock m0 m s ph \<Longrightarrow> sc_current s = None \<Longrightarrow> run_tasks_iter s = Dispatched s'
    \<Longrightarrow> sc_current s' = Some t \<Longrightarrow> mutex_run lock unlock m0 m s' (ph(t := resumed (ph t)))"

section \<open>The contract of the \<open>Mutex\<close> trait\<close>

locale mutex_contract =
  fixes lock :: "'m \<Rightarrow> sched \<Rightarrow> (lock_end \<times> 'm \<times> sched) result"
    and unlock :: "'m \<Rightarrow> sched \<Rightarrow> ('m \<times> sched) result"
    and locked :: "'m \<Rightarrow> bool"
    and waiters :: "'m \<Rightarrow> nat list"
  assumes lock_free: "\<not> locked m \<Longrightarrow> \<exists>m'. lock m s = Inr (Acquired, m', s) \<and> locked m' \<and> waiters m' = waiters m"
    and lock_held: "locked m \<Longrightarrow> sc_current s = Some t \<Longrightarrow> \<exists>m' s'.
        (lock m s = Inr (Retry, m', s') \<and> waiters m' = waiters m \<and> suspend_current s = Inr s'
         \<or> lock m s = Inr (Waits, m', s') \<and> waiters m' = waiters m @ [t] \<and> block_current s = Inr s')
        \<and> locked m'"
    and unlock_idle: "locked m \<Longrightarrow> waiters m = [] \<Longrightarrow>
        \<exists>m'. unlock m s = Inr (m', s) \<and> \<not> locked m' \<and> waiters m' = []"
    and unlock_next: "locked m \<Longrightarrow> waiters m = t # ts \<Longrightarrow>
        \<exists>m'. unlock m s = Inr (m', wakeup_task t s) \<and> locked m' \<and> waiters m' = ts"
begin

text \<open>The threads that own the mutex: inside, or handed the mutex and not yet dispatched.\<close>

definition owners :: "'m \<Rightarrow> (nat \<Rightarrow> phase) \<Rightarrow> nat set" where
  "owners m ph = {t. ph t = Inside \<or> ph t = Waiting \<and> t \<notin> set (waiters m)}"

definition mutex_inv :: "'m \<Rightarrow> sched \<Rightarrow> (nat \<Rightarrow> phase) \<Rightarrow> bool" where
  "mutex_inv m s ph \<longleftrightarrow> sched_inv s \<and> distinct (waiters m)
     \<and> (\<forall>t \<in> set (waiters m). ph t = Waiting \<and> status s t = Blocked)
     \<and> (if locked m then \<exists>h. owners m ph = {h} else owners m ph = {} \<and> waiters m = [])
     \<and> (\<forall>t. ph t = Waiting \<longrightarrow> t \<notin> set (waiters m) \<longrightarrow> t \<in> set (sc_ready_queue s))"

lemma inv_sched: "mutex_inv m s ph \<Longrightarrow> sched_inv s"
  by (simp add: mutex_inv_def)

text \<open>The running thread does not wait.\<close>

lemma inv_current:
  assumes "mutex_inv m s ph" "sc_current s = Some t"
  shows "ph t \<noteq> Waiting" "t \<notin> set (waiters m)"
proof -
  have st: "status s t = Running" "t \<notin> set (sc_ready_queue s)"
    using sched_invD(3,5) [OF inv_sched [OF assms(1)] assms(2)] by auto
  then show "t \<notin> set (waiters m)" using assms(1) by (auto simp: mutex_inv_def)
  then show "ph t \<noteq> Waiting" using assms(1) st by (auto simp: mutex_inv_def)
qed

text \<open>A step of the scheduler that no waiting thread notices.\<close>

lemma inv_sched_step:
  assumes inv: "mutex_inv m s ph" and s': "sched_inv s'"
    and st: "\<And>t. t \<in> set (waiters m) \<Longrightarrow> status s' t = Blocked"
    and q: "\<And>t. ph t = Waiting \<Longrightarrow> t \<in> set (sc_ready_queue s) \<Longrightarrow> t \<in> set (sc_ready_queue s')"
  shows "mutex_inv m s' ph"
  using assms unfolding mutex_inv_def by blast

lemma inv_suspend:
  assumes "mutex_inv m s ph" "suspend_current s = Inr s'"
  shows "mutex_inv m s' ph"
  using assms(2) inv_current(2) [OF assms(1)] assms(1)
  by (intro inv_sched_step [OF assms(1) sched_inv_suspend [OF inv_sched [OF assms(1)] assms(2)]])
    (auto simp: mutex_inv_def)

lemma inv_block:
  assumes "mutex_inv m s ph" "block_current s = Inr s'"
  shows "mutex_inv m s' ph"
  using assms(2) inv_current(2) [OF assms(1)] assms(1)
  by (intro inv_sched_step [OF assms(1) sched_inv_block [OF inv_sched [OF assms(1)] assms(2)]])
    (auto simp: mutex_inv_def)

lemma inv_wake:
  assumes "mutex_inv m s ph" "status s t = Blocked" "ph t \<noteq> Waiting"
  shows "mutex_inv m (wakeup_task t s) ph"
  using assms by (intro inv_sched_step [OF assms(1) sched_inv_wakeup [OF inv_sched [OF assms(1)] assms(2)]])
    (auto simp: mutex_inv_def)

lemma inv_lock:
  assumes inv: "mutex_inv m s ph" and t: "sc_current s = Some t" and ph: "ph t = Outside \<or> ph t = Spinning"
    and step: "lock m s = Inr (e, m', s')"
  shows "mutex_inv m' s' (ph(t := phase_after e))"
proof -
  have tw: "ph t \<noteq> Waiting" "t \<notin> set (waiters m)" using inv_current [OF inv t] by auto
  show ?thesis
  proof (cases "locked m")
    case False
    then have "owners m ph = {}" "waiters m = []" using inv by (auto simp: mutex_inv_def)
    moreover obtain m1 where "lock m s = Inr (Acquired, m1, s)" "locked m1" "waiters m1 = waiters m"
      using lock_free [OF False] by blast
    ultimately have "owners m' (ph(t := phase_after e)) = {t}" "locked m'" "waiters m' = []" "s' = s"
      and "phase_after e = Inside"
      using step by (auto simp: owners_def phase_after_def)
    then show ?thesis using inv \<open>waiters m = []\<close> by (auto simp: mutex_inv_def)
  next
    case True
    then obtain h where h: "owners m ph = {h}" using inv by (auto simp: mutex_inv_def)
    consider (retry) "e = Retry" "waiters m' = waiters m" "suspend_current s = Inr s'" "locked m'"
      | (waits) "e = Waits" "waiters m' = waiters m @ [t]" "block_current s = Inr s'" "locked m'"
      using lock_held [OF True t] step by auto
    then show ?thesis
    proof cases
      case retry
      have "owners m' (ph(t := Spinning)) = owners m ph"
        using ph retry(2) by (auto simp: owners_def)
      then show ?thesis
        using inv_suspend [OF inv retry(3)] retry h tw ph
        by (auto simp: mutex_inv_def phase_after_def)
    next
      case waits
      have "owners m' (ph(t := Waiting)) = owners m ph"
        using ph waits(2) by (auto simp: owners_def)
      then show ?thesis
        using inv_block [OF inv waits(3)] waits h tw t by (auto simp: mutex_inv_def phase_after_def)
    qed
  qed
qed

lemma owner_locked:
  assumes "mutex_inv m s ph" "t \<in> owners m ph"
  shows "locked m" "owners m ph = {t}"
  using assms by (auto simp: mutex_inv_def split: if_splits)

lemma inv_unlock:
  assumes inv: "mutex_inv m s ph" and t: "sc_current s = Some t" and ph: "ph t = Inside"
    and step: "unlock m s = Inr (m', s')"
  shows "mutex_inv m' s' (ph(t := Outside))"
proof -
  have own: "t \<in> owners m ph" using ph by (simp add: owners_def)
  note lk = owner_locked [OF inv own]
  show ?thesis
  proof (cases "waiters m")
    case Nil
    then have m': "s' = s" "\<not> locked m'" "waiters m' = []" using unlock_idle [OF lk(1) Nil, of s] step by auto
    have "owners m' (ph(t := Outside)) = owners m ph - {t}" using Nil m'(3) by (auto simp: owners_def)
    then show ?thesis using inv m' lk(2) Nil by (auto simp: mutex_inv_def)
  next
    case (Cons u ts)
    then have m': "s' = wakeup_task u s" "locked m'" "waiters m' = ts"
      using unlock_next [OF lk(1) Cons, of s] step by auto
    have u: "ph u = Waiting" "status s u = Blocked" "u \<notin> set ts" "u \<noteq> t"
      using inv Cons ph by (auto simp: mutex_inv_def)
    have "owners m' (ph(t := Outside)) = (owners m ph - {t}) \<union> {u}"
      using u Cons m'(3) by (auto simp: owners_def)
    then have "owners m' (ph(t := Outside)) = {u}" using lk(2) by simp
    moreover have "sched_inv s'" unfolding m'(1) by (rule sched_inv_wakeup [OF inv_sched [OF inv] u(2)])
    ultimately show ?thesis using inv m' u Cons ph by (auto simp: mutex_inv_def)
  qed
qed

lemma inv_dispatch:
  assumes inv: "mutex_inv m s ph" and none: "sc_current s = None"
    and step: "run_tasks_iter s = Dispatched s'" and t: "sc_current s' = Some t"
  shows "mutex_inv m s' (ph(t := resumed (ph t)))"
proof -
  obtain ts where q: "sc_ready_queue s = t # ts"
    and s': "s' = (set_status t Running (s\<lparr>sc_ready_queue := ts\<rparr>))\<lparr>sc_current := Some t\<rparr>"
    using step t by auto
  have "status s t = Ready" using sched_invD(2) [OF inv_sched [OF inv]] q by simp
  then have tw: "t \<notin> set (waiters m)" using inv by (auto simp: mutex_inv_def)
  then have "owners m (ph(t := resumed (ph t))) = owners m ph"
    by (auto simp: owners_def resumed_def)
  moreover have "sched_inv s'" by (rule sched_inv_dispatch [OF inv_sched [OF inv] none step])
  ultimately show ?thesis using inv tw q unfolding mutex_inv_def by (auto simp: s' resumed_def)
qed

lemma run_inv:
  assumes "mutex_run lock unlock m0 m s ph" "\<not> locked m0" "waiters m0 = []"
  shows "mutex_inv m s ph"
  using assms(1)
proof induction
  case (start s)
  then show ?case using assms(2,3) by (simp add: mutex_inv_def owners_def)
qed (blast intro: inv_lock inv_unlock inv_suspend inv_block inv_wake inv_dispatch)+

theorem mutual_exclusion:
  assumes "mutex_run lock unlock m0 m s ph" "\<not> locked m0" "waiters m0 = []" "ph t = Inside" "ph u = Inside"
  shows "t = u"
  using owner_locked(2) [OF run_inv [OF assms(1-3)], of t] assms(4,5) by (auto simp: owners_def)

text \<open>A thread waits only while some other thread owns the mutex.\<close>

theorem waiting_has_owner:
  assumes "mutex_run lock unlock m0 m s ph" "\<not> locked m0" "waiters m0 = []" "t \<in> set (waiters m)"
  shows "\<exists>h. owners m ph = {h} \<and> h \<noteq> t"
proof -
  note inv = run_inv [OF assms(1-3)]
  have "locked m" using inv assms(4) by (auto simp: mutex_inv_def split: if_splits)
  then obtain h where h: "owners m ph = {h}" using inv by (auto simp: mutex_inv_def)
  moreover have "t \<notin> owners m ph" using inv assms(4) by (auto simp: mutex_inv_def owners_def)
  ultimately show ?thesis by auto
qed

text \<open>No step of a run panics: \<open>lock\<close> and \<open>unlock\<close> return whenever the run may call them.\<close>

theorem lock_returns:
  assumes "sc_current s = Some t"
  shows "\<exists>r. lock m s = Inr r"
  using lock_free [of m s] lock_held [of m s t] assms by (cases "locked m") blast+

theorem unlock_returns:
  assumes "mutex_run lock unlock m0 m s ph" "\<not> locked m0" "waiters m0 = []" "ph t = Inside"
  shows "\<exists>r. unlock m s = Inr r"
proof -
  have "locked m" using owner_locked(1) [OF run_inv [OF assms(1-3)], of t] assms(4) by (simp add: owners_def)
  then show ?thesis using unlock_idle [of m s] unlock_next [of m _ _ s] by (cases "waiters m") blast+
qed

end

interpretation spin: mutex_contract MutexSpin_lock MutexSpin_unlock "\<lambda>l. l" "\<lambda>_. []"
  by unfold_locales (auto simp: MutexSpin_lock_def MutexSpin_unlock_def)

interpretation blocking: mutex_contract MutexBlocking_lock MutexBlocking_unlock mb_locked mb_waiter_queue
  by unfold_locales (auto simp: MutexBlocking_lock_def MutexBlocking_unlock_def current_task_def)

interpretation dyn: mutex_contract Mutex_lock Mutex_unlock Mutex_locked Mutex_waiters
proof
  fix m s t ts
  show "\<not> Mutex_locked m \<Longrightarrow> \<exists>m'. Mutex_lock m s = Inr (Acquired, m', s) \<and> Mutex_locked m' \<and> Mutex_waiters m' = Mutex_waiters m"
    by (cases m) (auto simp: MutexSpin_lock_def MutexBlocking_lock_def)
  show "Mutex_locked m \<Longrightarrow> sc_current s = Some t \<Longrightarrow> \<exists>m' s'.
        (Mutex_lock m s = Inr (Retry, m', s') \<and> Mutex_waiters m' = Mutex_waiters m \<and> suspend_current s = Inr s'
         \<or> Mutex_lock m s = Inr (Waits, m', s') \<and> Mutex_waiters m' = Mutex_waiters m @ [t] \<and> block_current s = Inr s')
        \<and> Mutex_locked m'"
    by (cases m) (auto simp: MutexSpin_lock_def MutexBlocking_lock_def current_task_def)
  show "Mutex_locked m \<Longrightarrow> Mutex_waiters m = [] \<Longrightarrow>
        \<exists>m'. Mutex_unlock m s = Inr (m', s) \<and> \<not> Mutex_locked m' \<and> Mutex_waiters m' = []"
    by (cases m) (auto simp: MutexSpin_unlock_def MutexBlocking_unlock_def)
  show "Mutex_locked m \<Longrightarrow> Mutex_waiters m = t # ts \<Longrightarrow>
        \<exists>m'. Mutex_unlock m s = Inr (m', wakeup_task t s) \<and> Mutex_locked m' \<and> Mutex_waiters m' = ts"
    by (cases m) (auto simp: MutexSpin_unlock_def MutexBlocking_unlock_def)
qed

section \<open>Threads that share a semaphore\<close>

text \<open>
  The runs of a system of threads and one semaphore: the running thread may call \<open>down\<close> or \<open>up\<close> at any
  time, whether or not it has called the other one before; it may be preempted, may block and be woken
  up for other reasons. \<open>W\<close> is the set of threads that are blocked inside \<open>down\<close> or woken up and not yet
  back from it, \<open>ups\<close> counts the calls of \<open>up\<close> and \<open>downs\<close> the calls of \<open>down\<close> that have returned. The
  threads that call \<open>down\<close> are those of the finite set \<open>T\<close>.
\<close>

inductive sem_run :: "nat set \<Rightarrow> Semaphore \<Rightarrow> Semaphore \<Rightarrow> sched \<Rightarrow> nat set \<Rightarrow> nat \<Rightarrow> nat \<Rightarrow> bool" for T sem0 where
  start: "sched_inv s \<Longrightarrow> sem_run T sem0 sem0 s {} 0 0"
| down: "sem_run T sem0 sem s W ups downs \<Longrightarrow> sc_current s = Some t \<Longrightarrow> t \<in> T
    \<Longrightarrow> Semaphore_down sem s = Inr (e, sem', s')
    \<Longrightarrow> sem_run T sem0 sem' s' (if e = Acquired then W else insert t W) ups (if e = Acquired then Suc downs else downs)"
| up: "sem_run T sem0 sem s W ups downs \<Longrightarrow> sc_current s = Some t
    \<Longrightarrow> Semaphore_up sem s = (sem', s') \<Longrightarrow> sem_run T sem0 sem' s' W (Suc ups) downs"
| preempt: "sem_run T sem0 sem s W ups downs \<Longrightarrow> suspend_current s = Inr s' \<Longrightarrow> sem_run T sem0 sem s' W ups downs"
| block: "sem_run T sem0 sem s W ups downs \<Longrightarrow> block_current s = Inr s' \<Longrightarrow> sem_run T sem0 sem s' W ups downs"
| wake: "sem_run T sem0 sem s W ups downs \<Longrightarrow> status s t = Blocked \<Longrightarrow> t \<notin> W
    \<Longrightarrow> sem_run T sem0 sem (wakeup_task t s) W ups downs"
| dispatch: "sem_run T sem0 sem s W ups downs \<Longrightarrow> sc_current s = None \<Longrightarrow> run_tasks_iter s = Dispatched s'
    \<Longrightarrow> sc_current s' = Some t \<Longrightarrow> sem_run T sem0 sem s' (W - {t}) ups (if t \<in> W then Suc downs else downs)"

text \<open>The threads that have been let through and are not yet back from \<open>down\<close>.\<close>

definition passing :: "Semaphore \<Rightarrow> nat set \<Rightarrow> nat set" where
  "passing sem W = W - set (sem_waiter_queue sem)"

text \<open>
  With \<open>N\<close> permits given in total, \<open>downs\<close> taken and as many about to be taken as there are threads
  passing, the counter is the number of permits left, minus the number of waiting threads.
\<close>

definition sem_inv :: "nat set \<Rightarrow> nat \<Rightarrow> Semaphore \<Rightarrow> sched \<Rightarrow> nat set \<Rightarrow> nat \<Rightarrow> bool" where
  "sem_inv T N sem s W downs \<longleftrightarrow> sched_inv s \<and> distinct (sem_waiter_queue sem) \<and> W \<subseteq> T
     \<and> (\<forall>t \<in> set (sem_waiter_queue sem). t \<in> W \<and> status s t = Blocked)
     \<and> (\<forall>t \<in> passing sem W. t \<in> set (sc_ready_queue s))
     \<and> sint (sem_count sem) = int N - int (downs + card (passing sem W)) - int (length (sem_waiter_queue sem))
     \<and> (sem_waiter_queue sem \<noteq> [] \<longrightarrow> downs + card (passing sem W) = N) \<and> downs + card (passing sem W) \<le> N"

lemma sem_inv_sched: "sem_inv T N sem s W downs \<Longrightarrow> sched_inv s"
  by (simp add: sem_inv_def)

lemma sem_inv_current:
  assumes "sem_inv T N sem s W downs" "sc_current s = Some t"
  shows "t \<notin> W" "t \<notin> set (sem_waiter_queue sem)"
proof -
  have st: "status s t = Running" "t \<notin> set (sc_ready_queue s)"
    using sched_invD(3,5) [OF sem_inv_sched [OF assms(1)] assms(2)] by auto
  then show "t \<notin> set (sem_waiter_queue sem)" using assms(1) by (auto simp: sem_inv_def)
  then show "t \<notin> W" using assms(1) st by (auto simp: sem_inv_def passing_def)
qed

lemma sem_inv_sched_step:
  assumes "sem_inv T N sem s W downs" "sched_inv s'"
    "\<And>t. t \<in> set (sem_waiter_queue sem) \<Longrightarrow> status s' t = Blocked"
    "\<And>t. t \<in> W \<Longrightarrow> t \<in> set (sc_ready_queue s) \<Longrightarrow> t \<in> set (sc_ready_queue s')"
  shows "sem_inv T N sem s' W downs"
  using assms unfolding sem_inv_def passing_def by blast

lemma sem_inv_suspend:
  assumes "sem_inv T N sem s W downs" "suspend_current s = Inr s'"
  shows "sem_inv T N sem s' W downs"
  using assms(2) sem_inv_current(2) [OF assms(1)] assms(1)
  by (intro sem_inv_sched_step [OF assms(1) sched_inv_suspend [OF sem_inv_sched [OF assms(1)] assms(2)]])
    (auto simp: sem_inv_def)

lemma sem_inv_block:
  assumes "sem_inv T N sem s W downs" "block_current s = Inr s'"
  shows "sem_inv T N sem s' W downs"
  using assms(2) sem_inv_current(2) [OF assms(1)] assms(1)
  by (intro sem_inv_sched_step [OF assms(1) sched_inv_block [OF sem_inv_sched [OF assms(1)] assms(2)]])
    (auto simp: sem_inv_def)

lemma sem_inv_wake:
  assumes "sem_inv T N sem s W downs" "status s t = Blocked" "t \<notin> W"
  shows "sem_inv T N sem (wakeup_task t s) W downs"
  using assms by (intro sem_inv_sched_step [OF assms(1) sched_inv_wakeup [OF sem_inv_sched [OF assms(1)] assms(2)]])
    (auto simp: sem_inv_def)

lemma sint_dec: "- (2 ^ 62) \<le> sint (c :: 64 word) \<Longrightarrow> sint (c - 1) = sint c - 1"
  using sint_lt [of c] by (subst sint_word_ariths, subst signed_take_bit_int_eq_self) simp_all

lemma sint_inc: "sint (c :: 64 word) < 2 ^ 62 \<Longrightarrow> sint (c + 1) = sint c + 1"
  using sint_ge [of c] by (subst sint_word_ariths, subst signed_take_bit_int_eq_self) simp_all

lemma sint_unat:
  fixes n :: "64 word"
  assumes "unat n < 2 ^ 61"
  shows "sint n = int (unat n)"
proof -
  have "int (unat n) < 2 ^ 61" using assms by (metis of_nat_less_iff of_nat_numeral of_nat_power)
  then have "uint n < 2 ^ 61" by simp
  moreover have "- (2 ^ 63) \<le> uint n" by (rule order_trans [OF _ uint_ge_0]) simp
  ultimately have "sint n = uint n" unfolding sint_uint by (subst signed_take_bit_int_eq_self) simp_all
  then show ?thesis by simp
qed

lemma sem_bounds:
  assumes "sem_inv T N sem s W downs" "finite T" "card T < 2 ^ 61" "N < 2 ^ 62"
  shows "finite (passing sem W)" "- (2 ^ 62) \<le> sint (sem_count sem)" "sint (sem_count sem) \<le> int N"
proof -
  have sub: "passing sem W \<subseteq> T" "set (sem_waiter_queue sem) \<subseteq> T"
    using assms(1) by (auto simp: sem_inv_def passing_def)
  then show fin: "finite (passing sem W)" using assms(2) finite_subset by blast
  have "length (sem_waiter_queue sem) \<le> card T"
    using sub(2) assms(1,2) by (metis card_mono distinct_card sem_inv_def)
  then show "- (2 ^ 62) \<le> sint (sem_count sem)" "sint (sem_count sem) \<le> int N"
    using assms(1,3) by (auto simp: sem_inv_def)
qed

lemma sem_inv_down:
  assumes inv: "sem_inv T N sem s W downs" and T: "finite T" "card T < 2 ^ 61" "N < 2 ^ 62" "t \<in> T"
    and t: "sc_current s = Some t" and step: "Semaphore_down sem s = Inr (e, sem', s')"
  shows "sem_inv T N sem' s' (if e = Acquired then W else insert t W) (if e = Acquired then Suc downs else downs)"
proof -
  note b = sem_bounds [OF inv T(1-3)]
  have tw: "t \<notin> W" "t \<notin> set (sem_waiter_queue sem)" using sem_inv_current [OF inv t] by auto
  have c': "sint (sem_count sem - 1) = sint (sem_count sem) - 1" by (rule sint_dec [OF b(2)])
  show ?thesis
  proof (cases "sint (sem_count sem) \<le> 0")
    case True
    then have e: "e = Waits" "block_current s = Inr s'"
      "sem' = sem\<lparr>sem_count := sem_count sem - 1, sem_waiter_queue := sem_waiter_queue sem @ [t]\<rparr>"
      using step t c' by (auto simp: Semaphore_down_def Let_def current_task_def)
    have N: "downs + card (passing sem W) = N" using inv True by (auto simp: sem_inv_def)
    have "passing sem' (insert t W) = passing sem W" using e(3) tw by (auto simp: passing_def)
    then show ?thesis
      using sem_inv_block [OF inv e(2)] e t tw c' N T(4) by (auto simp: sem_inv_def)
  next
    case False
    then have e: "e = Acquired" "s' = s" "sem' = sem\<lparr>sem_count := sem_count sem - 1\<rparr>"
      using step c' by (auto simp: Semaphore_down_def Let_def)
    have "sem_waiter_queue sem = []" using inv False by (auto simp: sem_inv_def)
    moreover have "passing sem' W = passing sem W" using e(3) by (simp add: passing_def)
    ultimately show ?thesis using inv e c' False by (auto simp: sem_inv_def)
  qed
qed

lemma sem_inv_up:
  assumes inv: "sem_inv T N sem s W downs" and T: "finite T" "card T < 2 ^ 61" "Suc N < 2 ^ 62"
    and t: "sc_current s = Some t" and step: "Semaphore_up sem s = (sem', s')"
  shows "sem_inv T (Suc N) sem' s' W downs"
proof -
  have N: "N < 2 ^ 62" using T(3) by simp
  note b = sem_bounds [OF inv T(1,2) N]
  have "int N < 2 ^ 62" using N by (metis of_nat_less_iff of_nat_numeral of_nat_power)
  then have c': "sint (sem_count sem + 1) = sint (sem_count sem) + 1" using b(3) by (intro sint_inc) simp
  show ?thesis
  proof (cases "sem_waiter_queue sem")
    case Nil
    then have "0 < sint (sem_count sem) + 1" using inv by (simp add: sem_inv_def)
    then have e: "sem' = sem\<lparr>sem_count := sem_count sem + 1\<rparr>" "s' = s"
      using step c' by (simp_all add: Semaphore_up_def Let_def)
    have "passing sem' W = passing sem W" using e by (simp add: passing_def)
    then show ?thesis using inv e c' Nil by (auto simp: sem_inv_def)
  next
    case (Cons u ws)
    then have "sint (sem_count sem) + 1 \<le> 0" using inv by (simp add: sem_inv_def)
    then have e: "sem' = sem\<lparr>sem_count := sem_count sem + 1, sem_waiter_queue := ws\<rparr>" "s' = wakeup_task u s"
      using step c' Cons by (simp_all add: Semaphore_up_def Let_def)
    have u: "u \<in> W" "status s u = Blocked" "u \<notin> set ws" using inv Cons by (auto simp: sem_inv_def)
    have p: "passing sem' W = insert u (passing sem W)" using u Cons e by (auto simp: passing_def)
    moreover have "u \<notin> passing sem W" using Cons by (simp add: passing_def)
    ultimately have "card (passing sem' W) = Suc (card (passing sem W))" using b(1) by simp
    moreover have "sched_inv s'" unfolding e by (rule sched_inv_wakeup [OF sem_inv_sched [OF inv] u(2)])
    ultimately show ?thesis using inv e c' u Cons p by (auto simp: sem_inv_def)
  qed
qed

lemma sem_inv_dispatch:
  assumes inv: "sem_inv T N sem s W downs" and T: "finite T" and none: "sc_current s = None"
    and step: "run_tasks_iter s = Dispatched s'" and t: "sc_current s' = Some t"
  shows "sem_inv T N sem s' (W - {t}) (if t \<in> W then Suc downs else downs)"
proof -
  obtain ts where q: "sc_ready_queue s = t # ts"
    and s': "s' = (set_status t Running (s\<lparr>sc_ready_queue := ts\<rparr>))\<lparr>sc_current := Some t\<rparr>"
    using step t by auto
  have "status s t = Ready" using sched_invD(2) [OF sem_inv_sched [OF inv]] q by simp
  then have tw: "t \<notin> set (sem_waiter_queue sem)" using inv by (auto simp: sem_inv_def)
  have fin: "finite (passing sem W)" using inv T finite_subset by (auto simp: sem_inv_def passing_def)
  have p: "passing sem (W - {t}) = passing sem W - {t}" by (auto simp: passing_def)
  have "(if t \<in> W then Suc downs else downs) + card (passing sem (W - {t})) = downs + card (passing sem W)"
  proof (cases "t \<in> W")
    case True
    then have "t \<in> passing sem W" using tw by (simp add: passing_def)
    then have "0 < card (passing sem W)" "card (passing sem W - {t}) = card (passing sem W) - 1" using fin by (auto simp: card_gt_0_iff)
    then show ?thesis using True p by simp
  qed (simp add: passing_def)
  moreover have "sched_inv s'" by (rule sched_inv_dispatch [OF sem_inv_sched [OF inv] none step])
  ultimately show ?thesis using inv tw q p unfolding sem_inv_def by (auto simp: s')
qed

lemma sem_run_inv:
  assumes "sem_run T (Semaphore_new n) sem s W ups downs" "finite T" "card T < 2 ^ 61" "unat n + ups < 2 ^ 61"
  shows "sem_inv T (unat n + ups) sem s W downs"
  using assms(1,4)
proof induction
  case (start s)
  have "sint n = int (unat n)" using start.prems by (intro sint_unat) simp
  then show ?case using start.hyps by (simp add: sem_inv_def Semaphore_new_def passing_def)
next
  case (down sem s W ups downs t e sem' s')
  have "sem_inv T (unat n + ups) sem s W downs" "unat n + ups < 2 ^ 62" using down by simp_all
  then show ?case using sem_inv_down assms(2,3) down.hyps by blast
next
  case (up sem s W ups downs t sem' s')
  have "sem_inv T (unat n + ups) sem s W downs" using up by simp
  then show ?case using sem_inv_up [OF _ assms(2,3) _ up.hyps(2,3)] up.prems by simp
next
  case (preempt sem s W ups downs s')
  then show ?case using sem_inv_suspend by blast
next
  case (block sem s W ups downs s')
  then show ?case using sem_inv_block by blast
next
  case (wake sem s W ups downs t)
  then show ?case using sem_inv_wake by blast
next
  case (dispatch sem s W ups downs s' t)
  then show ?case using sem_inv_dispatch assms(2) by blast
qed

section \<open>Properties\<close>

text \<open>
  C7. Mutual exclusion: for every mutex a process can create, spinning or blocking, and for every
  interleaving of threads that lock and unlock it, are preempted, block and are woken up, two threads
  are never inside at the same time.
\<close>

theorem mutex_mutual_exclusion:
  assumes "mutex_run Mutex_lock Mutex_unlock m0 m s ph"
    "m0 = MutexSpin MutexSpin_new \<or> m0 = MutexBlocking MutexBlocking_new" "ph t = Inside" "ph u = Inside"
  shows "t = u"
  using assms(2) by (intro dyn.mutual_exclusion [OF assms(1) _ _ assms(3,4)])
    (auto simp: MutexSpin_new_def MutexBlocking_new_def)

text \<open>A run in which thread 0 takes the mutex, thread 1 queues up and thread 0 hands the mutex over.\<close>

definition sched1 :: sched where
  "sched1 = \<lparr>sc_ready_queue = [1], sc_current = Some 0, sc_tcb = (\<lambda>_. tcb0)(0 := tcb0\<lparr>tcb_status := Running\<rparr>)\<rparr>"

lemma sched1_inv: "sched_inv sched1"
  by (auto simp: sched_inv_def sched1_def tcb0_def)

lemma mutex_run0:
  "\<exists>m s. mutex_run Mutex_lock Mutex_unlock (MutexBlocking MutexBlocking_new) m s ((\<lambda>_. Outside)(0 := Inside))"
proof -
  have "mutex_run Mutex_lock Mutex_unlock (MutexBlocking MutexBlocking_new)
      (MutexBlocking \<lparr>mb_locked = True, mb_waiter_queue = []\<rparr>) sched1 ((\<lambda>_. Outside)(0 := phase_after Acquired))"
    by (rule mutex_run.lock [OF mutex_run.start [OF sched1_inv]])
      (simp_all add: sched1_def MutexBlocking_lock_def MutexBlocking_new_def)
  then show ?thesis by (auto simp: phase_after_def)
qed

theorem mutex_mutual_exclusion_witness:
  "\<exists>m s ph. mutex_run Mutex_lock Mutex_unlock (MutexBlocking MutexBlocking_new) m s ph
     \<and> ph 0 = Inside \<and> (\<forall>t. ph t = Inside \<longrightarrow> t = 0)"
proof -
  obtain m s where run: "mutex_run Mutex_lock Mutex_unlock (MutexBlocking MutexBlocking_new) m s ((\<lambda>_. Outside)(0 := Inside))"
    using mutex_run0 by blast
  show ?thesis
  proof (intro exI conjI allI impI)
    show "mutex_run Mutex_lock Mutex_unlock (MutexBlocking MutexBlocking_new) m s ((\<lambda>_. Outside)(0 := Inside))"
      by (rule run)
    fix t :: nat
    assume t: "((\<lambda>_. Outside)(0 := Inside)) t = Inside"
    show "t = 0" by (rule mutex_mutual_exclusion [OF run _ t]) (rule disjI2, rule refl, simp)
  qed simp
qed

text \<open>
  C27. A semaphore created with \<open>n\<close> permits counts permits, whoever calls \<open>up\<close>: in every run of any
  number of threads that call \<open>down\<close> and \<open>up\<close> in any order, at most \<open>n\<close> plus the number of \<open>up\<close>s calls
  of \<open>down\<close> have returned; a thread is kept waiting only while all these permits are taken, by calls
  that have returned or by threads that are woken up and about to return, and those are all in the
  ready queue. The signed 64-bit counter is the number of permits left minus the number of waiting
  threads and does not overflow. This holds as long as fewer than \<open>2 ^ 61\<close> permits are given in total
  (\<open>n\<close> plus the calls of \<open>up\<close>) and fewer than \<open>2 ^ 61\<close> threads call \<open>down\<close>.
\<close>

theorem semaphore_permits:
  assumes "sem_run T (Semaphore_new n) sem s W ups downs" "finite T" "card T < 2 ^ 61" "unat n + ups < 2 ^ 61"
  shows "downs + card (passing sem W) \<le> unat n + ups
    \<and> (sem_waiter_queue sem \<noteq> [] \<longrightarrow> downs + card (passing sem W) = unat n + ups)
    \<and> (\<forall>t \<in> passing sem W. t \<in> set (sc_ready_queue s) \<and> status s t = Ready)
    \<and> (\<forall>t \<in> set (sem_waiter_queue sem). status s t = Blocked)
    \<and> sint (sem_count sem) = int (unat n + ups) - int (downs + card (passing sem W)) - int (length (sem_waiter_queue sem))"
proof -
  note inv = sem_run_inv [OF assms]
  have "\<forall>t \<in> passing sem W. t \<in> set (sc_ready_queue s)" using inv by (simp add: sem_inv_def)
  then have "\<forall>t \<in> passing sem W. t \<in> set (sc_ready_queue s) \<and> status s t = Ready"
    using sched_invD(2) [OF sem_inv_sched [OF inv]] by blast
  then show ?thesis using inv by (simp add: sem_inv_def)
qed

text \<open>A semaphore without permits: thread 0 waits in \<open>down\<close> until thread 1, which has not called \<open>down\<close>, calls \<open>up\<close>.\<close>

lemma sem_run0: "\<exists>sem s. sem_run {0, 1} (Semaphore_new 0) sem s {0} 1 0 \<and> sem_waiter_queue sem = []"
proof -
  let ?s1 = "set_status 0 Blocked (sched1\<lparr>sc_current := None\<rparr>)"
  let ?s2 = "(set_status 1 Running (?s1\<lparr>sc_ready_queue := []\<rparr>))\<lparr>sc_current := Some 1\<rparr>"
  have "sem_run {0, 1} (Semaphore_new 0) \<lparr>sem_count = - 1, sem_waiter_queue = [0]\<rparr> ?s1 (if Waits = Acquired then {} else insert 0 {}) 0
      (if Waits = Acquired then Suc 0 else 0)"
    by (rule sem_run.down [OF sem_run.start [OF sched1_inv]])
      (simp_all add: sched1_def Semaphore_down_def Semaphore_new_def current_task_def block_current_def take_current_task_def)
  then have "sem_run {0, 1} (Semaphore_new 0) \<lparr>sem_count = - 1, sem_waiter_queue = [0]\<rparr> ?s1 {0} 0 0" by simp
  then have "sem_run {0, 1} (Semaphore_new 0) \<lparr>sem_count = - 1, sem_waiter_queue = [0]\<rparr> ?s2 ({0} - {1}) 0 (if 1 \<in> {0 :: nat} then Suc 0 else 0)"
    by (rule sem_run.dispatch) (simp_all add: sched1_def)
  then have "sem_run {0, 1} (Semaphore_new 0) \<lparr>sem_count = 0, sem_waiter_queue = []\<rparr> (wakeup_task 0 ?s2) ({0} - {1}) (Suc 0) (if 1 \<in> {0 :: nat} then Suc 0 else 0)"
    by (rule sem_run.up) (simp_all add: Semaphore_up_def)
  then show ?thesis by auto
qed

theorem semaphore_permits_witness:
  "\<exists>sem s. sem_run {0, 1} (Semaphore_new 0) sem s {0} 1 0 \<and> card (passing sem {0}) \<le> 1 \<and> 0 \<in> set (sc_ready_queue s)"
proof -
  obtain sem s where run: "sem_run {0, 1} (Semaphore_new 0) sem s {0} 1 0" "sem_waiter_queue sem = []" using sem_run0 by blast
  have "0 + card (passing sem {0}) \<le> unat (0 :: usize) + 1" "\<forall>t \<in> passing sem {0}. t \<in> set (sc_ready_queue s) \<and> status s t = Ready"
    using semaphore_permits [OF run(1)] by simp_all
  then show ?thesis using run by (intro exI [of _ sem] exI [of _ s]) (simp add: passing_def)
qed



text \<open>
  \<open>MutexBlocking::unlock\<close> of a mutex that is not locked panics, so the system call made by a
  thread that does not own the mutex stops the kernel.
\<close>

lemma unlock_of_free_mutex_panics:
  "Mutex_unlock (MutexBlocking MutexBlocking_new) s = Inl AssertionFailed"
  by (simp add: MutexBlocking_unlock_def MutexBlocking_new_def)

end
