(* ===== verification/Timer.thy ===== *)
theory Timer
  imports Scheduler "HOL-Library.Multiset"
begin

text \<open>
  \<open>os/src/timer/mod.rs\<close>: the timers of sleeping threads. The binary heap, whose order is reversed
  so that the earliest timer is on top, is the list of its elements in the order in which they are
  popped; the order among timers with the same expiry is not specified by the heap, and no result
  below depends on it. The value of the \<open>mtime\<close> register is an argument.
\<close>

definition CLOCK_FREQ :: usize where "CLOCK_FREQ = 12500000"
definition MSEC_PER_SEC :: usize where "MSEC_PER_SEC = 1000"

definition get_time_ms :: "usize \<Rightarrow> usize" where
  "get_time_ms mtime = mtime div (CLOCK_FREQ div MSEC_PER_SEC)"

record TimerCondVar =
  tv_expire_ms :: usize
  tv_task :: nat

record timed = sched +
  tm_timers :: "TimerCondVar list"

definition add_timer :: "usize \<Rightarrow> nat \<Rightarrow> 'a timed_scheme \<Rightarrow> 'a timed_scheme" where
  "add_timer expire_ms task s =
     s\<lparr>tm_timers := insort_key tv_expire_ms \<lparr>tv_expire_ms = expire_ms, tv_task = task\<rparr> (tm_timers s)\<rparr>"

definition remove_timer :: "nat \<Rightarrow> 'a timed_scheme \<Rightarrow> 'a timed_scheme" where
  "remove_timer task s = s\<lparr>tm_timers := filter (\<lambda>condvar. tv_task condvar \<noteq> task) (tm_timers s)\<rparr>"

fun check_timer_loop :: "usize \<Rightarrow> TimerCondVar list \<Rightarrow> 'a timed_scheme \<Rightarrow> 'a timed_scheme" where
  "check_timer_loop current_ms [] s = s\<lparr>tm_timers := []\<rparr>"
| "check_timer_loop current_ms (timer # ts) s =
     (if tv_expire_ms timer \<le> current_ms
      then check_timer_loop current_ms ts (wakeup_task (tv_task timer) s)
      else s\<lparr>tm_timers := timer # ts\<rparr>)"

definition check_timer :: "usize \<Rightarrow> 'a timed_scheme \<Rightarrow> 'a timed_scheme" where
  "check_timer mtime s = check_timer_loop (get_time_ms mtime) (tm_timers s) s"

text \<open>\<open>remove_inactive_task\<close> of \<open>os/src/task/mod.rs\<close>.\<close>

definition remove_inactive_task :: "nat \<Rightarrow> 'a timed_scheme \<Rightarrow> 'a timed_scheme" where
  "remove_inactive_task task s = remove_timer task (remove_task task s)"

text \<open>\<open>sys_sleep\<close> of \<open>os/src/syscall/sync.rs\<close>, up to the moment the thread is blocked.\<close>

definition sys_sleep :: "usize \<Rightarrow> usize \<Rightarrow> 'a timed_scheme \<Rightarrow> 'a timed_scheme result" where
  "sys_sleep mtime sleep_ms s =
     (let expire_ms = get_time_ms mtime + sleep_ms in
      rbind (current_task s) (\<lambda>task. block_current (add_timer expire_ms task s)))"

section \<open>The heap order\<close>

abbreviation timers_sorted :: "'a timed_scheme \<Rightarrow> bool" where
  "timers_sorted s \<equiv> sorted (map tv_expire_ms (tm_timers s))"

lemma timers_sel [simp]:
  "tm_timers (set_status t st s) = tm_timers s" "tm_timers (add_task t s) = tm_timers s"
  "tm_timers (wakeup_task t s) = tm_timers s"
  by (simp_all add: sched_defs)

lemma add_timer_sorted: "timers_sorted s \<Longrightarrow> timers_sorted (add_timer e t s)"
  by (simp add: add_timer_def sorted_insort_key)

lemma remove_timer_sorted: "timers_sorted s \<Longrightarrow> timers_sorted (remove_timer t s)"
  by (simp add: remove_timer_def sorted_filter)

lemma add_timer_mset:
  "mset (tm_timers (add_timer e t s)) = add_mset \<lparr>tv_expire_ms = e, tv_task = t\<rparr> (mset (tm_timers s))"
  by (simp add: add_timer_def)

lemma check_timer_loop_ok:
  assumes "sorted (map tv_expire_ms ts)"
  shows "tm_timers (check_timer_loop now ts s) = filter (\<lambda>v. now < tv_expire_ms v) ts"
    "sc_ready_queue (check_timer_loop now ts s) = sc_ready_queue s @ map tv_task (filter (\<lambda>v. tv_expire_ms v \<le> now) ts)"
    "sc_current (check_timer_loop now ts s) = sc_current s"
    "status (check_timer_loop now ts s) u =
       (if u \<in> tv_task ` {v \<in> set ts. tv_expire_ms v \<le> now} then Ready else status s u)"
  using assms(1)
proof (induction ts arbitrary: s)
  case (Cons v ts)
  { case 1 then show ?case using Cons.IH(1) [of "wakeup_task (tv_task v) s"] by (auto simp: not_le intro!: filter_True [symmetric]) }
  { case 2 then show ?case using Cons.IH(2) [of "wakeup_task (tv_task v) s"] by (auto simp: not_le filter_empty_conv) }
  { case 3 then show ?case using Cons.IH(3) [of "wakeup_task (tv_task v) s"] by auto }
  { case 4 then show ?case using Cons.IH(4) [of "wakeup_task (tv_task v) s"] by (auto simp: not_le image_iff) }
qed simp_all

section \<open>Properties\<close>

definition timed0 :: timed where
  "timed0 = \<lparr>sc_ready_queue = [1], sc_current = Some 0, sc_tcb = (\<lambda>_. tcb0)(0 := tcb0\<lparr>tcb_status := Running\<rparr>),
             tm_timers = []\<rparr>"

text \<open>
  C29. A timer tick wakes up exactly the threads whose timers have expired: they become ready, in the
  order of their timers, behind the threads already in the ready queue; the timers that have not
  expired stay, and no other thread changes its status.
\<close>

theorem check_timer_wakes_expired:
  assumes "timers_sorted s"
  shows "timers_sorted (check_timer mtime s)
    \<and> mset (tm_timers (check_timer mtime s)) = {#v \<in># mset (tm_timers s). get_time_ms mtime < tv_expire_ms v#}
    \<and> sc_ready_queue (check_timer mtime s)
        = sc_ready_queue s @ map tv_task (filter (\<lambda>v. tv_expire_ms v \<le> get_time_ms mtime) (tm_timers s))
    \<and> (\<forall>u. status (check_timer mtime s) u =
         (if \<exists>v \<in> set (tm_timers s). tv_task v = u \<and> tv_expire_ms v \<le> get_time_ms mtime then Ready else status s u))"
  using assms by (auto simp: check_timer_def check_timer_loop_ok sorted_filter image_iff)

theorem check_timer_wakes_expired_witness:
  "sc_ready_queue (check_timer 250000 (add_timer 20 7 (add_timer 10 8 (add_timer 30 9 timed0)))) = [1, 8, 7]"
proof -
  have sorted: "timers_sorted (add_timer 20 7 (add_timer 10 8 (add_timer 30 9 timed0)))"
    by (simp add: add_timer_sorted timed0_def)
  have "get_time_ms 250000 = 20" by (simp add: get_time_ms_def CLOCK_FREQ_def MSEC_PER_SEC_def)
  then show ?thesis
    using check_timer_wakes_expired [OF sorted, of 250000] by (simp add: add_timer_def timed0_def)
qed

section \<open>Sleeping\<close>

text \<open>
  What may happen while thread \<open>t\<close> sleeps until \<open>e\<close>: timer ticks before that time, other threads
  that go to sleep, are preempted, block, are woken up or dispatched, and threads whose process ends.
\<close>

inductive sleep_run :: "nat \<Rightarrow> usize \<Rightarrow> timed \<Rightarrow> timed \<Rightarrow> bool" for t e s0 where
  start: "sleep_run t e s0 s0"
| tick: "sleep_run t e s0 s \<Longrightarrow> get_time_ms mtime < e \<Longrightarrow> sleep_run t e s0 (check_timer mtime s)"
| sleep: "sleep_run t e s0 s \<Longrightarrow> sys_sleep mtime ms s = Inr s' \<Longrightarrow> sleep_run t e s0 s'"
| preempt: "sleep_run t e s0 s \<Longrightarrow> suspend_current s = Inr s' \<Longrightarrow> sleep_run t e s0 s'"
| block: "sleep_run t e s0 s \<Longrightarrow> block_current s = Inr s' \<Longrightarrow> sleep_run t e s0 s'"
| wake: "sleep_run t e s0 s \<Longrightarrow> u \<noteq> t \<Longrightarrow> sleep_run t e s0 (wakeup_task u s)"
| dispatch: "sleep_run t e s0 s \<Longrightarrow> run_tasks_iter s = Dispatched s' \<Longrightarrow> sleep_run t e s0 s'"
| remove: "sleep_run t e s0 s \<Longrightarrow> u \<noteq> t \<Longrightarrow> sleep_run t e s0 (remove_inactive_task u s)"

text \<open>The thread is blocked, in no queue, and has one timer.\<close>

definition asleep :: "nat \<Rightarrow> usize \<Rightarrow> timed \<Rightarrow> bool" where
  "asleep t e s \<longleftrightarrow> timers_sorted s \<and> filter (\<lambda>v. tv_task v = t) (tm_timers s) = [\<lparr>tv_expire_ms = e, tv_task = t\<rparr>]
     \<and> status s t = Blocked \<and> t \<notin> set (sc_ready_queue s) \<and> sc_current s \<noteq> Some t"

lemma asleep_timer:
  assumes "asleep t e s"
  shows "\<lparr>tv_expire_ms = e, tv_task = t\<rparr> \<in> set (tm_timers s)" "v \<in> set (tm_timers s) \<Longrightarrow> tv_task v = t \<Longrightarrow> tv_expire_ms v = e"
proof -
  have f: "filter (\<lambda>v. tv_task v = t) (tm_timers s) = [\<lparr>tv_expire_ms = e, tv_task = t\<rparr>]" using assms by (simp add: asleep_def)
  then have "\<lparr>tv_expire_ms = e, tv_task = t\<rparr> \<in> set (filter (\<lambda>v. tv_task v = t) (tm_timers s))" by simp
  then show "\<lparr>tv_expire_ms = e, tv_task = t\<rparr> \<in> set (tm_timers s)" by simp
  show "tv_expire_ms v = e" if "v \<in> set (tm_timers s)" "tv_task v = t"
  proof -
    have "v \<in> set (filter (\<lambda>v. tv_task v = t) (tm_timers s))" using that by simp
    then show ?thesis unfolding f by simp
  qed
qed

lemma filter_insort_other: "\<not> P x \<Longrightarrow> filter P (insort_key f x xs) = filter P xs"
  by (induction xs) auto

lemma filter_insort_none: "P x \<Longrightarrow> filter P xs = [] \<Longrightarrow> filter P (insort_key f x xs) = [x]"
  by (induction xs) (auto split: if_splits)

lemma count_list_map: "count_list (map f xs) y = length (filter (\<lambda>x. f x = y) xs)"
  by (induction xs) auto

lemma sys_sleep_Inr:
  "sys_sleep mtime ms s = Inr s' \<longleftrightarrow> (\<exists>u. sc_current s = Some u
     \<and> s' = set_status u Blocked ((add_timer (get_time_ms mtime + ms) u s)\<lparr>sc_current := None\<rparr>))"
  by (auto simp: sys_sleep_def current_task_def Let_def add_timer_def)

lemma remove_task_sel:
  "sc_current (remove_task u s) = sc_current s" "sc_tcb (remove_task u s) = sc_tcb s"
  "tm_timers (remove_task u s) = tm_timers s" "set (sc_ready_queue (remove_task u s)) \<subseteq> set (sc_ready_queue s)"
  using set_remove_at_subset by (fastforce simp: remove_task_def split: option.splits)+

lemma asleep_tick:
  assumes "asleep t e s" "get_time_ms mtime < e"
  shows "asleep t e (check_timer mtime s)"
proof -
  have s: "timers_sorted s" using assms(1) by (simp add: asleep_def)
  have "filter (\<lambda>v. tv_task v = t) (filter (\<lambda>v. get_time_ms mtime < tv_expire_ms v) (tm_timers s))
      = filter (\<lambda>v. get_time_ms mtime < tv_expire_ms v) (filter (\<lambda>v. tv_task v = t) (tm_timers s))"
    by (simp add: conj_commute)
  also have "\<dots> = [\<lparr>tv_expire_ms = e, tv_task = t\<rparr>]" using assms by (simp add: asleep_def)
  finally have f: "filter (\<lambda>v. tv_task v = t) (tm_timers (check_timer mtime s)) = [\<lparr>tv_expire_ms = e, tv_task = t\<rparr>]"
    using s by (simp add: check_timer_def check_timer_loop_ok)
  have "t \<notin> tv_task ` {v \<in> set (tm_timers s). tv_expire_ms v \<le> get_time_ms mtime}"
    using asleep_timer(2) [OF assms(1)] assms(2) by (auto simp: not_le)
  then show ?thesis
    using assms(1) s f by (auto simp: asleep_def check_timer_def check_timer_loop_ok sorted_filter)
qed

lemma sleep_run_asleep:
  assumes "sleep_run t e s0 s" "asleep t e s0"
  shows "asleep t e s"
  using assms
proof (induction rule: sleep_run.induct)
  case (tick s mtime)
  then show ?case by (simp add: asleep_tick)
next
  case (sleep s mtime ms s')
  then show ?case
    by (auto simp: asleep_def sys_sleep_Inr add_timer_def sorted_insort_key filter_insort_other)
next
  case (remove s u)
  then have a: "asleep t e s" by simp
  have "filter (\<lambda>v. tv_task v \<noteq> u \<and> tv_task v = t) (tm_timers s) = filter (\<lambda>v. tv_task v = t) (tm_timers s)"
    using remove.hyps(2) by (intro filter_cong) auto
  then show ?case
    using a remove_task_sel(4) [of u s]
    by (auto simp: asleep_def remove_inactive_task_def remove_timer_def remove_task_sel(1-3) sorted_filter)
qed (auto simp: asleep_def)

text \<open>
  C30. A thread that calls \<open>sleep\<close> leaves the processor and sleeps until its time has come, provided the
  end of the delay does not wrap around. Whatever other threads and earlier timer ticks do in the
  meantime, it stays blocked and out of the ready queue; and the first tick at or after the time of
  the call plus the requested delay makes it ready and puts it into the ready queue, once.
\<close>

theorem sleep_until_expired:
  assumes "timers_sorted s" "sc_current s = Some t" "t \<notin> set (sc_ready_queue s)" "\<forall>v \<in> set (tm_timers s). tv_task v \<noteq> t"
    "unat (get_time_ms now) + unat ms < 2 ^ 64"
  shows "\<exists>s0. sys_sleep now ms s = Inr s0 \<and> sc_current s0 = None \<and> status s0 t = Blocked
    \<and> (\<forall>s1. sleep_run t (get_time_ms now + ms) s0 s1 \<longrightarrow>
         status s1 t = Blocked \<and> t \<notin> set (sc_ready_queue s1) \<and> sc_current s1 \<noteq> Some t
         \<and> (\<forall>later. unat (get_time_ms now) + unat ms \<le> unat (get_time_ms later) \<longrightarrow>
              status (check_timer later s1) t = Ready \<and> count_list (sc_ready_queue (check_timer later s1)) t = 1))"
proof -
  let ?e = "get_time_ms now + ms"
  have ue: "unat ?e = unat (get_time_ms now) + unat ms" using assms(5) by (simp add: unat_word_ariths)
  define s0 where "s0 = set_status t Blocked ((add_timer ?e t s)\<lparr>sc_current := None\<rparr>)"
  have none: "filter (\<lambda>v. tv_task v = t) (tm_timers s) = []" using assms(4) by (auto simp: filter_empty_conv)
  have s0: "sys_sleep now ms s = Inr s0" "asleep t ?e s0"
    using assms(1-3) none
    by (auto simp: s0_def sys_sleep_Inr asleep_def add_timer_def sorted_insort_key filter_insort_none)
  have wakes: "status (check_timer later s1) t = Ready \<and> count_list (sc_ready_queue (check_timer later s1)) t = 1"
    if a: "asleep t ?e s1" and l: "?e \<le> get_time_ms later" for s1 later
  proof -
    have so: "timers_sorted s1" and q: "t \<notin> set (sc_ready_queue s1)"
      and f: "filter (\<lambda>v. tv_task v = t) (tm_timers s1) = [\<lparr>tv_expire_ms = ?e, tv_task = t\<rparr>]" using a by (simp_all add: asleep_def)
    have "t \<in> tv_task ` {v \<in> set (tm_timers s1). tv_expire_ms v \<le> get_time_ms later}"
      using asleep_timer(1) [OF a] l by force
    moreover have "count_list (map tv_task (filter (\<lambda>v. tv_expire_ms v \<le> get_time_ms later) (tm_timers s1))) t
        = length (filter (\<lambda>v. tv_expire_ms v \<le> get_time_ms later) (filter (\<lambda>v. tv_task v = t) (tm_timers s1)))"
      by (simp add: count_list_map conj_commute)
    ultimately show ?thesis
      using so q l by (simp add: check_timer_def check_timer_loop_ok f count_notin)
  qed
  have "sc_current s0 = None" by (simp add: s0_def)
  moreover have "status s0 t = Blocked" by (simp add: s0_def)
  moreover have "asleep t ?e s1" if "sleep_run t ?e s0 s1" for s1 by (rule sleep_run_asleep [OF that s0(2)])
  ultimately show ?thesis
    using s0(1) wakes ue by (auto simp: word_le_nat_alt asleep_def)
qed

text \<open>Thread 0 sleeps for 5 ms; thread 1 is dispatched and goes to sleep, and a tick after 1 ms is too early.\<close>

theorem sleep_until_expired_witness:
  "\<exists>s0 s1 s2. sys_sleep 0 5 timed0 = Inr s0 \<and> run_tasks_iter s0 = Dispatched s1 \<and> sys_sleep 0 1 s1 = Inr s2
     \<and> status (check_timer 12500 s2) 0 = Blocked \<and> status (check_timer 125000 (check_timer 12500 s2)) 0 = Ready"
proof -
  have ms: "get_time_ms 0 = 0" "get_time_ms 12500 = 1" "get_time_ms 125000 = 10"
    by (simp_all add: get_time_ms_def CLOCK_FREQ_def MSEC_PER_SEC_def)
  obtain s0 where s0: "sys_sleep 0 5 timed0 = Inr s0" "sc_ready_queue s0 = [1]"
    by (simp add: sys_sleep_Inr timed0_def add_timer_def)
  then obtain s1 where s1: "run_tasks_iter s0 = Dispatched s1" by simp
  then have "sc_current s1 = Some 1" using s0(2) by auto
  then obtain s2 where s2: "sys_sleep 0 1 s1 = Inr s2" by (simp add: sys_sleep_Inr)
  have "sleep_run 0 (get_time_ms 0 + 5) s0 (check_timer 12500 s2)"
    by (rule sleep_run.tick [OF sleep_run.sleep [OF sleep_run.dispatch [OF sleep_run.start s1] s2]]) (simp add: ms)
  then have "status (check_timer 12500 s2) 0 = Blocked" "status (check_timer 125000 (check_timer 12500 s2)) 0 = Ready"
    using sleep_until_expired [of timed0 0 0 5] s0(1) by (auto simp: timed0_def ms)
  then show ?thesis using s0(1) s1 s2 by blast
qed

end
