(* ===== verification/Signals.thy ===== *)
theory Signals
  imports Trap_Context
begin

text \<open>
  Signals: \<open>os/src/task/signal\<close> (flags and actions), the delivery of signals at the return to user
  mode (\<open>os/src/task/mod.rs\<close>) and the parts of the signal system calls of
  \<open>os/src/syscall/process.rs\<close> that act on one process. The signal fields of a process control
  block are an extensible record. The interrupted context is in memory, at the address \<open>cx\<close>.
\<close>

section \<open>Flags and actions\<close>

type_synonym SignalFlags = u32

definition SIG_CNT :: nat where "SIG_CNT = 32"

text \<open>\<open>SignalFlags::from_bits(1 << signum)\<close>; every one of the 32 bits is a flag.\<close>

definition sig_flag :: "nat \<Rightarrow> SignalFlags" where "sig_flag signum = push_bit signum 1"

definition SIGDEF :: SignalFlags where "SIGDEF = sig_flag 0"
definition SIGHUP :: SignalFlags where "SIGHUP = sig_flag 1"
definition SIGINT :: SignalFlags where "SIGINT = sig_flag 2"
definition SIGQUIT :: SignalFlags where "SIGQUIT = sig_flag 3"
definition SIGILL :: SignalFlags where "SIGILL = sig_flag 4"
definition SIGTRAP :: SignalFlags where "SIGTRAP = sig_flag 5"
definition SIGABRT :: SignalFlags where "SIGABRT = sig_flag 6"
definition SIGFPE :: SignalFlags where "SIGFPE = sig_flag 8"
definition SIGKILL :: SignalFlags where "SIGKILL = sig_flag 9"
definition SIGSEGV :: SignalFlags where "SIGSEGV = sig_flag 11"
definition SIGCONT :: SignalFlags where "SIGCONT = sig_flag 18"
definition SIGSTOP :: SignalFlags where "SIGSTOP = sig_flag 19"

lemmas sig_defs = SIGDEF_def SIGHUP_def SIGINT_def SIGQUIT_def SIGILL_def SIGTRAP_def SIGABRT_def SIGFPE_def
  SIGKILL_def SIGSEGV_def SIGCONT_def SIGSTOP_def

definition contains :: "SignalFlags \<Rightarrow> SignalFlags \<Rightarrow> bool" where
  "contains s f \<longleftrightarrow> s AND f = f"

definition check_error :: "SignalFlags \<Rightarrow> 32 word option" where
  "check_error s =
     (if contains s SIGINT then Some (- 2)
      else if contains s SIGILL then Some (- 4)
      else if contains s SIGABRT then Some (- 6)
      else if contains s SIGFPE then Some (- 8)
      else if contains s SIGKILL then Some (- 9)
      else if contains s SIGSEGV then Some (- 11)
      else None)"

record SignalAction =
  sa_handler :: usize
  sa_mask :: SignalFlags

definition SignalAction_default :: SignalAction where
  "SignalAction_default = \<lparr>sa_handler = 0, sa_mask = SIGQUIT OR SIGTRAP\<rparr>"

definition SignalActionTable_default :: "SignalAction list" where
  "SignalActionTable_default = replicate SIG_CNT SignalAction_default"

record sig_state =
  sg_signals :: SignalFlags
  sg_signal_actions :: "SignalAction list"
  sg_signal_mask :: SignalFlags
  sg_handling_signal :: "64 word"
  sg_killed :: bool
  sg_frozen :: bool

section \<open>Delivery\<close>

definition call_kernel_signal_handler :: "SignalFlags \<Rightarrow> 'a sig_state_scheme \<Rightarrow> 'a sig_state_scheme" where
  "call_kernel_signal_handler signal p =
     (if signal = SIGSTOP then p\<lparr>sg_frozen := True, sg_signals := sg_signals p XOR SIGSTOP\<rparr>
      else if signal = SIGCONT then p\<lparr>sg_frozen := False, sg_signals := sg_signals p XOR SIGCONT\<rparr>
      else p\<lparr>sg_killed := True\<rparr>)"

text \<open>The state of a delivery: the process, the backup of the context, and memory.\<close>

type_synonym 'a delivery = "'a sig_state_scheme \<times> TrapContext option \<times> mem"

definition call_user_signal_handler :: "usize \<Rightarrow> nat \<Rightarrow> SignalFlags \<Rightarrow> 'a delivery \<Rightarrow> 'a delivery result" where
  "call_user_signal_handler cx signum signal = (\<lambda>(p, backup, m).
     rbind (index (sg_signal_actions p) signum) (\<lambda>action.
     let handler = sa_handler action in
     if handler \<noteq> 0 then
       Inr (p\<lparr>sg_handling_signal := of_nat signum, sg_signals := sg_signals p XOR signal\<rparr>,
            Some (load_trap_cx cx m),
            store64 (store64 m (trap_cx_word cx SEPC_WORD) handler) (trap_cx_word cx 10) (of_nat signum))
     else Inr (p, backup, m)))"

definition deliverable :: "nat \<Rightarrow> 'a sig_state_scheme \<Rightarrow> bool result" where
  "deliverable signum p =
     (let signal = sig_flag signum in
      if contains (sg_signals p) signal \<and> \<not> contains (sg_signal_mask p) signal then
        if sg_handling_signal p = - 1 then Inr True
        else rbind (index (sg_signal_actions p) (unat (sg_handling_signal p))) (\<lambda>action.
             Inr (\<not> contains (sa_mask action) signal))
      else Inr False)"

definition kernel_signal :: "SignalFlags \<Rightarrow> bool" where
  "kernel_signal signal \<longleftrightarrow> signal = SIGKILL \<or> signal = SIGSTOP \<or> signal = SIGCONT \<or> signal = SIGDEF"

fun check_pending_loop :: "usize \<Rightarrow> nat list \<Rightarrow> 'a delivery \<Rightarrow> 'a delivery result" where
  "check_pending_loop cx [] d = Inr d"
| "check_pending_loop cx (signum # ns) (p, backup, m) =
     rbind (deliverable signum p) (\<lambda>yes.
     if yes then
       if kernel_signal (sig_flag signum)
       then check_pending_loop cx ns (call_kernel_signal_handler (sig_flag signum) p, backup, m)
       else call_user_signal_handler cx signum (sig_flag signum) (p, backup, m)
     else check_pending_loop cx ns (p, backup, m))"

definition check_pending_signals :: "usize \<Rightarrow> 'a delivery \<Rightarrow> 'a delivery result" where
  "check_pending_signals cx d = check_pending_loop cx [0..<SIG_CNT] d"

text \<open>One round of \<open>handle_signals\<close>: \<open>True\<close> if the thread gives up the processor and comes back.\<close>

definition handle_signals_pass :: "usize \<Rightarrow> 'a delivery \<Rightarrow> (bool \<times> 'a delivery) result" where
  "handle_signals_pass cx d =
     rbind (check_pending_signals cx d) (\<lambda>(p, backup, m).
     Inr (\<not> (sg_killed p \<or> \<not> sg_frozen p), (p, backup, m)))"

section \<open>System calls on signals\<close>

text \<open>\<open>sys_kill\<close> on the process found; \<open>signum\<close> is an \<open>i32\<close>, sign-extended by \<open>as usize\<close>.\<close>

definition kill_process :: "32 word \<Rightarrow> 'a sig_state_scheme \<Rightarrow> 64 word \<times> 'a sig_state_scheme" where
  "kill_process signum p =
     (if (of_nat SIG_CNT :: usize) \<le> scast signum then (- 1, p)
      else let flag = sig_flag (unat signum) in
        if contains (sg_signals p) flag then (- 1, p)
        else (0, p\<lparr>sg_signals := sg_signals p OR flag\<rparr>))"

definition check_sigaction_error :: "SignalFlags \<Rightarrow> usize \<Rightarrow> usize \<Rightarrow> bool" where
  "check_sigaction_error flag action old_action \<longleftrightarrow>
     action = 0 \<or> old_action = 0 \<or> flag = SIGKILL \<or> flag = SIGSTOP"

text \<open>A \<open>SignalAction\<close> in memory: the handler, then the 32-bit mask.\<close>

definition load_action :: "mem \<Rightarrow> usize \<Rightarrow> SignalAction" where
  "load_action m a = \<lparr>sa_handler = load64 m a, sa_mask = le_word (read_bytes m (a + 8) 4)\<rparr>"

definition store_action :: "mem \<Rightarrow> usize \<Rightarrow> SignalAction \<Rightarrow> mem" where
  "store_action m a act = write_bytes (store64 m a (sa_handler act)) (a + 8) (le_bytes 4 (sa_mask act))"

text \<open>\<open>sys_sigaction\<close> with the two user pointers already translated on demand by \<open>tr\<close>.\<close>

definition sigaction_process ::
  "(usize \<Rightarrow> mem \<Rightarrow> usize result) \<Rightarrow> 32 word \<Rightarrow> usize \<Rightarrow> usize \<Rightarrow> 'a sig_state_scheme \<Rightarrow> mem
    \<Rightarrow> (64 word \<times> 'a sig_state_scheme \<times> mem) result" where
  "sigaction_process tr signum action old_action p m =
     (if (of_nat SIG_CNT :: usize) \<le> scast signum then Inr (- 1, p, m)
      else if check_sigaction_error (sig_flag (unat signum)) action old_action then Inr (- 1, p, m)
      else
        rbind (tr old_action m) (\<lambda>old.
        rbind (index (sg_signal_actions p) (unat signum)) (\<lambda>act.
        let m1 = store_action m old act in
        rbind (tr action m1) (\<lambda>new.
        Inr (0, p\<lparr>sg_signal_actions := (sg_signal_actions p)[unat signum := load_action m1 new]\<rparr>, m1)))))"

definition sigprocmask_process :: "u32 \<Rightarrow> 'a sig_state_scheme \<Rightarrow> 64 word \<times> 'a sig_state_scheme" where
  "sigprocmask_process new_mask p = (ucast (sg_signal_mask p), p\<lparr>sg_signal_mask := new_mask\<rparr>)"

definition sigreturn_process :: "usize \<Rightarrow> 'a delivery \<Rightarrow> (64 word \<times> 'a delivery) result" where
  "sigreturn_process cx = (\<lambda>(p, backup, m).
     rbind (unwrap backup) (\<lambda>b.
     let m' = store_trap_cx cx b m in
     Inr (load64 m' (trap_cx_word cx 10), p\<lparr>sg_handling_signal := - 1\<rparr>, backup, m')))"

section \<open>Flags are single bits\<close>

lemma bit_sig_flag: "k < 32 \<Longrightarrow> bit (sig_flag n) k \<longleftrightarrow> k = n"
  by (auto simp: sig_flag_def bit_simps)

lemma contains_flag: "n < 32 \<Longrightarrow> contains s (sig_flag n) \<longleftrightarrow> bit s n"
proof -
  assume n: "n < 32"
  have "bit s n" if "s AND sig_flag n = sig_flag n"
    using arg_cong [OF that, of "\<lambda>w. bit w n"] n by (simp add: bit_sig_flag bit_simps)
  moreover have "s AND sig_flag n = sig_flag n" if "bit s n"
    by (rule bit_word_eqI) (use that in \<open>auto simp: bit_sig_flag bit_simps\<close>)
  ultimately show ?thesis by (auto simp: contains_def)
qed

lemma sig_flag_inj: "n < 32 \<Longrightarrow> k < 32 \<Longrightarrow> sig_flag n = sig_flag k \<longleftrightarrow> n = k"
  by (metis bit_sig_flag)

lemma kernel_signal_flag: "n < 32 \<Longrightarrow> kernel_signal (sig_flag n) \<longleftrightarrow> n \<in> {0, 9, 18, 19}"
  by (auto simp: kernel_signal_def sig_defs sig_flag_inj)

lemma bit_xor_flag: "k < 32 \<Longrightarrow> bit (s XOR sig_flag n) k \<longleftrightarrow> bit s k \<noteq> (k = n)"
  by (simp add: bit_sig_flag bit_xor_iff)

lemma bit_or_flag: "k < 32 \<Longrightarrow> bit (s OR sig_flag n) k \<longleftrightarrow> bit s k \<or> k = n"
  by (simp add: bit_sig_flag bit_or_iff)

section \<open>What one round delivers\<close>

definition sig_ok :: "'a sig_state_scheme \<Rightarrow> bool" where
  "sig_ok p \<longleftrightarrow> length (sg_signal_actions p) = 32 \<and> (sg_handling_signal p = - 1 \<or> unat (sg_handling_signal p) < 32)"

text \<open>A signal is pending, not masked, and not masked by the action of the signal being handled.\<close>

definition can_deliver :: "'a sig_state_scheme \<Rightarrow> nat \<Rightarrow> bool" where
  "can_deliver p n \<longleftrightarrow> bit (sg_signals p) n \<and> \<not> bit (sg_signal_mask p) n
     \<and> (sg_handling_signal p = - 1 \<or> \<not> bit (sa_mask (sg_signal_actions p ! unat (sg_handling_signal p))) n)"

lemma deliverable_eq: "sig_ok p \<Longrightarrow> n < 32 \<Longrightarrow> deliverable n p = Inr (can_deliver p n)"
  by (auto simp: deliverable_def can_deliver_def sig_ok_def contains_flag Let_def index_def)

lemma loop_skip:
  assumes "sig_ok p" "\<And>n. n \<in> set ns \<Longrightarrow> n < 32 \<and> \<not> can_deliver p n"
  shows "check_pending_loop cx (ns @ ms) (p, b, m) = check_pending_loop cx ms (p, b, m)"
  using assms(2)
proof (induction ns)
  case (Cons n ns)
  then have "deliverable n p = Inr False" using deliverable_eq [OF assms(1), of n] by simp
  then show ?case using Cons by simp
qed simp

lemma loop_kernel:
  assumes "sig_ok p" "n \<in> {0, 9, 18, 19}"
  shows "check_pending_loop cx (n # ns) (p, b, m) = check_pending_loop cx ns
    (if can_deliver p n then call_kernel_signal_handler (sig_flag n) p else p, b, m)"
proof -
  have n: "n < 32" using assms(2) by auto
  have "kernel_signal (sig_flag n)" using n assms(2) kernel_signal_flag by blast
  then show ?thesis using deliverable_eq [OF assms(1) n] by simp
qed

definition kernel_step :: "nat \<Rightarrow> 'a sig_state_scheme \<Rightarrow> 'a sig_state_scheme" where
  "kernel_step n p = (if can_deliver p n then call_kernel_signal_handler (sig_flag n) p else p)"

lemma kernel_step_eqs:
  "kernel_step 0 p = (if can_deliver p 0 then p\<lparr>sg_killed := True\<rparr> else p)"
  "kernel_step 9 p = (if can_deliver p 9 then p\<lparr>sg_killed := True\<rparr> else p)"
  "kernel_step 18 p = (if can_deliver p 18 then p\<lparr>sg_frozen := False, sg_signals := sg_signals p XOR SIGCONT\<rparr> else p)"
  "kernel_step 19 p = (if can_deliver p 19 then p\<lparr>sg_frozen := True, sg_signals := sg_signals p XOR SIGSTOP\<rparr> else p)"
  by (simp_all add: kernel_step_def call_kernel_signal_handler_def sig_defs sig_flag_inj)

lemma kernel_step_sel [simp]:
  "sg_signal_mask (kernel_step n p) = sg_signal_mask p"
  "sg_handling_signal (kernel_step n p) = sg_handling_signal p"
  "sg_signal_actions (kernel_step n p) = sg_signal_actions p"
  by (simp_all add: kernel_step_def call_kernel_signal_handler_def)

lemma sig_ok_kernel_step [simp]: "sig_ok (kernel_step n p) = sig_ok p"
  by (simp add: sig_ok_def)

lemma kernel_step_keeps:
  assumes "n \<in> {0, 9, 18, 19}" "k < 32" "k \<noteq> n"
  shows "can_deliver (kernel_step n p) k = can_deliver p k"
proof -
  have "bit (sg_signals (kernel_step n p)) k = bit (sg_signals p) k"
    using assms by (auto simp: kernel_step_eqs SIGCONT_def SIGSTOP_def bit_xor_flag split: if_splits)
  then show ?thesis by (simp add: can_deliver_def)
qed

lemma kernel_step_fields:
  "sg_killed (kernel_step 0 p) = (sg_killed p \<or> can_deliver p 0)" "sg_killed (kernel_step 9 p) = (sg_killed p \<or> can_deliver p 9)"
  "sg_killed (kernel_step 18 p) = sg_killed p" "sg_killed (kernel_step 19 p) = sg_killed p"
  "sg_frozen (kernel_step 0 p) = sg_frozen p" "sg_frozen (kernel_step 9 p) = sg_frozen p"
  "sg_frozen (kernel_step 18 p) = (sg_frozen p \<and> \<not> can_deliver p 18)"
  "sg_frozen (kernel_step 19 p) = (sg_frozen p \<or> can_deliver p 19)"
  "sg_signals (kernel_step 0 p) = sg_signals p" "sg_signals (kernel_step 9 p) = sg_signals p"
  "k < 32 \<Longrightarrow> bit (sg_signals (kernel_step 18 p)) k = (bit (sg_signals p) k \<and> \<not> (k = 18 \<and> can_deliver p 18))"
  "k < 32 \<Longrightarrow> bit (sg_signals (kernel_step 19 p)) k = (bit (sg_signals p) k \<and> \<not> (k = 19 \<and> can_deliver p 19))"
  by (auto simp: kernel_step_eqs SIGCONT_def SIGSTOP_def bit_xor_flag can_deliver_def)

lemma range_split: "[0..<32] = 0 # [1..<9] @ 9 # [10..<18] @ 18 # 19 # [20..<32::nat]"
  by (simp add: upt_conv_Cons)

text \<open>A round without a deliverable user signal is the four kernel signals, in order.\<close>

lemma check_pending_kernel:
  assumes ok: "sig_ok p" and nouser: "\<And>n. n < 32 \<Longrightarrow> can_deliver p n \<Longrightarrow> n \<in> {0, 9, 18, 19}"
  shows "check_pending_signals cx (p, b, m)
    = Inr (kernel_step 19 (kernel_step 18 (kernel_step 9 (kernel_step 0 p))), b, m)"
proof -
  define p1 where "p1 = kernel_step 0 p"
  define p2 where "p2 = kernel_step 9 p1"
  define p3 where "p3 = kernel_step 18 p2"
  define p4 where "p4 = kernel_step 19 p3"
  note ps = p1_def p2_def p3_def p4_def
  have oks: "sig_ok p1" "sig_ok p2" "sig_ok p3" "sig_ok p4"
    using ok by (simp_all add: ps)
  have skip: "\<not> can_deliver q k" if "k < 32" "k \<notin> {0, 9, 18, 19}" "q \<in> {p1, p2, p3, p4}" for q k
    using nouser [of k] that by (auto simp: ps kernel_step_keeps)
  have "check_pending_loop cx [0..<32] (p, b, m) = check_pending_loop cx ([1..<9] @ 9 # [10..<18] @ 18 # 19 # [20..<32]) (p1, b, m)"
    unfolding range_split using loop_kernel [OF ok, of 0] by (simp only: p1_def kernel_step_def insertI1)
  also have "\<dots> = check_pending_loop cx (9 # [10..<18] @ 18 # 19 # [20..<32]) (p1, b, m)"
    by (rule loop_skip [OF oks(1)]) (use skip in auto)
  also have "\<dots> = check_pending_loop cx ([10..<18] @ 18 # 19 # [20..<32]) (p2, b, m)"
    using loop_kernel [OF oks(1), of 9] by (simp add: p2_def kernel_step_def)
  also have "\<dots> = check_pending_loop cx (18 # 19 # [20..<32]) (p2, b, m)"
    by (rule loop_skip [OF oks(2)]) (use skip in auto)
  also have "\<dots> = check_pending_loop cx (19 # [20..<32]) (p3, b, m)"
    using loop_kernel [OF oks(2), of 18] by (simp add: p3_def kernel_step_def)
  also have "\<dots> = check_pending_loop cx ([20..<32] @ []) (p4, b, m)"
    using loop_kernel [OF oks(3), of 19] by (simp add: p4_def kernel_step_def)
  also have "\<dots> = check_pending_loop cx [] (p4, b, m)"
    by (rule loop_skip [OF oks(4)]) (use skip in auto)
  finally show ?thesis by (simp add: check_pending_signals_def SIG_CNT_def ps)
qed

text \<open>A round whose first deliverable signal is a user signal hands over that signal only.\<close>

lemma check_pending_user:
  assumes ok: "sig_ok p" and n: "n < 32" "n \<notin> {0, 9, 18, 19}" "can_deliver p n"
    and first: "\<And>k. k < n \<Longrightarrow> \<not> can_deliver p k"
  shows "check_pending_signals cx (p, b, m) = call_user_signal_handler cx n (sig_flag n) (p, b, m)"
proof -
  have "[0..<32] = [0..<n] @ n # [Suc n..<32]" using n(1) upt_add_eq_append [of 0 n "32 - n"] by (simp add: upt_conv_Cons)
  then have "check_pending_loop cx [0..<32] (p, b, m) = check_pending_loop cx (n # [Suc n..<32]) (p, b, m)"
    using loop_skip [OF ok, of "[0..<n]"] first n(1) by simp
  also have "\<dots> = call_user_signal_handler cx n (sig_flag n) (p, b, m)"
    using deliverable_eq [OF ok n(1)] n kernel_signal_flag [OF n(1)] by simp
  finally show ?thesis by (simp add: check_pending_signals_def SIG_CNT_def)
qed

section \<open>Entering and leaving a handler\<close>

text \<open>Changing one word of the context in memory.\<close>

lemma load_trap_cx_store:
  assumes "aligned8 cx"
  shows "load_trap_cx cx (store64 m (trap_cx_word cx SEPC_WORD) v) = (load_trap_cx cx m)\<lparr>tc_sepc := v\<rparr>"
    "i < 32 \<Longrightarrow> load_trap_cx cx (store64 m (trap_cx_word cx i) v)
       = (load_trap_cx cx m)\<lparr>tc_gprs := (tc_gprs (load_trap_cx cx m))[i := v]\<rparr>"
proof -
  have w: "load64 (store64 m (trap_cx_word cx i) v) (trap_cx_word cx j) = (if i = j then v else load64 m (trap_cx_word cx j))"
    if "i < 37" "j < 37" for i j
    using that assms load64_store64_other [OF aligned8_word aligned8_word, of cx i cx j m v]
    by (auto simp: trap_cx_word_eq)
  show "load_trap_cx cx (store64 m (trap_cx_word cx SEPC_WORD) v) = (load_trap_cx cx m)\<lparr>tc_sepc := v\<rparr>"
    by (simp add: load_trap_cx_def w)
  show "load_trap_cx cx (store64 m (trap_cx_word cx i) v)
       = (load_trap_cx cx m)\<lparr>tc_gprs := (tc_gprs (load_trap_cx cx m))[i := v]\<rparr>" if "i < 32"
    using that by (auto simp: load_trap_cx_def w nth_list_update intro!: nth_equalityI)
qed

lemma call_user_ok:
  assumes "sig_ok p" "n < 32"
  shows "\<exists>p' b' m'. call_user_signal_handler cx n sig (p, b, m) = Inr (p', b', m') \<and> sig_ok p'"
  using assms by (auto simp: call_user_signal_handler_def index_def Let_def sig_ok_def unat_of_nat)

lemma check_pending_loop_ok:
  assumes "sig_ok p" "\<And>n. n \<in> set ns \<Longrightarrow> n < 32"
  shows "\<exists>p' b' m'. check_pending_loop cx ns (p, b, m) = Inr (p', b', m') \<and> sig_ok p'"
  using assms
proof (induction ns arbitrary: p b m)
  case (Cons n ns)
  have n: "n < 32" using Cons.prems(2) by simp
  have k: "sig_ok (call_kernel_signal_handler (sig_flag n) p)"
    using Cons.prems(1) by (simp add: sig_ok_def call_kernel_signal_handler_def)
  show ?case
    using deliverable_eq [OF Cons.prems(1) n] Cons.IH [OF k] Cons.IH [OF Cons.prems(1)] Cons.prems(2)
      call_user_ok [OF Cons.prems(1) n] by simp
qed simp

section \<open>Properties\<close>

definition sig0 :: sig_state where
  "sig0 = \<lparr>sg_signals = SIGHUP OR SIGCONT, sg_signal_actions = SignalActionTable_default, sg_signal_mask = 0,
           sg_handling_signal = - 1, sg_killed = False, sg_frozen = True\<rparr>"

lemma sig0_ok: "sig_ok sig0"
  by (simp add: sig_ok_def sig0_def SignalActionTable_default_def SIG_CNT_def)

lemma bit_signals0: "k < 32 \<Longrightarrow> bit (sg_signals sig0) k \<longleftrightarrow> k = 1 \<or> k = 18"
  by (auto simp: sig0_def SIGHUP_def SIGCONT_def bit_or_flag bit_sig_flag)

lemma can_deliver0: "k < 32 \<Longrightarrow> can_deliver (sig0\<lparr>sg_signal_actions := a\<rparr>) k \<longleftrightarrow> k = 1 \<or> k = 18"
  using bit_signals0 [of k] by (simp add: can_deliver_def sig0_def)

text \<open>
  C31. Signal handling round trip: when the first deliverable signal of a thread has a handler, the
  interrupted context is saved, the thread resumes in the handler with the signal number as its
  argument and every other register unchanged, and whatever the handler does to the context and to
  user memory, \<open>sigreturn\<close> puts back exactly the context that was interrupted.
\<close>

theorem signal_handler_roundtrip:
  fixes p :: "'a sig_state_scheme"
  assumes "sig_ok p" "aligned8 cx" "n < 32" "n \<notin> {0, 9, 18, 19}" "can_deliver p n"
    "\<forall>k < n. \<not> can_deliver p k" "sa_handler (sg_signal_actions p ! n) \<noteq> 0"
  shows "\<exists>p' m'. check_pending_signals cx (p, b, m) = Inr (p', Some (load_trap_cx cx m), m')
    \<and> load_trap_cx cx m' = (load_trap_cx cx m)\<lparr>tc_sepc := sa_handler (sg_signal_actions p ! n),
        tc_gprs := (tc_gprs (load_trap_cx cx m))[10 := of_nat n]\<rparr>
    \<and> \<not> bit (sg_signals p') n \<and> sg_handling_signal p' = of_nat n
    \<and> (\<forall>(p2 :: 'a sig_state_scheme) m2. \<exists>m3. sigreturn_process cx (p2, Some (load_trap_cx cx m), m2)
          = Inr (tc_gprs (load_trap_cx cx m) ! 10, p2\<lparr>sg_handling_signal := - 1\<rparr>, Some (load_trap_cx cx m), m3)
        \<and> load_trap_cx cx m3 = load_trap_cx cx m)"
proof -
  define h where "h = sa_handler (sg_signal_actions p ! n)"
  define p' where "p' = p\<lparr>sg_handling_signal := of_nat n, sg_signals := sg_signals p XOR sig_flag n\<rparr>"
  define m' where "m' = store64 (store64 m (trap_cx_word cx SEPC_WORD) h) (trap_cx_word cx 10) (of_nat n)"
  have "check_pending_signals cx (p, b, m) = Inr (p', Some (load_trap_cx cx m), m')"
    using check_pending_user [OF assms(1,3,4,5)] assms(1,3,6,7)
    by (simp add: call_user_signal_handler_def index_def sig_ok_def p'_def m'_def h_def Let_def)
  moreover have "load_trap_cx cx m' = (load_trap_cx cx m)\<lparr>tc_sepc := h, tc_gprs := (tc_gprs (load_trap_cx cx m))[10 := of_nat n]\<rparr>"
    unfolding m'_def using load_trap_cx_store [OF assms(2)] by simp
  moreover have "\<not> bit (sg_signals p') n"
    using assms(3,5) by (simp add: p'_def bit_xor_flag can_deliver_def)
  moreover have "\<exists>m3. sigreturn_process cx (p2, Some (load_trap_cx cx m), m2)
          = Inr (tc_gprs (load_trap_cx cx m) ! 10, p2\<lparr>sg_handling_signal := - 1\<rparr>, Some (load_trap_cx cx m), m3)
        \<and> load_trap_cx cx m3 = load_trap_cx cx m" for p2 :: "'a sig_state_scheme" and m2
  proof -
    define m3 where "m3 = store_trap_cx cx (load_trap_cx cx m) m2"
    have m3: "load_trap_cx cx m3 = load_trap_cx cx m"
      unfolding m3_def by (rule load_store_trap_cx [OF assms(2) load_trap_cx_ok])
    have "load64 m3 (trap_cx_word cx 10) = tc_gprs (load_trap_cx cx m3) ! 10" by (simp add: load_trap_cx_def)
    then have "load64 m3 (trap_cx_word cx 10) = tc_gprs (load_trap_cx cx m) ! 10" by (simp only: m3)
    then have "sigreturn_process cx (p2, Some (load_trap_cx cx m), m2)
        = Inr (tc_gprs (load_trap_cx cx m) ! 10, p2\<lparr>sg_handling_signal := - 1\<rparr>, Some (load_trap_cx cx m), m3)"
      by (simp add: sigreturn_process_def Let_def flip: m3_def)
    then show ?thesis using m3 by blast
  qed
  moreover have "sg_handling_signal p' = of_nat n" by (simp add: p'_def)
  ultimately show ?thesis unfolding h_def by blast
qed

theorem signal_handler_roundtrip_witness:
  "\<exists>p' m'. check_pending_signals 0x80001000
      (sig0\<lparr>sg_signal_actions := SignalActionTable_default[1 := \<lparr>sa_handler = 0x10000, sa_mask = 0\<rparr>]\<rparr>, None, \<lambda>_. 0)
    = Inr (p', Some (load_trap_cx 0x80001000 (\<lambda>_. 0)), m') \<and> tc_sepc (load_trap_cx 0x80001000 m') = 0x10000"
proof -
  let ?p = "sig0\<lparr>sg_signal_actions := SignalActionTable_default[1 := \<lparr>sa_handler = 0x10000, sa_mask = 0\<rparr>]\<rparr>"
  have ok: "sig_ok ?p" by (simp add: sig_ok_def sig0_def SignalActionTable_default_def SIG_CNT_def)
  have "aligned8 0x80001000" by (simp add: aligned8_def)
  from signal_handler_roundtrip [OF ok this, of 1 None "\<lambda>_. 0"]
  show ?thesis by (auto simp: can_deliver0 SignalActionTable_default_def SIG_CNT_def)
qed

text \<open>
  C32. Kernel signals: in a round in which no user signal can be delivered, the process is killed if
  and only if \<open>SIGDEF\<close> or \<open>SIGKILL\<close> can be delivered (or it was killed already), it is
  stopped by \<open>SIGSTOP\<close> and else continued by \<open>SIGCONT\<close>, and exactly the delivered stop and
  continue signals are cleared. The thread gives up the processor if and only if the process is then
  stopped and not killed.
\<close>

theorem kernel_signals_delivered:
  assumes "sig_ok p" "\<forall>n < 32. can_deliver p n \<longrightarrow> n \<in> {0, 9, 18, 19}"
  shows "\<exists>p'. handle_signals_pass cx (p, b, m) = Inr (sg_frozen p' \<and> \<not> sg_killed p', (p', b, m))
    \<and> (sg_killed p' \<longleftrightarrow> sg_killed p \<or> can_deliver p 0 \<or> can_deliver p 9)
    \<and> (sg_frozen p' \<longleftrightarrow> can_deliver p 19 \<or> sg_frozen p \<and> \<not> can_deliver p 18)
    \<and> (\<forall>k < 32. bit (sg_signals p') k \<longleftrightarrow> bit (sg_signals p) k \<and> \<not> (k \<in> {18, 19} \<and> can_deliver p k))"
proof -
  define p' where "p' = kernel_step 19 (kernel_step 18 (kernel_step 9 (kernel_step 0 p)))"
  have cp: "check_pending_signals cx (p, b, m) = Inr (p', b, m)"
    unfolding p'_def by (rule check_pending_kernel [OF assms(1)]) (use assms(2) in blast)
  have cd: "can_deliver (kernel_step 0 p) 9 = can_deliver p 9"
    "can_deliver (kernel_step 9 (kernel_step 0 p)) 18 = can_deliver p 18"
    "can_deliver (kernel_step 18 (kernel_step 9 (kernel_step 0 p))) 19 = can_deliver p 19"
    by (simp_all add: kernel_step_keeps)
  have killed: "sg_killed p' \<longleftrightarrow> sg_killed p \<or> can_deliver p 0 \<or> can_deliver p 9"
    unfolding p'_def by (simp add: kernel_step_fields cd)
  have frozen: "sg_frozen p' \<longleftrightarrow> can_deliver p 19 \<or> sg_frozen p \<and> \<not> can_deliver p 18"
    unfolding p'_def by (auto simp: kernel_step_fields cd)
  have bits: "bit (sg_signals p') k \<longleftrightarrow> bit (sg_signals p) k \<and> \<not> (k \<in> {18, 19} \<and> can_deliver p k)" if "k < 32" for k
    unfolding p'_def using that by (auto simp: kernel_step_fields cd)
  show ?thesis using cp killed frozen bits by (intro exI [of _ p']) (auto simp: handle_signals_pass_def)
qed

theorem kernel_signals_delivered_witness:
  "\<exists>p'. handle_signals_pass 0 (sig0\<lparr>sg_signals := SIGCONT\<rparr>, None, \<lambda>_. 0) = Inr (False, (p', None, \<lambda>_. 0)) \<and> \<not> sg_frozen p'"
proof -
  have ok: "sig_ok (sig0\<lparr>sg_signals := SIGCONT\<rparr>)" using sig0_ok by (simp add: sig_ok_def)
  have cd: "can_deliver (sig0\<lparr>sg_signals := SIGCONT\<rparr>) k \<longleftrightarrow> k = 18" if "k < 32" for k
    using that by (simp add: can_deliver_def sig0_def SIGCONT_def bit_sig_flag)
  have "\<forall>n < 32. can_deliver (sig0\<lparr>sg_signals := SIGCONT\<rparr>) n \<longrightarrow> n \<in> {0, 9, 18, 19}" using cd by simp
  from kernel_signals_delivered [OF ok this, of 0 None "\<lambda>_. 0"]
  obtain p' where "handle_signals_pass 0 (sig0\<lparr>sg_signals := SIGCONT\<rparr>, None, \<lambda>_. 0)
      = Inr (sg_frozen p' \<and> \<not> sg_killed p', (p', None, \<lambda>_. 0))" "\<not> sg_frozen p'"
    by (auto simp: cd)
  then show ?thesis by auto
qed

text \<open>
  C33. A pending signal without a handler hides the ones after it: a stopped process that receives
  \<open>SIGCONT\<close> while \<open>SIGHUP\<close>, for which it has no handler, is pending stays stopped; a round of
  \<open>handle_signals\<close> changes nothing at all, so it is never continued.
\<close>

theorem sigcont_is_starved:
  assumes "sig_ok p" "can_deliver p 1" "\<not> can_deliver p 0" "sa_handler (sg_signal_actions p ! 1) = 0"
    "sg_frozen p" "\<not> sg_killed p"
  shows "handle_signals_pass cx (p, b, m) = Inr (True, (p, b, m))"
proof -
  have "check_pending_signals cx (p, b, m) = call_user_signal_handler cx 1 (sig_flag 1) (p, b, m)"
    by (rule check_pending_user [OF assms(1)]) (use assms(2,3) in \<open>auto simp: less_Suc_eq_0_disj\<close>)
  then show ?thesis
    using assms by (simp add: handle_signals_pass_def call_user_signal_handler_def index_def sig_ok_def)
qed

theorem sigcont_is_starved_witness:
  "contains (sg_signals sig0) SIGCONT \<and> handle_signals_pass 0 (sig0, None, \<lambda>_. 0) = Inr (True, (sig0, None, \<lambda>_. 0))"
proof -
  have "can_deliver sig0 k \<longleftrightarrow> k = 1 \<or> k = 18" if "k < 32" for k
    using can_deliver0 [OF that, of "sg_signal_actions sig0"] by simp
  then show ?thesis
    using sigcont_is_starved [OF sig0_ok, of 0 None "\<lambda>_. 0"] bit_signals0 [of 18]
    by (simp add: sig0_def SignalActionTable_default_def SIG_CNT_def SignalAction_default_def SIGCONT_def contains_flag)
qed

text \<open>
  C34. The signal fields stay well formed: the action table keeps its 32 entries and the number of
  the signal being handled stays in range (or \<open>-1\<close>) through delivery and through every signal
  system call, so that no round of delivery indexes the table out of bounds.
\<close>

theorem signal_state_well_formed:
  assumes "sig_ok p"
  shows "(\<exists>p' b' m'. check_pending_signals cx (p, b, m) = Inr (p', b', m') \<and> sig_ok p')
    \<and> sig_ok (snd (kill_process signum p)) \<and> sig_ok (snd (sigprocmask_process new_mask p))
    \<and> (\<forall>r p' m'. sigaction_process tr signum action old p m = Inr (r, p', m') \<longrightarrow> sig_ok p')
    \<and> (\<forall>r p' b' m'. sigreturn_process cx (p, b, m) = Inr (r, p', b', m') \<longrightarrow> sig_ok p')"
proof (intro conjI allI impI)
  show "\<exists>p' b' m'. check_pending_signals cx (p, b, m) = Inr (p', b', m') \<and> sig_ok p'"
    unfolding check_pending_signals_def by (rule check_pending_loop_ok [OF assms]) (simp add: SIG_CNT_def)
  show "sig_ok p'" if "sigaction_process tr signum action old p m = Inr (r, p', m')" for r p' m'
    using that assms by (auto simp: sigaction_process_def sig_ok_def Let_def split: if_splits)
  show "sig_ok p'" if "sigreturn_process cx (p, b, m) = Inr (r, p', b', m')" for r p' b' m'
    using that assms by (auto simp: sigreturn_process_def sig_ok_def Let_def)
qed (use assms in \<open>auto simp: kill_process_def sigprocmask_process_def sig_ok_def Let_def\<close>)

theorem signal_state_well_formed_witness:
  "\<exists>p' b' m'. check_pending_signals 0 (sig0, None, \<lambda>_. 0) = Inr (p', b', m') \<and> sig_ok p'"
  using signal_state_well_formed [OF sig0_ok, of 0 None "\<lambda>_. 0"] by blast

end
