(* ===== verification/Block_Cache.thy ===== *)
theory Block_Cache
  imports Memory
begin

text \<open>
  The block cache of \<open>easy-fs\<close>: block devices, cached blocks, the manager that keeps at most
  sixteen of them, and typed access to a block at an offset
  (\<open>easy-fs/src/block_dev.rs\<close>, \<open>easy-fs/src/block_cache.rs\<close>). The theorems say that the cache is
  transparent: through it the device looks like an array of blocks, and
  \<open>block_cache_sync_all\<close> brings the device itself to that state.
\<close>

abbreviation (input) BLOCK_SZ :: nat where "BLOCK_SZ \<equiv> 512"

section \<open>Block devices\<close>

text \<open>The trait \<open>BlockDevice\<close>: its two methods, on a device state of any type.\<close>

record 'd BlockDevice =
  read_block :: "usize \<Rightarrow> 'd \<Rightarrow> u8 list result"
  write_block :: "usize \<Rightarrow> u8 list \<Rightarrow> 'd \<Rightarrow> 'd result"

text \<open>
  \<open>BlockFile\<close>, the device of the image builder: a host file. Reading at a position returns the
  bytes that are there, writing beyond the end fills the gap with zeros.
\<close>

definition file_read_block :: "usize \<Rightarrow> u8 list \<Rightarrow> u8 list result" where
  "file_read_block disk_id bytes =
     (let buf = take BLOCK_SZ (drop (unat (disk_id * 512)) bytes)
      in rbind (rassert (length buf = BLOCK_SZ)) (\<lambda>_. Inr buf))"

definition file_write_block :: "usize \<Rightarrow> u8 list \<Rightarrow> u8 list \<Rightarrow> u8 list result" where
  "file_write_block disk_id buf bytes =
     (let pos = unat (disk_id * 512)
      in rbind (rassert (length buf = BLOCK_SZ)) (\<lambda>_.
           Inr (take pos (bytes @ replicate (pos - length bytes) 0) @ buf @ drop (pos + length buf) bytes)))"

definition BlockFile :: "u8 list BlockDevice" where
  "BlockFile = \<lparr>read_block = file_read_block, write_block = file_write_block\<rparr>"

section \<open>Cached blocks\<close>

record BlockCache =
  bc_cache :: "u8 list"
  bc_disk_id :: usize
  bc_modified :: bool

text \<open>
  A value of a type \<open>T\<close> inside a block: the size of \<open>T\<close>, and how its bytes are read and written.
  Padding bytes at the end of a value are not written.
\<close>

record 'a codec =
  sizeof :: nat
  decode :: "u8 list \<Rightarrow> 'a"
  encode :: "'a \<Rightarrow> u8 list"

definition put_bytes :: "nat \<Rightarrow> 'a list \<Rightarrow> 'a list \<Rightarrow> 'a list" where
  "put_bytes i ys xs = take i xs @ ys @ drop (i + length ys) xs"

definition BlockCache_new :: "'d BlockDevice \<Rightarrow> usize \<Rightarrow> 'd \<Rightarrow> BlockCache result" where
  "BlockCache_new bd disk_id dev =
     rbind (read_block bd disk_id dev) (\<lambda>cache.
       Inr \<lparr>bc_cache = cache, bc_disk_id = disk_id, bc_modified = False\<rparr>)"

definition addr_of_offset :: "usize \<Rightarrow> BlockCache \<Rightarrow> nat result" where
  "addr_of_offset offset bc = (if unat offset < length (bc_cache bc) then Inr (unat offset) else Inl IndexOutOfBounds)"

definition get_ref :: "'a codec \<Rightarrow> usize \<Rightarrow> BlockCache \<Rightarrow> 'a result" where
  "get_ref c offset bc =
     rbind (rassert (unat (offset + of_nat (sizeof c)) \<le> BLOCK_SZ)) (\<lambda>_.
     rbind (addr_of_offset offset bc) (\<lambda>addr.
       Inr (decode c (take (sizeof c) (drop addr (bc_cache bc))))))"

definition get_mut :: "'a codec \<Rightarrow> usize \<Rightarrow> BlockCache \<Rightarrow> ('a \<times> BlockCache) result" where
  "get_mut c offset bc =
     rbind (rassert (unat (offset + of_nat (sizeof c)) \<le> BLOCK_SZ)) (\<lambda>_.
     let bc = bc\<lparr>bc_modified := True\<rparr>
     in rbind (addr_of_offset offset bc) (\<lambda>addr.
          Inr (decode c (take (sizeof c) (drop addr (bc_cache bc))), bc)))"

text \<open>Writing through the reference that \<open>get_mut\<close> returns.\<close>

definition set_mut :: "'a codec \<Rightarrow> usize \<Rightarrow> 'a \<Rightarrow> BlockCache \<Rightarrow> BlockCache" where
  "set_mut c offset v bc = bc\<lparr>bc_cache := put_bytes (unat offset) (encode c v) (bc_cache bc)\<rparr>"

definition BlockCache_sync :: "'d BlockDevice \<Rightarrow> BlockCache \<Rightarrow> 'd \<Rightarrow> (BlockCache \<times> 'd) result" where
  "BlockCache_sync bd bc dev =
     (if bc_modified bc
      then rbind (write_block bd (bc_disk_id bc) (bc_cache bc) dev) (\<lambda>dev. Inr (bc\<lparr>bc_modified := False\<rparr>, dev))
      else Inr (bc, dev))"

definition BlockCache_drop :: "'d BlockDevice \<Rightarrow> BlockCache \<Rightarrow> 'd \<Rightarrow> 'd result" where
  "BlockCache_drop bd bc dev = rbind (BlockCache_sync bd bc dev) (\<lambda>(_, dev). Inr dev)"

section \<open>The manager\<close>

abbreviation (input) BLOCK_CACHE_SIZE :: nat where "BLOCK_CACHE_SIZE \<equiv> 16"

text \<open>
  The device, the queue of the global manager, and the blocks whose cache an enclosing access has
  locked: these are the ones with a reference besides that of the queue. A cache is evicted only
  when the queue has the last reference, so every cache in use is in the queue.
\<close>

record 'd bstate =
  bs_dev :: 'd
  bs_queue :: "(usize \<times> BlockCache) list"
  bs_held :: "usize list"

definition evict :: "'d BlockDevice \<Rightarrow> 'd bstate \<Rightarrow> 'd bstate result" where
  "evict bd st =
     (if length (bs_queue st) = BLOCK_CACHE_SIZE
      then case find_index (\<lambda>pair. fst pair \<notin> set (bs_held st)) (bs_queue st) of
          None \<Rightarrow> Inl ExplicitPanic
        | Some i \<Rightarrow> rbind (BlockCache_drop bd (snd (bs_queue st ! i)) (bs_dev st)) (\<lambda>dev.
            Inr (st\<lparr>bs_dev := dev, bs_queue := remove_at i (bs_queue st)\<rparr>))
      else Inr st)"

definition get_block_cache :: "'d BlockDevice \<Rightarrow> usize \<Rightarrow> 'd bstate \<Rightarrow> 'd bstate result" where
  "get_block_cache bd disk_id st =
     (if map_of (bs_queue st) disk_id \<noteq> None then Inr st
      else rbind (evict bd st) (\<lambda>st.
           rbind (BlockCache_new bd disk_id (bs_dev st)) (\<lambda>bc.
             Inr (st\<lparr>bs_queue := bs_queue st @ [(disk_id, bc)]\<rparr>))))"

text \<open>\<open>lock\<close> on a cache that an enclosing access holds spins for ever.\<close>

definition lock_cache :: "usize \<Rightarrow> 'd bstate \<Rightarrow> 'd bstate result" where
  "lock_cache disk_id st =
     (if disk_id \<in> set (bs_held st) then Inl Deadlock else Inr (st\<lparr>bs_held := disk_id # bs_held st\<rparr>))"

definition unlock_cache :: "'d bstate \<Rightarrow> 'd bstate" where
  "unlock_cache st = st\<lparr>bs_held := tl (bs_held st)\<rparr>"

definition cached :: "usize \<Rightarrow> 'd bstate \<Rightarrow> BlockCache" where
  "cached disk_id st = (case map_of (bs_queue st) disk_id of Some bc \<Rightarrow> bc
     | None \<Rightarrow> \<lparr>bc_cache = [], bc_disk_id = disk_id, bc_modified = False\<rparr>)"

definition set_cached :: "usize \<Rightarrow> BlockCache \<Rightarrow> 'd bstate \<Rightarrow> 'd bstate" where
  "set_cached disk_id bc st =
     st\<lparr>bs_queue := map (\<lambda>pair. if fst pair = disk_id then (disk_id, bc) else pair) (bs_queue st)\<rparr>"

text \<open>
  \<open>get_block_cache(disk_id, block_device).lock().read(offset, f)\<close>, and the same with
  \<open>modify\<close>: the closure \<open>f\<close> may use other blocks while this one is locked.
\<close>

definition BlockCache_read ::
  "'d BlockDevice \<Rightarrow> usize \<Rightarrow> 'a codec \<Rightarrow> usize \<Rightarrow> ('a \<Rightarrow> 'd bstate \<Rightarrow> ('b \<times> 'd bstate) result)
     \<Rightarrow> 'd bstate \<Rightarrow> ('b \<times> 'd bstate) result" where
  "BlockCache_read bd disk_id c offset f st =
     rbind (get_block_cache bd disk_id st) (\<lambda>st.
     rbind (lock_cache disk_id st) (\<lambda>st.
     rbind (get_ref c offset (cached disk_id st)) (\<lambda>v.
     rbind (f v st) (\<lambda>(r, st). Inr (r, unlock_cache st)))))"

definition BlockCache_modify ::
  "'d BlockDevice \<Rightarrow> usize \<Rightarrow> 'a codec \<Rightarrow> usize \<Rightarrow> ('a \<Rightarrow> 'd bstate \<Rightarrow> ('b \<times> 'a \<times> 'd bstate) result)
     \<Rightarrow> 'd bstate \<Rightarrow> ('b \<times> 'd bstate) result" where
  "BlockCache_modify bd disk_id c offset f st =
     rbind (get_block_cache bd disk_id st) (\<lambda>st.
     rbind (lock_cache disk_id st) (\<lambda>st.
     rbind (get_mut c offset (cached disk_id st)) (\<lambda>(v, bc).
     let st = set_cached disk_id bc st
     in rbind (f v st) (\<lambda>(r, v, st).
          Inr (r, unlock_cache (set_cached disk_id (set_mut c offset v (cached disk_id st)) st))))))"

text \<open>Closures that use no other block.\<close>

definition closure_ref :: "('a \<Rightarrow> 'b result) \<Rightarrow> 'a \<Rightarrow> 'd bstate \<Rightarrow> ('b \<times> 'd bstate) result" where
  "closure_ref g v st = rbind (g v) (\<lambda>r. Inr (r, st))"

definition closure_mut :: "('a \<Rightarrow> ('b \<times> 'a) result) \<Rightarrow> 'a \<Rightarrow> 'd bstate \<Rightarrow> ('b \<times> 'a \<times> 'd bstate) result" where
  "closure_mut g v st = rbind (g v) (\<lambda>(r, v'). Inr (r, v', st))"

fun sync_queue :: "'d BlockDevice \<Rightarrow> (usize \<times> BlockCache) list \<Rightarrow> 'd \<Rightarrow> ((usize \<times> BlockCache) list \<times> 'd) result" where
  "sync_queue bd [] dev = Inr ([], dev)"
| "sync_queue bd ((i, bc) # q) dev =
     rbind (BlockCache_sync bd bc dev) (\<lambda>(bc, dev).
     rbind (sync_queue bd q dev) (\<lambda>(q, dev). Inr ((i, bc) # q, dev)))"

definition block_cache_sync_all :: "'d BlockDevice \<Rightarrow> 'd bstate \<Rightarrow> 'd bstate result" where
  "block_cache_sync_all bd st =
     (if bs_held st \<noteq> [] then Inl Deadlock
      else rbind (sync_queue bd (bs_queue st) (bs_dev st)) (\<lambda>(q, dev). Inr (st\<lparr>bs_queue := q, bs_dev := dev\<rparr>)))"

section \<open>The cache is transparent\<close>

text \<open>
  What a device promises: a valid block has 512 bytes; writing a valid block changes that block
  only. The set of valid blocks never changes.
\<close>

locale block_device =
  fixes bd :: "'d BlockDevice" and valid :: "'d \<Rightarrow> usize \<Rightarrow> bool"
  assumes read_ok: "valid d i \<Longrightarrow> \<exists>b. read_block bd i d = Inr b \<and> length b = BLOCK_SZ"
    and write_ok: "valid d i \<Longrightarrow> length b = BLOCK_SZ \<Longrightarrow> \<exists>d'. write_block bd i b d = Inr d' \<and> valid d' = valid d
      \<and> read_block bd i d' = Inr b \<and> (\<forall>j. valid d j \<longrightarrow> j \<noteq> i \<longrightarrow> read_block bd j d' = read_block bd j d)"

text \<open>The block that a client sees, and the invariant of the manager.\<close>

definition disk_block :: "'d BlockDevice \<Rightarrow> 'd \<Rightarrow> usize \<Rightarrow> u8 list" where
  "disk_block bd d i = (case read_block bd i d of Inr b \<Rightarrow> b | Inl _ \<Rightarrow> [])"

definition block_view :: "'d BlockDevice \<Rightarrow> ('d \<Rightarrow> usize \<Rightarrow> bool) \<Rightarrow> 'd bstate \<Rightarrow> usize \<Rightarrow> u8 list" where
  "block_view bd valid st i =
     (if valid (bs_dev st) i
      then case map_of (bs_queue st) i of Some bc \<Rightarrow> bc_cache bc | None \<Rightarrow> disk_block bd (bs_dev st) i
      else [])"

definition entry_ok :: "'d BlockDevice \<Rightarrow> ('d \<Rightarrow> usize \<Rightarrow> bool) \<Rightarrow> 'd \<Rightarrow> usize \<times> BlockCache \<Rightarrow> bool" where
  "entry_ok bd valid d p \<longleftrightarrow>
     bc_disk_id (snd p) = fst p \<and> length (bc_cache (snd p)) = BLOCK_SZ \<and> valid d (fst p)
     \<and> (\<not> bc_modified (snd p) \<longrightarrow> read_block bd (fst p) d = Inr (bc_cache (snd p)))"

definition cache_inv :: "'d BlockDevice \<Rightarrow> ('d \<Rightarrow> usize \<Rightarrow> bool) \<Rightarrow> 'd bstate \<Rightarrow> bool" where
  "cache_inv bd valid st \<longleftrightarrow>
     distinct (map fst (bs_queue st)) \<and> length (bs_queue st) \<le> BLOCK_CACHE_SIZE
     \<and> (\<forall>p \<in> set (bs_queue st). entry_ok bd valid (bs_dev st) p)
     \<and> distinct (bs_held st) \<and> set (bs_held st) \<subseteq> fst ` set (bs_queue st)"

text \<open>
  The state seen by a client: the blocks it has locked and whether it may change them, the valid
  blocks, and their contents.
\<close>

definition rep :: "'d BlockDevice \<Rightarrow> ('d \<Rightarrow> usize \<Rightarrow> bool) \<Rightarrow> (usize \<times> bool) list \<Rightarrow> (usize \<Rightarrow> bool) \<Rightarrow> (usize \<Rightarrow> u8 list) \<Rightarrow> 'd bstate \<Rightarrow> bool" where
  "rep bd valid H D V st \<longleftrightarrow>
     cache_inv bd valid st \<and> bs_held st = map fst H \<and> (\<forall>i. (i, True) \<in> set H \<longrightarrow> bc_modified (cached i st))
     \<and> valid (bs_dev st) = D \<and> block_view bd valid st = V"

lemma remove_at_simps [simp]: "remove_at 0 (x # xs) = xs" "remove_at (Suc i) (x # xs) = x # remove_at i xs"
  by (simp_all add: remove_at_def)

lemma map_of_remove_at:
  "i < length q \<Longrightarrow> distinct (map fst q) \<Longrightarrow> map_of (remove_at i q) j = (if j = fst (q ! i) then None else map_of q j)"
proof (induction q arbitrary: i)
  case (Cons p q)
  show ?case
  proof (cases i)
    case 0
    then show ?thesis using Cons.prems by (auto simp: map_of_eq_None_iff)
  next
    case (Suc k)
    have "fst (q ! k) \<in> fst ` set q" using Cons.prems Suc by simp
    then have "fst (q ! k) \<noteq> fst p" using Cons.prems by (metis distinct.simps(2) list.simps(9) set_map)
    then show ?thesis using Cons.prems Suc Cons.IH [of k] by (cases p) (auto split: if_splits)
  qed
qed simp

lemma map_of_set_cached:
  "map_of (map (\<lambda>p. if fst p = i then (i, b) else p) q) j = (if j = i \<and> map_of q i \<noteq> None then Some b else map_of q j)"
  by (induction q) auto

lemma map_fst_set_cached [simp]:
  "map (fst \<circ> (\<lambda>p. if fst p = i then (i, b) else p)) q = map fst q"
  by (induction q) auto

lemma length_put_bytes: "i + length ys \<le> length xs \<Longrightarrow> length (put_bytes i ys xs) = length xs"
  by (simp add: put_bytes_def)

context block_device
begin

lemma disk_block_length: "valid d i \<Longrightarrow> length (disk_block bd d i) = BLOCK_SZ"
  using read_ok [of d i] by (auto simp: disk_block_def)

lemma rep_length: "rep bd valid H D V st \<Longrightarrow> D i \<Longrightarrow> length (V i) = BLOCK_SZ"
proof -
  assume r: "rep bd valid H D V st" "D i"
  have "length (bc_cache bc) = BLOCK_SZ" if "map_of (bs_queue st) i = Some bc" for bc
    using r(1) map_of_SomeD [OF that] by (auto simp: rep_def cache_inv_def entry_ok_def)
  then show ?thesis
    using r by (auto simp: rep_def block_view_def disk_block_length split: option.splits)
qed

lemma rep_invalid: "rep bd valid H D V st \<Longrightarrow> \<not> D i \<Longrightarrow> V i = []"
  by (auto simp: rep_def block_view_def)

lemma BlockCache_sync_ok:
  assumes "entry_ok bd valid d (i, bc)"
  shows "\<exists>bc' d'. BlockCache_sync bd bc d = Inr (bc', d') \<and> valid d' = valid d \<and> bc_cache bc' = bc_cache bc
    \<and> entry_ok bd valid d' (i, bc') \<and> \<not> bc_modified bc' \<and> (\<forall>j. valid d j \<longrightarrow> j \<noteq> i \<longrightarrow> read_block bd j d' = read_block bd j d)"
proof (cases "bc_modified bc")
  case True
  have "valid d i" "length (bc_cache bc) = BLOCK_SZ" "bc_disk_id bc = i" using assms by (simp_all add: entry_ok_def)
  with write_ok [of d i "bc_cache bc"] obtain d' where
    "write_block bd i (bc_cache bc) d = Inr d'" "valid d' = valid d" "read_block bd i d' = Inr (bc_cache bc)"
    "\<forall>j. valid d j \<longrightarrow> j \<noteq> i \<longrightarrow> read_block bd j d' = read_block bd j d" by auto
  then show ?thesis using True assms by (auto simp: BlockCache_sync_def entry_ok_def)
next
  case False
  then show ?thesis using assms by (auto simp: BlockCache_sync_def)
qed

lemma entry_ok_mono:
  "entry_ok bd valid d p \<Longrightarrow> valid d' = valid d \<Longrightarrow> read_block bd (fst p) d' = read_block bd (fst p) d \<Longrightarrow> entry_ok bd valid d' p"
  by (simp add: entry_ok_def)

lemma evict_ok:
  assumes "rep bd valid H D V st" "length H < BLOCK_CACHE_SIZE"
  shows "post (evict bd st) (\<lambda>st'. rep bd valid H D V st' \<and> length (bs_queue st') < BLOCK_CACHE_SIZE
    \<and> (\<forall>j. map_of (bs_queue st) j = None \<longrightarrow> map_of (bs_queue st') j = None))"
proof (cases "length (bs_queue st) = BLOCK_CACHE_SIZE")
  case False
  moreover have "length (bs_queue st) \<le> BLOCK_CACHE_SIZE" using assms(1) by (simp add: rep_def cache_inv_def)
  ultimately show ?thesis using assms by (simp add: evict_def)
next
  case True
  let ?q = "bs_queue st"
  have inv: "cache_inv bd valid st" and held: "bs_held st = map fst H" using assms(1) by (simp_all add: rep_def)
  then have dist: "distinct (map fst ?q)" by (simp add: cache_inv_def)
  have "\<exists>p \<in> set ?q. fst p \<notin> set (map fst H)"
  proof (rule ccontr)
    assume "\<not> ?thesis"
    then have "set (map fst ?q) \<subseteq> set (map fst H)" by auto
    then have "length ?q \<le> length H"
      using card_mono [of "set (map fst H)" "set (map fst ?q)"] distinct_card [OF dist] card_length [of "map fst H"] by simp
    then show False using True assms(2) by simp
  qed
  then obtain i where i: "find_index (\<lambda>pair. fst pair \<notin> set (map fst H)) ?q = Some i"
    by (metis (mono_tags, lifting) find_index_None not_Some_eq)
  note iq = find_index_SomeD [OF i]
  have nth: "entry_ok bd valid (bs_dev st) (?q ! i)"
    using inv iq(1) by (simp add: cache_inv_def)
  obtain k bc where kb: "?q ! i = (k, bc)" by (cases "?q ! i")
  obtain bc' d' where s: "BlockCache_sync bd bc (bs_dev st) = Inr (bc', d')" "valid d' = valid (bs_dev st)"
    "bc_cache bc' = bc_cache bc" "entry_ok bd valid d' (k, bc')" "\<not> bc_modified bc'"
    "\<forall>j. valid (bs_dev st) j \<longrightarrow> j \<noteq> k \<longrightarrow> read_block bd j d' = read_block bd j (bs_dev st)"
    using BlockCache_sync_ok [OF nth [unfolded kb]] by blast
  define st' where "st' = st\<lparr>bs_dev := d', bs_queue := remove_at i ?q\<rparr>"
  have ev: "evict bd st = Inr st'"
    using True i by (simp add: evict_def held BlockCache_drop_def kb s(1) st'_def)
  have mo: "map_of (bs_queue st') j = (if j = k then None else map_of ?q j)" for j
    using map_of_remove_at [OF iq(1) dist] by (simp add: st'_def kb)
  have mk: "map_of ?q k = Some bc"
    using nth_mem [OF iq(1)] kb dist by simp
  have view: "block_view bd valid st' = block_view bd valid st"
  proof
    fix j
    show "block_view bd valid st' j = block_view bd valid st j"
      using mo [of j] mk s(2-6) by (cases "j = k") (auto simp: block_view_def st'_def entry_ok_def disk_block_def split: option.splits)
  qed
  have set: "set (bs_queue st') \<subseteq> set ?q" by (simp add: st'_def set_remove_at_subset)
  have fst: "fst ` set (bs_queue st') = fst ` set ?q - {k}"
    using mo by (auto simp: dom_map_of_conv_image_fst [symmetric] split: if_splits)
  have "entry_ok bd valid d' p" if "p \<in> set (bs_queue st')" for p
  proof -
    have "fst p \<noteq> k" using that fst by blast
    have p: "entry_ok bd valid (bs_dev st) p" using that set inv by (auto simp: cache_inv_def)
    then have "valid (bs_dev st) (fst p)" by (simp add: entry_ok_def)
    then have "read_block bd (fst p) d' = read_block bd (fst p) (bs_dev st)" using s(6) \<open>fst p \<noteq> k\<close> by blast
    then show ?thesis by (rule entry_ok_mono [OF p s(2)])
  qed
  moreover have "distinct (map fst (bs_queue st'))"
    using distinct_remove_at [OF dist, of i] by (simp add: st'_def remove_at_def take_map drop_map)
  moreover have kH: "k \<notin> set (map fst H)" using iq(2) kb by simp
  ultimately have "cache_inv bd valid st'"
    using inv fst held length_remove_at [OF iq(1)] by (auto simp: cache_inv_def st'_def)
  moreover have "cached j st' = cached j st" if "j \<noteq> k" for j using mo [of j] that by (simp add: cached_def)
  then have "(j, True) \<in> set H \<Longrightarrow> bc_modified (cached j st')" for j
    using assms(1) kH by (metis fst_conv in_set_zipE list.set_map rev_image_eqI rep_def)
  ultimately show ?thesis
    using assms(1) view s(2) mo length_remove_at [OF iq(1)] True by (auto simp: ev rep_def st'_def)
qed

lemma get_block_cache_ok:
  assumes "rep bd valid H D V st" "length H < BLOCK_CACHE_SIZE" "D i"
  shows "post (get_block_cache bd i st) (\<lambda>st'. rep bd valid H D V st' \<and> map_of (bs_queue st') i \<noteq> None)"
proof (cases "map_of (bs_queue st) i")
  case (Some bc)
  then show ?thesis using assms(1) by (simp add: get_block_cache_def)
next
  case None
  have "post (BlockCache_new bd i (bs_dev st1)) (\<lambda>bc. rep bd valid H D V (st1\<lparr>bs_queue := bs_queue st1 @ [(i, bc)]\<rparr>))"
    if r: "rep bd valid H D V st1" "length (bs_queue st1) < BLOCK_CACHE_SIZE" "map_of (bs_queue st1) i = None" for st1
  proof -
    have v: "valid (bs_dev st1) i" using r(1) assms(3) by (auto simp: rep_def)
    then obtain b where b: "read_block bd i (bs_dev st1) = Inr b" "length b = BLOCK_SZ" using read_ok by blast
    define st2 where "st2 = st1\<lparr>bs_queue := bs_queue st1 @ [(i, \<lparr>bc_cache = b, bc_disk_id = i, bc_modified = False\<rparr>)]\<rparr>"
    have "cache_inv bd valid st2"
    proof -
      have "cache_inv bd valid st1" using r(1) by (simp add: rep_def)
      then show ?thesis using r(2,3) b v by (auto simp: st2_def cache_inv_def entry_ok_def map_of_eq_None_iff)
    qed
    moreover have "block_view bd valid st2 = block_view bd valid st1"
      using r(3) b v by (auto simp: fun_eq_iff st2_def block_view_def map_add_def disk_block_def split: option.splits)
    moreover have "bc_modified (cached j st2)" if "bc_modified (cached j st1)" for j
      using that by (auto simp: cached_def st2_def map_add_def split: option.splits)
    ultimately show ?thesis using r(1) b by (simp add: BlockCache_new_def rep_def st2_def)
  qed
  then show ?thesis
    using None by (auto simp: get_block_cache_def map_add_def intro!: post_mono [OF evict_ok [OF assms(1,2)]] elim: post_mono)
qed

lemma held_update [simp]:
  "block_view bd valid (st\<lparr>bs_held := h\<rparr>) = block_view bd valid st" "cached j (st\<lparr>bs_held := h\<rparr>) = cached j st"
  by (auto simp: block_view_def cached_def fun_eq_iff cong: option.case_cong)

lemma cache_inv_held:
  "cache_inv bd valid st \<Longrightarrow> distinct h \<Longrightarrow> set h \<subseteq> fst ` set (bs_queue st) \<Longrightarrow> cache_inv bd valid (st\<lparr>bs_held := h\<rparr>)"
  by (simp add: cache_inv_def)

lemma rep_held:
  assumes "rep bd valid H D V st"
  shows "cache_inv bd valid st \<and> distinct (map fst H) \<and> fst ` set H \<subseteq> fst ` set (bs_queue st)"
proof -
  have r: "cache_inv bd valid st" "bs_held st = map fst H" using assms by (simp_all add: rep_def)
  then have "distinct (bs_held st)" "set (bs_held st) \<subseteq> fst ` set (bs_queue st)" by (simp_all add: cache_inv_def)
  then show ?thesis using r by simp
qed

lemma rep_lock:
  assumes "rep bd valid H D V st" "map_of (bs_queue st) i \<noteq> None" "i \<notin> fst ` set H"
  shows "rep bd valid ((i, False) # H) D V (st\<lparr>bs_held := i # bs_held st\<rparr>)"
proof -
  have h: "bs_held st = map fst H" using assms(1) by (simp add: rep_def)
  have "i \<in> fst ` set (bs_queue st)" using assms(2) by (simp add: map_of_eq_None_iff)
  then have "cache_inv bd valid (st\<lparr>bs_held := i # map fst H\<rparr>)"
    using rep_held [OF assms(1)] assms(3) by (intro cache_inv_held) simp_all
  then show ?thesis using assms(1) by (simp add: rep_def h)
qed

lemma rep_unlock:
  assumes "rep bd valid (p # H) D V st"
  shows "rep bd valid H D V (unlock_cache st)"
proof -
  have "cache_inv bd valid (st\<lparr>bs_held := map fst H\<rparr>)"
    using rep_held [OF assms] by (intro cache_inv_held) simp_all
  then show ?thesis using assms by (simp add: rep_def unlock_cache_def)
qed

lemma rep_cached:
  assumes "rep bd valid H D V st" "i \<in> fst ` set H"
  shows "map_of (bs_queue st) i = Some (cached i st)" "bc_cache (cached i st) = V i" "D i"
    "entry_ok bd valid (bs_dev st) (i, cached i st)"
proof -
  have inv: "cache_inv bd valid st" and "i \<in> fst ` set (bs_queue st)" and V: "V = block_view bd valid st" and D: "D = valid (bs_dev st)"
    using rep_held [OF assms(1)] assms by (auto simp: rep_def)
  then obtain bc where bc: "map_of (bs_queue st) i = Some bc"
    by (metis map_of_eq_None_iff not_Some_eq)
  then show mo: "map_of (bs_queue st) i = Some (cached i st)" by (simp add: cached_def)
  then show ok: "entry_ok bd valid (bs_dev st) (i, cached i st)"
    using inv map_of_SomeD [OF mo] by (auto simp: cache_inv_def)
  then show "D i" by (simp add: D entry_ok_def)
  then show "bc_cache (cached i st) = V i" using mo by (simp add: V block_view_def D)
qed

lemma rep_set_cached:
  assumes r: "rep bd valid ((i, m) # H) D V st"
    and bc: "bc_disk_id bc = i" "length (bc_cache bc) = BLOCK_SZ" "bc_modified bc"
  shows "rep bd valid ((i, True) # H) D (V(i := bc_cache bc)) (set_cached i bc st)"
proof -
  have c: "map_of (bs_queue st) i = Some (cached i st)" "D i" using rep_cached [OF r, of i] by simp_all
  have st: "bs_dev (set_cached i bc st) = bs_dev st" "bs_held (set_cached i bc st) = bs_held st"
    "map_of (bs_queue (set_cached i bc st)) j = (if j = i then Some bc else map_of (bs_queue st) j)" for j
    using c(1) by (simp_all add: set_cached_def map_of_set_cached)
  have set: "p = (i, bc) \<or> p \<in> set (bs_queue st)" if "p \<in> set (bs_queue (set_cached i bc st))" for p
    using that by (auto simp: set_cached_def split: if_splits)
  have D: "D = valid (bs_dev st)" using r by (simp add: rep_def)
  have "entry_ok bd valid (bs_dev st) p" if "p \<in> set (bs_queue (set_cached i bc st))" for p
    using set [OF that] r bc c(2) by (auto simp: rep_def cache_inv_def entry_ok_def)
  moreover have fsts: "map fst (bs_queue (set_cached i bc st)) = map fst (bs_queue st)" by (simp add: set_cached_def)
  moreover have "fst ` set (bs_queue (set_cached i bc st)) = fst ` set (bs_queue st)"
    by (metis fsts list.set_map)
  moreover have "length (bs_queue (set_cached i bc st)) = length (bs_queue st)" by (simp add: set_cached_def)
  ultimately have "cache_inv bd valid (set_cached i bc st)"
    using rep_held [OF r] st by (simp add: cache_inv_def)
  moreover have "block_view bd valid (set_cached i bc st) = V(i := bc_cache bc)"
  proof
    fix j
    have "V j = block_view bd valid st j" using r by (auto simp: rep_def)
    then show "block_view bd valid (set_cached i bc st) j = (V(i := bc_cache bc)) j"
      using c(2) D by (simp add: block_view_def st cong: option.case_cong)
  qed
  moreover have "cached j (set_cached i bc st) = (if j = i then bc else cached j st)" for j
    by (simp add: cached_def st(3))
  ultimately show ?thesis using r st(1,2) bc(3) by (auto simp: rep_def)
qed

lemma lock_get_ok:
  assumes "rep bd valid H D V st" "length H < BLOCK_CACHE_SIZE" "D i" "i \<notin> fst ` set H"
  shows "post (get_block_cache bd i st) (\<lambda>st. post (lock_cache i st) (rep bd valid ((i, False) # H) D V))"
proof (rule post_mono [OF get_block_cache_ok [OF assms(1-3)]])
  fix st1 assume "rep bd valid H D V st1 \<and> map_of (bs_queue st1) i \<noteq> None"
  moreover from this have "bs_held st1 = map fst H" by (simp add: rep_def)
  ultimately show "post (lock_cache i st1) (rep bd valid ((i, False) # H) D V)"
    using assms(4) rep_lock [of H D V st1 i] by (simp add: lock_cache_def)
qed

text \<open>
  The rules for a typed access: the closure runs with the block locked, on the value at the
  offset; what \<open>modify\<close> leaves in the value is written back into the block.
\<close>

lemma BlockCache_read_rule:
  assumes "rep bd valid H D V st" "length H < BLOCK_CACHE_SIZE" "D i" "i \<notin> fst ` set H"
    "unat (off + of_nat (sizeof c)) \<le> BLOCK_SZ" "unat off < BLOCK_SZ"
    "\<And>st. rep bd valid ((i, False) # H) D V st \<Longrightarrow> post (f (decode c (take (sizeof c) (drop (unat off) (V i)))) st)
       (\<lambda>(r, st). \<exists>V'. rep bd valid ((i, False) # H) D V' st \<and> (\<forall>st. rep bd valid H D V' st \<longrightarrow> Q (r, st)))"
  shows "post (BlockCache_read bd i c off f st) Q"
proof -
  have "post (get_ref c off (cached i st1)) (\<lambda>v. post (f v st1) (\<lambda>(r, st). Q (r, unlock_cache st)))"
    if r: "rep bd valid ((i, False) # H) D V st1" for st1
  proof -
    have "bc_cache (cached i st1) = V i" "length (V i) = BLOCK_SZ"
      using rep_cached [OF r, of i] rep_length [OF r assms(3)] by simp_all
    moreover have "post (f (decode c (take (sizeof c) (drop (unat off) (V i)))) st1) (\<lambda>(r, st). Q (r, unlock_cache st))"
      using assms(7) [OF r] by (elim post_mono) (auto intro: rep_unlock)
    ultimately show ?thesis using assms(5,6) by (simp add: get_ref_def addr_of_offset_def)
  qed
  then show ?thesis
    by (simp add: BlockCache_read_def case_prod_unfold) (rule post_mono [OF lock_get_ok [OF assms(1-4)]], elim post_mono)
qed

lemma modify_write_back:
  assumes "rep bd valid ((i, True) # H) D V st" "unat off + sizeof c \<le> BLOCK_SZ" "length (encode c v) \<le> sizeof c"
  shows "rep bd valid H D (V(i := put_bytes (unat off) (encode c v) (V i)))
    (unlock_cache (set_cached i (set_mut c off v (cached i st)) st))"
proof -
  let ?b = "set_mut c off v (cached i st)"
  note r = rep_cached [OF assms(1), of i]
  have m: "bc_modified (cached i st)" using assms(1) by (simp add: rep_def)
  have b: "bc_cache ?b = put_bytes (unat off) (encode c v) (V i)" "bc_disk_id ?b = i" "bc_modified ?b"
    using r m by (simp_all add: set_mut_def entry_ok_def)
  have "length (V i) = BLOCK_SZ" using rep_length [OF assms(1)] r(3) by simp
  then have "length (bc_cache ?b) = BLOCK_SZ" using assms(2,3) by (simp add: b(1) length_put_bytes)
  then have "rep bd valid ((i, True) # H) D (V(i := bc_cache ?b)) (set_cached i ?b st)"
    using rep_set_cached [OF assms(1), of ?b] b by simp
  then show ?thesis unfolding b(1) by (rule rep_unlock)
qed

lemma BlockCache_modify_rule:
  assumes "rep bd valid H D V st" "length H < BLOCK_CACHE_SIZE" "D i" "i \<notin> fst ` set H"
    "unat (off + of_nat (sizeof c)) \<le> BLOCK_SZ" "unat off + sizeof c \<le> BLOCK_SZ" "unat off < BLOCK_SZ"
    "\<And>st. rep bd valid ((i, True) # H) D V st \<Longrightarrow> post (f (decode c (take (sizeof c) (drop (unat off) (V i)))) st)
       (\<lambda>(r, v, st). length (encode c v) \<le> sizeof c \<and> (\<exists>V'. rep bd valid ((i, True) # H) D V' st
          \<and> (\<forall>st. rep bd valid H D (V'(i := put_bytes (unat off) (encode c v) (V' i))) st \<longrightarrow> Q (r, st))))"
  shows "post (BlockCache_modify bd i c off f st) Q"
proof -
  have "post (get_mut c off (cached i st1)) (\<lambda>(v, bc). post (f v (set_cached i bc st1))
          (\<lambda>(r, v, st). Q (r, unlock_cache (set_cached i (set_mut c off v (cached i st)) st))))"
    if r: "rep bd valid ((i, False) # H) D V st1" for st1
  proof -
    let ?bc = "(cached i st1)\<lparr>bc_modified := True\<rparr>"
    have c1: "bc_cache (cached i st1) = V i" "length (V i) = BLOCK_SZ" "bc_disk_id (cached i st1) = i"
      using rep_cached [OF r, of i] rep_length [OF r assms(3)] by (simp_all add: entry_ok_def)
    have "V(i := V i) = V" by simp
    then have r1: "rep bd valid ((i, True) # H) D V (set_cached i ?bc st1)"
      using rep_set_cached [OF r, of ?bc] c1 by simp
    have "post (f (decode c (take (sizeof c) (drop (unat off) (V i)))) (set_cached i ?bc st1))
        (\<lambda>(r, v, st). Q (r, unlock_cache (set_cached i (set_mut c off v (cached i st)) st)))"
      using assms(8) [OF r1] by (elim post_mono) (auto intro: modify_write_back assms(6))
    then show ?thesis using c1 assms(5,7) by (simp add: get_mut_def addr_of_offset_def)
  qed
  then show ?thesis
    by (simp add: BlockCache_modify_def case_prod_unfold Let_def) (rule post_mono [OF lock_get_ok [OF assms(1-4)]], elim post_mono)
qed

text \<open>\<open>block_cache_sync_all\<close>.\<close>

lemma sync_queue_ok:
  "distinct (map fst q) \<Longrightarrow> \<forall>p \<in> set q. entry_ok bd valid d p \<Longrightarrow>
   post (sync_queue bd q d) (\<lambda>(q', d'). valid d' = valid d \<and> map fst q' = map fst q
     \<and> map (\<lambda>p. (fst p, bc_cache (snd p))) q' = map (\<lambda>p. (fst p, bc_cache (snd p))) q
     \<and> (\<forall>p \<in> set q'. entry_ok bd valid d' p \<and> \<not> bc_modified (snd p))
     \<and> (\<forall>j. valid d j \<longrightarrow> j \<notin> fst ` set q \<longrightarrow> read_block bd j d' = read_block bd j d))"
proof (induction q arbitrary: d)
  case Nil
  then show ?case by simp
next
  case (Cons p q)
  obtain i bc where p: "p = (i, bc)" by (cases p)
  have "entry_ok bd valid d (i, bc)" using Cons.prems p by simp
  from BlockCache_sync_ok [OF this] obtain bc1 d1 where s: "BlockCache_sync bd bc d = Inr (bc1, d1)" "valid d1 = valid d"
    "bc_cache bc1 = bc_cache bc" "entry_ok bd valid d1 (i, bc1)" "\<not> bc_modified bc1"
    "\<forall>j. valid d j \<longrightarrow> j \<noteq> i \<longrightarrow> read_block bd j d1 = read_block bd j d" by blast
  have "entry_ok bd valid d1 r" if "r \<in> set q" for r
  proof -
    have "fst r \<noteq> i" using that Cons.prems(1) p by auto
    moreover have r: "entry_ok bd valid d r" using that Cons.prems(2) by simp
    moreover have "valid d (fst r)" using r by (simp add: entry_ok_def)
    ultimately show ?thesis using s(6) by (intro entry_ok_mono [OF r s(2)]) blast
  qed
  then have ih: "post (sync_queue bd q d1) (\<lambda>(q', d'). valid d' = valid d1 \<and> map fst q' = map fst q
     \<and> map (\<lambda>p. (fst p, bc_cache (snd p))) q' = map (\<lambda>p. (fst p, bc_cache (snd p))) q
     \<and> (\<forall>p \<in> set q'. entry_ok bd valid d' p \<and> \<not> bc_modified (snd p))
     \<and> (\<forall>j. valid d1 j \<longrightarrow> j \<notin> fst ` set q \<longrightarrow> read_block bd j d' = read_block bd j d1))"
    using Cons.prems(1) by (intro Cons.IH) simp_all
  have step: "entry_ok bd valid d' (i, bc1)"
    if "valid d' = valid d1" "\<forall>j. valid d1 j \<longrightarrow> j \<notin> fst ` set q \<longrightarrow> read_block bd j d' = read_block bd j d1" for d'
  proof (rule entry_ok_mono [OF s(4) that(1)])
    have "i \<notin> fst ` set q" using Cons.prems(1) p by simp
    moreover have "valid d1 i" using s(4) by (simp add: entry_ok_def)
    ultimately show "read_block bd (fst (i, bc1)) d' = read_block bd (fst (i, bc1)) d1" using that(2) by simp
  qed
  show ?case
    using s p by (auto intro!: post_mono [OF ih] step)
qed

lemma block_cache_sync_all_ok:
  assumes "rep bd valid [] D V st"
  shows "post (block_cache_sync_all bd st) (\<lambda>st'. rep bd valid [] D V st' \<and> (\<forall>i. D i \<longrightarrow> read_block bd i (bs_dev st') = Inr (V i)))"
proof -
  let ?f = "\<lambda>p :: usize \<times> BlockCache. (fst p, bc_cache (snd p))"
  have h: "bs_held st = []" "valid (bs_dev st) = D" and inv: "cache_inv bd valid st" and V: "V = block_view bd valid st"
    using assms by (simp_all add: rep_def)
  have *: "rep bd valid [] D V st' \<and> (\<forall>i. D i \<longrightarrow> read_block bd i (bs_dev st') = Inr (V i))"
    if s: "st' = st\<lparr>bs_queue := q', bs_dev := d'\<rparr>" "valid d' = valid (bs_dev st)" "map fst q' = map fst (bs_queue st)"
      "map ?f q' = map ?f (bs_queue st)" "\<forall>p \<in> set q'. entry_ok bd valid d' p \<and> \<not> bc_modified (snd p)"
      "\<forall>j. valid (bs_dev st) j \<longrightarrow> j \<notin> fst ` set (bs_queue st) \<longrightarrow> read_block bd j d' = read_block bd j (bs_dev st)" for st' q' d'
  proof -
    have mo: "map_of (map ?f q) j = map_option bc_cache (map_of q j)" for q j by (induction q) auto
    have view: "map_option bc_cache (map_of q' j) = map_option bc_cache (map_of (bs_queue st) j)" for j
      using mo [of q' j] mo [of "bs_queue st" j] s(4) by simp
    have none: "map_of (bs_queue st) j = None \<longleftrightarrow> j \<notin> fst ` set (bs_queue st)" for j by (rule map_of_eq_None_iff)
    have V': "block_view bd valid st' = V"
    proof
      fix j
      show "block_view bd valid st' j = V j"
        using view [of j] none [of j] s(1,2,6) by (auto simp: V block_view_def disk_block_def split: option.splits)
    qed
    have "length q' = length (bs_queue st)" using s(3) by (metis length_map)
    then have inv': "cache_inv bd valid st'" using inv s h by (simp add: cache_inv_def)
    have "read_block bd i (bs_dev st') = Inr (V i)" if i: "D i" for i
    proof (cases "map_of q' i")
      case None
      obtain b where "read_block bd i d' = Inr b" using read_ok [of d' i] i h s(2) by auto
      then show ?thesis using None i h s(1,2) by (simp add: V' [symmetric] block_view_def disk_block_def)
    next
      case (Some bc)
      then have "entry_ok bd valid d' (i, bc)" "\<not> bc_modified bc" using bspec [OF s(5) map_of_SomeD [OF Some]] by simp_all
      then show ?thesis using Some i h s(1,2) by (simp add: V' [symmetric] block_view_def entry_ok_def)
    qed
    then show ?thesis using inv' V' h s(1,2) by (simp add: rep_def)
  qed
  have q: "distinct (map fst (bs_queue st))" "\<forall>p \<in> set (bs_queue st). entry_ok bd valid (bs_dev st) p"
    using inv by (simp_all add: cache_inv_def)
  have "post (sync_queue bd (bs_queue st) (bs_dev st)) (\<lambda>(q', d'). let st' = st\<lparr>bs_queue := q', bs_dev := d'\<rparr>
      in rep bd valid [] D V st' \<and> (\<forall>i. D i \<longrightarrow> read_block bd i (bs_dev st') = Inr (V i)))"
    by (rule post_mono [OF sync_queue_ok [OF q]]) (unfold Let_def case_prod_unfold, rule * [OF refl], simp_all)
  then show ?thesis using h(1) by (simp add: block_cache_sync_all_def case_prod_unfold Let_def)
qed

text \<open>The rules for closures that use no other block.\<close>

lemma read_pure:
  assumes "rep bd valid H D V st" "length H < BLOCK_CACHE_SIZE" "D i" "i \<notin> fst ` set H" "unat off + sizeof c \<le> BLOCK_SZ" "0 < sizeof c"
    "post (g (decode c (take (sizeof c) (drop (unat off) (V i))))) (\<lambda>r. \<forall>st'. rep bd valid H D V st' \<longrightarrow> Q (r, st'))"
  shows "post (BlockCache_read bd i c off (closure_ref g) st) Q"
proof (rule BlockCache_read_rule [OF assms(1-4)])
  show "unat (off + of_nat (sizeof c)) \<le> BLOCK_SZ" using assms(5) by (simp add: unat_word_ariths unat_of_nat)
  show "post (closure_ref g (decode c (take (sizeof c) (drop (unat off) (V i)))) st1)
     (\<lambda>(r, st). \<exists>V'. rep bd valid ((i, False) # H) D V' st \<and> (\<forall>st. rep bd valid H D V' st \<longrightarrow> Q (r, st)))"
    if "rep bd valid ((i, False) # H) D V st1" for st1
    using assms(7) that unfolding closure_ref_def post_rbind by (elim post_mono) auto
qed (use assms in auto)

lemma modify_pure:
  assumes "rep bd valid H D V st" "length H < BLOCK_CACHE_SIZE" "D i" "i \<notin> fst ` set H" "unat off + sizeof c \<le> BLOCK_SZ" "0 < sizeof c"
    "post (g (decode c (take (sizeof c) (drop (unat off) (V i))))) (\<lambda>(r, v'). length (encode c v') \<le> sizeof c
       \<and> (\<forall>st'. rep bd valid H D (V(i := put_bytes (unat off) (encode c v') (V i))) st' \<longrightarrow> Q (r, st')))"
  shows "post (BlockCache_modify bd i c off (closure_mut g) st) Q"
proof (rule BlockCache_modify_rule [OF assms(1-4)])
  show "unat (off + of_nat (sizeof c)) \<le> BLOCK_SZ" using assms(5) by (simp add: unat_word_ariths unat_of_nat)
  show "post (closure_mut g (decode c (take (sizeof c) (drop (unat off) (V i)))) st1)
     (\<lambda>(r, v, st). length (encode c v) \<le> sizeof c \<and> (\<exists>V'. rep bd valid ((i, True) # H) D V' st
          \<and> (\<forall>st. rep bd valid H D (V'(i := put_bytes (unat off) (encode c v) (V' i))) st \<longrightarrow> Q (r, st))))"
    if "rep bd valid ((i, True) # H) D V st1" for st1
    using assms(7) that unfolding closure_mut_def post_rbind by (elim post_mono) auto
qed (use assms in auto)

end

text \<open>The host file is such a device: its valid blocks are those that are completely in the file.\<close>

definition file_valid :: "u8 list \<Rightarrow> usize \<Rightarrow> bool" where
  "file_valid bytes i \<longleftrightarrow> 512 * unat i + 512 \<le> length bytes \<and> length bytes < 2 ^ 64"

lemma file_pos: "file_valid bytes i \<Longrightarrow> unat (i * 512) = 512 * unat i"
  by (simp add: file_valid_def unat_word_ariths)

lemma file_write_read:
  assumes "file_valid bytes i" "length b = BLOCK_SZ"
  shows "\<exists>bytes'. file_write_block i b bytes = Inr bytes' \<and> length bytes' = length bytes \<and> file_read_block i bytes' = Inr b
    \<and> (\<forall>j. file_valid bytes j \<longrightarrow> j \<noteq> i \<longrightarrow> file_read_block j bytes' = file_read_block j bytes)"
proof -
  let ?p = "512 * unat i"
  let ?f = "take ?p bytes @ b @ drop (?p + 512) bytes"
  have p: "?p + 512 \<le> length bytes" using assms(1) by (simp add: file_valid_def)
  then have w: "file_write_block i b bytes = Inr ?f" using assms by (simp add: file_write_block_def file_pos Let_def)
  have r: "file_read_block i ?f = Inr b" using p assms by (simp add: file_read_block_def file_pos)
  have other: "file_read_block j ?f = file_read_block j bytes" if "file_valid bytes j" "j \<noteq> i" for j
  proof -
    have "unat j \<noteq> unat i" using that(2) by (simp add: word_unat_eq_iff)
    then consider "512 * unat j + 512 \<le> ?p" | "?p + 512 \<le> 512 * unat j" by linarith
    then have "take 512 (drop (512 * unat j) ?f) = take 512 (drop (512 * unat j) bytes)"
    proof cases
      case 1
      then show ?thesis using p by (simp add: take_drop min_def)
    next
      case 2
      then have "drop (512 * unat j) ?f = drop (512 * unat j - ?p - 512) (drop (?p + 512) bytes)"
        using p assms(2) by simp
      also have "\<dots> = drop (512 * unat j) bytes" using 2 by simp
      finally show ?thesis by simp
    qed
    then show ?thesis using that(1) by (simp add: file_read_block_def file_pos)
  qed
  then show ?thesis using w r p assms(2) by auto
qed

interpretation bf: block_device BlockFile file_valid
proof
  show "\<exists>b. read_block BlockFile i d = Inr b \<and> length b = BLOCK_SZ" if "file_valid d i" for d i
    using that by (simp add: BlockFile_def file_read_block_def file_pos) (auto simp: file_valid_def)
  show "\<exists>d'. write_block BlockFile i b d = Inr d' \<and> file_valid d' = file_valid d \<and> read_block BlockFile i d' = Inr b
      \<and> (\<forall>j. file_valid d j \<longrightarrow> j \<noteq> i \<longrightarrow> read_block BlockFile j d' = read_block BlockFile j d)"
    if "file_valid d i" "length b = BLOCK_SZ" for d i b
    using file_write_read [OF that] by (auto simp: BlockFile_def file_valid_def fun_eq_iff)
qed

text \<open>
  C3. The block cache is transparent. From any reachable state of the manager, whatever is cached
  and modified in it: modifying a value inside a block changes that block and no other in what
  clients see, evictions included; reading any block returns what clients see; and
  \<open>block_cache_sync_all\<close> brings every block of the device to what clients see.
\<close>

theorem block_cache_transparent:
  assumes "cache_inv BlockFile file_valid st" "bs_held st = []" "file_valid (bs_dev st) i" "file_valid (bs_dev st) j"
    "unat off + sizeof c \<le> BLOCK_SZ" "0 < sizeof c" "length (encode c (g v)) \<le> sizeof c"
    "v = decode c (take (sizeof c) (drop (unat off) (block_view BlockFile file_valid st i)))"
  shows "\<exists>st1 st2 st3. BlockCache_modify BlockFile i c off (closure_mut (\<lambda>v. Inr (v, g v))) st = Inr (v, st1)
    \<and> block_view BlockFile file_valid st1
        = (block_view BlockFile file_valid st)(i := put_bytes (unat off) (encode c (g v)) (block_view BlockFile file_valid st i))
    \<and> BlockCache_read BlockFile j c off (closure_ref Inr) st1
        = Inr (decode c (take (sizeof c) (drop (unat off) (block_view BlockFile file_valid st1 j))), st2)
    \<and> block_view BlockFile file_valid st2 = block_view BlockFile file_valid st1
    \<and> block_cache_sync_all BlockFile st2 = Inr st3 \<and> cache_inv BlockFile file_valid st3
    \<and> (\<forall>k. file_valid (bs_dev st) k \<longrightarrow> read_block BlockFile k (bs_dev st3) = Inr (block_view BlockFile file_valid st1 k))"
proof -
  let ?D = "file_valid (bs_dev st)" and ?V = "block_view BlockFile file_valid st"
  let ?V' = "?V(i := put_bytes (unat off) (encode c (g v)) (?V i))"
  have r: "rep BlockFile file_valid [] ?D ?V st" using assms(1,2) by (simp add: rep_def)
  have "post (BlockCache_modify BlockFile i c off (closure_mut (\<lambda>v. Inr (v, g v))) st)
      (\<lambda>(x, st1). x = v \<and> rep BlockFile file_valid [] ?D ?V' st1)"
    using assms by (intro bf.modify_pure [OF r]) auto
  then obtain st1 where st1: "BlockCache_modify BlockFile i c off (closure_mut (\<lambda>v. Inr (v, g v))) st = Inr (v, st1)"
    "rep BlockFile file_valid [] ?D ?V' st1" by (auto simp: post_iff)
  have "post (BlockCache_read BlockFile j c off (closure_ref Inr) st1)
      (\<lambda>(x, st2). x = decode c (take (sizeof c) (drop (unat off) (?V' j))) \<and> rep BlockFile file_valid [] ?D ?V' st2)"
    using assms by (intro bf.read_pure [OF st1(2)]) simp_all
  then obtain st2 where st2: "BlockCache_read BlockFile j c off (closure_ref Inr) st1
      = Inr (decode c (take (sizeof c) (drop (unat off) (?V' j))), st2)" "rep BlockFile file_valid [] ?D ?V' st2"
    by (auto simp: post_iff)
  from bf.block_cache_sync_all_ok [OF st2(2)] obtain st3 where "block_cache_sync_all BlockFile st2 = Inr st3"
    "rep BlockFile file_valid [] ?D ?V' st3" "\<forall>k. ?D k \<longrightarrow> read_block BlockFile k (bs_dev st3) = Inr (?V' k)"
    by (auto simp: post_iff)
  then show ?thesis using st1 st2 by (auto simp: rep_def)
qed

text \<open>A fresh manager over a disk of two blocks, and the first byte of a block.\<close>

definition u8_codec :: "u8 codec" where
  "u8_codec = \<lparr>sizeof = 1, decode = hd, encode = (\<lambda>b. [b])\<rparr>"

theorem block_cache_transparent_witness:
  "\<exists>st1. BlockCache_modify BlockFile 0 u8_codec 0 (closure_mut (\<lambda>v. Inr (v, 7)))
      \<lparr>bs_dev = replicate 1024 0, bs_queue = [], bs_held = []\<rparr> = Inr (0, st1)"
  using block_cache_transparent [of "\<lparr>bs_dev = replicate 1024 0, bs_queue = [], bs_held = []\<rparr>" 0 1 0 u8_codec "\<lambda>_. 7" 0]
  by (auto simp: cache_inv_def file_valid_def u8_codec_def block_view_def disk_block_def BlockFile_def file_read_block_def)

end
