(* ===== verification/Bitmap.thy ===== *)
theory Bitmap
  imports Block_Cache
begin

text \<open>
  The bitmaps of \<open>easy-fs\<close> (\<open>easy-fs/src/bitmap.rs\<close>): allocation of the lowest free bit of a
  range of blocks, and its release. The theorem says which bit is allocated and that no other
  bit changes.
\<close>

section \<open>Arrays of machine words in a block\<close>

definition decode_words :: "nat \<Rightarrow> nat \<Rightarrow> u8 list \<Rightarrow> 'a::len word list" where
  "decode_words sz n bs = map (\<lambda>k. le_word (take sz (drop (sz * k) bs))) [0..<n]"

definition encode_words :: "nat \<Rightarrow> 'a::len word list \<Rightarrow> u8 list" where
  "encode_words sz ws = concat (map (le_bytes sz) ws)"

definition words_codec :: "nat \<Rightarrow> nat \<Rightarrow> 'a::len word list codec" where
  "words_codec sz n = \<lparr>sizeof = sz * n, decode = decode_words sz n, encode = encode_words sz\<rparr>"

section \<open>Operations\<close>

abbreviation (input) BLOCK_BITS :: nat where "BLOCK_BITS \<equiv> 4096"

type_synonym BitmapBlock = "u64 list"

definition BitmapBlock_codec :: "BitmapBlock codec" where
  "BitmapBlock_codec = words_codec 8 64"

record Bitmap =
  bm_start_disk_id :: usize
  bm_blocks :: usize

definition Bitmap_new :: "usize \<Rightarrow> usize \<Rightarrow> Bitmap" where
  "Bitmap_new start_disk_id blocks = \<lparr>bm_start_disk_id = start_disk_id, bm_blocks = blocks\<rparr>"

text \<open>\<open>u64::trailing_ones\<close>: the position of the lowest zero bit.\<close>

definition trailing_ones :: "u64 \<Rightarrow> nat" where
  "trailing_ones w = (case find_index (\<lambda>i. \<not> bit w i) [0..<64] of Some i \<Rightarrow> i | None \<Rightarrow> 64)"

definition alloc_in_block :: "nat \<Rightarrow> BitmapBlock \<Rightarrow> usize option \<times> BitmapBlock" where
  "alloc_in_block block_pos bitmap_block =
     (case find_index (\<lambda>bits64. bits64 \<noteq> - 1) bitmap_block of
        Some bits64_pos \<Rightarrow>
          let inner_pos = trailing_ones (bitmap_block ! bits64_pos)
          in (Some (of_nat (block_pos * BLOCK_BITS + bits64_pos * 64 + inner_pos)),
              bitmap_block[bits64_pos := bitmap_block ! bits64_pos OR push_bit inner_pos 1])
      | None \<Rightarrow> (None, bitmap_block))"

fun alloc_from :: "'d BlockDevice \<Rightarrow> Bitmap \<Rightarrow> nat list \<Rightarrow> 'd bstate \<Rightarrow> (usize option \<times> 'd bstate) result" where
  "alloc_from bd bm [] st = Inr (None, st)"
| "alloc_from bd bm (block_pos # ps) st =
     rbind (BlockCache_modify bd (of_nat block_pos + bm_start_disk_id bm) BitmapBlock_codec 0
       (closure_mut (\<lambda>bitmap_block. Inr (alloc_in_block block_pos bitmap_block))) st) (\<lambda>(pos, st).
     if pos \<noteq> None then Inr (pos, st) else alloc_from bd bm ps st)"

definition Bitmap_alloc :: "'d BlockDevice \<Rightarrow> Bitmap \<Rightarrow> 'd bstate \<Rightarrow> (usize option \<times> 'd bstate) result" where
  "Bitmap_alloc bd bm st = alloc_from bd bm [0..<unat (bm_blocks bm)] st"

definition decomposition :: "usize \<Rightarrow> usize \<times> nat \<times> nat" where
  "decomposition b = (of_nat (unat b div BLOCK_BITS), unat b mod BLOCK_BITS div 64, unat b mod 64)"

definition dealloc_in_block :: "nat \<Rightarrow> nat \<Rightarrow> BitmapBlock \<Rightarrow> (unit \<times> BitmapBlock) result" where
  "dealloc_in_block bits64_pos inner_pos bitmap_block =
     rbind (index bitmap_block bits64_pos) (\<lambda>bits64.
     rbind (rassert (bits64 AND push_bit inner_pos 1 > 0)) (\<lambda>_.
       Inr ((), bitmap_block[bits64_pos := bits64 AND NOT (push_bit inner_pos 1)])))"

definition Bitmap_dealloc :: "'d BlockDevice \<Rightarrow> Bitmap \<Rightarrow> usize \<Rightarrow> 'd bstate \<Rightarrow> 'd bstate result" where
  "Bitmap_dealloc bd bm b st =
     (let (block_pos, bits64_pos, inner_pos) = decomposition b in
      rbind (BlockCache_modify bd (block_pos + bm_start_disk_id bm) BitmapBlock_codec 0
        (closure_mut (dealloc_in_block bits64_pos inner_pos)) st) (\<lambda>(_, st).
      Inr st))"

definition max_allocatable_blocks :: "Bitmap \<Rightarrow> usize" where
  "max_allocatable_blocks bm = bm_blocks bm * 4096"

section \<open>Words in blocks\<close>

lemma length_decode_words [simp]: "length (decode_words sz n bs) = n"
  by (simp add: decode_words_def)

lemma length_encode_words [simp]: "length (encode_words sz ws) = sz * length ws"
  by (induction ws) (simp_all add: encode_words_def)

lemma take_drop_encode_words:
  "k < length ws \<Longrightarrow> take sz (drop (sz * k) (encode_words sz ws)) = le_bytes sz (ws ! k)"
proof (induction ws arbitrary: k)
  case (Cons w ws)
  then show ?case by (cases k) (simp_all add: encode_words_def)
qed simp

lemma decode_encode_words:
  fixes ws :: "'a::len word list"
  assumes "length ws = n" "LENGTH('a) \<le> 8 * sz"
  shows "decode_words sz n (encode_words sz ws) = ws"
  using assms by (intro nth_equalityI) (simp_all add: decode_words_def take_drop_encode_words le_word_le_bytes)

lemma decode_put_encode_words:
  fixes ws :: "'a::len word list"
  assumes "length ws = n" "LENGTH('a) \<le> 8 * sz"
  shows "decode_words sz n (take (sz * n) (put_bytes 0 (encode_words sz ws) b)) = ws"
  using assms by (simp add: put_bytes_def decode_encode_words)

lemma encode_decode_words:
  "length bs = sz * n \<Longrightarrow> 8 * sz \<le> LENGTH('a::len) \<Longrightarrow> encode_words sz (decode_words sz n bs :: 'a word list) = bs"
proof (induction n arbitrary: bs)
  case 0
  then show ?case by (simp add: decode_words_def encode_words_def)
next
  case (Suc n)
  have "(decode_words sz (Suc n) bs :: 'a word list) = le_word (take sz bs) # decode_words sz n (drop sz bs)"
    by (simp add: decode_words_def upt_conv_Cons map_Suc_upt [symmetric] del: upt_Suc)
      (simp add: add.commute)
  moreover have "le_bytes sz (le_word (take sz bs) :: 'a word) = take sz bs"
    using Suc.prems by (intro le_bytes_le_word) simp_all
  moreover have "encode_words sz (decode_words sz n (drop sz bs) :: 'a word list) = drop sz bs"
    using Suc.prems by (intro Suc.IH) simp_all
  ultimately show ?case by (simp add: encode_words_def)
qed

lemma le_word_zero [simp]: "le_word (replicate n 0) = 0"
  by (induction n) simp_all

lemma decode_words_zero: "decode_words sz n (replicate m 0) = replicate n 0"
  by (rule nth_equalityI) (simp_all add: decode_words_def)

section \<open>Bits\<close>

definition wbit :: "BitmapBlock \<Rightarrow> nat \<Rightarrow> bool" where
  "wbit ws m = bit (ws ! (m div 64)) (m mod 64)"

lemma trailing_ones:
  assumes "w \<noteq> - 1"
  shows "trailing_ones w < 64" "\<not> bit w (trailing_ones w)" "k < trailing_ones w \<Longrightarrow> bit w k"
proof -
  have "\<exists>i < 64. \<not> bit w i"
  proof (rule ccontr)
    assume "\<not> ?thesis"
    then have "w = - 1" by (intro bit_word_eqI) simp
    then show False using assms by simp
  qed
  then have "find_index (\<lambda>i. \<not> bit w i) [0..<64] \<noteq> None"
    unfolding find_index_None by (auto simp del: upt_rec_numeral)
  then obtain i where i: "find_index (\<lambda>i. \<not> bit w i) [0..<64] = Some i" by blast
  then have "trailing_ones w = i" by (simp add: trailing_ones_def del: upt_rec_numeral)
  then show "trailing_ones w < 64" "\<not> bit w (trailing_ones w)" "k < trailing_ones w \<Longrightarrow> bit w k"
    using find_index_SomeD [OF i] by (auto simp del: upt_rec_numeral)
qed

lemma wbit_update:
  assumes "length ws = 64" "m < 4096" "m' < 4096"
  shows "wbit (ws[m div 64 := v]) m' = (if m' div 64 = m div 64 then bit v (m' mod 64) else wbit ws m')"
  using assms by (auto simp: wbit_def nth_list_update)

lemma wbit_position: "q < 64 \<Longrightarrow> k < 64 \<Longrightarrow> (q * 64 + k) div 64 = q \<and> (q * 64 + k) mod 64 = k \<and> q * 64 + k < 4096" for q k :: nat
  by auto

lemma bit_word_gt_0: "bit (w :: 'a::len word) n \<Longrightarrow> w > 0"
  by (cases "w = 0") (auto simp: word_neq_0_conv)

lemma same_position: "(m' :: nat) div 64 = m div 64 \<Longrightarrow> m' mod 64 = m mod 64 \<Longrightarrow> m' = m"
  by (metis div_mult_mod_eq)

lemma alloc_in_block_None:
  assumes "length ws = 64" "alloc_in_block p ws = (None, ws')"
  shows "ws' = ws" "m < 4096 \<Longrightarrow> wbit ws m"
proof -
  have "find_index (\<lambda>b. b \<noteq> - 1) ws = None" and "ws' = ws"
    using assms(2) by (auto simp: alloc_in_block_def Let_def split: option.splits)
  then show "ws' = ws" by simp
  assume "m < 4096"
  then have "ws ! (m div 64) \<in> set ws" using assms(1) by (intro nth_mem) simp
  then have "ws ! (m div 64) = - 1" using \<open>find_index _ ws = None\<close> by (auto simp: find_index_None)
  then show "wbit ws m" by (simp add: wbit_def)
qed

lemma alloc_in_block_Some:
  assumes "length ws = 64" "alloc_in_block p ws = (Some x, ws')"
  shows "\<exists>m < 4096. x = of_nat (p * 4096 + m) \<and> \<not> wbit ws m \<and> (\<forall>m' < m. wbit ws m') \<and> length ws' = 64
    \<and> (\<forall>m' < 4096. wbit ws' m' \<longleftrightarrow> m' = m \<or> wbit ws m')"
proof -
  obtain q where q: "find_index (\<lambda>b. b \<noteq> - 1) ws = Some q"
    using assms(2) by (auto simp: alloc_in_block_def split: option.splits)
  note Q = find_index_SomeD [OF q]
  let ?k = "trailing_ones (ws ! q)"
  let ?m = "q * 64 + ?k"
  note t = trailing_ones [OF Q(2)]
  have q64: "q < 64" using Q(1) assms(1) by simp
  note pos = wbit_position [OF q64 t(1)]
  have x: "x = of_nat (p * 4096 + ?m)" and ws': "ws' = ws[?m div 64 := ws ! q OR push_bit ?k 1]"
    using assms(2) q pos by (simp_all add: alloc_in_block_def Let_def algebra_simps)
  have low: "wbit ws m'" if "m' < ?m" for m'
  proof (cases "m' div 64 = q")
    case True
    then have "m' mod 64 < ?k" using that by (metis add_less_cancel_left div_mult_mod_eq)
    then show ?thesis using t(3) True by (simp add: wbit_def)
  next
    case False
    have "m' div 64 \<le> q" using that pos by (metis div_le_mono less_imp_le)
    then have "ws ! (m' div 64) = - 1" using False Q(3) [of "m' div 64"] by simp
    then show ?thesis by (simp add: wbit_def)
  qed
  have new: "wbit ws' m' \<longleftrightarrow> m' = ?m \<or> wbit ws m'" if "m' < 4096" for m'
  proof -
    have "m' = ?m \<longleftrightarrow> m' div 64 = q \<and> m' mod 64 = ?k" using pos same_position [of m' ?m] by auto
    then show ?thesis
      using wbit_update [OF assms(1) _ that, of ?m] pos by (auto simp: ws' wbit_def bit_simps)
  qed
  have "\<not> wbit ws ?m" using t(2) pos by (simp add: wbit_def)
  then show ?thesis using x low new pos assms(1) ws' by (intro exI [of _ ?m]) simp
qed

text \<open>Bit \<open>n\<close> of a bitmap, in the blocks that clients see.\<close>

definition bitmap_bit :: "(usize \<Rightarrow> u8 list) \<Rightarrow> Bitmap \<Rightarrow> nat \<Rightarrow> bool" where
  "bitmap_bit V bm n = wbit (decode_words 8 64 (V (of_nat (n div 4096) + bm_start_disk_id bm))) (n mod 4096)"

definition bitmap_block :: "Bitmap \<Rightarrow> usize \<Rightarrow> bool" where
  "bitmap_block bm i \<longleftrightarrow> (\<exists>p < unat (bm_blocks bm). i = of_nat p + bm_start_disk_id bm)"

text \<open>The bits of two views agree but for bit \<open>n\<close>, which has the value \<open>b\<close> in the second.\<close>

definition bit_changed :: "Bitmap \<Rightarrow> nat \<Rightarrow> bool \<Rightarrow> (usize \<Rightarrow> u8 list) \<Rightarrow> (usize \<Rightarrow> u8 list) \<Rightarrow> bool" where
  "bit_changed bm n b V V' \<longleftrightarrow>
     (\<forall>m < unat (bm_blocks bm) * 4096. bitmap_bit V' bm m = (if m = n then b else bitmap_bit V bm m))
     \<and> (\<forall>i. \<not> bitmap_block bm i \<longrightarrow> V' i = V i)"

lemma bit_changedI:
  assumes "p < unat (bm_blocks bm)" "m < 4096" "length ws' = 64"
    "\<forall>m' < 4096. wbit ws' m' = (if m' = m then b else wbit (decode_words 8 64 (V (of_nat p + bm_start_disk_id bm))) m')"
  shows "bit_changed bm (p * 4096 + m) b V
    (V(of_nat p + bm_start_disk_id bm := encode_words 8 ws'))"
proof -
  let ?i = "of_nat p + bm_start_disk_id bm"
  let ?V' = "V(?i := encode_words 8 ws')"
  have d: "decode_words 8 64 (?V' ?i) = ws'"
    using assms(3) by (simp add: decode_encode_words)
  have "bitmap_bit ?V' bm m' = (if m' = p * 4096 + m then b else bitmap_bit V bm m')" if "m' < unat (bm_blocks bm) * 4096" for m'
  proof (cases "m' div 4096 = p")
    case True
    have "m' = p * 4096 + m \<longleftrightarrow> m' mod 4096 = m"
      using True assms(2) div_mult_mod_eq [of m' 4096] by (metis mod_less mod_mult_self3)
    then show ?thesis using True assms(4) d by (simp add: bitmap_bit_def)
  next
    case False
    have "m' div 4096 < unat (bm_blocks bm)" using that by (simp add: less_mult_imp_div_less)
    then have "unat (of_nat (m' div 4096) :: usize) \<noteq> unat (of_nat p :: usize)"
      using False assms(1) unat_less_2p_64 [of "bm_blocks bm"] by (simp add: unat_of_nat)
    then have "of_nat (m' div 4096) \<noteq> (of_nat p :: usize)" by metis
    moreover have "m' \<noteq> p * 4096 + m" using False assms(2) by auto
    ultimately show ?thesis by (simp add: bitmap_bit_def)
  qed
  moreover have "?V' i = V i" if "\<not> bitmap_block bm i" for i
    using that assms(1) by (auto simp: bitmap_block_def)
  ultimately show ?thesis by (simp add: bit_changed_def)
qed

context block_device
begin

text \<open>Access to a block that is an array of machine words.\<close>

lemma read_words:
  assumes "rep bd valid H D V st" "length H < BLOCK_CACHE_SIZE" "D i" "i \<notin> fst ` set H" "sz * n = BLOCK_SZ"
    "post (g (decode_words sz n (V i))) (\<lambda>r. \<forall>st'. rep bd valid H D V st' \<longrightarrow> Q (r, st'))"
  shows "post (BlockCache_read bd i (words_codec sz n) 0 (closure_ref g) st) Q"
  using assms(5,6) rep_length [OF assms(1,3)] by (intro read_pure [OF assms(1-4)]) (simp_all add: words_codec_def)

lemma modify_words:
  fixes g :: "'a::len word list \<Rightarrow> ('b \<times> 'a word list) result"
  assumes "rep bd valid H D V st" "length H < BLOCK_CACHE_SIZE" "D i" "i \<notin> fst ` set H" "sz * n = BLOCK_SZ"
    "post (g (decode_words sz n (V i))) (\<lambda>(r, ws). length ws = n \<and> (\<forall>st'. rep bd valid H D (V(i := encode_words sz ws)) st' \<longrightarrow> Q (r, st')))"
  shows "post (BlockCache_modify bd i (words_codec sz n) 0 (closure_mut g) st) Q"
proof (rule modify_pure [OF assms(1-4)])
  have l: "length (V i) = BLOCK_SZ" using rep_length [OF assms(1,3)] .
  then show "post (g (decode (words_codec sz n) (take (sizeof (words_codec sz n)) (drop (unat (0 :: usize)) (V i)))))
     (\<lambda>(r, v'). length (encode (words_codec sz n) v') \<le> sizeof (words_codec sz n)
       \<and> (\<forall>st'. rep bd valid H D (V(i := put_bytes (unat (0 :: usize)) (encode (words_codec sz n) v') (V i))) st' \<longrightarrow> Q (r, st')))"
    using assms(5,6) by (simp add: words_codec_def) (elim post_mono, auto simp: put_bytes_def)
qed (use assms in \<open>simp_all add: words_codec_def\<close>)

lemma alloc_from_ok:
  assumes "rep bd valid H D V st" "length H < BLOCK_CACHE_SIZE" "n \<le> unat (bm_blocks bm)"
    "\<forall>i. bitmap_block bm i \<longrightarrow> D i \<and> i \<notin> fst ` set H" "k \<le> n" "\<forall>m < k * 4096. bitmap_bit V bm m"
    "n = unat (bm_blocks bm)"
  shows "post (alloc_from bd bm [k..<n] st) (\<lambda>(r, st'). case r of
      None \<Rightarrow> rep bd valid H D V st' \<and> (\<forall>m < n * 4096. bitmap_bit V bm m)
    | Some x \<Rightarrow> \<exists>V' m. rep bd valid H D V' st' \<and> x = of_nat m \<and> m < n * 4096 \<and> \<not> bitmap_bit V bm m
        \<and> (\<forall>m' < m. bitmap_bit V bm m') \<and> bit_changed bm m True V V')"
  using assms
proof (induction "n - k" arbitrary: k st)
  case 0
  then show ?case by simp
next
  case (Suc l)
  let ?i = "of_nat k + bm_start_disk_id bm"
  let ?ws = "decode_words 8 64 (V ?i) :: u64 list"
  have k: "k < n" using Suc.hyps(2) by simp
  then have "bitmap_block bm ?i" using Suc.prems(7) by (auto simp: bitmap_block_def)
  then have i: "D ?i" "?i \<notin> fst ` set H" using Suc.prems(4) by auto
  note len = rep_length [OF Suc.prems(1) i(1)]
  have upt: "[k..<n] = k # [Suc k..<n]" using k by (rule upt_conv_Cons)
  have ws: "length ?ws = 64" by simp
  obtain r ws' where a: "alloc_in_block k ?ws = (r, ws')" by (cases "alloc_in_block k ?ws")
  have key: "post (BlockCache_modify bd ?i BitmapBlock_codec 0
        (closure_mut (\<lambda>b. Inr (alloc_in_block k b))) st)
      (\<lambda>(r1, st1). r1 = r \<and> rep bd valid H D (V(?i := encode_words 8 ws')) st1)" if "length ws' = 64"
    unfolding BitmapBlock_codec_def using a that by (intro modify_words [OF Suc.prems(1,2) i]) simp_all
  have bitk: "bitmap_bit V bm (k * 4096 + m) = wbit ?ws m" if "m < 4096" for m
    using that by (simp add: bitmap_bit_def)
  have split: "m < k * 4096 \<or> (\<exists>m' < 4096. m = k * 4096 + m')" if "m < Suc k * 4096" for m
  proof (cases "m < k * 4096")
    case False
    then show ?thesis using that by (intro disjI2 exI [of _ "m - k * 4096"]) simp
  qed simp
  show ?case
  proof (cases r)
    case None
    note N = alloc_in_block_None [OF ws a [unfolded None]]
    have same: "V(?i := encode_words 8 ?ws) = V"
      using len by (simp add: encode_decode_words)
    have low: "\<forall>m < Suc k * 4096. bitmap_bit V bm m"
    proof (intro allI impI)
      fix m assume "m < Suc k * 4096"
      then show "bitmap_bit V bm m" using split [of m] Suc.prems(6) N(2) bitk by blast
    qed
    have "post (alloc_from bd bm [Suc k..<n] st') (\<lambda>(r, st'). case r of
        None \<Rightarrow> rep bd valid H D V st' \<and> (\<forall>m < n * 4096. bitmap_bit V bm m)
      | Some x \<Rightarrow> \<exists>V' m. rep bd valid H D V' st' \<and> x = of_nat m \<and> m < n * 4096 \<and> \<not> bitmap_bit V bm m
          \<and> (\<forall>m' < m. bitmap_bit V bm m') \<and> bit_changed bm m True V V')" if "rep bd valid H D V st'" for st'
      using Suc.hyps(2) k by (intro Suc.hyps(1) that Suc.prems(2-4,7) low) simp_all
    then show ?thesis
      unfolding upt alloc_from.simps post_rbind by (rule_tac post_mono [OF key]) (auto simp: N(1) same None)
  next
    case (Some x)
    obtain m where m: "m < 4096" "x = of_nat (k * 4096 + m)" "\<not> wbit ?ws m" "\<forall>m' < m. wbit ?ws m'" "length ws' = 64"
      "\<forall>m' < 4096. wbit ws' m' \<longleftrightarrow> m' = m \<or> wbit ?ws m'"
      using alloc_in_block_Some [OF ws a [unfolded Some]] by blast
    have low: "\<forall>m' < k * 4096 + m. bitmap_bit V bm m'"
    proof (intro allI impI)
      fix m' assume m': "m' < k * 4096 + m"
      then have "m' < Suc k * 4096" using m(1) by simp
      then consider "m' < k * 4096" | l where "l < m" "m' = k * 4096 + l" using split m' by auto
      then show "bitmap_bit V bm m'" using Suc.prems(6) m(1,4) bitk by cases auto
    qed
    have bc: "bit_changed bm (k * 4096 + m) True V (V(?i := encode_words 8 ws'))"
      using m k Suc.prems(7) by (intro bit_changedI) simp_all
    have "k * 4096 + m < n * 4096" using k m(1) by simp
    then have "\<exists>V' m. rep bd valid H D V' st1 \<and> x = of_nat m \<and> m < n * 4096 \<and> \<not> bitmap_bit V bm m
        \<and> (\<forall>m' < m. bitmap_bit V bm m') \<and> bit_changed bm m True V V'"
      if "rep bd valid H D (V(?i := encode_words 8 ws')) st1" for st1
      using that m low bc bitk by (intro exI [of _ "V(?i := encode_words 8 ws')"] exI [of _ "k * 4096 + m"]) simp
    then show ?thesis
      unfolding upt alloc_from.simps post_rbind by (rule_tac post_mono [OF key]) (auto simp: Some m(5))
  qed
qed

lemma Bitmap_alloc_ok:
  assumes "rep bd valid H D V st" "length H < BLOCK_CACHE_SIZE" "\<forall>i. bitmap_block bm i \<longrightarrow> D i \<and> i \<notin> fst ` set H"
  shows "post (Bitmap_alloc bd bm st) (\<lambda>(r, st'). case r of
      None \<Rightarrow> rep bd valid H D V st' \<and> (\<forall>m < unat (bm_blocks bm) * 4096. bitmap_bit V bm m)
    | Some x \<Rightarrow> \<exists>V' m. rep bd valid H D V' st' \<and> x = of_nat m \<and> m < unat (bm_blocks bm) * 4096 \<and> \<not> bitmap_bit V bm m
        \<and> (\<forall>m' < m. bitmap_bit V bm m') \<and> bit_changed bm m True V V')"
  using alloc_from_ok [OF assms(1,2) _ assms(3), of "unat (bm_blocks bm)" 0] by (simp add: Bitmap_alloc_def)

lemma Bitmap_dealloc_ok:
  assumes "rep bd valid H D V st" "length H < BLOCK_CACHE_SIZE" "\<forall>i. bitmap_block bm i \<longrightarrow> D i \<and> i \<notin> fst ` set H"
    "unat b < unat (bm_blocks bm) * 4096" "bitmap_bit V bm (unat b)"
  shows "post (Bitmap_dealloc bd bm b st) (\<lambda>st'. \<exists>V'. rep bd valid H D V' st' \<and> bit_changed bm (unat b) False V V')"
proof -
  let ?p = "unat b div 4096" and ?m = "unat b mod 4096"
  let ?i = "of_nat ?p + bm_start_disk_id bm"
  let ?ws = "decode_words 8 64 (V ?i) :: u64 list"
  let ?v = "?ws ! (?m div 64) AND NOT (push_bit (?m mod 64) 1)"
  have p: "?p < unat (bm_blocks bm)" using assms(4) by (simp add: less_mult_imp_div_less)
  then have i: "D ?i" "?i \<notin> fst ` set H" using assms(3) by (auto simp: bitmap_block_def)
  have m: "?m < 4096" "?m mod 64 = unat b mod 64" "?p * 4096 + ?m = unat b"
    by (simp_all add: mod_mod_cancel)
  have set: "wbit ?ws ?m" using assms(5) by (simp add: bitmap_bit_def)
  then have "bit (?ws ! (?m div 64) AND push_bit (?m mod 64) 1) (?m mod 64)"
    by (simp add: wbit_def bit_simps)
  then have gt: "?ws ! (?m div 64) AND push_bit (?m mod 64) 1 > 0" by (rule bit_word_gt_0)
  have "wbit (?ws[?m div 64 := ?v]) m' = (if m' = ?m then False else wbit ?ws m')" if "m' < 4096" for m'
  proof -
    have "m' = ?m \<longleftrightarrow> m' div 64 = ?m div 64 \<and> m' mod 64 = ?m mod 64" using same_position by blast
    then show ?thesis
      using wbit_update [of ?ws ?m m' ?v] that m(1) by (auto simp: wbit_def bit_simps)
  qed
  then have bc: "bit_changed bm (unat b) False V (V(?i := encode_words 8 (?ws[?m div 64 := ?v])))"
    using bit_changedI [OF p m(1), of "?ws[?m div 64 := ?v]" False V] m(3) by simp
  have "dealloc_in_block (?m div 64) (unat b mod 64) ?ws = Inr ((), ?ws[?m div 64 := ?v])"
    using gt m(1,2) by (simp add: dealloc_in_block_def index_def)
  then have "post (BlockCache_modify bd ?i BitmapBlock_codec 0
      (closure_mut (dealloc_in_block (?m div 64) (unat b mod 64))) st)
    (\<lambda>(_, st'). rep bd valid H D (V(?i := encode_words 8 (?ws[?m div 64 := ?v]))) st')"
    unfolding BitmapBlock_codec_def by (intro modify_words [OF assms(1,2) i]) simp_all
  then show ?thesis
    unfolding Bitmap_dealloc_def decomposition_def Let_def prod.case post_rbind using bc by (elim post_mono) auto
qed

end

text \<open>
  C40. \<open>Bitmap::alloc\<close> returns the lowest free bit and marks it as used, changing no other bit and
  no block outside the bitmap. \<open>Bitmap::dealloc\<close> of the bit makes it free again, so that
  the next allocation returns the same bit.
\<close>

theorem bitmap_alloc_lowest_free:
  assumes "rep BlockFile file_valid [] D V st" "\<forall>i. bitmap_block bm i \<longrightarrow> D i"
    "\<not> bitmap_bit V bm m" "\<forall>m' < m. bitmap_bit V bm m'" "m < unat (bm_blocks bm) * 4096" "unat (bm_blocks bm) < 2 ^ 32"
  shows "\<exists>st1 V1 st2 V2 st3. Bitmap_alloc BlockFile bm st = Inr (Some (of_nat m), st1)
    \<and> rep BlockFile file_valid [] D V1 st1 \<and> bit_changed bm m True V V1
    \<and> Bitmap_dealloc BlockFile bm (of_nat m) st1 = Inr st2 \<and> rep BlockFile file_valid [] D V2 st2
    \<and> (\<forall>n < unat (bm_blocks bm) * 4096. bitmap_bit V2 bm n = bitmap_bit V bm n)
    \<and> Bitmap_alloc BlockFile bm st2 = Inr (Some (of_nat m), st3)"
proof -
  have first: "\<exists>st1 V1. Bitmap_alloc BlockFile bm st = Inr (Some (of_nat m), st1)
      \<and> rep BlockFile file_valid [] D V1 st1 \<and> bit_changed bm m True V V1"
    if st: "rep BlockFile file_valid [] D V st"
      "\<forall>n < unat (bm_blocks bm) * 4096. bitmap_bit V bm n = b n" "\<not> b m" "\<forall>m' < m. b m'" for V st b
  proof -
    obtain r st1 where a: "Bitmap_alloc BlockFile bm st = Inr (r, st1)"
      "case r of None \<Rightarrow> rep BlockFile file_valid [] D V st1 \<and> (\<forall>m < unat (bm_blocks bm) * 4096. bitmap_bit V bm m)
        | Some x \<Rightarrow> \<exists>V' m. rep BlockFile file_valid [] D V' st1 \<and> x = of_nat m \<and> m < unat (bm_blocks bm) * 4096 \<and> \<not> bitmap_bit V bm m
          \<and> (\<forall>m' < m. bitmap_bit V bm m') \<and> bit_changed bm m True V V'"
      using bf.Bitmap_alloc_ok [OF st(1), of bm] assms(2) by (auto simp: post_iff)
    have nb: "\<not> bitmap_bit V bm m" "m' < m \<Longrightarrow> bitmap_bit V bm m'" for m' using st(2-4) assms(5) by auto
    then obtain x where r: "r = Some x" using a(2) assms(5) by (cases r) auto
    then obtain V' m1 where m1: "rep BlockFile file_valid [] D V' st1" "x = of_nat m1" "\<not> bitmap_bit V bm m1"
      "\<forall>m' < m1. bitmap_bit V bm m'" "bit_changed bm m1 True V V'" using a(2) by auto
    then have "m1 = m" using nb by (meson linorder_neqE_nat)
    then show ?thesis using a(1) r m1 by auto
  qed
  have "m < 2 ^ 32 * 4096" using assms(5,6) by (meson less_le_trans less_imp_le_nat mult_le_mono1)
  then have um: "unat (of_nat m :: usize) = m" by (intro unat_of_nat_64) simp
  obtain st1 V1 where a1: "Bitmap_alloc BlockFile bm st = Inr (Some (of_nat m), st1)"
    "rep BlockFile file_valid [] D V1 st1" "bit_changed bm m True V V1"
    using first [OF assms(1), of "bitmap_bit V bm"] assms(3,4) by auto
  have "bitmap_bit V1 bm m" using a1(3) assms(5) by (simp add: bit_changed_def)
  then have "post (Bitmap_dealloc BlockFile bm (of_nat m) st1) (\<lambda>st'. \<exists>V'. rep BlockFile file_valid [] D V' st' \<and> bit_changed bm m False V1 V')"
    using bf.Bitmap_dealloc_ok [OF a1(2), of bm "of_nat m"] assms(2,5) um by simp
  then obtain st2 V2 where a2: "Bitmap_dealloc BlockFile bm (of_nat m) st1 = Inr st2" "rep BlockFile file_valid [] D V2 st2"
    "bit_changed bm m False V1 V2" by (auto simp: post_iff)
  have eq: "\<forall>n < unat (bm_blocks bm) * 4096. bitmap_bit V2 bm n = bitmap_bit V bm n"
    using a1(3) a2(3) assms(3) by (simp add: bit_changed_def)
  then obtain st3 where "Bitmap_alloc BlockFile bm st2 = Inr (Some (of_nat m), st3)"
    using first [OF a2(2) eq] assms(3,4) by auto
  then show ?thesis using a1 a2(1,2) eq by blast
qed

text \<open>An empty bitmap of one block, on a disk of two blocks.\<close>

theorem bitmap_alloc_lowest_free_witness:
  "\<exists>st1. Bitmap_alloc BlockFile (Bitmap_new 1 1) \<lparr>bs_dev = replicate 1024 0, bs_queue = [], bs_held = []\<rparr> = Inr (Some 0, st1)"
proof -
  let ?st = "\<lparr>bs_dev = replicate 1024 0, bs_queue = [], bs_held = []\<rparr> :: u8 list bstate"
  have r: "rep BlockFile file_valid [] (file_valid (bs_dev ?st)) (block_view BlockFile file_valid ?st) ?st"
    by (simp add: rep_def cache_inv_def)
  have b: "block_view BlockFile file_valid ?st 1 = replicate 512 0"
    by (simp add: block_view_def disk_block_def BlockFile_def file_read_block_def file_valid_def)
  then have "\<not> bitmap_bit (block_view BlockFile file_valid ?st) (Bitmap_new 1 1) 0"
    by (simp add: bitmap_bit_def Bitmap_new_def wbit_def decode_words_zero)
  moreover have "\<forall>i. bitmap_block (Bitmap_new 1 1) i \<longrightarrow> file_valid (bs_dev ?st) i"
    by (auto simp: bitmap_block_def Bitmap_new_def file_valid_def)
  ultimately show ?thesis
    using bitmap_alloc_lowest_free [OF r, of "Bitmap_new 1 1" 0] by (auto simp: Bitmap_new_def)
qed

end
