(* ===== verification/Strings.thy ===== *)
theory Strings
  imports Prelude
begin

text \<open>
  UTF-8: which byte sequences \<open>core::str::from_utf8\<close> accepts, and the bytes of a \<open>String\<close> built
  by pushing bytes as characters, as \<open>translated_str\<close> builds it.
\<close>

text \<open>\<open>core::str::from_utf8\<close> accepts exactly the well-formed sequences.\<close>

definition utf8_cont :: "u8 \<Rightarrow> bool" where "utf8_cont b \<longleftrightarrow> 0x80 \<le> b \<and> b \<le> 0xBF"

fun utf8_ok :: "u8 list \<Rightarrow> bool" where
  "utf8_ok [] = True"
| "utf8_ok (a # bs) =
     (if a < 0x80 then utf8_ok bs
      else case bs of
        [] \<Rightarrow> False
      | b # cs \<Rightarrow>
          if 0xC2 \<le> a \<and> a \<le> 0xDF then utf8_cont b \<and> utf8_ok cs
          else (case cs of
            [] \<Rightarrow> False
          | c # ds \<Rightarrow>
              if 0xE0 \<le> a \<and> a \<le> 0xEF then
                utf8_cont b \<and> (a = 0xE0 \<longrightarrow> 0xA0 \<le> b) \<and> (a = 0xED \<longrightarrow> b \<le> 0x9F) \<and> utf8_cont c \<and> utf8_ok ds
              else (case ds of
                [] \<Rightarrow> False
              | d # es \<Rightarrow>
                  0xF0 \<le> a \<and> a \<le> 0xF4 \<and> utf8_cont b \<and> (a = 0xF0 \<longrightarrow> 0x90 \<le> b) \<and> (a = 0xF4 \<longrightarrow> b \<le> 0x8F)
                  \<and> utf8_cont c \<and> utf8_cont d \<and> utf8_ok es)))"

text \<open>\<open>string.push(ch as char)\<close> for every byte: a byte from 0x80 on takes two bytes of UTF-8.\<close>

definition char_bytes :: "u8 \<Rightarrow> u8 list" where
  "char_bytes ch = (if ch < 0x80 then [ch] else [0xC0 OR drop_bit 6 ch, 0x80 OR (ch AND 0x3F)])"

definition string_bytes :: "u8 list \<Rightarrow> u8 list" where
  "string_bytes cs = concat (map char_bytes cs)"

lemma string_bytes_ascii: "\<forall>c \<in> set cs. c < 0x80 \<Longrightarrow> string_bytes cs = cs"
  by (induction cs) (simp_all add: string_bytes_def char_bytes_def)

lemma utf8_ok_ascii: "\<forall>c \<in> set cs. c < 0x80 \<Longrightarrow> utf8_ok cs"
  by (induction cs) simp_all

end
