(* ===== verification/Disk_Layout.thy ===== *)
theory Disk_Layout
  imports Bitmap Strings
begin

text \<open>
  The structures on the disk (\<open>easy-fs/src/layout.rs\<close>): the super block, the inodes with their
  direct, indirect and doubly indirect blocks, and the entries of directories.
\<close>

section \<open>Constants\<close>

abbreviation (input) EFS_MAGIC :: u32 where "EFS_MAGIC \<equiv> 0x3b800001"
abbreviation (input) INODE_DIRECT_COUNT :: nat where "INODE_DIRECT_COUNT \<equiv> 28"
abbreviation (input) INODE_INDIRECT1_COUNT :: nat where "INODE_INDIRECT1_COUNT \<equiv> 128"
abbreviation (input) INODE_INDIRECT2_COUNT :: nat where "INODE_INDIRECT2_COUNT \<equiv> 16384"
abbreviation (input) DIRECT_BOUND :: nat where "DIRECT_BOUND \<equiv> 28"
abbreviation (input) INDIRECT1_BOUND :: nat where "INDIRECT1_BOUND \<equiv> 156"
abbreviation (input) INDIRECT2_BOUND :: nat where "INDIRECT2_BOUND \<equiv> 16540"
abbreviation (input) NAME_LENGTH_LIMIT :: nat where "NAME_LENGTH_LIMIT \<equiv> 27"
abbreviation (input) DIRENTRY_SZ :: nat where "DIRENTRY_SZ \<equiv> 32"

section \<open>The super block\<close>

record SuperBlock =
  sb_magic :: u32
  sb_total_blocks :: u32
  sb_inode_bitmap_blocks :: u32
  sb_inode_area_blocks :: u32
  sb_data_bitmap_blocks :: u32
  sb_data_area_blocks :: u32

definition SuperBlock_codec :: "SuperBlock codec" where
  "SuperBlock_codec =
     \<lparr>sizeof = 24,
      decode = (\<lambda>bs. let w = decode_words 4 6 bs in
        \<lparr>sb_magic = w ! 0, sb_total_blocks = w ! 1, sb_inode_bitmap_blocks = w ! 2, sb_inode_area_blocks = w ! 3,
         sb_data_bitmap_blocks = w ! 4, sb_data_area_blocks = w ! 5\<rparr>),
      encode = (\<lambda>sb. encode_words 4 [sb_magic sb, sb_total_blocks sb, sb_inode_bitmap_blocks sb,
        sb_inode_area_blocks sb, sb_data_bitmap_blocks sb, sb_data_area_blocks sb])\<rparr>"

definition SuperBlock_initialize :: "u32 \<Rightarrow> u32 \<Rightarrow> u32 \<Rightarrow> u32 \<Rightarrow> u32 \<Rightarrow> SuperBlock" where
  "SuperBlock_initialize total_blocks inode_bitmap_blocks inode_area_blocks data_bitmap_blocks data_area_blocks =
     \<lparr>sb_magic = EFS_MAGIC, sb_total_blocks = total_blocks, sb_inode_bitmap_blocks = inode_bitmap_blocks,
      sb_inode_area_blocks = inode_area_blocks, sb_data_bitmap_blocks = data_bitmap_blocks,
      sb_data_area_blocks = data_area_blocks\<rparr>"

definition SuperBlock_is_valid :: "SuperBlock \<Rightarrow> bool" where
  "SuperBlock_is_valid sb \<longleftrightarrow> sb_magic sb = EFS_MAGIC"

section \<open>Inodes\<close>

datatype DiskInodeType = File | Directory

type_synonym IndirectBlock = "u32 list"
type_synonym DataBlock = "u8 list"

definition IndirectBlock_codec :: "IndirectBlock codec" where
  "IndirectBlock_codec = words_codec 4 128"

definition DataBlock_codec :: "DataBlock codec" where
  "DataBlock_codec = \<lparr>sizeof = BLOCK_SZ, decode = (\<lambda>bs. bs), encode = (\<lambda>bs. bs)\<rparr>"

record DiskInode =
  di_size :: u32
  di_direct :: "u32 list"
  di_indirect1 :: u32
  di_indirect2 :: u32
  di_type :: DiskInodeType

text \<open>
  The structure has 128 bytes: 31 words, the discriminant of the type, and three bytes of padding,
  which are not written.
\<close>

definition DiskInode_codec :: "DiskInode codec" where
  "DiskInode_codec =
     \<lparr>sizeof = 128,
      decode = (\<lambda>bs. let w = decode_words 4 31 bs in
        \<lparr>di_size = w ! 0, di_direct = take INODE_DIRECT_COUNT (drop 1 w), di_indirect1 = w ! 29, di_indirect2 = w ! 30,
         di_type = (if bs ! 124 = 0 then File else Directory)\<rparr>),
      encode = (\<lambda>di. encode_words 4 (di_size di # di_direct di @ [di_indirect1 di, di_indirect2 di])
        @ [case di_type di of File \<Rightarrow> 0 | Directory \<Rightarrow> 1])\<rparr>"

definition DiskInode_initialize :: "DiskInodeType \<Rightarrow> DiskInode \<Rightarrow> DiskInode" where
  "DiskInode_initialize ty di =
     di\<lparr>di_size := 0, di_direct := map (\<lambda>_. 0) (di_direct di), di_indirect1 := 0, di_indirect2 := 0, di_type := ty\<rparr>"

definition is_dir :: "DiskInode \<Rightarrow> bool" where
  "is_dir di \<longleftrightarrow> di_type di = Directory"

definition is_file :: "DiskInode \<Rightarrow> bool" where
  "is_file di \<longleftrightarrow> di_type di = File"

definition read_indirect :: "'d BlockDevice \<Rightarrow> u32 \<Rightarrow> nat \<Rightarrow> 'd bstate \<Rightarrow> (u32 \<times> 'd bstate) result" where
  "read_indirect bd disk_id i st =
     BlockCache_read bd (ucast disk_id) IndirectBlock_codec 0
       (closure_ref (\<lambda>indirect_block. index indirect_block i)) st"

definition get_disk_id :: "'d BlockDevice \<Rightarrow> DiskInode \<Rightarrow> u32 \<Rightarrow> 'd bstate \<Rightarrow> (u32 \<times> 'd bstate) result" where
  "get_disk_id bd di inner_id st =
     (let inner_id = unat inner_id in
      if inner_id < DIRECT_BOUND then rbind (index (di_direct di) inner_id) (\<lambda>x. Inr (x, st))
      else if inner_id < INDIRECT1_BOUND then read_indirect bd (di_indirect1 di) (inner_id - DIRECT_BOUND) st
      else rbind (read_indirect bd (di_indirect2 di) ((inner_id - INDIRECT1_BOUND) div INODE_INDIRECT1_COUNT) st) (\<lambda>(indirect1, st).
           read_indirect bd indirect1 ((inner_id - INDIRECT1_BOUND) mod INODE_INDIRECT1_COUNT) st))"

text \<open>
  \<open>size + BLOCK_SZ - 1\<close> wraps around at 32 bits. The other counts stay far below the bounds of
  their types and are natural numbers.
\<close>

definition data_blocks_of :: "u32 \<Rightarrow> u32" where
  "data_blocks_of sz = (sz + 512 - 1) div 512"

definition data_blocks :: "DiskInode \<Rightarrow> u32" where
  "data_blocks di = data_blocks_of (di_size di)"

definition total_blocks_of :: "nat \<Rightarrow> nat" where
  "total_blocks_of n =
     n + (if n > DIRECT_BOUND then 1 else 0)
     + (if n > INDIRECT1_BOUND
        then 1 + (n - INDIRECT1_BOUND + INODE_INDIRECT1_COUNT - 1) div INODE_INDIRECT1_COUNT else 0)"

definition total_blocks :: "u32 \<Rightarrow> u32" where
  "total_blocks sz = of_nat (total_blocks_of (unat (data_blocks_of sz)))"

definition blocks_num_needed :: "u32 \<Rightarrow> DiskInode \<Rightarrow> u32 result" where
  "blocks_num_needed new_size di =
     rbind (rassert (new_size \<ge> di_size di)) (\<lambda>_. Inr (total_blocks new_size - total_blocks (di_size di)))"

subsection \<open>Growing\<close>

text \<open>
  \<open>while current_blocks < bound { arr[current_blocks] = new_blocks.next().unwrap(); current_blocks += 1 }\<close>,
  for the direct blocks and for those of the indirect block.
\<close>

function fill_blocks :: "nat \<Rightarrow> nat \<Rightarrow> u32 list \<Rightarrow> u32 list \<Rightarrow> (nat \<times> u32 list \<times> u32 list) result" where
  "fill_blocks current_blocks bound arr new_blocks =
     (if current_blocks < bound
      then case new_blocks of
          [] \<Rightarrow> Inl UnwrapNone
        | b # rest \<Rightarrow>
            if current_blocks < length arr then fill_blocks (current_blocks + 1) bound (arr[current_blocks := b]) rest
            else Inl IndexOutOfBounds
      else Inr (current_blocks, arr, new_blocks))"
  by pat_completeness auto
termination by (relation "measure (\<lambda>(c, b, _). b - c)") auto

declare fill_blocks.simps [simp del]

text \<open>
  The loop over the blocks below the doubly indirect block: \<open>a0\<close> counts the indirect blocks,
  \<open>b0\<close> the entries of the current one.
\<close>

function fill_indirect2 :: "'d BlockDevice \<Rightarrow> nat \<Rightarrow> nat \<Rightarrow> nat \<Rightarrow> nat \<Rightarrow> IndirectBlock \<Rightarrow> u32 list \<Rightarrow> 'd bstate
    \<Rightarrow> (u32 list \<times> IndirectBlock \<times> 'd bstate) result" where
  "fill_indirect2 bd a0 b0 a1 b1 indirect2 new_blocks st =
     (if a0 < a1 \<or> (a0 = a1 \<and> b0 < b1)
      then rbind (if b0 = 0
             then rbind (unwrap (if new_blocks = [] then None else Some (hd new_blocks))) (\<lambda>b.
                  if a0 < length indirect2 then Inr (indirect2[a0 := b], tl new_blocks) else Inl IndexOutOfBounds)
             else Inr (indirect2, new_blocks)) (\<lambda>(indirect2, new_blocks).
           rbind (index indirect2 a0) (\<lambda>indirect1_id.
           rbind (BlockCache_modify bd (ucast indirect1_id) IndirectBlock_codec 0
             (closure_mut (\<lambda>indirect1.
                rbind (unwrap (if new_blocks = [] then None else Some (hd new_blocks))) (\<lambda>b.
                if b0 < length indirect1 then Inr ((), indirect1[b0 := b]) else Inl IndexOutOfBounds))) st) (\<lambda>(_, st).
           if b0 < INODE_INDIRECT1_COUNT
           then if b0 + 1 = INODE_INDIRECT1_COUNT
             then fill_indirect2 bd (a0 + 1) 0 a1 b1 indirect2 (tl new_blocks) st
             else fill_indirect2 bd a0 (b0 + 1) a1 b1 indirect2 (tl new_blocks) st
           else Inl IndexOutOfBounds)))
      else Inr (new_blocks, indirect2, st))"
  by pat_completeness auto
termination by (relation "measures [\<lambda>(_, a0, b0, a1, b1, _). a1 + 1 - a0, \<lambda>(_, a0, b0, a1, b1, _). 128 - b0]") auto

declare fill_indirect2.simps [simp del]

definition increase_size :: "'d BlockDevice \<Rightarrow> u32 \<Rightarrow> u32 list \<Rightarrow> DiskInode \<Rightarrow> 'd bstate \<Rightarrow> (DiskInode \<times> 'd bstate) result" where
  "increase_size bd new_size new_blocks di st =
     (let current_blocks = unat (data_blocks di);
          di = di\<lparr>di_size := new_size\<rparr>;
          total = unat (data_blocks di)
      in rbind (fill_blocks current_blocks (min INODE_DIRECT_COUNT total) (di_direct di) new_blocks) (\<lambda>(current_blocks, direct, new_blocks).
         let di = di\<lparr>di_direct := direct\<rparr> in
         if total \<le> INODE_DIRECT_COUNT then Inr (di, st)
         else rbind (if current_blocks = INODE_DIRECT_COUNT
                then rbind (unwrap (if new_blocks = [] then None else Some (hd new_blocks))) (\<lambda>b. Inr (di\<lparr>di_indirect1 := b\<rparr>, tl new_blocks))
                else Inr (di, new_blocks)) (\<lambda>(di, new_blocks).
         let current_blocks = current_blocks - INODE_DIRECT_COUNT;
             total = total - INODE_DIRECT_COUNT
         in rbind (BlockCache_modify bd (ucast (di_indirect1 di)) IndirectBlock_codec 0
              (closure_mut (\<lambda>indirect1.
                 rbind (fill_blocks current_blocks (min INODE_INDIRECT1_COUNT total) indirect1 new_blocks) (\<lambda>(c, arr, rest). Inr ((c, rest), arr)))) st) (\<lambda>((current_blocks, new_blocks), st).
            if total \<le> INODE_INDIRECT1_COUNT then Inr (di, st)
            else rbind (if current_blocks = INODE_INDIRECT1_COUNT
                   then rbind (unwrap (if new_blocks = [] then None else Some (hd new_blocks))) (\<lambda>b. Inr (di\<lparr>di_indirect2 := b\<rparr>, tl new_blocks))
                   else Inr (di, new_blocks)) (\<lambda>(di, new_blocks).
            let current_blocks = current_blocks - INODE_INDIRECT1_COUNT;
                total = total - INODE_INDIRECT1_COUNT;
                a0 = current_blocks div INODE_INDIRECT1_COUNT;
                b0 = current_blocks mod INODE_INDIRECT1_COUNT;
                a1 = total div INODE_INDIRECT1_COUNT;
                b1 = total mod INODE_INDIRECT1_COUNT
            in rbind (BlockCache_modify bd (ucast (di_indirect2 di)) IndirectBlock_codec 0
                 (\<lambda>indirect2 st. fill_indirect2 bd a0 b0 a1 b1 indirect2 new_blocks st) st) (\<lambda>(_, st).
               Inr (di, st)))))))"

subsection \<open>Clearing\<close>

function clear_direct :: "nat \<Rightarrow> nat \<Rightarrow> u32 list \<Rightarrow> u32 list \<Rightarrow> (nat \<times> u32 list \<times> u32 list) result" where
  "clear_direct current_blocks bound direct v =
     (if current_blocks < bound
      then rbind (index direct current_blocks) (\<lambda>b.
           clear_direct (current_blocks + 1) bound (direct[current_blocks := 0]) (v @ [b]))
      else Inr (current_blocks, direct, v))"
  by pat_completeness auto
termination by (relation "measure (\<lambda>(c, b, _). b - c)") auto

declare clear_direct.simps [simp del]

function push_blocks :: "nat \<Rightarrow> nat \<Rightarrow> u32 list \<Rightarrow> u32 list \<Rightarrow> u32 list result" where
  "push_blocks current_blocks bound arr v =
     (if current_blocks < bound
      then rbind (index arr current_blocks) (\<lambda>b. push_blocks (current_blocks + 1) bound arr (v @ [b]))
      else Inr v)"
  by pat_completeness auto
termination by (relation "measure (\<lambda>(c, b, _). b - c)") auto

declare push_blocks.simps [simp del]

definition push_indirect :: "'d BlockDevice \<Rightarrow> u32 \<Rightarrow> nat \<Rightarrow> u32 list \<Rightarrow> 'd bstate \<Rightarrow> (u32 list \<times> 'd bstate) result" where
  "push_indirect bd indirect1_id n v st =
     BlockCache_modify bd (ucast indirect1_id) IndirectBlock_codec 0
       (closure_mut (\<lambda>indirect1. Inr (v @ take n indirect1, indirect1))) st"

fun push_indirects :: "'d BlockDevice \<Rightarrow> u32 list \<Rightarrow> u32 list \<Rightarrow> 'd bstate \<Rightarrow> (u32 list \<times> 'd bstate) result" where
  "push_indirects bd [] v st = Inr (v, st)"
| "push_indirects bd (indirect1_id # ids) v st =
     rbind (push_indirect bd indirect1_id INODE_INDIRECT1_COUNT (v @ [indirect1_id]) st) (\<lambda>(v, st).
       push_indirects bd ids v st)"

definition clear_size :: "'d BlockDevice \<Rightarrow> DiskInode \<Rightarrow> 'd bstate \<Rightarrow> (u32 list \<times> DiskInode \<times> 'd bstate) result" where
  "clear_size bd di st =
     (let blocks = unat (data_blocks di);
          di = di\<lparr>di_size := 0\<rparr>
      in rbind (clear_direct 0 (min INODE_DIRECT_COUNT blocks) (di_direct di) []) (\<lambda>(current_blocks, direct, v).
         let di = di\<lparr>di_direct := direct\<rparr> in
         if blocks \<le> INODE_DIRECT_COUNT then Inr (v, di, st)
         else
           let v = v @ [di_indirect1 di];
               current_blocks = current_blocks - INODE_DIRECT_COUNT;
               blocks = blocks - INODE_DIRECT_COUNT
           in rbind (BlockCache_modify bd (ucast (di_indirect1 di)) IndirectBlock_codec 0
                (closure_mut (\<lambda>indirect1.
                   rbind (push_blocks current_blocks (min INODE_INDIRECT1_COUNT blocks) indirect1 v) (\<lambda>v. Inr (v, indirect1)))) st) (\<lambda>(v, st).
              let di = di\<lparr>di_indirect1 := 0\<rparr> in
              if blocks \<le> INODE_INDIRECT1_COUNT then Inr (v, di, st)
              else
                let v = v @ [di_indirect2 di];
                    blocks = blocks - INODE_INDIRECT1_COUNT;
                    a1 = blocks div INODE_INDIRECT1_COUNT;
                    b1 = blocks mod INODE_INDIRECT1_COUNT
                in rbind (BlockCache_modify bd (ucast (di_indirect2 di)) IndirectBlock_codec 0
                     (\<lambda>indirect2 st.
                        rbind (push_indirects bd (take a1 indirect2) v st) (\<lambda>(v, st).
                        rbind (if b1 > 0
                               then rbind (index indirect2 a1) (\<lambda>indirect1_id. push_indirect bd indirect1_id b1 (v @ [indirect1_id]) st)
                               else Inr (v, st)) (\<lambda>(v, st).
                          Inr (v, indirect2, st)))) st) (\<lambda>(v, st).
                   Inr (v, di\<lparr>di_indirect2 := 0\<rparr>, st)))))"

subsection \<open>Reading and writing\<close>

text \<open>
  \<open>read_at\<close> returns the bytes it has put at the front of the caller's buffer; their number is the
  value the Rust function returns.
\<close>

function inode_read_loop :: "'d BlockDevice \<Rightarrow> DiskInode \<Rightarrow> nat \<Rightarrow> nat \<Rightarrow> 'd bstate \<Rightarrow> (u8 list \<times> 'd bstate) result" where
  "inode_read_loop bd di cur stop st =
     (let cur_end = min ((cur div BLOCK_SZ + 1) * BLOCK_SZ) stop;
          block_read_bytes = cur_end - cur
      in rbind (get_disk_id bd di (of_nat (cur div BLOCK_SZ)) st) (\<lambda>(disk_id, st).
         rbind (BlockCache_read bd (ucast disk_id) DataBlock_codec 0
           (closure_ref (\<lambda>data_block. Inr (take block_read_bytes (drop (cur mod BLOCK_SZ) data_block)))) st) (\<lambda>(src, st).
         if cur_end = stop then Inr (src, st)
         else rbind (inode_read_loop bd di cur_end stop st) (\<lambda>(rest, st). Inr (src @ rest, st)))))"
  by pat_completeness auto
termination
proof (relation "measure (\<lambda>(_, _, cur, stop, _). stop - cur)", goal_cases)
  case (2 bd di cur stop st)
  have "cur < (cur div BLOCK_SZ + 1) * BLOCK_SZ" by (simp add: dividend_less_div_times)
  then show ?case using 2 by auto
qed simp

declare inode_read_loop.simps [simp del]

definition DiskInode_read_at :: "'d BlockDevice \<Rightarrow> DiskInode \<Rightarrow> usize \<Rightarrow> usize \<Rightarrow> 'd bstate \<Rightarrow> (u8 list \<times> 'd bstate) result" where
  "DiskInode_read_at bd di offset buf_len st =
     (let cur = unat offset;
          stop = min (unat (offset + buf_len)) (unat (di_size di))
      in if cur \<ge> stop then Inr ([], st) else inode_read_loop bd di cur stop st)"

function inode_write_loop :: "'d BlockDevice \<Rightarrow> DiskInode \<Rightarrow> nat \<Rightarrow> nat \<Rightarrow> u8 list \<Rightarrow> 'd bstate \<Rightarrow> (nat \<times> 'd bstate) result" where
  "inode_write_loop bd di cur stop buf st =
     (let cur_end = min ((cur div BLOCK_SZ + 1) * BLOCK_SZ) stop;
          block_write_bytes = cur_end - cur
      in rbind (get_disk_id bd di (of_nat (cur div BLOCK_SZ)) st) (\<lambda>(disk_id, st).
         rbind (BlockCache_modify bd (ucast disk_id) DataBlock_codec 0
           (closure_mut (\<lambda>data_block. Inr ((), put_bytes (cur mod BLOCK_SZ) (take block_write_bytes buf) data_block))) st) (\<lambda>(_, st).
         if cur_end = stop then Inr (block_write_bytes, st)
         else rbind (inode_write_loop bd di cur_end stop (drop block_write_bytes buf) st) (\<lambda>(n, st).
           Inr (block_write_bytes + n, st)))))"
  by pat_completeness auto
termination
proof (relation "measure (\<lambda>(_, _, cur, stop, _). stop - cur)", goal_cases)
  case (2 bd di cur stop buf st)
  have "cur < (cur div BLOCK_SZ + 1) * BLOCK_SZ" by (simp add: dividend_less_div_times)
  then show ?case using 2 by auto
qed simp

declare inode_write_loop.simps [simp del]

definition DiskInode_write_at :: "'d BlockDevice \<Rightarrow> DiskInode \<Rightarrow> usize \<Rightarrow> u8 list \<Rightarrow> 'd bstate \<Rightarrow> (nat \<times> 'd bstate) result" where
  "DiskInode_write_at bd di offset buf st =
     (let cur = unat offset;
          stop = min (unat (offset + of_nat (length buf))) (unat (di_size di))
      in rbind (rassert (cur \<le> stop)) (\<lambda>_. inode_write_loop bd di cur stop buf st))"

section \<open>Entries of directories\<close>

record DirEntry =
  de_name :: "u8 list"
  de_inode_id :: u32

definition DirEntry_new :: "u8 list \<Rightarrow> u32 \<Rightarrow> DirEntry result" where
  "DirEntry_new name inode_id =
     (if length name \<le> NAME_LENGTH_LIMIT + 1
      then Inr \<lparr>de_name = name @ replicate (NAME_LENGTH_LIMIT + 1 - length name) 0, de_inode_id = inode_id\<rparr>
      else Inl IndexOutOfBounds)"

definition DirEntry_as_bytes :: "DirEntry \<Rightarrow> u8 list" where
  "DirEntry_as_bytes e = de_name e @ le_bytes 4 (de_inode_id e)"

text \<open>The entry whose bytes were written through \<open>as_bytes_mut\<close>.\<close>

definition DirEntry_of_bytes :: "u8 list \<Rightarrow> DirEntry" where
  "DirEntry_of_bytes bs = \<lparr>de_name = take (NAME_LENGTH_LIMIT + 1) bs, de_inode_id = le_word (take 4 (drop (NAME_LENGTH_LIMIT + 1) bs))\<rparr>"

definition DirEntry_name :: "DirEntry \<Rightarrow> u8 list result" where
  "DirEntry_name e =
     (case find_index (\<lambda>b. b = 0) (de_name e) of
        None \<Rightarrow> Inl IndexOutOfBounds
      | Some len \<Rightarrow> unwrap (if utf8_ok (take len (de_name e)) then Some (take len (de_name e)) else None))"

end
