(* ===== verification/Easy_FS.thy ===== *)
theory Easy_FS
  imports Disk_Layout
begin

text \<open>
  The file system (\<open>easy-fs/src/efs.rs\<close>, \<open>easy-fs/src/vfs.rs\<close>): formatting and opening a disk,
  allocation of inodes and data blocks, and the operations on inodes that the kernel calls. The
  structure \<open>EasyFileSystem\<close> does not change after it is built; its lock is taken at the start of
  each operation on an inode and given back at its end, so operations do not interleave.
\<close>

section \<open>The file system\<close>

record EasyFileSystem =
  fs_inode_bitmap :: Bitmap
  fs_data_bitmap :: Bitmap
  fs_inode_area_start_block :: u32
  fs_data_area_start_block :: u32

definition get_inode_block_disk_id :: "EasyFileSystem \<Rightarrow> u32 \<Rightarrow> u32 \<times> usize" where
  "get_inode_block_disk_id fs inode_block_id =
     (let inode_size = 128; inode_per_block = 512 div inode_size
      in (fs_inode_area_start_block fs + inode_block_id div of_nat inode_per_block,
          of_nat (unat inode_block_id mod inode_per_block * inode_size)))"

definition get_data_block_disk_id :: "EasyFileSystem \<Rightarrow> u32 \<Rightarrow> u32" where
  "get_data_block_disk_id fs data_block_id = fs_data_area_start_block fs + data_block_id"

definition alloc_inode :: "'d BlockDevice \<Rightarrow> EasyFileSystem \<Rightarrow> 'd bstate \<Rightarrow> (u32 \<times> 'd bstate) result" where
  "alloc_inode bd fs st =
     rbind (Bitmap_alloc bd (fs_inode_bitmap fs) st) (\<lambda>(r, st). rbind (unwrap r) (\<lambda>x. Inr (ucast x, st)))"

definition alloc_data :: "'d BlockDevice \<Rightarrow> EasyFileSystem \<Rightarrow> 'd bstate \<Rightarrow> (u32 \<times> 'd bstate) result" where
  "alloc_data bd fs st =
     rbind (Bitmap_alloc bd (fs_data_bitmap fs) st) (\<lambda>(r, st).
     rbind (unwrap r) (\<lambda>x. Inr (ucast x + fs_data_area_start_block fs, st)))"

definition zero_block :: "'d BlockDevice \<Rightarrow> usize \<Rightarrow> 'd bstate \<Rightarrow> 'd bstate result" where
  "zero_block bd disk_id st =
     rbind (BlockCache_modify bd disk_id DataBlock_codec 0
       (closure_mut (\<lambda>data_block. Inr ((), map (\<lambda>_. 0) data_block))) st) (\<lambda>(_, st). Inr st)"

definition dealloc_data :: "'d BlockDevice \<Rightarrow> EasyFileSystem \<Rightarrow> u32 \<Rightarrow> 'd bstate \<Rightarrow> 'd bstate result" where
  "dealloc_data bd fs disk_id st =
     rbind (zero_block bd (ucast disk_id) st) (\<lambda>st.
     rbind (rassert (disk_id \<ge> fs_data_area_start_block fs)) (\<lambda>_.
       Bitmap_dealloc bd (fs_data_bitmap fs) (ucast (disk_id - fs_data_area_start_block fs)) st))"

fun zero_blocks :: "'d BlockDevice \<Rightarrow> nat list \<Rightarrow> 'd bstate \<Rightarrow> 'd bstate result" where
  "zero_blocks bd [] st = Inr st"
| "zero_blocks bd (i # is) st = rbind (zero_block bd (of_nat i) st) (zero_blocks bd is)"

definition EasyFileSystem_create :: "'d BlockDevice \<Rightarrow> u32 \<Rightarrow> u32 \<Rightarrow> 'd bstate \<Rightarrow> (EasyFileSystem \<times> 'd bstate) result" where
  "EasyFileSystem_create bd total_blks inode_bitmap_blocks st =
     (let inode_bitmap = Bitmap_new 1 (ucast inode_bitmap_blocks);
          inode_num = max_allocatable_blocks inode_bitmap;
          inode_area_blocks = (inode_num * 128 + 512 - 1) div 512;
          inode_total_blocks = ucast inode_bitmap_blocks + inode_area_blocks;
          data_total_blocks = ucast total_blks - 1 - inode_total_blocks;
          data_bitmap_blocks = (data_total_blocks + 4096) div 4097;
          data_area_blocks = data_total_blocks - data_bitmap_blocks;
          data_bitmap = Bitmap_new (1 + inode_total_blocks) data_bitmap_blocks
      in rbind (zero_blocks bd [0..<unat total_blks] st) (\<lambda>st.
         rbind (BlockCache_modify bd 0 SuperBlock_codec 0 (closure_mut (\<lambda>_.
             Inr ((), SuperBlock_initialize total_blks inode_bitmap_blocks (ucast inode_area_blocks)
                        (ucast data_bitmap_blocks) (ucast data_area_blocks)))) st) (\<lambda>(_, st).
         let fs = \<lparr>fs_inode_bitmap = inode_bitmap, fs_data_bitmap = data_bitmap,
                   fs_inode_area_start_block = 1 + inode_bitmap_blocks,
                   fs_data_area_start_block = ucast (1 + inode_total_blocks + data_bitmap_blocks)\<rparr>
         in rbind (alloc_inode bd fs st) (\<lambda>(i, st).
            rbind (rassert (i = 0)) (\<lambda>_.
            let (root_inode_disk_id, root_inode_block_offset) = get_inode_block_disk_id fs 0
            in rbind (BlockCache_modify bd (ucast root_inode_disk_id) DiskInode_codec root_inode_block_offset
                 (closure_mut (\<lambda>disk_inode. Inr ((), DiskInode_initialize Directory disk_inode))) st) (\<lambda>(_, st).
               rbind (block_cache_sync_all bd st) (\<lambda>st. Inr (fs, st))))))))"

definition EasyFileSystem_open :: "'d BlockDevice \<Rightarrow> 'd bstate \<Rightarrow> (EasyFileSystem \<times> 'd bstate) result" where
  "EasyFileSystem_open bd st =
     BlockCache_read bd 0 SuperBlock_codec 0 (closure_ref (\<lambda>super_block.
       rbind (rassert (SuperBlock_is_valid super_block)) (\<lambda>_.
       let inode_total_blocks = sb_inode_bitmap_blocks super_block + sb_inode_area_blocks super_block
       in Inr \<lparr>fs_inode_bitmap = Bitmap_new 1 (ucast (sb_inode_bitmap_blocks super_block)),
               fs_data_bitmap = Bitmap_new (ucast (1 + inode_total_blocks)) (ucast (sb_data_bitmap_blocks super_block)),
               fs_inode_area_start_block = 1 + sb_inode_bitmap_blocks super_block,
               fs_data_area_start_block = 1 + inode_total_blocks + sb_data_bitmap_blocks super_block\<rparr>))) st"

section \<open>Inodes\<close>

record Inode =
  ino_disk_id :: usize
  ino_block_offset :: usize

definition Inode_new :: "u32 \<Rightarrow> usize \<Rightarrow> Inode" where
  "Inode_new disk_id block_offset = \<lparr>ino_disk_id = ucast disk_id, ino_block_offset = block_offset\<rparr>"

definition root_inode :: "EasyFileSystem \<Rightarrow> Inode" where
  "root_inode fs = (let (disk_id, block_offset) = get_inode_block_disk_id fs 0 in Inode_new disk_id block_offset)"

definition read_disk_inode :: "'d BlockDevice \<Rightarrow> Inode \<Rightarrow> (DiskInode \<Rightarrow> 'd bstate \<Rightarrow> ('b \<times> 'd bstate) result)
    \<Rightarrow> 'd bstate \<Rightarrow> ('b \<times> 'd bstate) result" where
  "read_disk_inode bd ino f st = BlockCache_read bd (ino_disk_id ino) DiskInode_codec (ino_block_offset ino) f st"

definition modify_disk_inode :: "'d BlockDevice \<Rightarrow> Inode \<Rightarrow> (DiskInode \<Rightarrow> 'd bstate \<Rightarrow> ('b \<times> DiskInode \<times> 'd bstate) result)
    \<Rightarrow> 'd bstate \<Rightarrow> ('b \<times> 'd bstate) result" where
  "modify_disk_inode bd ino f st = BlockCache_modify bd (ino_disk_id ino) DiskInode_codec (ino_block_offset ino) f st"

subsection \<open>Directories\<close>

text \<open>Entry \<open>i\<close> of a directory, read into a \<open>DirEntry\<close> as the loops of \<open>find_inode_id\<close> and \<open>ls\<close> do.\<close>

definition read_entry :: "'d BlockDevice \<Rightarrow> DiskInode \<Rightarrow> nat \<Rightarrow> 'd bstate \<Rightarrow> (DirEntry \<times> 'd bstate) result" where
  "read_entry bd di i st =
     rbind (DiskInode_read_at bd di (of_nat (i * DIRENTRY_SZ)) 32 st) (\<lambda>(bytes, st).
     rbind (rassert (length bytes = DIRENTRY_SZ)) (\<lambda>_. Inr (DirEntry_of_bytes bytes, st)))"

fun find_entry :: "'d BlockDevice \<Rightarrow> u8 list \<Rightarrow> DiskInode \<Rightarrow> nat list \<Rightarrow> 'd bstate \<Rightarrow> (u32 option \<times> 'd bstate) result" where
  "find_entry bd name di [] st = Inr (None, st)"
| "find_entry bd name di (i # is) st =
     rbind (read_entry bd di i st) (\<lambda>(dir_entry, st).
     rbind (DirEntry_name dir_entry) (\<lambda>n.
       if n = name then Inr (Some (de_inode_id dir_entry), st) else find_entry bd name di is st))"

definition find_inode_id :: "'d BlockDevice \<Rightarrow> u8 list \<Rightarrow> DiskInode \<Rightarrow> 'd bstate \<Rightarrow> (u32 option \<times> 'd bstate) result" where
  "find_inode_id bd name di st =
     rbind (rassert (is_dir di)) (\<lambda>_. find_entry bd name di [0..<unat (di_size di) div DIRENTRY_SZ] st)"

definition Inode_find :: "'d BlockDevice \<Rightarrow> EasyFileSystem \<Rightarrow> u8 list \<Rightarrow> Inode \<Rightarrow> 'd bstate \<Rightarrow> (Inode option \<times> 'd bstate) result" where
  "Inode_find bd fs name ino st =
     read_disk_inode bd ino (\<lambda>disk_inode st.
       rbind (find_inode_id bd name disk_inode st) (\<lambda>(r, st).
         Inr (map_option (\<lambda>inode_id. let (disk_id, block_offset) = get_inode_block_disk_id fs inode_id
                                     in Inode_new disk_id block_offset) r, st))) st"

fun list_entries :: "'d BlockDevice \<Rightarrow> DiskInode \<Rightarrow> nat list \<Rightarrow> 'd bstate \<Rightarrow> (u8 list list \<times> 'd bstate) result" where
  "list_entries bd di [] st = Inr ([], st)"
| "list_entries bd di (i # is) st =
     rbind (read_entry bd di i st) (\<lambda>(dir_entry, st).
     rbind (DirEntry_name dir_entry) (\<lambda>n.
     rbind (list_entries bd di is st) (\<lambda>(ns, st). Inr (n # ns, st))))"

definition Inode_ls :: "'d BlockDevice \<Rightarrow> Inode \<Rightarrow> 'd bstate \<Rightarrow> (u8 list list \<times> 'd bstate) result" where
  "Inode_ls bd ino st =
     read_disk_inode bd ino (\<lambda>disk_inode st.
       rbind (rassert (is_dir disk_inode)) (\<lambda>_.
         list_entries bd disk_inode [0..<unat (di_size disk_inode) div DIRENTRY_SZ] st)) st"

subsection \<open>Growing, creating and clearing\<close>

fun alloc_datas :: "'d BlockDevice \<Rightarrow> EasyFileSystem \<Rightarrow> nat \<Rightarrow> 'd bstate \<Rightarrow> (u32 list \<times> 'd bstate) result" where
  "alloc_datas bd fs 0 st = Inr ([], st)"
| "alloc_datas bd fs (Suc n) st =
     rbind (alloc_data bd fs st) (\<lambda>(b, st).
     rbind (alloc_datas bd fs n st) (\<lambda>(v, st). Inr (b # v, st)))"

definition Inode_increase_size :: "'d BlockDevice \<Rightarrow> EasyFileSystem \<Rightarrow> u32 \<Rightarrow> DiskInode \<Rightarrow> 'd bstate \<Rightarrow> (DiskInode \<times> 'd bstate) result" where
  "Inode_increase_size bd fs new_size disk_inode st =
     (if new_size < di_size disk_inode then Inr (disk_inode, st)
      else rbind (blocks_num_needed new_size disk_inode) (\<lambda>blocks_needed.
           rbind (alloc_datas bd fs (unat blocks_needed) st) (\<lambda>(v, st).
             increase_size bd new_size v disk_inode st)))"

definition Inode_create :: "'d BlockDevice \<Rightarrow> EasyFileSystem \<Rightarrow> u8 list \<Rightarrow> Inode \<Rightarrow> 'd bstate \<Rightarrow> (Inode option \<times> 'd bstate) result" where
  "Inode_create bd fs name ino st =
     rbind (modify_disk_inode bd ino (\<lambda>disk_inode st.
         rbind (rassert (is_dir disk_inode)) (\<lambda>_.
         rbind (find_inode_id bd name disk_inode st) (\<lambda>(r, st). Inr (r, disk_inode, st)))) st) (\<lambda>(found, st).
     if found \<noteq> None then Inr (None, st)
     else rbind (alloc_inode bd fs st) (\<lambda>(new_inode_id, st).
       let (new_inode_disk_id, new_inode_block_offset) = get_inode_block_disk_id fs new_inode_id
       in rbind (BlockCache_modify bd (ucast new_inode_disk_id) DiskInode_codec new_inode_block_offset
            (closure_mut (\<lambda>new_inode. Inr ((), DiskInode_initialize File new_inode))) st) (\<lambda>(_, st).
          rbind (modify_disk_inode bd ino (\<lambda>disk_inode st.
              let file_count = unat (di_size disk_inode) div DIRENTRY_SZ;
                  new_size = (file_count + 1) * DIRENTRY_SZ
              in rbind (Inode_increase_size bd fs (of_nat new_size) disk_inode st) (\<lambda>(disk_inode, st).
                 rbind (DirEntry_new name new_inode_id) (\<lambda>dir_entry.
                 rbind (DiskInode_write_at bd disk_inode (of_nat (file_count * DIRENTRY_SZ)) (DirEntry_as_bytes dir_entry) st) (\<lambda>(_, st).
                   Inr ((), disk_inode, st))))) st) (\<lambda>(_, st).
          rbind (block_cache_sync_all bd st) (\<lambda>st.
            Inr (Some (Inode_new new_inode_disk_id new_inode_block_offset), st))))))"

fun dealloc_datas :: "'d BlockDevice \<Rightarrow> EasyFileSystem \<Rightarrow> u32 list \<Rightarrow> 'd bstate \<Rightarrow> 'd bstate result" where
  "dealloc_datas bd fs [] st = Inr st"
| "dealloc_datas bd fs (b # bs) st = rbind (dealloc_data bd fs b st) (dealloc_datas bd fs bs)"

definition Inode_clear :: "'d BlockDevice \<Rightarrow> EasyFileSystem \<Rightarrow> Inode \<Rightarrow> 'd bstate \<Rightarrow> 'd bstate result" where
  "Inode_clear bd fs ino st =
     rbind (modify_disk_inode bd ino (\<lambda>disk_inode st.
         let sz = di_size disk_inode
         in rbind (clear_size bd disk_inode st) (\<lambda>(dealloc_data_blocks, disk_inode, st).
            rbind (rassert (length dealloc_data_blocks = unat (total_blocks sz))) (\<lambda>_.
            rbind (dealloc_datas bd fs dealloc_data_blocks st) (\<lambda>st. Inr ((), disk_inode, st))))) st) (\<lambda>(_, st).
     block_cache_sync_all bd st)"

subsection \<open>Reading and writing\<close>

definition Inode_read_at :: "'d BlockDevice \<Rightarrow> usize \<Rightarrow> usize \<Rightarrow> Inode \<Rightarrow> 'd bstate \<Rightarrow> (u8 list \<times> 'd bstate) result" where
  "Inode_read_at bd offset buf_len ino st =
     read_disk_inode bd ino (\<lambda>disk_inode st. DiskInode_read_at bd disk_inode offset buf_len st) st"

definition Inode_write_at :: "'d BlockDevice \<Rightarrow> EasyFileSystem \<Rightarrow> usize \<Rightarrow> u8 list \<Rightarrow> Inode \<Rightarrow> 'd bstate \<Rightarrow> (nat \<times> 'd bstate) result" where
  "Inode_write_at bd fs offset buf ino st =
     rbind (modify_disk_inode bd ino (\<lambda>disk_inode st.
         rbind (Inode_increase_size bd fs (ucast (offset + of_nat (length buf))) disk_inode st) (\<lambda>(disk_inode, st).
         rbind (DiskInode_write_at bd disk_inode offset buf st) (\<lambda>(n, st). Inr (n, disk_inode, st)))) st) (\<lambda>(n, st).
     rbind (block_cache_sync_all bd st) (\<lambda>st. Inr (n, st)))"

end
