(* ===== verification/OS_Inode.thy ===== *)
theory OS_Inode
  imports Easy_FS User_Memory Signals
begin

text \<open>
  The files of the kernel that live on the disk (\<open>os/src/fs/inode.rs\<close>): open files with their
  offsets, the flags of \<open>open\<close>, and the root directory, which is opened when it is first used.
  A file is read into and written from the pieces of a translated user buffer.
\<close>

section \<open>The root directory\<close>

record 'd root_fs =
  rf_root :: "(EasyFileSystem \<times> Inode) option"
  rf_blocks :: "'d bstate"

definition ROOT_INODE :: "'d BlockDevice \<Rightarrow> 'd root_fs \<Rightarrow> ((EasyFileSystem \<times> Inode) \<times> 'd root_fs) result" where
  "ROOT_INODE bd s =
     (case rf_root s of
        Some r \<Rightarrow> Inr (r, s)
      | None \<Rightarrow>
          rbind (EasyFileSystem_open bd (rf_blocks s)) (\<lambda>(efs, st).
          let r = (efs, root_inode efs) in
          Inr (r, s\<lparr>rf_root := Some r, rf_blocks := st\<rparr>)))"

section \<open>Open files\<close>

record OSInode =
  osi_readable :: bool
  osi_writable :: bool
  osi_offset :: usize
  osi_inode :: Inode

definition OSInode_new :: "bool \<Rightarrow> bool \<Rightarrow> Inode \<Rightarrow> OSInode" where
  "OSInode_new can_read can_write inode =
     \<lparr>osi_readable = can_read, osi_writable = can_write, osi_offset = 0, osi_inode = inode\<rparr>"

text \<open>The loop of \<open>read_all\<close> ends with the first read that returns nothing.\<close>

partial_function (option) read_all_loop ::
  "'d BlockDevice \<Rightarrow> OSInode \<Rightarrow> u8 list \<Rightarrow> 'd bstate \<Rightarrow> (u8 list \<times> OSInode \<times> 'd bstate) result option" where
  "read_all_loop bd f v st =
     (case Inode_read_at bd (osi_offset f) 512 (osi_inode f) st of
        Inl e \<Rightarrow> Some (Inl e)
      | Inr (bytes, st1) \<Rightarrow>
          if length bytes = 0 then Some (Inr (v, f, st1))
          else read_all_loop bd (f\<lparr>osi_offset := osi_offset f + of_nat (length bytes)\<rparr>) (v @ bytes) st1)"

definition read_all :: "'d BlockDevice \<Rightarrow> OSInode \<Rightarrow> 'd bstate \<Rightarrow> (u8 list \<times> OSInode \<times> 'd bstate) result option" where
  "read_all bd f st = read_all_loop bd f [] st"

text \<open>\<open>File::read\<close> and \<open>File::write\<close>: one piece of the user buffer after the other.\<close>

fun OSInode_read :: "'d BlockDevice \<Rightarrow> user_slice list \<Rightarrow> usize \<Rightarrow> OSInode \<Rightarrow> mem \<Rightarrow> 'd bstate
    \<Rightarrow> (usize \<times> OSInode \<times> mem \<times> 'd bstate) result" where
  "OSInode_read bd [] total_read_size f m st = Inr (total_read_size, f, m, st)"
| "OSInode_read bd (piece # pieces) total_read_size f m st =
     rbind (Inode_read_at bd (osi_offset f) (snd piece) (osi_inode f) st) (\<lambda>(bytes, st1).
     let read_size = of_nat (length bytes) in
     if read_size = 0 then Inr (total_read_size, f, m, st1)
     else
       OSInode_read bd pieces (total_read_size + read_size)
         (f\<lparr>osi_offset := osi_offset f + read_size\<rparr>) (write_bytes m (fst piece) bytes) st1)"

fun OSInode_write :: "'d BlockDevice \<Rightarrow> EasyFileSystem \<Rightarrow> user_slice list \<Rightarrow> usize \<Rightarrow> OSInode \<Rightarrow> mem \<Rightarrow> 'd bstate
    \<Rightarrow> (usize \<times> OSInode \<times> 'd bstate) result" where
  "OSInode_write bd efs [] total_write_size f m st = Inr (total_write_size, f, st)"
| "OSInode_write bd efs (piece # pieces) total_write_size f m st =
     rbind (Inode_write_at bd efs (osi_offset f) (read_bytes m (fst piece) (unat (snd piece))) (osi_inode f) st)
       (\<lambda>(write_size, st1).
     rbind (rassert (of_nat write_size = snd piece)) (\<lambda>_.
     OSInode_write bd efs pieces (total_write_size + of_nat write_size)
       (f\<lparr>osi_offset := osi_offset f + of_nat write_size\<rparr>) m st1))"

section \<open>Opening\<close>

type_synonym OpenFlags = u32

abbreviation (input) RDONLY :: OpenFlags where "RDONLY \<equiv> 0"
abbreviation (input) WRONLY :: OpenFlags where "WRONLY \<equiv> 1"
abbreviation (input) RDWR :: OpenFlags where "RDWR \<equiv> 2"
abbreviation (input) CREATE :: OpenFlags where "CREATE \<equiv> 0x200"
abbreviation (input) TRUNC :: OpenFlags where "TRUNC \<equiv> 0x400"

definition OpenFlags_from_bits :: "u32 \<Rightarrow> OpenFlags option" where
  "OpenFlags_from_bits bits = (if bits AND NOT (WRONLY OR RDWR OR CREATE OR TRUNC) = 0 then Some bits else None)"

definition read_write :: "OpenFlags \<Rightarrow> bool \<times> bool" where
  "read_write flags =
     (if flags = 0 then (True, False) else if contains flags WRONLY then (False, True) else (True, True))"

definition open_file :: "'d BlockDevice \<Rightarrow> u8 list \<Rightarrow> OpenFlags \<Rightarrow> 'd root_fs \<Rightarrow> (OSInode option \<times> 'd root_fs) result" where
  "open_file bd name flags s =
     (case read_write flags of (can_read, can_write) \<Rightarrow>
      rbind (ROOT_INODE bd s) (\<lambda>((efs, root), s1).
      rbind (Inode_find bd efs name root (rf_blocks s1)) (\<lambda>(found, st).
      if contains flags CREATE then
        (case found of
           Some inode \<Rightarrow>
             rbind (Inode_clear bd efs inode st) (\<lambda>st1.
             Inr (Some (OSInode_new can_read can_write inode), s1\<lparr>rf_blocks := st1\<rparr>))
         | None \<Rightarrow>
             rbind (Inode_create bd efs name root st) (\<lambda>(created, st1).
             Inr (map_option (OSInode_new can_read can_write) created, s1\<lparr>rf_blocks := st1\<rparr>)))
      else
        (case found of
           Some inode \<Rightarrow>
             rbind (if contains flags TRUNC then Inode_clear bd efs inode st else Inr st) (\<lambda>st1.
             Inr (Some (OSInode_new can_read can_write inode), s1\<lparr>rf_blocks := st1\<rparr>))
         | None \<Rightarrow> Inr (None, s1\<lparr>rf_blocks := st\<rparr>)))))"

end
