(* ===== verification/Process.thy ===== *)
theory Process
  imports User_Space Pipe Sync Timer Signals Recycle_Allocator OS_Inode
begin

text \<open>
  Processes and threads: \<open>os/src/task/process\<close>, \<open>os/src/task/thread\<close>, the process table of
  \<open>os/src/task/scheduler/process_manager.rs\<close>, the kernel address space of \<open>os/src/mm/mod.rs\<close>
  and the end of a thread in \<open>os/src/task/mod.rs\<close>. Shared pointers to processes, threads, files
  and ring buffers are numbers, and the kernel state holds one store for each of them. Dropping the
  last pointer is written out where the code relies on it: at the end of a process for the control
  blocks of its other threads, and when a thread or a process is waited for. \<open>k_held\<close> and
  \<open>k_held_file\<close> are the pointers to processes and files that sit on the kernel stack of a thread
  which has given up the processor inside a system call.
\<close>

section \<open>State\<close>

record ProcessControlBlock = sig_state +
  pc_pid :: usize
  pc_is_zombie :: bool
  pc_address_space :: AddressSpace
  pc_parent :: "nat option"
  pc_children :: "nat list"
  pc_exit_code :: "32 word"
  pc_fd_table :: "nat option list"
  pc_tasks :: "nat option list"
  pc_tid_allocator :: RecycleAllocator
  pc_mutex_list :: "Mutex option list"
  pc_semaphore_list :: "Semaphore option list"
  pc_condvar_list :: "Condvar option list"

datatype FileObject = FStdin | FStdout | FPipe Pipe | FInode OSInode

text \<open>The addresses, the parser and the driver of the disk that the kernel is linked with.\<close>

record machine =
  mc_strampoline :: usize
  mc_trap_handler :: usize
  mc_trap_return :: usize
  mc_sstatus :: usize
  mc_ElfFile_new :: "u8 list \<Rightarrow> elf_file option"
  mc_BLOCK_DEVICE :: "u8 list BlockDevice"

record kernel = timed +
  k_phys :: phys
  k_kernel_space :: AddressSpace
  k_proc :: "nat \<Rightarrow> ProcessControlBlock"
  k_next_proc :: nat
  k_next_task :: nat
  k_pid2pcb :: "(usize \<times> nat) list"
  k_pid_allocator :: RecycleAllocator
  k_kernel_stack_allocator :: RecycleAllocator
  k_initproc :: nat
  k_file :: "nat \<Rightarrow> FileObject"
  k_next_file :: nat
  k_ring :: "nat \<Rightarrow> PipeRingBuffer"
  k_next_ring :: nat
  k_held :: "nat \<Rightarrow> nat list"
  k_held_file :: "nat \<Rightarrow> nat list"
  k_console :: "u8 list"
  k_fs :: "u8 list root_fs"

definition upd_proc :: "nat \<Rightarrow> (ProcessControlBlock \<Rightarrow> ProcessControlBlock) \<Rightarrow> kernel \<Rightarrow> kernel" where
  "upd_proc p f k = k\<lparr>k_proc := (k_proc k)(p := f (k_proc k p))\<rparr>"

definition upd_tcb :: "nat \<Rightarrow> (TaskControlBlock \<Rightarrow> TaskControlBlock) \<Rightarrow> kernel \<Rightarrow> kernel" where
  "upd_tcb t f k = k\<lparr>sc_tcb := (sc_tcb k)(t := f (sc_tcb k t))\<rparr>"

definition current_process :: "kernel \<Rightarrow> nat result" where
  "current_process k = rbind (current_task k) (\<lambda>t. Inr (tcb_process (sc_tcb k t)))"

section \<open>The kernel address space and kernel stacks\<close>

definition kernel_satp :: "kernel \<Rightarrow> usize" where
  "kernel_satp k = AddressSpace_satp (k_kernel_space k)"

definition kernel_add_segment_framed :: "VirtAddr \<Rightarrow> VirtAddr \<Rightarrow> u8 \<Rightarrow> kernel \<Rightarrow> kernel result" where
  "kernel_add_segment_framed start_va end_va permission k =
     rbind (add_segment_framed start_va end_va permission (k_kernel_space k) (k_phys k)) (\<lambda>(a, s).
     Inr (k\<lparr>k_kernel_space := a, k_phys := s\<rparr>))"

definition kernel_remove_segment_with_start_vpn :: "VirtPageNum \<Rightarrow> kernel \<Rightarrow> kernel result" where
  "kernel_remove_segment_with_start_vpn start_vpn k =
     rbind (remove_segment_with_start_vpn start_vpn (k_kernel_space k) (k_phys k)) (\<lambda>(a, s).
     Inr (k\<lparr>k_kernel_space := a, k_phys := s\<rparr>))"

definition kernel_stack_position :: "usize \<Rightarrow> usize \<times> usize" where
  "kernel_stack_position ident =
     (let top = TRAMPOLINE - ident * (KERNEL_STACK_SIZE + PAGE_SIZE) in (top - KERNEL_STACK_SIZE, top))"

definition KernelStack_get_top :: "usize \<Rightarrow> usize" where
  "KernelStack_get_top ident = snd (kernel_stack_position ident)"

definition KernelStack_get_bottom :: "usize \<Rightarrow> usize" where
  "KernelStack_get_bottom ident = fst (kernel_stack_position ident)"

definition alloc_kernel_stack :: "kernel \<Rightarrow> (usize \<times> kernel) result" where
  "alloc_kernel_stack k =
     (case ra_alloc (k_kernel_stack_allocator k) of (ident, al) \<Rightarrow>
      case kernel_stack_position ident of (kernel_stack_bottom, kernel_stack_top) \<Rightarrow>
      rbind (kernel_add_segment_framed (VirtAddr_from kernel_stack_bottom) (VirtAddr_from kernel_stack_top)
               (Permission_R OR Permission_W) (k\<lparr>k_kernel_stack_allocator := al\<rparr>)) (\<lambda>k1.
      Inr (ident, k1)))"

definition KernelStack_drop :: "usize \<Rightarrow> kernel \<Rightarrow> kernel result" where
  "KernelStack_drop ident k =
     rbind (VirtPageNum_from_addr (VirtAddr_from (KernelStack_get_bottom ident))) (\<lambda>vpn.
     rbind (kernel_remove_segment_with_start_vpn vpn k) (\<lambda>k1.
     rbind (ra_dealloc ident (k_kernel_stack_allocator k1)) (\<lambda>al.
     Inr (k1\<lparr>k_kernel_stack_allocator := al\<rparr>))))"

section \<open>The user resources of a thread\<close>

definition trap_cx_bottom :: "usize \<Rightarrow> usize" where
  "trap_cx_bottom tid = TRAP_CONTEXT_BASE - tid * PAGE_SIZE"

definition user_stack_bottom :: "usize \<Rightarrow> usize \<Rightarrow> usize" where
  "user_stack_bottom user_stack_base tid = user_stack_base + tid * (PAGE_SIZE + USER_STACK_SIZE)"

definition alloc_user_resource :: "TaskUserResource \<Rightarrow> kernel \<Rightarrow> kernel result" where
  "alloc_user_resource ur k =
     (let process = ur_process ur;
          bottom = user_stack_bottom (ur_user_stack_base ur) (ur_tid ur);
          cx_bottom = trap_cx_bottom (ur_tid ur) in
      rbind (add_segment_framed (VirtAddr_from bottom) (VirtAddr_from (bottom + USER_STACK_SIZE))
               (Permission_R OR Permission_W OR Permission_U)
               (pc_address_space (k_proc k process)) (k_phys k)) (\<lambda>(a, s).
      rbind (add_segment_framed (VirtAddr_from cx_bottom) (VirtAddr_from (cx_bottom + PAGE_SIZE))
               (Permission_R OR Permission_W) a s) (\<lambda>(a, s).
      Inr (upd_proc process (\<lambda>pcb. pcb\<lparr>pc_address_space := a\<rparr>) (k\<lparr>k_phys := s\<rparr>)))))"

text \<open>
  The addresses are converted with \<open>usize::into\<close> where a page number is expected, as in the code.
\<close>

definition dealloc_user_resource :: "TaskUserResource \<Rightarrow> kernel \<Rightarrow> kernel result" where
  "dealloc_user_resource ur k =
     (let process = ur_process ur;
          bottom = user_stack_bottom (ur_user_stack_base ur) (ur_tid ur);
          cx_bottom = trap_cx_bottom (ur_tid ur) in
      rbind (remove_segment_with_start_vpn (VirtPageNum_from bottom)
               (pc_address_space (k_proc k process)) (k_phys k)) (\<lambda>(a, s).
      rbind (remove_segment_with_start_vpn (VirtPageNum_from cx_bottom) a s) (\<lambda>(a, s).
      Inr (upd_proc process (\<lambda>pcb. pcb\<lparr>pc_address_space := a\<rparr>) (k\<lparr>k_phys := s\<rparr>)))))"

definition trap_cx_bottom_va :: "TaskUserResource \<Rightarrow> usize" where
  "trap_cx_bottom_va ur = trap_cx_bottom (ur_tid ur)"

definition trap_cx_ppn :: "TaskUserResource \<Rightarrow> kernel \<Rightarrow> PhysPageNum result" where
  "trap_cx_ppn ur k =
     rbind (VirtPageNum_from_addr (VirtAddr_from (trap_cx_bottom (ur_tid ur)))) (\<lambda>vpn.
     rbind (AddressSpace_translate (pc_address_space (k_proc k (ur_process ur))) vpn (pm_mem (k_phys k))) (\<lambda>r.
     rbind (unwrap r) (\<lambda>pte. Inr (pte_ppn pte))))"

definition user_stack_top :: "TaskUserResource \<Rightarrow> usize" where
  "user_stack_top ur = user_stack_bottom (ur_user_stack_base ur) (ur_tid ur) + USER_STACK_SIZE"

definition TaskUserResource_new :: "nat \<Rightarrow> usize \<Rightarrow> bool \<Rightarrow> kernel \<Rightarrow> (TaskUserResource \<times> kernel) result" where
  "TaskUserResource_new process user_stack_base alloc k =
     (case ra_alloc (pc_tid_allocator (k_proc k process)) of (tid, al) \<Rightarrow>
      let ur = \<lparr>ur_tid = tid, ur_user_stack_base = user_stack_base, ur_process = process\<rparr>;
          k1 = upd_proc process (\<lambda>pcb. pcb\<lparr>pc_tid_allocator := al\<rparr>) k in
      if alloc then rbind (alloc_user_resource ur k1) (\<lambda>k2. Inr (ur, k2)) else Inr (ur, k1))"

section \<open>Thread control blocks\<close>

definition TaskControlBlock_new :: "machine \<Rightarrow> nat \<Rightarrow> usize \<Rightarrow> bool \<Rightarrow> kernel \<Rightarrow> (nat \<times> kernel) result" where
  "TaskControlBlock_new mc process user_stack_base alloc k =
     rbind (TaskUserResource_new process user_stack_base alloc k) (\<lambda>(ur, k1).
     rbind (trap_cx_ppn ur k1) (\<lambda>ppn.
     rbind (alloc_kernel_stack k1) (\<lambda>(ks, k2).
     let t = k_next_task k2;
         tcb = \<lparr>tcb_process = process, tcb_kernel_stack = ks, tcb_user_resource = Some ur, tcb_status = Ready,
                tcb_task_cx = goto_trap_return (mc_trap_return mc) (KernelStack_get_top ks),
                tcb_trap_cx_ppn = ppn, tcb_exit_code = None, tcb_trap_cx_backup = None\<rparr> in
     Inr (t, k2\<lparr>sc_tcb := (sc_tcb k2)(t := tcb), k_next_task := t + 1\<rparr>))))"

definition get_trap_cx :: "nat \<Rightarrow> kernel \<Rightarrow> usize result" where
  "get_trap_cx t k = PhysPageNum_get_mut (tcb_trap_cx_ppn (sc_tcb k t))"

definition task_satp :: "nat \<Rightarrow> kernel \<Rightarrow> usize" where
  "task_satp t k = AddressSpace_satp (pc_address_space (k_proc k (tcb_process (sc_tcb k t))))"

definition get_tid :: "nat \<Rightarrow> kernel \<Rightarrow> usize result" where
  "get_tid t k = rbind (unwrap (tcb_user_resource (sc_tcb k t))) (\<lambda>ur. Inr (ur_tid ur))"

definition write_trap_cx :: "nat \<Rightarrow> TrapContext \<Rightarrow> kernel \<Rightarrow> kernel result" where
  "write_trap_cx t c k =
     rbind (get_trap_cx t k) (\<lambda>cx.
     Inr (k\<lparr>k_phys := (k_phys k)\<lparr>pm_mem := store_trap_cx cx c (pm_mem (k_phys k))\<rparr>\<rparr>))"

definition write_trap_cx_word :: "nat \<Rightarrow> nat \<Rightarrow> usize \<Rightarrow> kernel \<Rightarrow> kernel result" where
  "write_trap_cx_word t i v k =
     rbind (get_trap_cx t k) (\<lambda>cx.
     Inr (k\<lparr>k_phys := (k_phys k)\<lparr>pm_mem := store64 (pm_mem (k_phys k)) (trap_cx_word cx i) v\<rparr>\<rparr>))"

text \<open>Dropping a control block: its kernel stack, then its user resources if it still has them.\<close>

definition TaskControlBlock_drop :: "nat \<Rightarrow> kernel \<Rightarrow> kernel result" where
  "TaskControlBlock_drop t k =
     rbind (KernelStack_drop (tcb_kernel_stack (sc_tcb k t)) k) (\<lambda>k1.
     case tcb_user_resource (sc_tcb k1 t) of None \<Rightarrow> Inr k1 | Some ur \<Rightarrow> dealloc_user_resource ur k1)"

fun drop_tasks :: "nat option list \<Rightarrow> kernel \<Rightarrow> kernel result" where
  "drop_tasks [] k = Inr k"
| "drop_tasks (None # ts) k = drop_tasks ts k"
| "drop_tasks (Some t # ts) k = rbind (TaskControlBlock_drop t k) (drop_tasks ts)"

section \<open>Process identifiers and the process table\<close>

definition pid_alloc :: "kernel \<Rightarrow> usize \<times> kernel" where
  "pid_alloc k = (case ra_alloc (k_pid_allocator k) of (pid, al) \<Rightarrow> (pid, k\<lparr>k_pid_allocator := al\<rparr>))"

definition PidHandle_drop :: "usize \<Rightarrow> kernel \<Rightarrow> kernel result" where
  "PidHandle_drop pid k =
     rbind (ra_dealloc pid (k_pid_allocator k)) (\<lambda>al. Inr (k\<lparr>k_pid_allocator := al\<rparr>))"

definition pid2process :: "usize \<Rightarrow> kernel \<Rightarrow> nat option" where
  "pid2process pid k = map_of (k_pid2pcb k) pid"

definition insert_into_pid2process :: "usize \<Rightarrow> nat \<Rightarrow> kernel \<Rightarrow> kernel" where
  "insert_into_pid2process pid process k = k\<lparr>k_pid2pcb := snd (bt_insert pid process (k_pid2pcb k))\<rparr>"

definition remove_from_pid2process :: "usize \<Rightarrow> kernel \<Rightarrow> kernel result" where
  "remove_from_pid2process pid k =
     (case bt_remove pid (k_pid2pcb k) of
        (None, _) \<Rightarrow> Inl ExplicitPanic
      | (Some _, t) \<Rightarrow> Inr (k\<lparr>k_pid2pcb := t\<rparr>))"

section \<open>Processes\<close>

definition alloc_tid :: "ProcessControlBlock \<Rightarrow> usize \<times> ProcessControlBlock" where
  "alloc_tid pcb = (case ra_alloc (pc_tid_allocator pcb) of (tid, al) \<Rightarrow> (tid, pcb\<lparr>pc_tid_allocator := al\<rparr>))"

definition dealloc_tid :: "usize \<Rightarrow> ProcessControlBlock \<Rightarrow> ProcessControlBlock result" where
  "dealloc_tid tid pcb =
     rbind (ra_dealloc tid (pc_tid_allocator pcb)) (\<lambda>al. Inr (pcb\<lparr>pc_tid_allocator := al\<rparr>))"

definition thread_count :: "ProcessControlBlock \<Rightarrow> nat" where
  "thread_count pcb = length (pc_tasks pcb)"

definition get_task :: "nat \<Rightarrow> ProcessControlBlock \<Rightarrow> nat result" where
  "get_task tid pcb = rbind (index (pc_tasks pcb) tid) unwrap"

definition alloc_fd :: "ProcessControlBlock \<Rightarrow> nat \<times> ProcessControlBlock" where
  "alloc_fd pcb =
     (case find_index (\<lambda>f. f = None) (pc_fd_table pcb) of
        Some fd \<Rightarrow> (fd, pcb)
      | None \<Rightarrow> (length (pc_fd_table pcb), pcb\<lparr>pc_fd_table := pc_fd_table pcb @ [None]\<rparr>))"

text \<open>The control block both \<open>new\<close> and \<open>fork\<close> start from.\<close>

definition fresh_pcb :: "usize \<Rightarrow> AddressSpace \<Rightarrow> nat option \<Rightarrow> nat option list \<Rightarrow> SignalAction list \<Rightarrow> SignalFlags
    \<Rightarrow> ProcessControlBlock" where
  "fresh_pcb pid a parent fds actions smask =
     \<lparr>sg_signals = 0, sg_signal_actions = actions, sg_signal_mask = smask, sg_handling_signal = - 1,
      sg_killed = False, sg_frozen = False,
      pc_pid = pid, pc_is_zombie = False, pc_address_space = a, pc_parent = parent, pc_children = [],
      pc_exit_code = 0, pc_fd_table = fds, pc_tasks = [], pc_tid_allocator = ra_new,
      pc_mutex_list = [], pc_semaphore_list = [], pc_condvar_list = []\<rparr>"

definition alloc_proc :: "ProcessControlBlock \<Rightarrow> kernel \<Rightarrow> nat \<times> kernel" where
  "alloc_proc pcb k =
     (let p = k_next_proc k in (p, k\<lparr>k_proc := (k_proc k)(p := pcb), k_next_proc := p + 1\<rparr>))"

definition alloc_file :: "FileObject \<Rightarrow> kernel \<Rightarrow> nat \<times> kernel" where
  "alloc_file f k =
     (let n = k_next_file k in (n, k\<lparr>k_file := (k_file k)(n := f), k_next_file := n + 1\<rparr>))"

definition ProcessControlBlock_new :: "machine \<Rightarrow> u8 list \<Rightarrow> kernel \<Rightarrow> (nat \<times> kernel) result" where
  "ProcessControlBlock_new mc elf_data k =
     rbind (from_elf (mc_ElfFile_new mc) (mc_strampoline mc) elf_data (k_phys k))
       (\<lambda>(a, user_stack_base, entry_point, s).
     case pid_alloc (k\<lparr>k_phys := s\<rparr>) of (pid, k1) \<Rightarrow>
     case alloc_file FStdin k1 of (f0, k2) \<Rightarrow>
     case alloc_file FStdout k2 of (f1, k3) \<Rightarrow>
     case alloc_file FStdout k3 of (f2, k4) \<Rightarrow>
     case alloc_proc (fresh_pcb pid a None [Some f0, Some f1, Some f2] SignalActionTable_default 0) k4 of (p, k5) \<Rightarrow>
     rbind (TaskControlBlock_new mc p user_stack_base True k5) (\<lambda>(t, k6).
     rbind (unwrap (tcb_user_resource (sc_tcb k6 t))) (\<lambda>ur.
     rbind (write_trap_cx t
              (app_initial_context (mc_sstatus mc) entry_point (user_stack_top ur) (kernel_satp k6)
                 (KernelStack_get_top (tcb_kernel_stack (sc_tcb k6 t))) (mc_trap_handler mc)) k6) (\<lambda>k7.
     let k8 = upd_proc p (\<lambda>pcb. pcb\<lparr>pc_tasks := pc_tasks pcb @ [Some t]\<rparr>) k7;
         k9 = add_task t k8
     in Inr (p, insert_into_pid2process pid p k9)))))"

text \<open>\<open>exec\<close>: the arguments are copied below the pointer array on the user stack.\<close>

fun write_user_string :: "usize \<Rightarrow> usize \<Rightarrow> u8 list \<Rightarrow> mem \<Rightarrow> mem result" where
  "write_user_string satp p [] m =
     rbind (translated_refmut satp p m) (\<lambda>pa. Inr (m(pa := 0)))"
| "write_user_string satp p (c # cs) m =
     rbind (translated_refmut satp p m) (\<lambda>pa. write_user_string satp (p + 1) cs (m(pa := c)))"

fun translate_argv :: "usize \<Rightarrow> usize \<Rightarrow> nat \<Rightarrow> mem \<Rightarrow> usize list result" where
  "translate_argv satp argv_base 0 m = Inr []"
| "translate_argv satp argv_base (Suc n) m =
     rbind (translate_argv satp argv_base n m) (\<lambda>ps.
     rbind (translated_refmut satp (argv_base + of_nat n * 8) m) (\<lambda>pa. Inr (ps @ [pa])))"

fun push_args :: "usize \<Rightarrow> usize list \<Rightarrow> u8 list list \<Rightarrow> usize \<Rightarrow> mem \<Rightarrow> (usize \<times> mem) result" where
  "push_args satp argv [] user_sp m = Inr (user_sp, m)"
| "push_args satp argv (arg # args) user_sp m =
     (let sp = user_sp - (of_nat (length arg) + 1) in
      rbind (index argv 0) (\<lambda>slot.
      rbind (write_user_string satp sp arg (store64 m slot sp)) (\<lambda>m1.
      push_args satp (tl argv) args sp m1)))"

definition exec :: "machine \<Rightarrow> nat \<Rightarrow> u8 list \<Rightarrow> u8 list list \<Rightarrow> kernel \<Rightarrow> kernel result" where
  "exec mc p elf_data args k =
     rbind (rassert (thread_count (k_proc k p) = 1)) (\<lambda>_.
     rbind (from_elf (mc_ElfFile_new mc) (mc_strampoline mc) elf_data (k_phys k))
       (\<lambda>(a, user_stack_base, entry_point, s).
     let satp = AddressSpace_satp a in
     rbind (AddressSpace_drop (pc_address_space (k_proc k p)) s) (\<lambda>s1.
     let k1 = upd_proc p (\<lambda>pcb. pcb\<lparr>pc_address_space := a\<rparr>) (k\<lparr>k_phys := s1\<rparr>) in
     rbind (get_task 0 (k_proc k1 p)) (\<lambda>t.
     rbind (unwrap (tcb_user_resource (sc_tcb k1 t))) (\<lambda>ur0.
     let ur = ur0\<lparr>ur_user_stack_base := user_stack_base\<rparr>;
         k2 = upd_tcb t (\<lambda>tcb. tcb\<lparr>tcb_user_resource := Some ur\<rparr>) k1 in
     rbind (alloc_user_resource ur k2) (\<lambda>k3.
     rbind (trap_cx_ppn ur k3) (\<lambda>ppn.
     let k4 = upd_tcb t (\<lambda>tcb. tcb\<lparr>tcb_trap_cx_ppn := ppn\<rparr>) k3;
         argc = length args;
         argv_base = user_stack_top ur - (of_nat argc + 1) * 8;
         m = pm_mem (k_phys k4) in
     rbind (translate_argv satp argv_base (argc + 1) m) (\<lambda>argv.
     rbind (index argv argc) (\<lambda>last_slot.
     rbind (push_args satp argv args argv_base (store64 m last_slot 0)) (\<lambda>(sp, m1).
     let user_sp = sp - sp mod 8;
         cx = app_initial_context (mc_sstatus mc) entry_point user_sp (kernel_satp k4)
                (KernelStack_get_top (tcb_kernel_stack (sc_tcb k4 t))) (mc_trap_handler mc);
         cx1 = cx\<lparr>tc_gprs := (tc_gprs cx)[10 := of_nat argc, 11 := argv_base]\<rparr> in
     write_trap_cx t cx1 (k4\<lparr>k_phys := (k_phys k4)\<lparr>pm_mem := m1\<rparr>\<rparr>)))))))))))"

definition fork :: "machine \<Rightarrow> nat \<Rightarrow> kernel \<Rightarrow> (nat \<times> kernel) result" where
  "fork mc parent k =
     rbind (rassert (thread_count (k_proc k parent) = 1)) (\<lambda>_.
     rbind (from_existed_user (mc_strampoline mc) (pc_address_space (k_proc k parent)) (k_phys k)) (\<lambda>(a, s).
     case pid_alloc (k\<lparr>k_phys := s\<rparr>) of (pid, k1) \<Rightarrow>
     case alloc_proc (fresh_pcb pid a (Some parent) (pc_fd_table (k_proc k parent))
                        (sg_signal_actions (k_proc k parent)) (sg_signal_mask (k_proc k parent))) k1 of (p, k2) \<Rightarrow>
     rbind (get_task 0 (k_proc k parent)) (\<lambda>t0.
     rbind (unwrap (tcb_user_resource (sc_tcb k t0))) (\<lambda>ur0.
     rbind (TaskControlBlock_new mc p (ur_user_stack_base ur0) False k2) (\<lambda>(t, k3).
     rbind (write_trap_cx_word t KERNEL_STACK_TOP_WORD
              (KernelStack_get_top (tcb_kernel_stack (sc_tcb k3 t))) k3) (\<lambda>k4.
     let k5 = upd_proc p (\<lambda>pcb. pcb\<lparr>pc_tasks := pc_tasks pcb @ [Some t]\<rparr>) k4;
         k6 = add_task t k5;
         k7 = insert_into_pid2process pid p k6
     in Inr (p, upd_proc parent (\<lambda>pcb. pcb\<lparr>pc_children := pc_children pcb @ [p]\<rparr>) k7)))))))"

section \<open>The end of a thread\<close>

text \<open>Orphans go to \<open>INITPROC\<close>; a borrowed \<open>INITPROC\<close> cannot adopt.\<close>

fun reparent :: "nat \<Rightarrow> nat list \<Rightarrow> kernel \<Rightarrow> kernel result" where
  "reparent p [] k = Inr k"
| "reparent p (child # children) k =
     (let k1 = upd_proc child (\<lambda>pcb. pcb\<lparr>pc_parent := Some (k_initproc k)\<rparr>) k in
      if k_initproc k = p then Inl AlreadyBorrowed
      else reparent p children
             (upd_proc (k_initproc k) (\<lambda>pcb. pcb\<lparr>pc_children := pc_children pcb @ [child]\<rparr>) k1))"

fun take_resources :: "nat option list \<Rightarrow> kernel \<Rightarrow> TaskUserResource list \<times> kernel" where
  "take_resources [] k = ([], k)"
| "take_resources (None # ts) k = take_resources ts k"
| "take_resources (Some t # ts) k =
     (let k1 = remove_inactive_task t k;
          k2 = upd_tcb t (\<lambda>tcb. tcb\<lparr>tcb_user_resource := None\<rparr>) k1 in
      case take_resources ts k2 of (rs, k3) \<Rightarrow>
        (case tcb_user_resource (sc_tcb k1 t) of None \<Rightarrow> rs | Some r \<Rightarrow> r # rs, k3))"

fun drop_resources :: "TaskUserResource list \<Rightarrow> kernel \<Rightarrow> kernel result" where
  "drop_resources [] k = Inr k"
| "drop_resources (r # rs) k = rbind (dealloc_user_resource r k) (drop_resources rs)"

text \<open>The threads that wait for a mutex, a semaphore or a condition variable of a process.\<close>

definition waiters_of :: "ProcessControlBlock \<Rightarrow> nat list" where
  "waiters_of pcb =
     concat (map (case_option [] Mutex_waiters) (pc_mutex_list pcb))
     @ concat (map (case_option [] sem_waiter_queue) (pc_semaphore_list pcb))
     @ concat (map (case_option [] (\<lambda>queue. queue)) (pc_condvar_list pcb))"

text \<open>
  The control blocks of the other threads are dropped with the list of threads, except those of
  waiting threads: a thread that waits has a pointer to the mutex, the semaphore or the condition
  variable on its kernel stack, and the queue there has one to its control block, so that neither is
  ever dropped.
\<close>

definition terminate_process :: "nat \<Rightarrow> nat \<Rightarrow> 32 word \<Rightarrow> kernel \<Rightarrow> kernel result" where
  "terminate_process p tid exit_code k =
     rbind (remove_from_pid2process (pc_pid (k_proc k p)) k) (\<lambda>k1.
     let k2 = upd_proc p (\<lambda>pcb. pcb\<lparr>pc_is_zombie := True, pc_exit_code := exit_code\<rparr>) k1 in
     rbind (reparent p (pc_children (k_proc k2 p)) k2) (\<lambda>k3.
     case take_resources (pc_tasks (k_proc k3 p)) k3 of (rs, k4) \<Rightarrow>
     rbind (drop_resources rs k4) (\<lambda>k5.
     rbind (recycle_data_pages (pc_address_space (k_proc k5 p)) (k_phys k5)) (\<lambda>(a, s).
     let k6 = upd_proc p (\<lambda>pcb. pcb\<lparr>pc_children := [], pc_address_space := a, pc_fd_table := [],
                 pc_mutex_list := [], pc_semaphore_list := [], pc_condvar_list := []\<rparr>) (k5\<lparr>k_phys := s\<rparr>);
         tasks = pc_tasks (k_proc k6 p) in
     rbind (index tasks tid) (\<lambda>current.
     drop_tasks (filter (\<lambda>t. t \<noteq> current \<and> t \<notin> Some ` set (waiters_of (k_proc k5 p))) tasks)
       (upd_proc p (\<lambda>pcb. pcb\<lparr>pc_tasks := [current]\<rparr>) k6))))))"

definition exit_current :: "32 word \<Rightarrow> kernel \<Rightarrow> kernel result" where
  "exit_current exit_code k =
     (case take_current_task k of (r, k0) \<Rightarrow>
      rbind (unwrap r) (\<lambda>t.
      let p = tcb_process (sc_tcb k0 t) in
      rbind (get_tid t k0) (\<lambda>tid.
      let k1 = upd_tcb t (\<lambda>tcb. tcb\<lparr>tcb_exit_code := Some exit_code\<rparr>) k0 in
      rbind (case tcb_user_resource (sc_tcb k1 t) of None \<Rightarrow> Inr k1 | Some ur \<Rightarrow> dealloc_user_resource ur k1) (\<lambda>k2.
      let k3 = upd_tcb t (\<lambda>tcb. tcb\<lparr>tcb_user_resource := None\<rparr>) k2 in
      if tid = 0 \<or> sg_killed (k_proc k3 p) then terminate_process p (unat tid) exit_code k3 else Inr k3))))"

definition check_signals_of_current :: "kernel \<Rightarrow> 32 word option result" where
  "check_signals_of_current k = rbind (current_process k) (\<lambda>p. Inr (check_error (sg_signals (k_proc k p))))"

definition current_add_signal :: "SignalFlags \<Rightarrow> kernel \<Rightarrow> kernel result" where
  "current_add_signal signal k =
     rbind (current_process k) (\<lambda>p.
     Inr (upd_proc p (\<lambda>pcb. pcb\<lparr>sg_signals := sg_signals pcb OR signal\<rparr>) k))"

end
