(* ===== verification/Syscalls.thy ===== *)
theory Syscalls
  imports Process Strings
begin

text \<open>
  The system calls of \<open>os/src/syscall\<close> and the trap handler of \<open>os/src/trap/mod.rs\<close>. A call
  either returns to the user, or gives up the processor; then the continuation says what is left to
  do when the thread runs again. The console is the list of the bytes printed; the byte
  \<open>console_getchar\<close> returns and the value of \<open>mtime\<close> are arguments.
\<close>

section \<open>Outcomes\<close>

datatype cont =
    CRet "64 word"
  | CLock nat
  | CRead nat usize usize UserBufferIterator
  | CWrite nat usize usize UserBufferIterator
  | CStdin "user_slice list"

datatype sys_end = Returns "64 word" | Leaves cont | Exits

type_synonym sys_result = "(sys_end \<times> kernel) result"

definition ret :: "64 word \<Rightarrow> kernel \<Rightarrow> sys_result" where
  "ret r k = Inr (Returns r, k)"

text \<open>The pointers a thread keeps on its kernel stack while it is away, and their end.\<close>

definition hold_process :: "nat \<Rightarrow> nat \<Rightarrow> kernel \<Rightarrow> kernel" where
  "hold_process t p k = k\<lparr>k_held := (k_held k)(t := p # k_held k t)\<rparr>"

definition hold_file :: "nat \<Rightarrow> nat \<Rightarrow> kernel \<Rightarrow> kernel" where
  "hold_file t f k = k\<lparr>k_held_file := (k_held_file k)(t := f # k_held_file k t)\<rparr>"

definition release_held :: "nat \<Rightarrow> kernel \<Rightarrow> kernel" where
  "release_held t k = k\<lparr>k_held := (k_held k)(t := []), k_held_file := (k_held_file k)(t := [])\<rparr>"

text \<open>\<open>sys_read\<close> and \<open>sys_write\<close> keep the process and the file while they are away.\<close>

definition keep_file :: "nat \<Rightarrow> nat \<Rightarrow> sys_result \<Rightarrow> sys_result" where
  "keep_file t f r =
     rbind r (\<lambda>(e, k).
     Inr (e, case e of Leaves _ \<Rightarrow> hold_file t f (hold_process t (tcb_process (sc_tcb k t)) k) | _ \<Rightarrow> k))"

definition release_on_return :: "nat \<Rightarrow> sys_result \<Rightarrow> sys_result" where
  "release_on_return t r = rbind r (\<lambda>(e, k). Inr (e, case e of Returns _ \<Rightarrow> release_held t k | _ \<Rightarrow> k))"

text \<open>\<open>Arc::strong_count\<close> of a process: the process table, the lists of children, kernel stacks.\<close>

definition strong_count :: "nat \<Rightarrow> kernel \<Rightarrow> nat" where
  "strong_count p k =
     count_list (map snd (k_pid2pcb k)) p
     + sum_list (map (\<lambda>q. count_list (pc_children (k_proc k q)) p) [0..<k_next_proc k])
     + sum_list (map (\<lambda>t. count_list (k_held k t) p) [0..<k_next_task k])"

text \<open>Whether some handle of a file is left.\<close>

definition file_alive :: "kernel \<Rightarrow> nat \<Rightarrow> bool" where
  "file_alive k f \<longleftrightarrow>
     list_ex (\<lambda>p. Some f \<in> set (pc_fd_table (k_proc k p))) [0..<k_next_proc k]
     \<or> list_ex (\<lambda>t. f \<in> set (k_held_file k t)) [0..<k_next_task k]"

section \<open>Processes and signals\<close>

definition sys_exit :: "32 word \<Rightarrow> kernel \<Rightarrow> sys_result" where
  "sys_exit exit_code k = rbind (exit_current exit_code k) (\<lambda>k1. Inr (Exits, k1))"

definition sys_yield :: "kernel \<Rightarrow> sys_result" where
  "sys_yield k = rbind (suspend_current k) (\<lambda>k1. Inr (Leaves (CRet 0), k1))"

definition sys_kill :: "usize \<Rightarrow> 32 word \<Rightarrow> kernel \<Rightarrow> sys_result" where
  "sys_kill pid signum k =
     (if (of_nat SIG_CNT :: usize) \<le> scast signum then ret (- 1) k
      else case pid2process pid k of
        Some p \<Rightarrow> (case kill_process signum (k_proc k p) of (r, pcb) \<Rightarrow> ret r (upd_proc p (\<lambda>_. pcb) k))
      | None \<Rightarrow> ret (- 1) k)"

definition sys_sigaction :: "32 word \<Rightarrow> usize \<Rightarrow> usize \<Rightarrow> kernel \<Rightarrow> sys_result" where
  "sys_sigaction signum action old_action k =
     rbind (current_task k) (\<lambda>t.
     let p = tcb_process (sc_tcb k t) in
     rbind (sigaction_process (translated_refmut (task_satp t k)) signum action old_action (k_proc k p)
              (pm_mem (k_phys k))) (\<lambda>(r, pcb, m).
     ret r (upd_proc p (\<lambda>_. pcb) (k\<lparr>k_phys := (k_phys k)\<lparr>pm_mem := m\<rparr>\<rparr>))))"

definition sys_sigprocmask :: "u32 \<Rightarrow> kernel \<Rightarrow> sys_result" where
  "sys_sigprocmask new_mask k =
     rbind (current_process k) (\<lambda>p.
     case sigprocmask_process new_mask (k_proc k p) of (r, pcb) \<Rightarrow> ret r (upd_proc p (\<lambda>_. pcb) k))"

text \<open>The part of the kernel state a delivery works on.\<close>

definition put_delivery :: "nat \<Rightarrow> ProcessControlBlock \<times> TrapContext option \<times> mem \<Rightarrow> kernel \<Rightarrow> kernel" where
  "put_delivery t d k =
     (case d of (pcb, backup, m) \<Rightarrow>
      upd_proc (tcb_process (sc_tcb k t)) (\<lambda>_. pcb)
        (upd_tcb t (\<lambda>tcb. tcb\<lparr>tcb_trap_cx_backup := backup\<rparr>) (k\<lparr>k_phys := (k_phys k)\<lparr>pm_mem := m\<rparr>\<rparr>)))"

definition get_delivery :: "nat \<Rightarrow> kernel \<Rightarrow> ProcessControlBlock \<times> TrapContext option \<times> mem" where
  "get_delivery t k =
     (k_proc k (tcb_process (sc_tcb k t)), tcb_trap_cx_backup (sc_tcb k t), pm_mem (k_phys k))"

definition sys_sigreturn :: "kernel \<Rightarrow> sys_result" where
  "sys_sigreturn k =
     rbind (current_task k) (\<lambda>t.
     rbind (get_trap_cx t k) (\<lambda>cx.
     rbind (sigreturn_process cx (get_delivery t k)) (\<lambda>(r, d).
     ret r (put_delivery t d k))))"

definition sys_get_time :: "usize \<Rightarrow> kernel \<Rightarrow> sys_result" where
  "sys_get_time mtime k = ret (get_time_ms mtime) k"

definition sys_getpid :: "kernel \<Rightarrow> sys_result" where
  "sys_getpid k = rbind (current_process k) (\<lambda>p. ret (pc_pid (k_proc k p)) k)"

definition sys_fork :: "machine \<Rightarrow> kernel \<Rightarrow> sys_result" where
  "sys_fork mc k =
     rbind (current_process k) (\<lambda>p.
     rbind (fork mc p k) (\<lambda>(child, k1).
     rbind (get_task 0 (k_proc k1 child)) (\<lambda>t.
     rbind (write_trap_cx_word t 10 0 k1) (\<lambda>k2.
     ret (pc_pid (k_proc k2 child)) k2))))"

text \<open>Dropping the last pointer to a process.\<close>

definition ProcessControlBlock_drop :: "nat \<Rightarrow> kernel \<Rightarrow> kernel result" where
  "ProcessControlBlock_drop p k =
     rbind (PidHandle_drop (pc_pid (k_proc k p)) k) (\<lambda>k1.
     rbind (AddressSpace_drop (pc_address_space (k_proc k1 p)) (k_phys k1)) (\<lambda>s.
     drop_tasks (pc_tasks (k_proc k1 p)) (k1\<lparr>k_phys := s\<rparr>)))"

definition pid_matches :: "64 word \<Rightarrow> kernel \<Rightarrow> nat \<Rightarrow> bool" where
  "pid_matches pid k c \<longleftrightarrow> pid = - 1 \<or> pid = pc_pid (k_proc k c)"

definition sys_waitpid :: "64 word \<Rightarrow> usize \<Rightarrow> kernel \<Rightarrow> sys_result" where
  "sys_waitpid pid exit_code_ptr k =
     rbind (current_process k) (\<lambda>p.
     let children = pc_children (k_proc k p) in
     if \<not> list_ex (pid_matches pid k) children then ret (- 1) k
     else case find_index (\<lambda>c. pc_is_zombie (k_proc k c) \<and> pid_matches pid k c) children of
       Some i \<Rightarrow>
         (let child = children ! i;
              k1 = upd_proc p (\<lambda>pcb. pcb\<lparr>pc_children := remove_at i children\<rparr>) k in
          rbind (rassert (strong_count child k1 + 1 = 1)) (\<lambda>_.
          rbind (translated_refmut (AddressSpace_satp (pc_address_space (k_proc k1 p))) exit_code_ptr
                   (pm_mem (k_phys k1))) (\<lambda>a.
          let m = write_bytes (pm_mem (k_phys k1)) a (le_bytes 4 (pc_exit_code (k_proc k1 child))) in
          rbind (ProcessControlBlock_drop child (k1\<lparr>k_phys := (k_phys k1)\<lparr>pm_mem := m\<rparr>\<rparr>)) (\<lambda>k2.
          ret (pc_pid (k_proc k1 child)) k2))))
     | None \<Rightarrow> ret (- 2) k)"

section \<open>Threads\<close>

definition sys_thread_create :: "machine \<Rightarrow> usize \<Rightarrow> usize \<Rightarrow> kernel \<Rightarrow> sys_result" where
  "sys_thread_create mc entry arg k =
     rbind (current_task k) (\<lambda>t.
     let p = tcb_process (sc_tcb k t) in
     rbind (unwrap (tcb_user_resource (sc_tcb k t))) (\<lambda>ur0.
     rbind (TaskControlBlock_new mc p (ur_user_stack_base ur0) True k) (\<lambda>(n, k1).
     rbind (unwrap (tcb_user_resource (sc_tcb k1 n))) (\<lambda>ur.
     rbind (write_trap_cx n
              (app_initial_context (mc_sstatus mc) entry (user_stack_top ur) (kernel_satp k1)
                 (KernelStack_get_top (tcb_kernel_stack (sc_tcb k1 n))) (mc_trap_handler mc)) k1) (\<lambda>k2.
     rbind (write_trap_cx_word n 10 arg k2) (\<lambda>k3.
     let tid = unat (ur_tid ur);
         tasks = pc_tasks (k_proc k3 p);
         tasks1 = tasks @ replicate (tid + 1 - length tasks) None;
         k4 = upd_proc p (\<lambda>pcb. pcb\<lparr>pc_tasks := tasks1[tid := Some n]\<rparr>) k3 in
     ret (ur_tid ur) (add_task n k4)))))))"

definition sys_gettid :: "kernel \<Rightarrow> sys_result" where
  "sys_gettid k = rbind (current_task k) (\<lambda>t. rbind (get_tid t k) (\<lambda>tid. ret tid k))"

definition sys_waittid :: "usize \<Rightarrow> kernel \<Rightarrow> sys_result" where
  "sys_waittid tid k =
     rbind (current_task k) (\<lambda>t.
     rbind (get_tid t k) (\<lambda>own.
     if own = tid then ret (- 1) k
     else
       let p = tcb_process (sc_tcb k t);
           tasks = pc_tasks (k_proc k p) in
       if length tasks < unat tid then ret (- 1) k
       else
         rbind (index tasks (unat tid)) (\<lambda>entry.
         case entry of
           None \<Rightarrow> ret (- 1) k
         | Some waited \<Rightarrow>
             (case tcb_exit_code (sc_tcb k waited) of
                Some exit_code \<Rightarrow>
                  rbind (TaskControlBlock_drop waited
                           (upd_proc p (\<lambda>pcb. pcb\<lparr>pc_tasks := tasks[unat tid := None]\<rparr>) k)) (\<lambda>k1.
                  rbind (dealloc_tid tid (k_proc k1 p)) (\<lambda>pcb.
                  ret (scast exit_code) (upd_proc p (\<lambda>_. pcb) k1)))
              | None \<Rightarrow> ret (- 2) k))))"

section \<open>Mutexes, semaphores, condition variables\<close>

text \<open>The first free slot of a list of objects, or a new one at its end.\<close>

definition put_slot :: "'a \<Rightarrow> 'a option list \<Rightarrow> nat \<times> 'a option list" where
  "put_slot x xs =
     (case find_index (\<lambda>m. m = None) xs of
        Some i \<Rightarrow> (i, xs[i := Some x])
      | None \<Rightarrow> (length xs, xs @ [Some x]))"

definition get_slot :: "nat \<Rightarrow> 'a option list \<Rightarrow> 'a result" where
  "get_slot i xs = rbind (index xs i) unwrap"

definition sys_mutex_create :: "bool \<Rightarrow> kernel \<Rightarrow> sys_result" where
  "sys_mutex_create blocking k =
     rbind (current_process k) (\<lambda>p.
     case put_slot (if blocking then MutexBlocking MutexBlocking_new else MutexSpin MutexSpin_new)
            (pc_mutex_list (k_proc k p)) of (i, l) \<Rightarrow>
     ret (of_nat i) (upd_proc p (\<lambda>pcb. pcb\<lparr>pc_mutex_list := l\<rparr>) k))"

definition put_mutex :: "nat \<Rightarrow> nat \<Rightarrow> Mutex \<Rightarrow> kernel \<Rightarrow> kernel" where
  "put_mutex p i m k = upd_proc p (\<lambda>pcb. pcb\<lparr>pc_mutex_list := (pc_mutex_list pcb)[i := Some m]\<rparr>) k"

definition mutex_lock_call :: "nat \<Rightarrow> kernel \<Rightarrow> sys_result" where
  "mutex_lock_call i k =
     rbind (current_process k) (\<lambda>p.
     rbind (get_slot i (pc_mutex_list (k_proc k p))) (\<lambda>mutex.
     rbind (Mutex_lock mutex k) (\<lambda>(e, mutex', k1).
     let k2 = put_mutex p i mutex' k1 in
     case e of
       Acquired \<Rightarrow> ret 0 k2
     | Retry \<Rightarrow> Inr (Leaves (CLock i), k2)
     | Waits \<Rightarrow> Inr (Leaves (CRet 0), k2))))"

definition sys_mutex_lock :: "usize \<Rightarrow> kernel \<Rightarrow> sys_result" where
  "sys_mutex_lock mutex_id k = mutex_lock_call (unat mutex_id) k"

definition sys_mutex_unlock :: "usize \<Rightarrow> kernel \<Rightarrow> sys_result" where
  "sys_mutex_unlock mutex_id k =
     rbind (current_process k) (\<lambda>p.
     rbind (get_slot (unat mutex_id) (pc_mutex_list (k_proc k p))) (\<lambda>mutex.
     rbind (Mutex_unlock mutex k) (\<lambda>(mutex', k1). ret 0 (put_mutex p (unat mutex_id) mutex' k1))))"

definition put_semaphore :: "nat \<Rightarrow> nat \<Rightarrow> Semaphore \<Rightarrow> kernel \<Rightarrow> kernel" where
  "put_semaphore p i s k = upd_proc p (\<lambda>pcb. pcb\<lparr>pc_semaphore_list := (pc_semaphore_list pcb)[i := Some s]\<rparr>) k"

definition sys_semaphore_create :: "usize \<Rightarrow> kernel \<Rightarrow> sys_result" where
  "sys_semaphore_create res_count k =
     rbind (current_process k) (\<lambda>p.
     case put_slot (Semaphore_new res_count) (pc_semaphore_list (k_proc k p)) of (i, l) \<Rightarrow>
     ret (of_nat i) (upd_proc p (\<lambda>pcb. pcb\<lparr>pc_semaphore_list := l\<rparr>) k))"

definition sys_semaphore_up :: "usize \<Rightarrow> kernel \<Rightarrow> sys_result" where
  "sys_semaphore_up sem_id k =
     rbind (current_process k) (\<lambda>p.
     rbind (get_slot (unat sem_id) (pc_semaphore_list (k_proc k p))) (\<lambda>sem.
     case Semaphore_up sem k of (sem', k1) \<Rightarrow> ret 0 (put_semaphore p (unat sem_id) sem' k1)))"

text \<open>\<open>process\<close> is not dropped before the thread blocks.\<close>

definition sys_semaphore_down :: "usize \<Rightarrow> kernel \<Rightarrow> sys_result" where
  "sys_semaphore_down sem_id k =
     rbind (current_task k) (\<lambda>t.
     let p = tcb_process (sc_tcb k t) in
     rbind (get_slot (unat sem_id) (pc_semaphore_list (k_proc k p))) (\<lambda>sem.
     rbind (Semaphore_down sem k) (\<lambda>(e, sem', k1).
     let k2 = put_semaphore p (unat sem_id) sem' k1 in
     if e = Waits then Inr (Leaves (CRet 0), hold_process t p k2) else ret 0 k2)))"

definition sys_condvar_create :: "kernel \<Rightarrow> sys_result" where
  "sys_condvar_create k =
     rbind (current_process k) (\<lambda>p.
     case put_slot Condvar_new (pc_condvar_list (k_proc k p)) of (i, l) \<Rightarrow>
     ret (of_nat i) (upd_proc p (\<lambda>pcb. pcb\<lparr>pc_condvar_list := l\<rparr>) k))"

definition put_condvar :: "nat \<Rightarrow> nat \<Rightarrow> Condvar \<Rightarrow> kernel \<Rightarrow> kernel" where
  "put_condvar p i c k = upd_proc p (\<lambda>pcb. pcb\<lparr>pc_condvar_list := (pc_condvar_list pcb)[i := Some c]\<rparr>) k"

definition sys_condvar_signal :: "usize \<Rightarrow> kernel \<Rightarrow> sys_result" where
  "sys_condvar_signal condvar_id k =
     rbind (current_process k) (\<lambda>p.
     rbind (get_slot (unat condvar_id) (pc_condvar_list (k_proc k p))) (\<lambda>cv.
     case Condvar_signal cv k of (cv', k1) \<Rightarrow> ret 0 (put_condvar p (unat condvar_id) cv' k1)))"

definition sys_condvar_wait :: "usize \<Rightarrow> usize \<Rightarrow> kernel \<Rightarrow> sys_result" where
  "sys_condvar_wait condvar_id mutex_id k =
     rbind (current_task k) (\<lambda>t.
     let p = tcb_process (sc_tcb k t) in
     rbind (get_slot (unat condvar_id) (pc_condvar_list (k_proc k p))) (\<lambda>cv.
     rbind (get_slot (unat mutex_id) (pc_mutex_list (k_proc k p))) (\<lambda>mutex.
     rbind (Condvar_wait cv mutex k) (\<lambda>(cv', mutex', k1).
     let k2 = put_mutex p (unat mutex_id) mutex' (put_condvar p (unat condvar_id) cv' k1) in
     Inr (Leaves (CLock (unat mutex_id)), hold_process t p k2)))))"

definition sys_sleep_call :: "usize \<Rightarrow> usize \<Rightarrow> kernel \<Rightarrow> sys_result" where
  "sys_sleep_call mtime sleep_ms k =
     rbind (sys_sleep mtime sleep_ms k) (\<lambda>k1. Inr (Leaves (CRet 0), k1))"

section \<open>Opening files, programs\<close>

definition sys_open :: "machine \<Rightarrow> usize \<Rightarrow> u32 \<Rightarrow> kernel \<Rightarrow> sys_result" where
  "sys_open mc path flags k =
     rbind (current_task k) (\<lambda>t.
     let p = tcb_process (sc_tcb k t) in
     rbind (returns (translated_str (task_satp t k) path (pm_mem (k_phys k)))) (\<lambda>name.
     rbind (unwrap (OpenFlags_from_bits flags)) (\<lambda>open_flags.
     rbind (open_file (mc_BLOCK_DEVICE mc) (string_bytes name) open_flags (k_fs k)) (\<lambda>(r, fs).
     case r of
       Some inode \<Rightarrow>
         (case alloc_file (FInode inode) (k\<lparr>k_fs := fs\<rparr>) of (f, k1) \<Rightarrow>
          case alloc_fd (k_proc k1 p) of (fd, pcb) \<Rightarrow>
          ret (of_nat fd) (upd_proc p (\<lambda>_. pcb\<lparr>pc_fd_table := (pc_fd_table pcb)[fd := Some f]\<rparr>) k1))
     | None \<Rightarrow> ret (- 1) (k\<lparr>k_fs := fs\<rparr>)))))"

text \<open>The argument strings of \<open>exec\<close>, up to the null pointer that ends them.\<close>

partial_function (option) exec_args :: "usize \<Rightarrow> usize \<Rightarrow> mem \<Rightarrow> u8 list list \<Rightarrow> u8 list list result option" where
  "exec_args satp args m args_vec =
     (case translated_ref satp args m of
        Inl e \<Rightarrow> Some (Inl e)
      | Inr a \<Rightarrow>
          if load64 m a = 0 then Some (Inr args_vec)
          else case translated_str satp (load64 m a) m of
            None \<Rightarrow> None
          | Some (Inl e) \<Rightarrow> Some (Inl e)
          | Some (Inr arg) \<Rightarrow> exec_args satp (args + 8) m (args_vec @ [string_bytes arg]))"

definition sys_exec :: "machine \<Rightarrow> usize \<Rightarrow> usize \<Rightarrow> kernel \<Rightarrow> sys_result" where
  "sys_exec mc path args k =
     rbind (current_task k) (\<lambda>t.
     let satp = task_satp t k; m = pm_mem (k_phys k) in
     rbind (returns (translated_str satp path m)) (\<lambda>name.
     rbind (returns (exec_args satp args m [])) (\<lambda>args_vec.
     rbind (open_file (mc_BLOCK_DEVICE mc) (string_bytes name) RDONLY (k_fs k)) (\<lambda>(r, fs).
     case r of
       Some app_inode \<Rightarrow>
         rbind (returns (read_all (mc_BLOCK_DEVICE mc) app_inode (rf_blocks fs))) (\<lambda>(all_data, _, st).
         rbind (exec mc (tcb_process (sc_tcb k t)) all_data args_vec (k\<lparr>k_fs := fs\<lparr>rf_blocks := st\<rparr>\<rparr>)) (\<lambda>k1.
         ret (of_nat (length args_vec)) k1))
     | None \<Rightarrow> ret (- 1) (k\<lparr>k_fs := fs\<rparr>)))))"

section \<open>The console\<close>

fun Stdout_write :: "user_slice list \<Rightarrow> kernel \<Rightarrow> kernel result" where
  "Stdout_write [] k = Inr k"
| "Stdout_write (b # bs) k =
     (let bytes = read_bytes (pm_mem (k_phys k)) (fst b) (unat (snd b)) in
      rbind (unwrap (if utf8_ok bytes then Some bytes else None)) (\<lambda>text.
      Stdout_write bs (k\<lparr>k_console := k_console k @ text\<rparr>)))"

text \<open>One round of \<open>Stdin::read\<close> after its assertion; \<open>c\<close> is what \<open>console_getchar\<close> returns.\<close>

definition Stdin_read_pass :: "u8 \<Rightarrow> user_slice list \<Rightarrow> kernel \<Rightarrow> sys_result" where
  "Stdin_read_pass c buf k =
     (if c = 0 then rbind (suspend_current k) (\<lambda>k1. Inr (Leaves (CStdin buf), k1))
      else
        rbind (index buf 0) (\<lambda>b.
        ret 1 (k\<lparr>k_phys := (k_phys k)\<lparr>pm_mem := (pm_mem (k_phys k))(fst b := c)\<rparr>\<rparr>)))"

section \<open>Files\<close>

fun file_readable :: "FileObject \<Rightarrow> bool" where
  "file_readable FStdin = True"
| "file_readable FStdout = False"
| "file_readable (FPipe p) = pipe_readable p"
| "file_readable (FInode f) = osi_readable f"

fun file_writable :: "FileObject \<Rightarrow> bool" where
  "file_writable FStdin = False"
| "file_writable FStdout = True"
| "file_writable (FPipe p) = pipe_writable p"
| "file_writable (FInode f) = osi_writable f"

definition sys_dup :: "usize \<Rightarrow> kernel \<Rightarrow> sys_result" where
  "sys_dup fd k =
     rbind (current_process k) (\<lambda>p.
     let fds = pc_fd_table (k_proc k p) in
     if length fds \<le> unat fd \<or> fds ! unat fd = None then ret (- 1) k
     else
       (case alloc_fd (k_proc k p) of (new_fd, pcb) \<Rightarrow>
        ret (of_nat new_fd)
          (upd_proc p (\<lambda>_. pcb\<lparr>pc_fd_table := (pc_fd_table pcb)[new_fd := fds ! unat fd]\<rparr>) k)))"

definition sys_close :: "usize \<Rightarrow> kernel \<Rightarrow> sys_result" where
  "sys_close fd k =
     rbind (current_process k) (\<lambda>p.
     let fds = pc_fd_table (k_proc k p) in
     if length fds \<le> unat fd \<or> fds ! unat fd = None then ret (- 1) k
     else ret 0 (upd_proc p (\<lambda>pcb. pcb\<lparr>pc_fd_table := fds[unat fd := None]\<rparr>) k))"

text \<open>A new pipe: its ring buffer and its two ends.\<close>

definition new_pipe :: "kernel \<Rightarrow> nat \<times> nat \<times> kernel" where
  "new_pipe k =
     (let ring = k_next_ring k; read_file = k_next_file k; write_file = k_next_file k + 1 in
      case make_pipe ring write_file of (r, w, rb) \<Rightarrow>
      (read_file, write_file,
       k\<lparr>k_ring := (k_ring k)(ring := rb), k_next_ring := ring + 1,
         k_file := (k_file k)(read_file := FPipe r, write_file := FPipe w), k_next_file := write_file + 1\<rparr>))"

definition sys_pipe :: "usize \<Rightarrow> kernel \<Rightarrow> sys_result" where
  "sys_pipe pipe k =
     rbind (current_task k) (\<lambda>t.
     let p = tcb_process (sc_tcb k t); satp = task_satp t k in
     case new_pipe k of (pipe_read, pipe_write, k1) \<Rightarrow>
     case alloc_fd (k_proc k1 p) of (read_fd, pcb1) \<Rightarrow>
     let pcb2 = pcb1\<lparr>pc_fd_table := (pc_fd_table pcb1)[read_fd := Some pipe_read]\<rparr> in
     case alloc_fd pcb2 of (write_fd, pcb3) \<Rightarrow>
     let pcb4 = pcb3\<lparr>pc_fd_table := (pc_fd_table pcb3)[write_fd := Some pipe_write]\<rparr>;
         k2 = upd_proc p (\<lambda>_. pcb4) k1;
         m = pm_mem (k_phys k2) in
     rbind (translated_refmut satp pipe m) (\<lambda>a0.
     let m1 = store64 m a0 (of_nat read_fd) in
     rbind (translated_refmut satp (pipe + 8) m1) (\<lambda>a1.
     ret 0 (k2\<lparr>k_phys := (k_phys k2)\<lparr>pm_mem := store64 m1 a1 (of_nat write_fd)\<rparr>\<rparr>))))"

text \<open>
  The loops of \<open>Pipe::read\<close> and \<open>Pipe::write\<close>: a pass that ends with \<open>Again\<close> is followed by
  the next one at once; a ring buffer that has just been emptied or filled ends the loop, so two
  passes in a row are enough.
\<close>

definition put_ring :: "nat \<Rightarrow> PipeRingBuffer \<Rightarrow> kernel \<Rightarrow> kernel" where
  "put_ring r rb k = k\<lparr>k_ring := (k_ring k)(r := rb)\<rparr>"

fun pipe_read_call :: "nat \<Rightarrow> nat \<Rightarrow> Pipe \<Rightarrow> usize \<Rightarrow> usize \<Rightarrow> UserBufferIterator \<Rightarrow> kernel \<Rightarrow> sys_result" where
  "pipe_read_call 0 f pipe buf_len already it k = Inl NoReturn"
| "pipe_read_call (Suc n) f pipe buf_len already it k =
     rbind (pipe_read_pass (file_alive k) buf_len already (k_ring k (pipe_buffer pipe)) it (pm_mem (k_phys k)))
       (\<lambda>(e, already', rb, it', m).
     let k1 = put_ring (pipe_buffer pipe) rb (k\<lparr>k_phys := (k_phys k)\<lparr>pm_mem := m\<rparr>\<rparr>) in
     case e of
       Return r \<Rightarrow> ret r k1
     | Suspend \<Rightarrow>
         rbind (suspend_current k1) (\<lambda>k2. Inr (Leaves (CRead f buf_len already' it'), k2))
     | Again \<Rightarrow> pipe_read_call n f pipe buf_len already' it' k1)"

fun pipe_write_call :: "nat \<Rightarrow> nat \<Rightarrow> Pipe \<Rightarrow> usize \<Rightarrow> usize \<Rightarrow> UserBufferIterator \<Rightarrow> kernel \<Rightarrow> sys_result" where
  "pipe_write_call 0 f pipe buf_len already it k = Inl NoReturn"
| "pipe_write_call (Suc n) f pipe buf_len already it k =
     rbind (pipe_write_pass buf_len already (k_ring k (pipe_buffer pipe)) it (pm_mem (k_phys k)))
       (\<lambda>(e, already', rb, it').
     let k1 = put_ring (pipe_buffer pipe) rb k in
     case e of
       Return r \<Rightarrow> ret r k1
     | Suspend \<Rightarrow>
         rbind (suspend_current k1) (\<lambda>k2. Inr (Leaves (CWrite f buf_len already' it'), k2))
     | Again \<Rightarrow> pipe_write_call n f pipe buf_len already' it' k1)"

text \<open>
  Reading and writing a file on the disk. The inode of an open file belongs to the file system of
  the root directory, which is open by then.
\<close>

definition inode_read_call :: "machine \<Rightarrow> nat \<Rightarrow> OSInode \<Rightarrow> user_slice list \<Rightarrow> kernel \<Rightarrow> sys_result" where
  "inode_read_call mc n f buf k =
     rbind (OSInode_read (mc_BLOCK_DEVICE mc) buf 0 f (pm_mem (k_phys k)) (rf_blocks (k_fs k))) (\<lambda>(r, f', m, st).
     ret r (k\<lparr>k_file := (k_file k)(n := FInode f'), k_phys := (k_phys k)\<lparr>pm_mem := m\<rparr>,
              k_fs := (k_fs k)\<lparr>rf_blocks := st\<rparr>\<rparr>))"

definition inode_write_call :: "machine \<Rightarrow> nat \<Rightarrow> OSInode \<Rightarrow> user_slice list \<Rightarrow> kernel \<Rightarrow> sys_result" where
  "inode_write_call mc n f buf k =
     rbind (ROOT_INODE (mc_BLOCK_DEVICE mc) (k_fs k)) (\<lambda>((efs, _), fs).
     rbind (OSInode_write (mc_BLOCK_DEVICE mc) efs buf 0 f (pm_mem (k_phys k)) (rf_blocks fs)) (\<lambda>(r, f', st).
     ret r (k\<lparr>k_file := (k_file k)(n := FInode f'), k_fs := fs\<lparr>rf_blocks := st\<rparr>\<rparr>)))"

definition sys_write :: "machine \<Rightarrow> usize \<Rightarrow> usize \<Rightarrow> usize \<Rightarrow> kernel \<Rightarrow> sys_result" where
  "sys_write mc fd buffer len k =
     rbind (current_task k) (\<lambda>t.
     let fds = pc_fd_table (k_proc k (tcb_process (sc_tcb k t))) in
     if length fds \<le> unat fd then ret (- 1) k
     else case fds ! unat fd of
       None \<Rightarrow> ret (- 1) k
     | Some f \<Rightarrow>
         if \<not> file_writable (k_file k f) then ret (- 1) k
         else
           rbind (returns (translated_byte_buffer (task_satp t k) buffer len (pm_mem (k_phys k)))) (\<lambda>buf.
           case k_file k f of
             FStdin \<Rightarrow> Inl ExplicitPanic
           | FStdout \<Rightarrow> rbind (Stdout_write buf k) (\<lambda>k1. ret (UserBuffer_len buf) k1)
           | FPipe pipe \<Rightarrow>
               rbind (pipe_write_start pipe buf) (\<lambda>(buf_len, it).
               keep_file t f (pipe_write_call 2 f pipe buf_len 0 it k))
           | FInode inode \<Rightarrow> inode_write_call mc f inode buf k))"

definition sys_read :: "machine \<Rightarrow> u8 \<Rightarrow> usize \<Rightarrow> usize \<Rightarrow> usize \<Rightarrow> kernel \<Rightarrow> sys_result" where
  "sys_read mc c fd buffer len k =
     rbind (current_task k) (\<lambda>t.
     let fds = pc_fd_table (k_proc k (tcb_process (sc_tcb k t))) in
     if length fds \<le> unat fd then ret (- 1) k
     else case fds ! unat fd of
       None \<Rightarrow> ret (- 1) k
     | Some f \<Rightarrow>
         if \<not> file_readable (k_file k f) then ret (- 1) k
         else
           rbind (returns (translated_byte_buffer (task_satp t k) buffer len (pm_mem (k_phys k)))) (\<lambda>buf.
           case k_file k f of
             FStdout \<Rightarrow> Inl ExplicitPanic
           | FStdin \<Rightarrow> rbind (rassert (UserBuffer_len buf = 1)) (\<lambda>_. keep_file t f (Stdin_read_pass c buf k))
           | FPipe pipe \<Rightarrow>
               rbind (pipe_read_start pipe buf) (\<lambda>(buf_len, it).
               keep_file t f (pipe_read_call 2 f pipe buf_len 0 it k))
           | FInode inode \<Rightarrow> inode_read_call mc f inode buf k))"

section \<open>Coming back\<close>

text \<open>What a thread does when it is dispatched again inside a system call.\<close>

fun resume :: "u8 \<Rightarrow> nat \<Rightarrow> cont \<Rightarrow> kernel \<Rightarrow> sys_result" where
  "resume c t (CRet r) k = ret r (release_held t k)"
| "resume c t (CLock i) k = release_on_return t (mutex_lock_call i k)"
| "resume c t (CRead f buf_len already it) k =
     (case k_file k f of
        FPipe pipe \<Rightarrow> release_on_return t (pipe_read_call 2 f pipe buf_len already it k)
      | _ \<Rightarrow> Inl ExplicitPanic)"
| "resume c t (CWrite f buf_len already it) k =
     (case k_file k f of
        FPipe pipe \<Rightarrow> release_on_return t (pipe_write_call 2 f pipe buf_len already it k)
      | _ \<Rightarrow> Inl ExplicitPanic)"
| "resume c t (CStdin buf) k = release_on_return t (Stdin_read_pass c buf k)"

end
