(* ===== verification/Trap.thy ===== *)
theory Trap
  imports Syscalls
begin

text \<open>
  The dispatcher of the system calls (\<open>os/src/syscall/mod.rs\<close>), the trap handler and the return to
  user mode (\<open>os/src/trap/mod.rs\<close>), and the main loop of the scheduler with what a thread does when
  it is switched to. \<open>io\<close> holds the inputs of the machine that a trap may read: the byte
  \<open>console_getchar\<close> returns and the time. The log lines of the kernel are left out.
\<close>

section \<open>System calls\<close>

record inputs =
  in_getchar :: u8
  in_mtime :: usize

definition syscall :: "machine \<Rightarrow> inputs \<Rightarrow> usize \<Rightarrow> usize \<Rightarrow> usize \<Rightarrow> usize \<Rightarrow> kernel \<Rightarrow> sys_result" where
  "syscall mc io syscall_id a0 a1 a2 k =
     (if syscall_id = 24 then sys_dup a0 k
      else if syscall_id = 56 then sys_open mc a0 (ucast a1) k
      else if syscall_id = 57 then sys_close a0 k
      else if syscall_id = 59 then sys_pipe a0 k
      else if syscall_id = 63 then sys_read mc (in_getchar io) a0 a1 a2 k
      else if syscall_id = 64 then sys_write mc a0 a1 a2 k
      else if syscall_id = 93 then sys_exit (ucast a0) k
      else if syscall_id = 101 then sys_sleep_call (in_mtime io) a0 k
      else if syscall_id = 124 then sys_yield k
      else if syscall_id = 129 then sys_kill a0 (ucast a1) k
      else if syscall_id = 134 then sys_sigaction (ucast a0) a1 a2 k
      else if syscall_id = 135 then sys_sigprocmask (ucast a0) k
      else if syscall_id = 139 then sys_sigreturn k
      else if syscall_id = 169 then sys_get_time (in_mtime io) k
      else if syscall_id = 172 then sys_getpid k
      else if syscall_id = 220 then sys_fork mc k
      else if syscall_id = 221 then sys_exec mc a0 a1 k
      else if syscall_id = 260 then sys_waitpid a0 a1 k
      else if syscall_id = 1000 then sys_thread_create mc a0 a1 k
      else if syscall_id = 1001 then sys_gettid k
      else if syscall_id = 1002 then sys_waittid a0 k
      else if syscall_id = 1010 then sys_mutex_create (a0 = 1) k
      else if syscall_id = 1011 then sys_mutex_lock a0 k
      else if syscall_id = 1012 then sys_mutex_unlock a0 k
      else if syscall_id = 1020 then sys_semaphore_create a0 k
      else if syscall_id = 1021 then sys_semaphore_up a0 k
      else if syscall_id = 1022 then sys_semaphore_down a0 k
      else if syscall_id = 1030 then sys_condvar_create k
      else if syscall_id = 1031 then sys_condvar_signal a0 k
      else if syscall_id = 1032 then sys_condvar_wait a0 a1 k
      else Inl ExplicitPanic)"

section \<open>Traps\<close>

datatype trap_cause =
    UserEnvCall
  | StoreFault | StorePageFault | LoadFault | LoadPageFault | InstructionFault | InstructionPageFault
  | IllegalInstruction
  | SupervisorSoft
  | OtherTrap

text \<open>
  How the handling of a trap ends: in user mode with the two arguments of \<open>__restore\<close>, with the
  thread away from the processor in a system call or at the start of a round of
  \<open>handle_signals\<close>, or with the end of the thread.
\<close>

datatype trap_cont = InSyscall cont | InSignals

datatype trap_end = ToUser usize usize | Away trap_cont | Gone

type_synonym trap_result = "(trap_end \<times> kernel) result"

definition current_task_trap_cx_user_va :: "kernel \<Rightarrow> usize result" where
  "current_task_trap_cx_user_va k =
     rbind (current_task k) (\<lambda>t. rbind (unwrap (tcb_user_resource (sc_tcb k t))) (\<lambda>ur. Inr (trap_cx_bottom_va ur)))"

definition current_task_satp :: "kernel \<Rightarrow> usize result" where
  "current_task_satp k = rbind (current_task k) (\<lambda>t. Inr (task_satp t k))"

definition trap_return :: "kernel \<Rightarrow> trap_result" where
  "trap_return k =
     rbind (current_task_trap_cx_user_va k) (\<lambda>trap_cx_user_va.
     rbind (current_task_satp k) (\<lambda>user_satp. Inr (ToUser trap_cx_user_va user_satp, k)))"

text \<open>
  \<open>handle_signals\<close> from the start of one of its rounds, and the rest of the trap handler. The
  context of the thread is in a frame of its own, so looking it up does not fail.
\<close>

definition finish_trap :: "kernel \<Rightarrow> trap_result" where
  "finish_trap k =
     rbind (current_task k) (\<lambda>t.
     rbind (get_trap_cx t k) (\<lambda>cx.
     rbind (handle_signals_pass cx (get_delivery t k)) (\<lambda>(again, d).
     let k1 = put_delivery t d k in
     if again then rbind (suspend_current k1) (\<lambda>k2. Inr (Away InSignals, k2))
     else
       rbind (check_signals_of_current k1) (\<lambda>r.
       case r of
         Some errno \<Rightarrow> rbind (exit_current errno k1) (\<lambda>k2. Inr (Gone, k2))
       | None \<Rightarrow> trap_return k1))))"

text \<open>What follows a system call: its result goes to \<open>a0\<close> of the context the thread has then.\<close>

definition after_syscall :: "sys_result \<Rightarrow> trap_result" where
  "after_syscall r =
     rbind r (\<lambda>(e, k).
     case e of
       Returns result \<Rightarrow>
         rbind (current_task k) (\<lambda>t. rbind (write_trap_cx_word t 10 result k) finish_trap)
     | Leaves c \<Rightarrow> Inr (Away (InSyscall c), k)
     | Exits \<Rightarrow> Inr (Gone, k))"

definition user_env_call :: "machine \<Rightarrow> inputs \<Rightarrow> kernel \<Rightarrow> trap_result" where
  "user_env_call mc io k =
     rbind (current_task k) (\<lambda>t.
     rbind (get_trap_cx t k) (\<lambda>cx.
     let m = pm_mem (k_phys k);
         m1 = store64 m (trap_cx_word cx SEPC_WORD) (load64 m (trap_cx_word cx SEPC_WORD) + 4) in
     after_syscall
       (syscall mc io (load64 m1 (trap_cx_word cx 17)) (load64 m1 (trap_cx_word cx 10))
          (load64 m1 (trap_cx_word cx 11)) (load64 m1 (trap_cx_word cx 12))
          (k\<lparr>k_phys := (k_phys k)\<lparr>pm_mem := m1\<rparr>\<rparr>))))"

fun trap_handler :: "machine \<Rightarrow> inputs \<Rightarrow> trap_cause \<Rightarrow> kernel \<Rightarrow> trap_result" where
  "trap_handler mc io UserEnvCall k = user_env_call mc io k"
| "trap_handler mc io IllegalInstruction k = rbind (current_add_signal SIGILL k) finish_trap"
| "trap_handler mc io SupervisorSoft k =
     rbind (suspend_current (check_timer (in_mtime io) k)) (\<lambda>k1. Inr (Away InSignals, k1))"
| "trap_handler mc io OtherTrap k = Inl ExplicitPanic"
| "trap_handler mc io StoreFault k = rbind (current_add_signal SIGSEGV k) finish_trap"
| "trap_handler mc io StorePageFault k = rbind (current_add_signal SIGSEGV k) finish_trap"
| "trap_handler mc io LoadFault k = rbind (current_add_signal SIGSEGV k) finish_trap"
| "trap_handler mc io LoadPageFault k = rbind (current_add_signal SIGSEGV k) finish_trap"
| "trap_handler mc io InstructionFault k = rbind (current_add_signal SIGSEGV k) finish_trap"
| "trap_handler mc io InstructionPageFault k = rbind (current_add_signal SIGSEGV k) finish_trap"

section \<open>Threads that are switched to\<close>

text \<open>A new thread starts at \<open>trap_return\<close>; another one goes on where it gave up the processor.\<close>

fun continue :: "inputs \<Rightarrow> nat \<Rightarrow> trap_cont option \<Rightarrow> kernel \<Rightarrow> trap_result" where
  "continue io t None k = trap_return k"
| "continue io t (Some InSignals) k = finish_trap k"
| "continue io t (Some (InSyscall c)) k = after_syscall (resume (in_getchar io) t c k)"

end
