(* ===== verification/Kernel_Main.thy ===== *)
theory Kernel_Main
  imports Trap
begin

text \<open>
  The start of the kernel after the initialisation of memory (\<open>rust_main\<close> of \<open>os/src/main.rs\<close>,
  \<open>list_apps\<close> of \<open>os/src/fs/inode.rs\<close>, \<open>INITPROC\<close> of \<open>os/src/task/mod.rs\<close>), and the kernel as a
  transition system: user code runs until a trap, the trap handler runs until the thread returns to
  user mode, gives up the processor or ends, and the idle loop picks the next thread.
\<close>

section \<open>Starting\<close>

definition println :: "u8 list \<Rightarrow> kernel \<Rightarrow> kernel" where
  "println text k = k\<lparr>k_console := k_console k @ text @ [10]\<rparr>"

definition str_bytes :: "string \<Rightarrow> u8 list" where
  "str_bytes s = map of_char s"

definition list_apps :: "machine \<Rightarrow> kernel \<Rightarrow> kernel result" where
  "list_apps mc k =
     (let k1 = println (str_bytes ''/**** APPS ****'') k in
      rbind (ROOT_INODE (mc_BLOCK_DEVICE mc) (k_fs k1)) (\<lambda>((_, root), fs).
      rbind (Inode_ls (mc_BLOCK_DEVICE mc) root (rf_blocks fs)) (\<lambda>(apps, st).
      Inr (println (str_bytes ''***************'')
             (fold println apps (k1\<lparr>k_fs := fs\<lparr>rf_blocks := st\<rparr>\<rparr>))))))"

definition add_initproc :: "machine \<Rightarrow> kernel \<Rightarrow> kernel result" where
  "add_initproc mc k =
     rbind (open_file (mc_BLOCK_DEVICE mc) (str_bytes ''initproc'') RDONLY (k_fs k)) (\<lambda>(r, fs).
     rbind (unwrap r) (\<lambda>inode.
     rbind (returns (read_all (mc_BLOCK_DEVICE mc) inode (rf_blocks fs))) (\<lambda>(v, _, st).
     rbind (ProcessControlBlock_new mc v (k\<lparr>k_fs := fs\<lparr>rf_blocks := st\<rparr>\<rparr>)) (\<lambda>(p, k1).
     Inr (k1\<lparr>k_initproc := p\<rparr>)))))"

definition rust_main :: "machine \<Rightarrow> kernel \<Rightarrow> kernel result" where
  "rust_main mc k =
     rbind (list_apps mc (println (str_bytes ''[kernel] Hello, world!'') k)) (add_initproc mc)"

section \<open>Running\<close>

text \<open>
  The state adds, for each thread, where its kernel stack stands: \<open>None\<close> before its first return to
  user mode and while it is there. User code may have changed memory when it traps. A panic stops
  the machine, and so does an idle loop without a ready thread.
\<close>

record system = sy_kernel :: kernel  sy_cont :: "nat \<Rightarrow> trap_cont option"

fun cont_of :: "trap_end \<Rightarrow> trap_cont option" where
  "cont_of (Away c) = Some c"
| "cont_of (ToUser a0 a1) = None"
| "cont_of Gone = None"

definition user_runs :: "mem \<Rightarrow> kernel \<Rightarrow> kernel" where
  "user_runs m k = k\<lparr>k_phys := (k_phys k)\<lparr>pm_mem := m\<rparr>\<rparr>"

inductive system_step :: "machine \<Rightarrow> system \<Rightarrow> system \<Rightarrow> bool" for mc where
  step_trap:
  "sc_current (sy_kernel s) = Some t
   \<Longrightarrow> trap_handler mc io cause (user_runs m (sy_kernel s)) = Inr (e, k)
   \<Longrightarrow> system_step mc s \<lparr>sy_kernel = k, sy_cont = (sy_cont s)(t := cont_of e)\<rparr>"
| step_dispatch:
  "sc_current (sy_kernel s) = None
   \<Longrightarrow> run_tasks_iter (sy_kernel s) = Dispatched k1
   \<Longrightarrow> sc_current k1 = Some t
   \<Longrightarrow> continue io t (sy_cont s t) k1 = Inr (e, k)
   \<Longrightarrow> system_step mc s \<lparr>sy_kernel = k, sy_cont = (sy_cont s)(t := cont_of e)\<rparr>"

text \<open>The states of a kernel that starts without processes and threads.\<close>

definition blank_kernel :: "kernel \<Rightarrow> bool" where
  "blank_kernel k \<longleftrightarrow>
     sc_ready_queue k = [] \<and> sc_current k = None \<and> tm_timers k = [] \<and> k_next_proc k = 0 \<and> k_next_task k = 0
     \<and> k_pid2pcb k = [] \<and> k_pid_allocator k = ra_new \<and> k_kernel_stack_allocator k = ra_new"

inductive reachable :: "machine \<Rightarrow> system \<Rightarrow> bool" for mc where
  reachable_start:
  "blank_kernel k0 \<Longrightarrow> rust_main mc k0 = Inr k \<Longrightarrow> reachable mc \<lparr>sy_kernel = k, sy_cont = (\<lambda>_. None)\<rparr>"
| reachable_step: "reachable mc s \<Longrightarrow> system_step mc s s' \<Longrightarrow> reachable mc s'"

end
