(* ===== verification/Thread_Places.thy ===== *)
theory Thread_Places
  imports Kernel_Main "HOL-Library.Multiset"
begin

text \<open>
  Where the threads of the kernel are. A thread that has not ended is in exactly one place: it runs,
  it is in the queue of ready threads, it has a timer, or it waits for a mutex, a semaphore or a
  condition variable of its own process. No place holds a thread of a process that has ended. The
  theory states this as an invariant and shows that it is kept by every move of a thread between
  two places: giving up the processor, being dispatched, blocking, being woken, and timers.
\<close>

section \<open>Places\<close>

definition waiting :: "kernel \<Rightarrow> nat multiset" where
  "waiting k = (\<Sum>p < k_next_proc k. mset (waiters_of (k_proc k p)))"

definition blocked :: "kernel \<Rightarrow> nat multiset" where
  "blocked k = mset (map tv_task (tm_timers k)) + waiting k"

definition places :: "kernel \<Rightarrow> nat multiset" where
  "places k = mset (sc_ready_queue k) + (case sc_current k of None \<Rightarrow> {#} | Some t \<Rightarrow> {#t#}) + blocked k"

definition live_process :: "kernel \<Rightarrow> nat \<Rightarrow> bool" where
  "live_process k p \<longleftrightarrow> p < k_next_proc k \<and> \<not> pc_is_zombie (k_proc k p)"

text \<open>The thread ids of a process: every slot of its thread list in use has an allocated id.\<close>

definition tids_ok :: "kernel \<Rightarrow> nat \<Rightarrow> bool" where
  "tids_ok k p \<longleftrightarrow>
     (let al = pc_tid_allocator (k_proc k p); tasks = pc_tasks (k_proc k p) in
      ra_inv al \<and> unat (ra_current al) \<le> k_next_task k
      \<and> (\<forall>i < length tasks. tasks ! i \<noteq> None \<longrightarrow> i < 2 ^ 64 \<and> of_nat i \<in> ra_live al))"

definition placed_ok :: "kernel \<Rightarrow> nat \<Rightarrow> bool" where
  "placed_ok k t \<longleftrightarrow>
     count (places k) t = 1 \<and> tcb_exit_code (sc_tcb k t) = None
     \<and> live_process k (tcb_process (sc_tcb k t))
     \<and> Some t \<in> set (pc_tasks (k_proc k (tcb_process (sc_tcb k t))))"

definition member_ok :: "kernel \<Rightarrow> nat \<Rightarrow> nat \<Rightarrow> bool" where
  "member_ok k p t \<longleftrightarrow>
     t < k_next_task k \<and> tcb_process (sc_tcb k t) = p \<and> (tcb_exit_code (sc_tcb k t) = None \<longrightarrow> t \<in># places k)"

definition kernel_inv :: "kernel \<Rightarrow> bool" where
  "kernel_inv k \<longleftrightarrow>
     (\<forall>t. t \<in># places k \<longrightarrow> placed_ok k t)
     \<and> (\<forall>t \<in> set (sc_ready_queue k). status k t = Ready)
     \<and> (\<forall>t. t \<in># blocked k \<longrightarrow> status k t = Blocked)
     \<and> (\<forall>t. sc_current k = Some t \<longrightarrow> status k t = Running)
     \<and> (\<forall>p < k_next_proc k. \<forall>t \<in> set (waiters_of (k_proc k p)). tcb_process (sc_tcb k t) = p)
     \<and> (\<forall>p. live_process k p \<longrightarrow> tids_ok k p \<and> (\<forall>t. Some t \<in> set (pc_tasks (k_proc k p)) \<longrightarrow> member_ok k p t))"

section \<open>What the invariant depends on\<close>

definition sview :: "kernel \<Rightarrow> _" where
  "sview k =
     (sc_ready_queue k, sc_current k, tm_timers k, k_next_proc k, k_next_task k,
      \<lambda>t. (tcb_status (sc_tcb k t), tcb_process (sc_tcb k t), tcb_exit_code (sc_tcb k t)),
      \<lambda>p. (waiters_of (k_proc k p), pc_is_zombie (k_proc k p), pc_tasks (k_proc k p), pc_tid_allocator (k_proc k p)))"

lemma kernel_inv_cong:
  assumes "sview k' = sview k"
  shows "kernel_inv k' \<longleftrightarrow> kernel_inv k" "places k' = places k" "blocked k' = blocked k"
    "live_process k' = live_process k"
proof -
  have e: "sc_ready_queue k' = sc_ready_queue k" "sc_current k' = sc_current k" "tm_timers k' = tm_timers k"
    "k_next_proc k' = k_next_proc k" "k_next_task k' = k_next_task k"
    "tcb_status (sc_tcb k' t) = tcb_status (sc_tcb k t)" "tcb_process (sc_tcb k' t) = tcb_process (sc_tcb k t)"
    "tcb_exit_code (sc_tcb k' t) = tcb_exit_code (sc_tcb k t)" "waiters_of (k_proc k' p) = waiters_of (k_proc k p)"
    "pc_is_zombie (k_proc k' p) = pc_is_zombie (k_proc k p)" "pc_tasks (k_proc k' p) = pc_tasks (k_proc k p)"
    "pc_tid_allocator (k_proc k' p) = pc_tid_allocator (k_proc k p)" for t p
    using assms by (auto simp: sview_def fun_eq_iff)
  show b: "blocked k' = blocked k" by (simp add: blocked_def waiting_def e)
  show pl: "places k' = places k" by (simp add: places_def b e)
  show l: "live_process k' = live_process k" by (simp add: live_process_def e fun_eq_iff)
  show "kernel_inv k' \<longleftrightarrow> kernel_inv k"
    by (simp add: kernel_inv_def placed_ok_def member_ok_def tids_ok_def b pl l e)
qed

text \<open>
  \<open>safe_step k k'\<close>: the invariant goes from \<open>k\<close> to \<open>k'\<close>, as long as fewer than \<open>2 ^ 64\<close> threads
  have been created.
\<close>

definition safe_step :: "kernel \<Rightarrow> kernel \<Rightarrow> bool" where
  "safe_step k k' \<longleftrightarrow>
     k_next_task k \<le> k_next_task k' \<and> (k_next_task k' < 2 ^ 64 \<longrightarrow> kernel_inv k \<longrightarrow> kernel_inv k')"

lemma safe_step_refl [simp]: "safe_step k k"
  by (simp add: safe_step_def)

lemma safe_step_trans [trans]: "safe_step k k' \<Longrightarrow> safe_step k' k'' \<Longrightarrow> safe_step k k''"
  by (auto simp: safe_step_def)

lemma safe_step_view:
  assumes "sview k' = sview k"
  shows "safe_step k k'"
proof -
  have "k_next_task k' = k_next_task k" using assms by (simp add: sview_def)
  then show ?thesis using kernel_inv_cong(1) [OF assms] by (simp add: safe_step_def)
qed

section \<open>Operations that leave the places alone\<close>

lemma sview_upd_proc:
  assumes "waiters_of (f (k_proc k p)) = waiters_of (k_proc k p)" "pc_is_zombie (f (k_proc k p)) = pc_is_zombie (k_proc k p)"
    "pc_tasks (f (k_proc k p)) = pc_tasks (k_proc k p)" "pc_tid_allocator (f (k_proc k p)) = pc_tid_allocator (k_proc k p)"
  shows "sview (upd_proc p f k) = sview k"
  using assms by (simp add: sview_def upd_proc_def fun_eq_iff)

lemma sview_upd_tcb:
  assumes "tcb_status (f (sc_tcb k t)) = tcb_status (sc_tcb k t)" "tcb_process (f (sc_tcb k t)) = tcb_process (sc_tcb k t)"
    "tcb_exit_code (f (sc_tcb k t)) = tcb_exit_code (sc_tcb k t)"
  shows "sview (upd_tcb t f k) = sview k"
  using assms by (simp add: sview_def upd_tcb_def fun_eq_iff)

lemma sview_fields [simp]:
  "sview (k\<lparr>k_phys := a1\<rparr>) = sview k" "sview (k\<lparr>k_kernel_space := a2\<rparr>) = sview k"
  "sview (k\<lparr>k_pid2pcb := a3\<rparr>) = sview k" "sview (k\<lparr>k_pid_allocator := a4\<rparr>) = sview k"
  "sview (k\<lparr>k_kernel_stack_allocator := a5\<rparr>) = sview k" "sview (k\<lparr>k_initproc := a6\<rparr>) = sview k"
  "sview (k\<lparr>k_file := a7\<rparr>) = sview k" "sview (k\<lparr>k_next_file := a8\<rparr>) = sview k"
  "sview (k\<lparr>k_ring := a9\<rparr>) = sview k" "sview (k\<lparr>k_next_ring := a10\<rparr>) = sview k"
  "sview (k\<lparr>k_held := a11\<rparr>) = sview k" "sview (k\<lparr>k_held_file := a12\<rparr>) = sview k"
  "sview (k\<lparr>k_console := a13\<rparr>) = sview k" "sview (k\<lparr>k_fs := a14\<rparr>) = sview k"
  by (simp_all add: sview_def)

lemma waiters_of_update [simp]:
  "waiters_of (pcb\<lparr>pc_address_space := a1\<rparr>) = waiters_of pcb" "waiters_of (pcb\<lparr>pc_parent := a2\<rparr>) = waiters_of pcb"
  "waiters_of (pcb\<lparr>pc_children := a3\<rparr>) = waiters_of pcb" "waiters_of (pcb\<lparr>pc_exit_code := a4\<rparr>) = waiters_of pcb"
  "waiters_of (pcb\<lparr>pc_fd_table := a5\<rparr>) = waiters_of pcb" "waiters_of (pcb\<lparr>pc_tasks := a6\<rparr>) = waiters_of pcb"
  "waiters_of (pcb\<lparr>pc_tid_allocator := a7\<rparr>) = waiters_of pcb" "waiters_of (pcb\<lparr>pc_is_zombie := a8\<rparr>) = waiters_of pcb"
  "waiters_of (pcb\<lparr>sg_signals := a9\<rparr>) = waiters_of pcb" "waiters_of (pcb\<lparr>sg_signal_mask := a10\<rparr>) = waiters_of pcb"
  by (simp_all add: waiters_of_def)

lemma sview_kernel_space [simp]:
  "kernel_add_segment_framed start_va end_va permission k = Inr k' \<Longrightarrow> sview k' = sview k"
  "kernel_remove_segment_with_start_vpn vpn k = Inr k' \<Longrightarrow> sview k' = sview k"
  by (auto simp: kernel_add_segment_framed_def kernel_remove_segment_with_start_vpn_def)

lemma sview_kernel_stack:
  "alloc_kernel_stack k = Inr (ks, k') \<Longrightarrow> sview k' = sview k"
  "KernelStack_drop ks k = Inr k' \<Longrightarrow> sview k' = sview k"
  by (auto simp: alloc_kernel_stack_def KernelStack_drop_def dest: sview_kernel_space split: prod.splits)

lemma sview_user_resource:
  "alloc_user_resource ur k = Inr k' \<Longrightarrow> sview k' = sview k"
  "dealloc_user_resource ur k = Inr k' \<Longrightarrow> sview k' = sview k"
  by (auto simp: alloc_user_resource_def dealloc_user_resource_def Let_def sview_upd_proc)

lemma sview_trap_cx:
  "write_trap_cx t c k = Inr k' \<Longrightarrow> sview k' = sview k"
  "write_trap_cx_word t i v k = Inr k' \<Longrightarrow> sview k' = sview k"
  by (auto simp: write_trap_cx_def write_trap_cx_word_def)

lemma sview_TaskControlBlock_drop: "TaskControlBlock_drop t k = Inr k' \<Longrightarrow> sview k' = sview k"
  by (auto simp: TaskControlBlock_drop_def dest!: sview_kernel_stack sview_user_resource split: option.splits)

lemma sview_drop_tasks: "drop_tasks ts k = Inr k' \<Longrightarrow> sview k' = sview k"
  by (induction ts k rule: drop_tasks.induct) (auto dest: sview_TaskControlBlock_drop)

lemma sview_drop_resources: "drop_resources rs k = Inr k' \<Longrightarrow> sview k' = sview k"
  by (induction rs arbitrary: k) (auto dest: sview_user_resource)

lemma sview_reparent: "reparent p cs k = Inr k' \<Longrightarrow> sview k' = sview k"
  by (induction p cs k rule: reparent.induct) (auto simp: Let_def sview_upd_proc split: if_splits)

lemma sview_exec:
  assumes "exec mc p elf_data args k = Inr k'"
  shows "sview k' = sview k"
proof -
  obtain a b c s s1 t ur0 k3 ppn k4 m1 cx where *:
    "alloc_user_resource (ur0\<lparr>ur_user_stack_base := b\<rparr>)
       (upd_tcb t (\<lambda>tcb. tcb\<lparr>tcb_user_resource := Some (ur0\<lparr>ur_user_stack_base := b\<rparr>)\<rparr>)
         (upd_proc p (\<lambda>pcb. pcb\<lparr>pc_address_space := a\<rparr>) (k\<lparr>k_phys := s1\<rparr>))) = Inr k3"
    "k4 = upd_tcb t (\<lambda>tcb. tcb\<lparr>tcb_trap_cx_ppn := ppn\<rparr>) k3"
    "write_trap_cx t cx (k4\<lparr>k_phys := (k_phys k4)\<lparr>pm_mem := m1\<rparr>\<rparr>) = Inr k'"
    using assms unfolding exec_def Let_def
    by (simp only: rbind_Inr_iff split_beta) (elim exE conjE, rule that, assumption, rule refl, assumption)
  show ?thesis
    using sview_user_resource(1) [OF *(1)] sview_trap_cx(1) [OF *(3)] *(2)
    by (simp add: sview_upd_proc sview_upd_tcb)
qed

section \<open>Moving threads\<close>

lemma safe_stepI:
  "k_next_task k' = k_next_task k \<Longrightarrow> (kernel_inv k \<Longrightarrow> kernel_inv k') \<Longrightarrow> safe_step k k'"
  by (simp add: safe_step_def)

lemma kernel_invD:
  assumes "kernel_inv k"
  shows "t \<in># places k \<Longrightarrow> placed_ok k t" "t \<in> set (sc_ready_queue k) \<Longrightarrow> status k t = Ready"
    "t \<in># blocked k \<Longrightarrow> status k t = Blocked" "sc_current k = Some t \<Longrightarrow> status k t = Running"
    "p < k_next_proc k \<Longrightarrow> t \<in> set (waiters_of (k_proc k p)) \<Longrightarrow> tcb_process (sc_tcb k t) = p"
    "live_process k p \<Longrightarrow> tids_ok k p"
    "live_process k p \<Longrightarrow> Some t \<in> set (pc_tasks (k_proc k p)) \<Longrightarrow> member_ok k p t"
  using assms by (simp_all add: kernel_inv_def)

lemma count_places_le:
  assumes "kernel_inv k"
  shows "count (places k) t \<le> 1"
  using kernel_invD(1) [OF assms, of t] by (cases "t \<in># places k") (auto simp: placed_ok_def not_in_iff)

lemma current_placed:
  assumes "kernel_inv k" "sc_current k = Some t"
  shows "placed_ok k t" "t \<notin> set (sc_ready_queue k)" "t \<notin># blocked k" "t \<in># places k"
proof -
  show "t \<in># places k" using assms(2) by (simp add: places_def)
  then show "placed_ok k t" by (rule kernel_invD(1) [OF assms(1)])
  have "count (mset (sc_ready_queue k)) t + 1 + count (blocked k) t \<le> 1"
    using count_places_le [OF assms(1), of t] assms(2) by (simp add: places_def)
  then have "count (mset (sc_ready_queue k)) t = 0" "count (blocked k) t = 0" by linarith+
  then show "t \<notin> set (sc_ready_queue k)" "t \<notin># blocked k" by (simp_all add: not_in_iff)
qed

text \<open>A change that moves threads between places of the same kind of process.\<close>

definition same_processes :: "kernel \<Rightarrow> kernel \<Rightarrow> bool" where
  "same_processes k' k \<longleftrightarrow>
     k_next_proc k' = k_next_proc k \<and> k_next_task k' = k_next_task k
     \<and> (\<forall>t. tcb_process (sc_tcb k' t) = tcb_process (sc_tcb k t) \<and> tcb_exit_code (sc_tcb k' t) = tcb_exit_code (sc_tcb k t))
     \<and> (\<forall>p. pc_is_zombie (k_proc k' p) = pc_is_zombie (k_proc k p) \<and> pc_tasks (k_proc k' p) = pc_tasks (k_proc k p)
          \<and> pc_tid_allocator (k_proc k' p) = pc_tid_allocator (k_proc k p))"

lemma same_processesD:
  assumes "same_processes k' k"
  shows "k_next_proc k' = k_next_proc k" "k_next_task k' = k_next_task k"
    "tcb_process (sc_tcb k' t) = tcb_process (sc_tcb k t)" "tcb_exit_code (sc_tcb k' t) = tcb_exit_code (sc_tcb k t)"
    "pc_is_zombie (k_proc k' p) = pc_is_zombie (k_proc k p)" "pc_tasks (k_proc k' p) = pc_tasks (k_proc k p)"
    "pc_tid_allocator (k_proc k' p) = pc_tid_allocator (k_proc k p)" "live_process k' = live_process k"
  using assms by (simp_all add: same_processes_def live_process_def fun_eq_iff)

lemma kernel_inv_move:
  assumes "kernel_inv k" "same_processes k' k" "places k' = places k"
    "\<And>t. t \<in> set (sc_ready_queue k') \<Longrightarrow> status k' t = Ready"
    "\<And>t. t \<in># blocked k' \<Longrightarrow> status k' t = Blocked"
    "\<And>t. sc_current k' = Some t \<Longrightarrow> status k' t = Running"
    "\<And>p t. p < k_next_proc k \<Longrightarrow> t \<in> set (waiters_of (k_proc k' p)) \<Longrightarrow> tcb_process (sc_tcb k t) = p"
  shows "kernel_inv k'"
  unfolding kernel_inv_def
proof (intro conjI allI impI ballI)
  note e = same_processesD [OF assms(2)]
  show "placed_ok k' t" if "t \<in># places k'" for t
    using that kernel_invD(1) [OF assms(1), of t] by (simp add: placed_ok_def assms(3) e)
  show "tcb_process (sc_tcb k' t) = p" if "p < k_next_proc k'" "t \<in> set (waiters_of (k_proc k' p))" for p t
    using that assms(7) by (simp add: e)
  show "tids_ok k' p" if "live_process k' p" for p
    using that kernel_invD(6) [OF assms(1), of p] by (simp add: tids_ok_def e)
  show "member_ok k' p t" if "live_process k' p" "Some t \<in> set (pc_tasks (k_proc k' p))" for p t
    using that kernel_invD(7) [OF assms(1), of p t] by (simp add: member_ok_def assms(3) e)
qed (use assms in simp_all)

lemma blocked_cong:
  "tm_timers k' = tm_timers k \<Longrightarrow> k_next_proc k' = k_next_proc k
    \<Longrightarrow> (\<And>p. waiters_of (k_proc k' p) = waiters_of (k_proc k p)) \<Longrightarrow> blocked k' = blocked k"
  by (simp add: blocked_def waiting_def)

lemma suspend_current_safe:
  assumes "suspend_current k = Inr k'"
  shows "safe_step k k'"
proof -
  obtain t where t: "sc_current k = Some t" and k': "k' = add_task t (set_status t Ready (k\<lparr>sc_current := None\<rparr>))"
    using assms by (auto simp: suspend_current_def take_current_task_def unwrap_def split: option.splits)
  have same: "same_processes k' k" by (simp add: k' same_processes_def add_task_def set_status_def)
  have b: "blocked k' = blocked k" by (rule blocked_cong) (simp_all add: k' add_task_def set_status_def)
  have "kernel_inv k'" if inv: "kernel_inv k"
  proof (rule kernel_inv_move [OF inv same])
    note cur = current_placed [OF inv t]
    show "places k' = places k" using t b by (simp add: places_def) (simp add: k' add_task_def set_status_def)
    show "status k' u = Ready" if "u \<in> set (sc_ready_queue k')" for u
      using that kernel_invD(2) [OF inv, of u] by (auto simp: k' add_task_def set_status_def)
    show "status k' u = Blocked" if "u \<in># blocked k'" for u
      using that cur(3) kernel_invD(3) [OF inv, of u] by (auto simp: b) (auto simp: k' add_task_def set_status_def)
  qed (use kernel_invD(5) [OF inv] in \<open>simp_all add: k' add_task_def set_status_def\<close>)
  then show ?thesis using same by (auto intro: safe_stepI simp: same_processes_def)
qed

lemma run_tasks_iter_safe:
  assumes "run_tasks_iter k = Dispatched k'" "sc_current k = None"
  shows "safe_step k k'"
proof -
  obtain t ts where t: "sc_ready_queue k = t # ts"
    and k': "k' = (set_status t Running (k\<lparr>sc_ready_queue := ts\<rparr>))\<lparr>sc_current := Some t\<rparr>"
    using assms(1) by (auto simp: run_tasks_iter_def fetch_task_def split: list.splits)
  have same: "same_processes k' k" by (simp add: k' same_processes_def set_status_def)
  have b: "blocked k' = blocked k" by (rule blocked_cong) (simp_all add: k' set_status_def)
  have "kernel_inv k'" if inv: "kernel_inv k"
  proof (rule kernel_inv_move [OF inv same])
    have "count (places k) t = 1 + count (mset ts) t + count (blocked k) t" by (simp add: places_def t assms(2))
    then have nt: "t \<notin> set ts" "t \<notin># blocked k"
      using count_places_le [OF inv, of t] by (simp_all add: count_eq_zero_iff [symmetric] not_in_iff)
    show "places k' = places k" using t b assms(2) by (simp add: places_def) (simp add: k' set_status_def)
    show "status k' u = Ready" if "u \<in> set (sc_ready_queue k')" for u
      using that nt(1) kernel_invD(2) [OF inv, of u] by (auto simp: k' set_status_def t)
    show "status k' u = Blocked" if "u \<in># blocked k'" for u
      using that nt(2) kernel_invD(3) [OF inv, of u] by (auto simp: b) (auto simp: k' set_status_def)
  qed (use kernel_invD(5) [OF inv] in \<open>simp_all add: k' set_status_def\<close>)
  then show ?thesis using same by (auto intro: safe_stepI simp: same_processes_def)
qed

subsection \<open>Waiting and waking\<close>

definition rest_waiting :: "nat \<Rightarrow> kernel \<Rightarrow> nat multiset" where
  "rest_waiting p k = (\<Sum>q \<in> {..<k_next_proc k} - {p}. mset (waiters_of (k_proc k q)))"

lemma waiting_split:
  "p < k_next_proc k \<Longrightarrow> waiting k = mset (waiters_of (k_proc k p)) + rest_waiting p k"
  by (simp add: waiting_def rest_waiting_def sum.remove)

text \<open>The running thread blocks and is entered in a list of its process.\<close>

lemma block_in_process:
  assumes "sc_current k = Some t" "p = tcb_process (sc_tcb k t)"
    "mset (waiters_of pcb) = add_mset t (mset (waiters_of (k_proc k p)))"
    "pc_is_zombie pcb = pc_is_zombie (k_proc k p)" "pc_tasks pcb = pc_tasks (k_proc k p)"
    "pc_tid_allocator pcb = pc_tid_allocator (k_proc k p)"
  shows "safe_step k (upd_proc p (\<lambda>_. pcb) (set_status t Blocked (k\<lparr>sc_current := None\<rparr>)))" (is "safe_step k ?k'")
proof -
  have same: "same_processes ?k' k" using assms(4-6) by (simp add: same_processes_def upd_proc_def set_status_def)
  have "kernel_inv ?k'" if inv: "kernel_inv k"
  proof (rule kernel_inv_move [OF inv same])
    note cur = current_placed [OF inv assms(1)]
    have p: "p < k_next_proc k" using cur(1) by (simp add: placed_ok_def live_process_def assms(2))
    have "rest_waiting p ?k' = rest_waiting p k" by (simp add: rest_waiting_def upd_proc_def set_status_def)
    then have "waiting ?k' = add_mset t (waiting k)"
      using waiting_split [of p ?k'] waiting_split [of p k] p assms(3) by (simp add: upd_proc_def set_status_def)
    then have b: "blocked ?k' = add_mset t (blocked k)" by (simp add: blocked_def upd_proc_def set_status_def)
    show "places ?k' = places k" unfolding places_def b by (simp add: upd_proc_def set_status_def assms(1))
    show "status ?k' u = Ready" if "u \<in> set (sc_ready_queue ?k')" for u
      using that cur(2) kernel_invD(2) [OF inv, of u] by (auto simp: upd_proc_def set_status_def)
    show "status ?k' u = Blocked" if "u \<in># blocked ?k'" for u
      using that kernel_invD(3) [OF inv, of u] unfolding b by (auto simp: upd_proc_def set_status_def)
    have w: "set (waiters_of pcb) = insert t (set (waiters_of (k_proc k p)))"
      using arg_cong [OF assms(3), of set_mset] by simp
    show "tcb_process (sc_tcb k u) = q" if "q < k_next_proc k" "u \<in> set (waiters_of (k_proc ?k' q))" for q u
      using that w kernel_invD(5) [OF inv, of q u] assms(2) by (auto simp: upd_proc_def set_status_def split: if_splits)
  qed (simp add: upd_proc_def set_status_def)
  then show ?thesis using same by (auto intro: safe_stepI simp: same_processes_def)
qed

text \<open>A thread that is taken from a list of a process becomes ready.\<close>

lemma wake_from_process:
  assumes "p < k_next_proc k" "mset (waiters_of (k_proc k p)) = add_mset t (mset (waiters_of pcb))"
    "pc_is_zombie pcb = pc_is_zombie (k_proc k p)" "pc_tasks pcb = pc_tasks (k_proc k p)"
    "pc_tid_allocator pcb = pc_tid_allocator (k_proc k p)"
  shows "safe_step k (upd_proc p (\<lambda>_. pcb) (wakeup_task t k))" (is "safe_step k ?k'")
proof -
  have same: "same_processes ?k' k" using assms(3-5) by (simp add: same_processes_def upd_proc_def sched_defs)
  have "kernel_inv ?k'" if inv: "kernel_inv k"
  proof (rule kernel_inv_move [OF inv same])
    have "rest_waiting p ?k' = rest_waiting p k" by (simp add: rest_waiting_def upd_proc_def sched_defs)
    then have "waiting k = add_mset t (waiting ?k')"
      using waiting_split [of p ?k'] waiting_split [of p k] assms(1,2) by (simp add: upd_proc_def sched_defs)
    then have b: "blocked k = add_mset t (blocked ?k')" by (simp add: blocked_def upd_proc_def sched_defs)
    have "count (places k) t = count (mset (sc_ready_queue k)) t + (if sc_current k = Some t then 1 else 0)
        + 1 + count (blocked ?k') t"
      unfolding places_def b by (simp split: option.splits)
    then have nt: "sc_current k \<noteq> Some t" "t \<notin># blocked ?k'"
      using count_places_le [OF inv, of t] by (auto simp: not_in_iff split: if_splits)
    show "places ?k' = places k" unfolding places_def b by (simp add: upd_proc_def sched_defs)
    show "status ?k' u = Ready" if "u \<in> set (sc_ready_queue ?k')" for u
      using that kernel_invD(2) [OF inv, of u] by (auto simp: upd_proc_def sched_defs)
    show "status ?k' u = Blocked" if "u \<in># blocked ?k'" for u
      using that nt(2) kernel_invD(3) [OF inv, of u] unfolding b by (auto simp: upd_proc_def sched_defs)
    show "status ?k' u = Running" if "sc_current ?k' = Some u" for u
      using that nt(1) kernel_invD(4) [OF inv, of u] by (auto simp: upd_proc_def sched_defs)
    have w: "set (waiters_of pcb) \<subseteq> set (waiters_of (k_proc k p))"
      using arg_cong [OF assms(2), of set_mset] by auto
    show "tcb_process (sc_tcb k u) = q" if "q < k_next_proc k" "u \<in> set (waiters_of (k_proc ?k' q))" for q u
      using that w kernel_invD(5) [OF inv, of q u] by (auto simp: upd_proc_def sched_defs split: if_splits)
  qed
  then show ?thesis using same by (auto intro: safe_stepI simp: same_processes_def)
qed

lemma safe_step_inv:
  "k_next_task k' = k_next_task k \<Longrightarrow> (kernel_inv k \<Longrightarrow> safe_step k k') \<Longrightarrow> safe_step k k'"
  by (auto simp: safe_step_def)

lemma current_live:
  assumes "kernel_inv k" "sc_current k = Some t"
  shows "live_process k (tcb_process (sc_tcb k t))" "tcb_process (sc_tcb k t) < k_next_proc k"
  using current_placed(1) [OF assms] by (simp_all add: placed_ok_def live_process_def)

lemma block_current_eq:
  "sc_current k = Some t \<Longrightarrow> block_current k = Inr (set_status t Blocked (k\<lparr>sc_current := None\<rparr>))"
  by (simp add: block_current_def take_current_task_def)

lemma current_task_Inr [simp]: "current_task k = Inr t \<longleftrightarrow> sc_current k = Some t"
  by (auto simp: current_task_def unwrap_def split: option.splits)

lemma current_process_Inr: "current_process k = Inr p \<longleftrightarrow> (\<exists>t. sc_current k = Some t \<and> p = tcb_process (sc_tcb k t))"
  by (auto simp: current_process_def)

section \<open>Timers\<close>

lemma sys_sleep_safe:
  assumes "sys_sleep mtime sleep_ms k = Inr k'"
  shows "safe_step k k'"
proof -
  obtain t where t: "sc_current k = Some t" using assms by (auto simp: sys_sleep_def)
  define ms where "ms = get_time_ms mtime + sleep_ms"
  have k': "k' = set_status t Blocked (add_timer ms t k\<lparr>sc_current := None\<rparr>)"
    using assms t block_current_eq [of "add_timer ms t k" t]
    by (simp add: sys_sleep_def ms_def [symmetric] current_task_def) (simp add: add_timer_def)
  have same: "same_processes k' k" by (simp add: k' same_processes_def add_timer_def set_status_def)
  have b: "blocked k' = add_mset t (blocked k)" by (simp add: k' blocked_def waiting_def add_timer_def set_status_def)
  have "kernel_inv k'" if inv: "kernel_inv k"
  proof (rule kernel_inv_move [OF inv same])
    note cur = current_placed [OF inv t]
    show "places k' = places k" unfolding places_def b by (simp add: k' add_timer_def set_status_def t)
    show "status k' u = Ready" if "u \<in> set (sc_ready_queue k')" for u
      using that cur(2) kernel_invD(2) [OF inv, of u] by (auto simp: k' add_timer_def set_status_def)
    show "status k' u = Blocked" if "u \<in># blocked k'" for u
      using that kernel_invD(3) [OF inv, of u] unfolding b by (auto simp: k' add_timer_def set_status_def)
  qed (use kernel_invD(5) [OF inv] in \<open>simp_all add: k' add_timer_def set_status_def\<close>)
  then show ?thesis using same by (auto intro: safe_stepI simp: same_processes_def)
qed

lemma wake_from_timer:
  assumes "tm_timers k = timer # ts"
  shows "safe_step k ((wakeup_task (tv_task timer) k)\<lparr>tm_timers := ts\<rparr>)" (is "safe_step k ?k'")
proof -
  let ?t = "tv_task timer"
  have same: "same_processes ?k' k" by (simp add: same_processes_def sched_defs)
  have b: "blocked k = add_mset ?t (blocked ?k')" by (simp add: blocked_def waiting_def sched_defs assms)
  have "kernel_inv ?k'" if inv: "kernel_inv k"
  proof (rule kernel_inv_move [OF inv same])
    have "count (places k) ?t = count (mset (sc_ready_queue k)) ?t + (if sc_current k = Some ?t then 1 else 0)
        + 1 + count (blocked ?k') ?t"
      unfolding places_def b by (simp split: option.splits)
    then have nt: "sc_current k \<noteq> Some ?t" "?t \<notin># blocked ?k'"
      using count_places_le [OF inv, of ?t] by (auto simp: not_in_iff split: if_splits)
    show "places ?k' = places k" unfolding places_def b by (simp add: sched_defs)
    show "status ?k' u = Ready" if "u \<in> set (sc_ready_queue ?k')" for u
      using that kernel_invD(2) [OF inv, of u] by (auto simp: sched_defs)
    show "status ?k' u = Blocked" if "u \<in># blocked ?k'" for u
      using that nt(2) kernel_invD(3) [OF inv, of u] unfolding b by (auto simp: sched_defs)
    show "status ?k' u = Running" if "sc_current ?k' = Some u" for u
      using that nt(1) kernel_invD(4) [OF inv, of u] by (auto simp: sched_defs)
  qed (use kernel_invD(5) [OF inv] in \<open>simp add: sched_defs\<close>)
  then show ?thesis using same by (auto intro: safe_stepI simp: same_processes_def)
qed

lemma check_timer_safe: "safe_step k (check_timer mtime k)"
proof -
  have "safe_step (k\<lparr>tm_timers := ts\<rparr>) (check_timer_loop ms ts k)" for ms ts
  proof (induction ts arbitrary: k)
    case (Cons timer ts)
    have "(wakeup_task (tv_task timer) (k\<lparr>tm_timers := timer # ts\<rparr>))\<lparr>tm_timers := ts\<rparr>
        = (wakeup_task (tv_task timer) k)\<lparr>tm_timers := ts\<rparr>"
      by (simp add: sched_defs)
    then have "safe_step (k\<lparr>tm_timers := timer # ts\<rparr>) ((wakeup_task (tv_task timer) k)\<lparr>tm_timers := ts\<rparr>)"
      using wake_from_timer [of "k\<lparr>tm_timers := timer # ts\<rparr>" timer ts] by simp
    then show ?case using safe_step_trans [OF _ Cons.IH] by simp
  qed simp
  from this [of "tm_timers k"] show ?thesis by (simp add: check_timer_def)
qed

section \<open>Synchronisation\<close>

lemma mset_concat_update:
  "i < length xs \<Longrightarrow> mset (concat (map g (xs[i := y]))) + mset (g (xs ! i)) = mset (concat (map g xs)) + mset (g y)"
proof (induction xs arbitrary: i)
  case (Cons x xs)
  show ?case
  proof (cases i)
    case (Suc j)
    with Cons show ?thesis by simp
  qed simp
qed simp

lemma waiters_put:
  "i < length (pc_mutex_list pcb) \<Longrightarrow> pc_mutex_list pcb ! i = Some m
    \<Longrightarrow> mset (waiters_of (pcb\<lparr>pc_mutex_list := (pc_mutex_list pcb)[i := Some m']\<rparr>)) + mset (Mutex_waiters m)
      = mset (waiters_of pcb) + mset (Mutex_waiters m')"
  "i < length (pc_semaphore_list pcb) \<Longrightarrow> pc_semaphore_list pcb ! i = Some s
    \<Longrightarrow> mset (waiters_of (pcb\<lparr>pc_semaphore_list := (pc_semaphore_list pcb)[i := Some s']\<rparr>)) + mset (sem_waiter_queue s)
      = mset (waiters_of pcb) + mset (sem_waiter_queue s')"
  "i < length (pc_condvar_list pcb) \<Longrightarrow> pc_condvar_list pcb ! i = Some c
    \<Longrightarrow> mset (waiters_of (pcb\<lparr>pc_condvar_list := (pc_condvar_list pcb)[i := Some c']\<rparr>)) + mset c
      = mset (waiters_of pcb) + mset c'"
  using mset_concat_update [of i "pc_mutex_list pcb" "case_option [] Mutex_waiters" "Some m'"]
    mset_concat_update [of i "pc_semaphore_list pcb" "case_option [] sem_waiter_queue" "Some s'"]
    mset_concat_update [of i "pc_condvar_list pcb" "case_option [] (\<lambda>queue. queue)" "Some c'"]
  by (simp_all add: waiters_of_def)

lemma map_update_same: "i < length xs \<Longrightarrow> g y = g (xs ! i) \<Longrightarrow> map g (xs[i := y]) = map g xs"
  by (simp add: map_update list_update_same_conv)

lemma waiters_put_same:
  "i < length (pc_mutex_list pcb) \<Longrightarrow> case_option [] Mutex_waiters (pc_mutex_list pcb ! i) = Mutex_waiters m'
    \<Longrightarrow> waiters_of (pcb\<lparr>pc_mutex_list := (pc_mutex_list pcb)[i := Some m']\<rparr>) = waiters_of pcb"
  "i < length (pc_semaphore_list pcb) \<Longrightarrow> case_option [] sem_waiter_queue (pc_semaphore_list pcb ! i) = sem_waiter_queue s'
    \<Longrightarrow> waiters_of (pcb\<lparr>pc_semaphore_list := (pc_semaphore_list pcb)[i := Some s']\<rparr>) = waiters_of pcb"
  "i < length (pc_condvar_list pcb) \<Longrightarrow> case_option [] (\<lambda>queue. queue) (pc_condvar_list pcb ! i) = c'
    \<Longrightarrow> waiters_of (pcb\<lparr>pc_condvar_list := (pc_condvar_list pcb)[i := Some c']\<rparr>) = waiters_of pcb"
  using map_update_same [of i "pc_mutex_list pcb" "case_option [] Mutex_waiters" "Some m'"]
    map_update_same [of i "pc_semaphore_list pcb" "case_option [] sem_waiter_queue" "Some s'"]
    map_update_same [of i "pc_condvar_list pcb" "case_option [] (\<lambda>queue. queue)" "Some c'"]
  by (simp_all add: waiters_of_def)

lemma get_slot_Inr [simp]: "get_slot i xs = Inr x \<longleftrightarrow> i < length xs \<and> xs ! i = Some x"
  by (auto simp: get_slot_def index_def unwrap_def split: option.splits if_splits)

lemma mutex_lock_safe:
  assumes "sc_current k = Some t" "p = tcb_process (sc_tcb k t)"
    "i < length (pc_mutex_list (k_proc k p))" "pc_mutex_list (k_proc k p) ! i = Some m"
    "Mutex_lock m k = Inr (e, m', k1)"
  shows "safe_step k (put_mutex p i m' k1)"
proof (cases m)
  case (MutexSpin l)
  have "safe_step k k1" "Mutex_waiters m' = []" "k_proc k1 = k_proc k"
    using assms(5) MutexSpin
    by (auto simp: MutexSpin_lock_def suspend_current_safe split: if_splits)
      (auto simp: suspend_current_def take_current_task_def add_task_def set_status_def)
  moreover from this(2,3) have "safe_step k1 (put_mutex p i m' k1)"
    using assms(3,4) MutexSpin waiters_put_same(1) [of i "k_proc k p" m']
    by (intro safe_step_view) (simp add: put_mutex_def sview_upd_proc)
  ultimately show ?thesis using safe_step_trans by blast
next
  case (MutexBlocking mb)
  show ?thesis
  proof (cases "mb_locked mb")
    case True
    then have k1: "k1 = set_status t Blocked (k\<lparr>sc_current := None\<rparr>)"
      and m': "Mutex_waiters m' = Mutex_waiters m @ [t]"
      using assms(1,5) MutexBlocking block_current_eq [OF assms(1)] by (auto simp: MutexBlocking_lock_def)
    let ?pcb = "(k_proc k p)\<lparr>pc_mutex_list := (pc_mutex_list (k_proc k p))[i := Some m']\<rparr>"
    have "mset (waiters_of ?pcb) = add_mset t (mset (waiters_of (k_proc k p)))"
      using waiters_put(1) [OF assms(3,4), of m'] by (simp add: m')
    then have "safe_step k (upd_proc p (\<lambda>_. ?pcb) k1)"
      unfolding k1 using assms(1,2) by (intro block_in_process) simp_all
    then show ?thesis by (simp add: put_mutex_def upd_proc_def k1 set_status_def)
  next
    case False
    then have "k1 = k" "Mutex_waiters m' = Mutex_waiters m"
      using assms(5) MutexBlocking by (auto simp: MutexBlocking_lock_def)
    then show ?thesis
      using assms(3,4) waiters_put_same(1) [of i "k_proc k p" m']
      by (intro safe_step_view) (simp add: put_mutex_def sview_upd_proc)
  qed
qed

lemma Mutex_unlock_cases:
  assumes "Mutex_unlock m k = Inr (m', k1)"
  shows "(k1 = k \<and> Mutex_waiters m' = Mutex_waiters m) \<or> (\<exists>w. k1 = wakeup_task w k \<and> Mutex_waiters m = w # Mutex_waiters m')"
  using assms by (cases m) (auto simp: MutexSpin_unlock_def MutexBlocking_unlock_def split: list.splits)

text \<open>Waking the first thread of a list, for the three kinds of lists.\<close>

lemma put_after_wake:
  assumes "k1 = k \<and> ws' = ws \<or> (\<exists>w. k1 = wakeup_task w k \<and> ws = w # ws')"
    "sc_current k = Some t" "p = tcb_process (sc_tcb k t)"
    "mset (waiters_of (f (k_proc k p))) + mset ws = mset (waiters_of (k_proc k p)) + mset ws'"
    "ws' = ws \<Longrightarrow> waiters_of (f (k_proc k p)) = waiters_of (k_proc k p)"
    "pc_is_zombie (f (k_proc k p)) = pc_is_zombie (k_proc k p)" "pc_tasks (f (k_proc k p)) = pc_tasks (k_proc k p)"
    "pc_tid_allocator (f (k_proc k p)) = pc_tid_allocator (k_proc k p)"
  shows "safe_step k (upd_proc p f k1)"
proof -
  consider "k1 = k" "ws' = ws" | w where "k1 = wakeup_task w k" "ws = w # ws'" using assms(1) by blast
  then show ?thesis
  proof cases
    case 1
    then show ?thesis using assms(5-8) by (intro safe_step_view) (simp add: sview_upd_proc)
  next
    case (2 w)
    have *: "upd_proc p f k1 = upd_proc p (\<lambda>_. f (k_proc k p)) (wakeup_task w k)"
      by (simp add: 2 upd_proc_def sched_defs)
    show ?thesis unfolding *
    proof (rule safe_step_inv)
      assume "kernel_inv k"
      then have "p < k_next_proc k" using current_live(2) assms(2,3) by simp
      then show "safe_step k (upd_proc p (\<lambda>_. f (k_proc k p)) (wakeup_task w k))"
        using assms(4,6-8) 2(2) by (intro wake_from_process) simp_all
    qed (simp add: upd_proc_def sched_defs)
  qed
qed

lemma mutex_unlock_safe:
  assumes "sc_current k = Some t" "p = tcb_process (sc_tcb k t)"
    "i < length (pc_mutex_list (k_proc k p))" "pc_mutex_list (k_proc k p) ! i = Some m"
    "Mutex_unlock m k = Inr (m', k1)"
  shows "safe_step k (put_mutex p i m' k1)"
  unfolding put_mutex_def
  by (rule put_after_wake [OF Mutex_unlock_cases [OF assms(5)] assms(1,2)])
    (use assms(3,4) waiters_put(1) [of i "k_proc k p" m m'] waiters_put_same(1) [of i "k_proc k p" m'] in simp_all)

lemma semaphore_up_safe:
  assumes "sc_current k = Some t" "p = tcb_process (sc_tcb k t)"
    "i < length (pc_semaphore_list (k_proc k p))" "pc_semaphore_list (k_proc k p) ! i = Some s"
    "Semaphore_up s k = (s', k1)"
  shows "safe_step k (put_semaphore p i s' k1)"
proof -
  have "(k1 = k \<and> sem_waiter_queue s' = sem_waiter_queue s)
      \<or> (\<exists>w. k1 = wakeup_task w k \<and> sem_waiter_queue s = w # sem_waiter_queue s')"
    using assms(5) by (auto simp: Semaphore_up_def Let_def split: if_splits list.splits)
  then show ?thesis unfolding put_semaphore_def
    by (rule put_after_wake [OF _ assms(1,2)])
      (use assms(3,4) waiters_put(2) [of i "k_proc k p" s s'] waiters_put_same(2) [of i "k_proc k p" s'] in simp_all)
qed

lemma condvar_signal_safe:
  assumes "sc_current k = Some t" "p = tcb_process (sc_tcb k t)"
    "i < length (pc_condvar_list (k_proc k p))" "pc_condvar_list (k_proc k p) ! i = Some c"
    "Condvar_signal c k = (c', k1)"
  shows "safe_step k (put_condvar p i c' k1)"
proof -
  have "(k1 = k \<and> c' = c) \<or> (\<exists>w. k1 = wakeup_task w k \<and> c = w # c')"
    using assms(5) by (auto simp: Condvar_signal_def split: list.splits)
  then show ?thesis unfolding put_condvar_def
    by (rule put_after_wake [OF _ assms(1,2)])
      (use assms(3,4) waiters_put(3) [of i "k_proc k p" c c'] waiters_put_same(3) [of i "k_proc k p" c'] in simp_all)
qed

lemma semaphore_down_safe:
  assumes "sc_current k = Some t" "p = tcb_process (sc_tcb k t)"
    "i < length (pc_semaphore_list (k_proc k p))" "pc_semaphore_list (k_proc k p) ! i = Some s"
    "Semaphore_down s k = Inr (e, s', k1)"
  shows "safe_step k (put_semaphore p i s' k1)"
proof -
  consider "k1 = k" "sem_waiter_queue s' = sem_waiter_queue s"
    | "k1 = set_status t Blocked (k\<lparr>sc_current := None\<rparr>)" "sem_waiter_queue s' = sem_waiter_queue s @ [t]"
    using assms(1,5) block_current_eq [OF assms(1)] by (auto simp: Semaphore_down_def Let_def split: if_splits)
  then show ?thesis
  proof cases
    case 1
    then show ?thesis
      using assms(3,4) waiters_put_same(2) [of i "k_proc k p" s']
      by (intro safe_step_view) (simp add: put_semaphore_def sview_upd_proc)
  next
    case 2
    let ?pcb = "(k_proc k p)\<lparr>pc_semaphore_list := (pc_semaphore_list (k_proc k p))[i := Some s']\<rparr>"
    have "mset (waiters_of ?pcb) = add_mset t (mset (waiters_of (k_proc k p)))"
      using waiters_put(2) [OF assms(3,4), of s'] by (simp add: 2)
    then have "safe_step k (upd_proc p (\<lambda>_. ?pcb) k1)"
      unfolding 2 using assms(1,2) by (intro block_in_process) simp_all
    then show ?thesis by (simp add: put_semaphore_def upd_proc_def 2 set_status_def)
  qed
qed

lemma condvar_wait_safe:
  assumes "sc_current k = Some t" "p = tcb_process (sc_tcb k t)"
    "i < length (pc_condvar_list (k_proc k p))" "pc_condvar_list (k_proc k p) ! i = Some c"
    "j < length (pc_mutex_list (k_proc k p))" "pc_mutex_list (k_proc k p) ! j = Some m"
    "Condvar_wait c m k = Inr (c', m', k1)"
  shows "safe_step k (put_mutex p j m' (put_condvar p i c' k1))"
proof -
  obtain k0 where k0: "Mutex_unlock m k = Inr (m', k0)" "sc_current k0 = Some t"
    "k1 = set_status t Blocked (k0\<lparr>sc_current := None\<rparr>)" "c' = c @ [t]" "k_proc k0 = k_proc k"
    "tcb_process (sc_tcb k0 t) = p"
    using assms(1,2,7) Mutex_unlock_cases [of m k]
    by (auto simp: Condvar_wait_def block_current_eq) (auto simp: sched_defs block_current_eq)
  define ka where "ka = put_mutex p j m' k0"
  have "safe_step k ka" unfolding ka_def by (rule mutex_unlock_safe [OF assms(1,2,5,6) k0(1)])
  moreover
  let ?pcb = "(k_proc ka p)\<lparr>pc_condvar_list := (pc_condvar_list (k_proc ka p))[i := Some c']\<rparr>"
  have cv: "pc_condvar_list (k_proc ka p) = pc_condvar_list (k_proc k p)" "sc_current ka = Some t"
    "tcb_process (sc_tcb ka t) = p"
    using k0 by (simp_all add: ka_def put_mutex_def upd_proc_def)
  have "mset (waiters_of ?pcb) = add_mset t (mset (waiters_of (k_proc ka p)))"
    using waiters_put(3) [of i "k_proc ka p" c c'] assms(3,4) by (simp add: cv k0(4))
  then have "safe_step ka (upd_proc p (\<lambda>_. ?pcb) (set_status t Blocked (ka\<lparr>sc_current := None\<rparr>)))"
    using cv by (intro block_in_process) simp_all
  moreover have "upd_proc p (\<lambda>_. ?pcb) (set_status t Blocked (ka\<lparr>sc_current := None\<rparr>)) = put_mutex p j m' (put_condvar p i c' k1)"
    by (cases "k_proc k0 p") (simp add: ka_def k0(3) put_mutex_def put_condvar_def upd_proc_def set_status_def)
  ultimately show ?thesis using safe_step_trans by metis
qed

end
