(* ===== verification/Kernel_Invariant.thy ===== *)
theory Kernel_Invariant
  imports Thread_Places
begin

text \<open>
  The invariant of \<open>Thread_Places\<close> through the rest of the kernel: new threads and processes, the
  end of threads and processes, signals, every system call, the trap handler, and so every run of
  the kernel from its start.
\<close>

section \<open>New threads and processes\<close>

lemma sview_cong:
  assumes "sview k' = sview k"
  shows "sview (add_task t k') = sview (add_task t k)"
    "sview (upd_proc p (\<lambda>pcb. pcb\<lparr>pc_tasks := ts\<rparr>) k') = sview (upd_proc p (\<lambda>pcb. pcb\<lparr>pc_tasks := ts\<rparr>) k)"
    "sview (upd_proc p (\<lambda>pcb. pcb\<lparr>pc_tid_allocator := al\<rparr>) k') = sview (upd_proc p (\<lambda>pcb. pcb\<lparr>pc_tid_allocator := al\<rparr>) k)"
    "sview (k'\<lparr>k_next_task := n\<rparr>) = sview (k\<lparr>k_next_task := n\<rparr>)"
    "sview (k'\<lparr>sc_tcb := (sc_tcb k')(t := tcb)\<rparr>) = sview (k\<lparr>sc_tcb := (sc_tcb k)(t := tcb)\<rparr>)"
    "pc_tasks (k_proc k' p) = pc_tasks (k_proc k p)" "k_next_task k' = k_next_task k"
  using assms by (auto simp: sview_def add_task_def upd_proc_def fun_eq_iff)

text \<open>A process \<open>p\<close> gets a thread: its control block, its id and its slot.\<close>

definition spawn :: "nat \<Rightarrow> TaskControlBlock \<Rightarrow> RecycleAllocator \<Rightarrow> nat option list \<Rightarrow> kernel \<Rightarrow> kernel" where
  "spawn p tcb al tasks k =
     add_task (k_next_task k)
       (upd_proc p (\<lambda>pcb. pcb\<lparr>pc_tasks := tasks\<rparr>)
         (upd_proc p (\<lambda>pcb. pcb\<lparr>pc_tid_allocator := al\<rparr>)
           (k\<lparr>sc_tcb := (sc_tcb k)(k_next_task k := tcb), k_next_task := k_next_task k + 1\<rparr>)))"

lemma ra_alloc_fresh:
  assumes "ra_inv a" "unat (ra_current a) + 1 < 2 ^ 64" "ra_alloc a = (i, a')"
  shows "ra_inv a'" "i \<notin> ra_live a" "ra_live a' = insert i (ra_live a)" "unat (ra_current a') \<le> unat (ra_current a) + 1"
proof -
  have "ra_inv a' \<and> i \<notin> ra_live a \<and> ra_live a' = insert i (ra_live a) \<and> unat (ra_current a') \<le> unat (ra_current a) + 1"
  proof (cases "ra_recycled a" rule: rev_cases)
    case Nil
    then show ?thesis
      using ra_alloc_current [OF assms(1) Nil, of 0] assms(2,3) by (auto simp: ra_fits_def unat_word_ariths)
  next
    case (snoc xs x)
    then show ?thesis using ra_alloc_recycled [OF assms(1) snoc] assms(3) by auto
  qed
  then show "ra_inv a'" "i \<notin> ra_live a" "ra_live a' = insert i (ra_live a)" "unat (ra_current a') \<le> unat (ra_current a) + 1"
    by simp_all
qed

lemma set_update_None:
  "n < length xs \<Longrightarrow> xs ! n = None \<Longrightarrow> Some u \<in> set (xs[n := Some t]) \<longleftrightarrow> u = t \<or> Some u \<in> set xs"
proof (induction xs arbitrary: n)
  case (Cons x xs)
  then show ?case by (cases n) auto
qed simp

lemma slot_tasks:
  fixes tid :: usize
  assumes "tasks' = (tasks @ replicate (unat tid + 1 - length tasks) None)[unat tid := Some t]"
    "unat tid < length tasks \<longrightarrow> tasks ! unat tid = None"
  shows "Some u \<in> set tasks' \<longleftrightarrow> u = t \<or> Some u \<in> set tasks"
    "i < length tasks' \<Longrightarrow> tasks' ! i \<noteq> None \<Longrightarrow> i = unat tid \<or> (i < length tasks \<and> tasks ! i \<noteq> None)"
proof -
  let ?l = "tasks @ replicate (unat tid + 1 - length tasks) None"
  have len: "unat tid < length ?l" by simp
  have "?l ! unat tid = None" using assms(2) by (auto simp: nth_append)
  then have "Some u \<in> set (?l[unat tid := Some t]) \<longleftrightarrow> u = t \<or> Some u \<in> set ?l"
    by (rule set_update_None [OF len])
  then show "Some u \<in> set tasks' \<longleftrightarrow> u = t \<or> Some u \<in> set tasks" by (auto simp: assms(1))
  show "i < length tasks' \<Longrightarrow> tasks' ! i \<noteq> None \<Longrightarrow> i = unat tid \<or> (i < length tasks \<and> tasks ! i \<noteq> None)"
    by (auto simp: assms(1) nth_list_update nth_append split: if_splits)
qed

lemma spawn_safe:
  assumes "kernel_inv k \<Longrightarrow> live_process k p" "ra_alloc (pc_tid_allocator (k_proc k p)) = (tid, al)"
    "tcb_process tcb = p" "tcb_status tcb = Ready" "tcb_exit_code tcb = None"
    "tasks = (pc_tasks (k_proc k p) @ replicate (unat tid + 1 - length (pc_tasks (k_proc k p))) None)[unat tid := Some (k_next_task k)]"
  shows "safe_step k (spawn p tcb al tasks k)" (is "safe_step k ?k'")
proof -
  let ?t = "k_next_task k"
  have e: "sc_ready_queue ?k' = sc_ready_queue k @ [?t]" "sc_current ?k' = sc_current k" "tm_timers ?k' = tm_timers k"
    "k_next_proc ?k' = k_next_proc k" "k_next_task ?k' = ?t + 1" "sc_tcb ?k' = (sc_tcb k)(?t := tcb)"
    "waiters_of (k_proc ?k' q) = waiters_of (k_proc k q)" "pc_is_zombie (k_proc ?k' q) = pc_is_zombie (k_proc k q)"
    "pc_tasks (k_proc ?k' q) = (if q = p then tasks else pc_tasks (k_proc k q))"
    "pc_tid_allocator (k_proc ?k' q) = (if q = p then al else pc_tid_allocator (k_proc k q))" for q
    by (simp_all add: spawn_def add_task_def upd_proc_def)
  have live: "live_process ?k' = live_process k" by (simp add: live_process_def e fun_eq_iff)
  have b: "blocked ?k' = blocked k" by (rule blocked_cong) (simp_all add: e)
  have pl: "places ?k' = add_mset ?t (places k)" by (simp add: places_def b e)
  have "kernel_inv ?k'" if inv: "kernel_inv k" and lt: "?t + 1 < 2 ^ 64"
  proof -
    have lp: "live_process k p" by (rule assms(1) [OF inv])
    have tids: "ra_inv (pc_tid_allocator (k_proc k p))" "unat (ra_current (pc_tid_allocator (k_proc k p))) \<le> ?t"
      "\<And>i. i < length (pc_tasks (k_proc k p)) \<Longrightarrow> pc_tasks (k_proc k p) ! i \<noteq> None
        \<Longrightarrow> i < 2 ^ 64 \<and> of_nat i \<in> ra_live (pc_tid_allocator (k_proc k p))"
      using kernel_invD(6) [OF inv lp] by (auto simp: tids_ok_def Let_def)
    note fresh = ra_alloc_fresh [OF tids(1) _ assms(2)]
    have fr: "ra_inv al" "tid \<notin> ra_live (pc_tid_allocator (k_proc k p))"
      "ra_live al = insert tid (ra_live (pc_tid_allocator (k_proc k p)))" "unat (ra_current al) \<le> ?t + 1"
      using fresh tids(2) lt by auto
    have free: "unat tid < length (pc_tasks (k_proc k p)) \<longrightarrow> pc_tasks (k_proc k p) ! unat tid = None"
      using tids(3) [of "unat tid"] fr(2) by (cases "pc_tasks (k_proc k p) ! unat tid") auto
    note slot = slot_tasks [OF assms(6) free]
    have small: "u < ?t" if "u \<in># places k" for u
      using kernel_invD(1) [OF inv that] kernel_invD(7) [OF inv] by (auto simp: placed_ok_def member_ok_def)
    then have new: "?t \<notin># places k" by blast
    have nt: "?t \<notin> set (sc_ready_queue k)" "?t \<notin># blocked k" "sc_current k \<noteq> Some ?t"
      "\<And>q. q < k_next_proc k \<Longrightarrow> ?t \<notin> set (waiters_of (k_proc k q))"
      using new by (auto simp: places_def blocked_def waiting_split)
    show ?thesis unfolding kernel_inv_def
    proof (intro conjI allI impI ballI)
      show "placed_ok ?k' u" if "u \<in># places ?k'" for u
      proof (cases "u = ?t")
        case True
        then show ?thesis
          using new lp slot(1) [of ?t] by (simp add: placed_ok_def pl e assms(3,5) live not_in_iff)
      next
        case False
        then have "placed_ok k u" using that kernel_invD(1) [OF inv, of u] by (simp add: pl)
        then show ?thesis using False slot(1) [of u] by (auto simp: placed_ok_def pl e live)
      qed
      show "status ?k' u = Ready" if "u \<in> set (sc_ready_queue ?k')" for u
        using that kernel_invD(2) [OF inv, of u] assms(4) by (auto simp: e)
      show "status ?k' u = Blocked" if "u \<in># blocked ?k'" for u
        using that nt(2) kernel_invD(3) [OF inv, of u] by (auto simp: e b)
      show "status ?k' u = Running" if "sc_current ?k' = Some u" for u
        using that nt(3) kernel_invD(4) [OF inv, of u] by (auto simp: e)
      show "tcb_process (sc_tcb ?k' u) = q" if "q < k_next_proc ?k'" "u \<in> set (waiters_of (k_proc ?k' q))" for q u
        using that nt(4) [of q] kernel_invD(5) [OF inv, of q u] by (auto simp: e)
      show "tids_ok ?k' q" if "live_process ?k' q" for q
      proof (cases "q = p")
        case True
        have "i < 2 ^ 64 \<and> of_nat i \<in> ra_live al" if "i < length tasks" "tasks ! i \<noteq> None" for i
        proof (cases "i = unat tid")
          case True
          then show ?thesis using unat_less_2p_64 [of tid] by (simp add: fr(3))
        next
          case False
          then have "i < length (pc_tasks (k_proc k p))" "pc_tasks (k_proc k p) ! i \<noteq> None" using slot(2) [OF that] by blast+
          then show ?thesis using tids(3) [of i] by (simp add: fr(3))
        qed
        then show ?thesis using True fr(1,4) by (simp add: tids_ok_def e)
      next
        case False
        then show ?thesis using that kernel_invD(6) [OF inv, of q] by (auto simp: tids_ok_def e live Let_def)
      qed
      show "member_ok ?k' q u" if "live_process ?k' q" "Some u \<in> set (pc_tasks (k_proc ?k' q))" for q u
      proof (cases "u = ?t")
        case True
        then have "q = p"
          using that kernel_invD(7) [OF inv, of q ?t] by (auto simp: e live member_ok_def split: if_splits)
        then show ?thesis using True by (simp add: member_ok_def e assms(3) pl)
      next
        case False
        then have "member_ok k q u"
          using that kernel_invD(7) [OF inv, of q u] slot(1) [of u] by (auto simp: e live split: if_splits)
        then show ?thesis using False by (auto simp: member_ok_def e pl)
      qed
    qed
  qed
  then show ?thesis by (simp add: safe_step_def e)
qed

lemma TaskControlBlock_new_view:
  assumes "TaskControlBlock_new mc p base alloc k = Inr (t, k')"
  obtains tid al tcb ur where "ra_alloc (pc_tid_allocator (k_proc k p)) = (tid, al)" "t = k_next_task k"
    "sview k' = sview (upd_proc p (\<lambda>pcb. pcb\<lparr>pc_tid_allocator := al\<rparr>) (k\<lparr>sc_tcb := (sc_tcb k)(t := tcb), k_next_task := t + 1\<rparr>))"
    "tcb_process tcb = p" "tcb_status tcb = Ready" "tcb_exit_code tcb = None"
    "tcb_user_resource (sc_tcb k' t) = Some ur" "ur_tid ur = tid"
proof -
  obtain tid al where al: "ra_alloc (pc_tid_allocator (k_proc k p)) = (tid, al)" by fastforce
  define kp where "kp = upd_proc p (\<lambda>pcb. pcb\<lparr>pc_tid_allocator := al\<rparr>) k"
  obtain ur k1 ppn ks k2 where u: "TaskUserResource_new p base alloc k = Inr (ur, k1)"
    and ks: "alloc_kernel_stack k1 = Inr (ks, k2)" and t: "t = k_next_task k2"
    and k': "k' = k2\<lparr>sc_tcb := (sc_tcb k2)(t := \<lparr>tcb_process = p, tcb_kernel_stack = ks, tcb_user_resource = Some ur,
        tcb_status = Ready, tcb_task_cx = goto_trap_return (mc_trap_return mc) (KernelStack_get_top ks),
        tcb_trap_cx_ppn = ppn, tcb_exit_code = None, tcb_trap_cx_backup = None\<rparr>), k_next_task := t + 1\<rparr>"
    using assms by (auto simp: TaskControlBlock_new_def Let_def)
  have ur: "sview k1 = sview kp" "ur_tid ur = tid"
    using u al by (auto simp: TaskUserResource_new_def Let_def kp_def sview_user_resource split: if_splits)
  have v2: "sview k2 = sview kp" using sview_kernel_stack(1) [OF ks] ur(1) by simp
  have t': "t = k_next_task k" using sview_cong(7) [OF v2] by (simp add: t kp_def upd_proc_def)
  define tcb where "tcb = sc_tcb k' t"
  have "sview k' = sview (kp\<lparr>sc_tcb := (sc_tcb kp)(t := tcb), k_next_task := t + 1\<rparr>)"
    using sview_cong(4) [OF sview_cong(5) [OF v2, of t tcb], of "t + 1"] by (simp add: k' tcb_def)
  then have "sview k' = sview (upd_proc p (\<lambda>pcb. pcb\<lparr>pc_tid_allocator := al\<rparr>) (k\<lparr>sc_tcb := (sc_tcb k)(t := tcb), k_next_task := t + 1\<rparr>))"
    by (simp add: kp_def upd_proc_def sview_def)
  moreover have "tcb_process tcb = p" "tcb_status tcb = Ready" "tcb_exit_code tcb = None"
    "tcb_user_resource (sc_tcb k' t) = Some ur"
    by (simp_all add: tcb_def k')
  ultimately show ?thesis using that al t' ur(2) by blast
qed

text \<open>The thread gets its slot and becomes ready.\<close>

lemma enter_thread_safe:
  assumes new: "TaskControlBlock_new mc p base alloc k = Inr (t, k1)" and v: "sview k2 = sview k1"
    and ur: "tcb_user_resource (sc_tcb k1 t) = Some ur" and live: "kernel_inv k \<Longrightarrow> live_process k p"
    and tasks: "tasks = (pc_tasks (k_proc k2 p) @ replicate (unat (ur_tid ur) + 1 - length (pc_tasks (k_proc k2 p))) None)
      [unat (ur_tid ur) := Some t]"
    and k': "sview k' = sview (add_task t (upd_proc p (\<lambda>pcb. pcb\<lparr>pc_tasks := tasks\<rparr>) k2))"
  shows "safe_step k k'"
proof -
  obtain tid al tcb where a: "ra_alloc (pc_tid_allocator (k_proc k p)) = (tid, al)" "t = k_next_task k"
    "sview k1 = sview (upd_proc p (\<lambda>pcb. pcb\<lparr>pc_tid_allocator := al\<rparr>) (k\<lparr>sc_tcb := (sc_tcb k)(t := tcb), k_next_task := t + 1\<rparr>))"
    "tcb_process tcb = p" "tcb_status tcb = Ready" "tcb_exit_code tcb = None" "ur_tid ur = tid"
    using TaskControlBlock_new_view [OF new] ur by (metis option.inject)
  have v2: "sview k2 = sview (upd_proc p (\<lambda>pcb. pcb\<lparr>pc_tid_allocator := al\<rparr>) (k\<lparr>sc_tcb := (sc_tcb k)(t := tcb), k_next_task := t + 1\<rparr>))"
    using v a(3) by simp
  have "pc_tasks (k_proc k2 p) = pc_tasks (k_proc k p)" using sview_cong(6) [OF v2, of p] by (simp add: upd_proc_def)
  then have "safe_step k (spawn p tcb al tasks k)"
    using tasks a(2,7) by (intro spawn_safe [OF live a(1,4,5,6)]) simp_all
  moreover have "sview k' = sview (spawn p tcb al tasks k)"
    unfolding k' spawn_def a(2) [symmetric] by (intro sview_cong(1,2) v2)
  ultimately show ?thesis using safe_step_trans safe_step_view by blast
qed

lemma sys_thread_create_safe:
  assumes "sys_thread_create mc entry arg k = Inr (e, k')"
  shows "safe_step k k'"
proof -
  obtain t n k1 ur cx k2 k3 and ur0 :: TaskUserResource where c: "sc_current k = Some t"
    "TaskControlBlock_new mc (tcb_process (sc_tcb k t)) (ur_user_stack_base ur0) True k = Inr (n, k1)"
    "tcb_user_resource (sc_tcb k1 n) = Some ur"
    "write_trap_cx n cx k1 = Inr k2" "write_trap_cx_word n 10 arg k2 = Inr k3"
    "k' = add_task n (upd_proc (tcb_process (sc_tcb k t)) (\<lambda>pcb. pcb\<lparr>pc_tasks :=
        (pc_tasks (k_proc k3 (tcb_process (sc_tcb k t)))
          @ replicate (unat (ur_tid ur) + 1 - length (pc_tasks (k_proc k3 (tcb_process (sc_tcb k t))))) None)
        [unat (ur_tid ur) := Some n]\<rparr>) k3)"
    using assms unfolding sys_thread_create_def Let_def ret_def
    by (simp only: rbind_Inr_iff split_paired_Ex prod.case current_task_Inr sum.inject prod.inject unwrap_Inr)
      (elim exE conjE, rule that, assumption, assumption, assumption, assumption, assumption, simp)
  have "sview k3 = sview k1" using sview_trap_cx(1) [OF c(4)] sview_trap_cx(2) [OF c(5)] by simp
  from enter_thread_safe [OF c(2) this c(3) _ refl] show ?thesis using current_live(1) [OF _ c(1)] c(6) by simp
qed

lemma alloc_proc_safe:
  assumes "waiters_of pcb = []" "pc_tasks pcb = []" "pc_tid_allocator pcb = ra_new" "alloc_proc pcb k = (p, k')"
  shows "safe_step k k'"
proof -
  have e: "p = k_next_proc k" "sc_ready_queue k' = sc_ready_queue k" "sc_current k' = sc_current k" "tm_timers k' = tm_timers k"
    "k_next_proc k' = Suc p" "k_next_task k' = k_next_task k" "sc_tcb k' = sc_tcb k" "k_proc k' = (k_proc k)(p := pcb)"
    using assms(4) by (auto simp: alloc_proc_def Let_def)
  have "(\<Sum>q<k_next_proc k. mset (waiters_of (k_proc k' q))) = waiting k"
    unfolding waiting_def by (rule sum.cong) (simp_all add: e)
  then have "waiting k' = waiting k" unfolding waiting_def e(5) using assms(1) by (simp add: e waiting_def)
  then have b: "blocked k' = blocked k" by (simp add: blocked_def e)
  then have pl: "places k' = places k" by (simp add: places_def e)
  have live: "live_process k' q \<longleftrightarrow> (if q = p then \<not> pc_is_zombie pcb else live_process k q)" for q
    by (auto simp: live_process_def e)
  have "kernel_inv k'" if inv: "kernel_inv k"
    unfolding kernel_inv_def
  proof (intro conjI allI impI ballI)
    show "placed_ok k' u" if "u \<in># places k'" for u
      using that kernel_invD(1) [OF inv, of u] by (auto simp: placed_ok_def live_process_def pl e)
    show "tcb_process (sc_tcb k' u) = q" if "q < k_next_proc k'" "u \<in> set (waiters_of (k_proc k' q))" for q u
      using that kernel_invD(5) [OF inv, of q u] assms(1) by (auto simp: e less_Suc_eq split: if_splits)
    show "tids_ok k' q" if "live_process k' q" for q
      using that kernel_invD(6) [OF inv, of q] assms(2,3)
      by (cases "q = p") (simp_all add: tids_ok_def e live, simp add: ra_new_def)
    show "member_ok k' q u" if "live_process k' q" "Some u \<in> set (pc_tasks (k_proc k' q))" for q u
      using that kernel_invD(7) [OF inv, of q u] assms(2) by (auto simp: member_ok_def e live pl split: if_splits)
  qed (use kernel_invD(2,3,4) [OF inv] in \<open>simp_all add: e b\<close>)
  then show ?thesis using e(6) by (intro safe_stepI)
qed

lemma fresh_pcb_simps [simp]:
  "waiters_of (fresh_pcb pid a parent fds actions smask) = []" "pc_tasks (fresh_pcb pid a parent fds actions smask) = []"
  "pc_tid_allocator (fresh_pcb pid a parent fds actions smask) = ra_new"
  "pc_is_zombie (fresh_pcb pid a parent fds actions smask) = False"
  by (simp_all add: fresh_pcb_def waiters_of_def)

text \<open>The first thread of a new process.\<close>

lemma first_thread_safe:
  assumes p: "alloc_proc (fresh_pcb pid a parent fds actions smask) k = (p, k1)"
    and new: "TaskControlBlock_new mc p base alloc k1 = Inr (t, k2)" and v: "sview k3 = sview k2"
    and k': "sview k' = sview (add_task t (upd_proc p (\<lambda>pcb. pcb\<lparr>pc_tasks := pc_tasks pcb @ [Some t]\<rparr>) k3))"
  shows "safe_step k k'"
proof -
  have k1: "k_proc k1 p = fresh_pcb pid a parent fds actions smask" "p < k_next_proc k1"
    using p by (auto simp: alloc_proc_def Let_def)
  obtain ur al tcb where a: "ra_alloc (pc_tid_allocator (k_proc k1 p)) = (ur_tid ur, al)"
    "sview k2 = sview (upd_proc p (\<lambda>pcb. pcb\<lparr>pc_tid_allocator := al\<rparr>) (k1\<lparr>sc_tcb := (sc_tcb k1)(t := tcb), k_next_task := t + 1\<rparr>))"
    "tcb_user_resource (sc_tcb k2 t) = Some ur"
    by (rule TaskControlBlock_new_view [OF new]) blast
  have tid: "ur_tid ur = 0" using a(1) by (auto simp: k1 ra_alloc_def ra_new_def)
  have none: "pc_tasks (k_proc k3 p) = []"
    using sview_cong(6) [OF v, of p] sview_cong(6) [OF a(2), of p] by (simp add: upd_proc_def k1)
  have eq: "upd_proc p (\<lambda>pcb. pcb\<lparr>pc_tasks := pc_tasks pcb @ [Some t]\<rparr>) k3 = upd_proc p (\<lambda>pcb. pcb\<lparr>pc_tasks := [Some t]\<rparr>) k3"
    by (simp add: upd_proc_def none)
  have "safe_step k k1" by (rule alloc_proc_safe [OF _ _ _ p]) simp_all
  moreover have "safe_step k1 k'"
    by (rule enter_thread_safe [OF new v a(3) _ _ k' [unfolded eq]]) (simp_all add: live_process_def k1 none tid)
  ultimately show ?thesis by (rule safe_step_trans)
qed

lemma fork_safe:
  assumes "fork mc parent k = Inr (p, k')"
  shows "safe_step k k'"
proof -
  obtain a s where s: "from_existed_user (mc_strampoline mc) (pc_address_space (k_proc k parent)) (k_phys k) = Inr (a, s)"
    using assms by (auto simp: fork_def)
  obtain pid k1 where f1: "pid_alloc (k\<lparr>k_phys := s\<rparr>) = (pid, k1)" by fastforce
  obtain q k2 where f2: "alloc_proc (fresh_pcb pid a (Some parent) (pc_fd_table (k_proc k parent))
      (sg_signal_actions (k_proc k parent)) (sg_signal_mask (k_proc k parent))) k1 = (q, k2)" by fastforce
  obtain t k3 k4 and ur0 :: TaskUserResource where f: "q = p"
    "TaskControlBlock_new mc p (ur_user_stack_base ur0) False k2 = Inr (t, k3)"
    "write_trap_cx_word t KERNEL_STACK_TOP_WORD (KernelStack_get_top (tcb_kernel_stack (sc_tcb k3 t))) k3 = Inr k4"
    "k' = upd_proc parent (\<lambda>pcb. pcb\<lparr>pc_children := pc_children pcb @ [p]\<rparr>) (insert_into_pid2process pid p
            (add_task t (upd_proc p (\<lambda>pcb. pcb\<lparr>pc_tasks := pc_tasks pcb @ [Some t]\<rparr>) k4)))"
    using assms by (auto simp: fork_def Let_def s f1 f2)
  have "sview k1 = sview k" using f1 by (auto simp: pid_alloc_def split: prod.splits)
  then have "safe_step k k1" by (rule safe_step_view)
  moreover have "safe_step k1 k'"
    by (rule first_thread_safe [OF f2 [unfolded f(1)] f(2) sview_trap_cx(2) [OF f(3)]])
      (simp add: f(4) sview_upd_proc insert_into_pid2process_def)
  ultimately show ?thesis by (rule safe_step_trans)
qed

lemma ProcessControlBlock_new_safe:
  assumes "ProcessControlBlock_new mc elf_data k = Inr (p, k')"
  shows "safe_step k k'"
proof -
  obtain a b c s where s: "from_elf (mc_ElfFile_new mc) (mc_strampoline mc) elf_data (k_phys k) = Inr (a, b, c, s)"
    using assms by (auto simp: ProcessControlBlock_new_def)
  obtain pid k1 f0 k2 f1 k3 f2 k4 where g: "pid_alloc (k\<lparr>k_phys := s\<rparr>) = (pid, k1)" "alloc_file FStdin k1 = (f0, k2)"
    "alloc_file FStdout k2 = (f1, k3)" "alloc_file FStdout k3 = (f2, k4)"
    by (metis surj_pair)
  obtain q k5 where p: "alloc_proc (fresh_pcb pid a None [Some f0, Some f1, Some f2] SignalActionTable_default 0) k4 = (q, k5)"
    by fastforce
  obtain t k6 cx k7 where f: "q = p" "TaskControlBlock_new mc p b True k5 = Inr (t, k6)" "write_trap_cx t cx k6 = Inr k7"
    "k' = insert_into_pid2process pid p (add_task t (upd_proc p (\<lambda>pcb. pcb\<lparr>pc_tasks := pc_tasks pcb @ [Some t]\<rparr>) k7))"
    using assms by (auto simp: ProcessControlBlock_new_def Let_def s g p)
  have "sview k4 = sview k"
    using g by (auto simp: pid_alloc_def alloc_file_def Let_def split: prod.splits)
  then have "safe_step k k4" by (rule safe_step_view)
  moreover have "safe_step k4 k'"
    by (rule first_thread_safe [OF p [unfolded f(1)] f(2) sview_trap_cx(1) [OF f(3)]]) (simp add: f(4) insert_into_pid2process_def)
  ultimately show ?thesis by (rule safe_step_trans)
qed

section \<open>The end of threads and processes\<close>

text \<open>The running thread leaves the processor for good.\<close>

lemma leave_safe:
  assumes "sc_current k = Some t"
  shows "safe_step k (upd_tcb t (\<lambda>tcb. tcb\<lparr>tcb_exit_code := Some c\<rparr>) (k\<lparr>sc_current := None\<rparr>))" (is "safe_step k ?k'")
proof -
  have e: "sc_ready_queue ?k' = sc_ready_queue k" "sc_current ?k' = None" "k_proc ?k' = k_proc k"
    "k_next_proc ?k' = k_next_proc k" "k_next_task ?k' = k_next_task k" "tm_timers ?k' = tm_timers k"
    "status ?k' u = status k u" "tcb_process (sc_tcb ?k' u) = tcb_process (sc_tcb k u)"
    "tcb_exit_code (sc_tcb ?k' u) = (if u = t then Some c else tcb_exit_code (sc_tcb k u))" for u
    by (simp_all add: upd_tcb_def)
  have b: "blocked ?k' = blocked k" by (rule blocked_cong) (simp_all add: e)
  have pl: "places k = add_mset t (places ?k')" unfolding places_def b by (simp add: e assms)
  have live: "live_process ?k' = live_process k" by (simp add: live_process_def e fun_eq_iff)
  have "kernel_inv ?k'" if inv: "kernel_inv k"
  proof -
    have nt: "t \<notin># places ?k'"
      using count_places_le [OF inv, of t] by (simp add: pl not_in_iff)
    show ?thesis unfolding kernel_inv_def
    proof (intro conjI allI impI ballI)
      show "placed_ok ?k' u" if "u \<in># places ?k'" for u
      proof -
        have "u \<noteq> t" using that nt by blast
        then show ?thesis using that kernel_invD(1) [OF inv, of u] by (simp add: placed_ok_def pl e live)
      qed
      show "tids_ok ?k' q" if "live_process ?k' q" for q
        using that kernel_invD(6) [OF inv, of q] by (simp add: tids_ok_def e live)
      show "member_ok ?k' q u" if "live_process ?k' q" "Some u \<in> set (pc_tasks (k_proc ?k' q))" for q u
        using that kernel_invD(7) [OF inv, of q u] by (auto simp: member_ok_def e live pl)
    qed (use kernel_invD(2,3,5) [OF inv] in \<open>simp_all add: e b\<close>)
  qed
  then show ?thesis by (intro safe_stepI) (simp_all add: e)
qed

lemma remove_task_eq: "remove_task t k = k\<lparr>sc_ready_queue := remove1 t (sc_ready_queue k)\<rparr>"
proof -
  have "(case find_index (\<lambda>x. x = t) xs of Some i \<Rightarrow> remove_at i xs | None \<Rightarrow> xs) = remove1 t xs" for xs :: "nat list"
    by (induction xs) (auto simp: remove_at_def split: option.splits)
  from this [of "sc_ready_queue k"] show ?thesis
    by (auto simp: remove_task_def split: option.splits)
qed

text \<open>What is left of the queues when the threads of a list are taken out.\<close>

lemma take_resources_view:
  assumes "take_resources ts k = (rs, k')"
  shows "sview k' = sview (k\<lparr>sc_ready_queue := fold remove1 (List.map_filter (\<lambda>x. x) ts) (sc_ready_queue k),
    tm_timers := filter (\<lambda>timer. Some (tv_task timer) \<notin> set ts) (tm_timers k)\<rparr>)"
  using assms
proof (induction ts k arbitrary: rs rule: take_resources.induct)
  case (3 t ts k)
  let ?k2 = "upd_tcb t (\<lambda>tcb. tcb\<lparr>tcb_user_resource := None\<rparr>) (remove_inactive_task t k)"
  obtain rs' where "take_resources ts ?k2 = (rs', k')" using "3.prems" by (auto simp: Let_def split: prod.splits)
  from "3.IH" [OF refl refl this] show ?case
    by (simp add: sview_def remove_inactive_task_def remove_timer_def remove_task_eq upd_tcb_def fun_eq_iff map_filter_simps
        conj_commute)
qed (simp_all add: map_filter_simps)

lemma count_fold_remove1: "t \<notin> set ts \<Longrightarrow> count (mset (fold remove1 ts xs)) t = count (mset xs) t"
  by (induction ts arbitrary: xs) auto

lemma count_fold_remove1_in:
  assumes "t \<in> set ts" "count (mset xs) t \<le> 1"
  shows "count (mset (fold remove1 ts xs)) t = 0"
proof -
  have "count (mset (fold remove1 ts xs)) t = count (mset xs) t - count (mset ts) t"
    by (induction ts arbitrary: xs) simp_all
  moreover have "0 < count (mset ts) t" using assms(1) by (simp add: count_greater_zero_iff)
  ultimately show ?thesis using assms(2) by simp
qed

text \<open>The state after the end of a process, as far as threads are concerned.\<close>

definition reaped :: "nat \<Rightarrow> nat option list \<Rightarrow> kernel \<Rightarrow> kernel" where
  "reaped p left k =
     (let ts = pc_tasks (k_proc k p) in
      upd_proc p (\<lambda>pcb. pcb\<lparr>pc_is_zombie := True, pc_tasks := left, pc_mutex_list := [], pc_semaphore_list := [],
                    pc_condvar_list := []\<rparr>)
        (k\<lparr>sc_ready_queue := fold remove1 (List.map_filter (\<lambda>x. x) ts) (sc_ready_queue k),
           tm_timers := filter (\<lambda>timer. Some (tv_task timer) \<notin> set ts) (tm_timers k)\<rparr>))"

lemma set_map_filter_id [simp]: "t \<in> set (List.map_filter (\<lambda>x. x) ts) \<longleftrightarrow> Some t \<in> set ts"
  by (auto simp: List.map_filter_def image_iff)

lemma count_filter_timers:
  "count (mset (map tv_task (filter (\<lambda>timer. P (tv_task timer)) ts))) t = (if P t then count (mset (map tv_task ts)) t else 0)"
  by (induction ts) auto

lemma reaped_waiting:
  assumes "p < k_next_proc k"
  shows "waiting (reaped p left k) = rest_waiting p k"
proof -
  have "rest_waiting p (reaped p left k) = rest_waiting p k"
    unfolding rest_waiting_def by (rule sum.cong) (simp_all add: reaped_def Let_def upd_proc_def)
  then show ?thesis
    using waiting_split [of p "reaped p left k"] assms by (simp add: reaped_def Let_def upd_proc_def waiters_of_def)
qed

lemma reaped_places:
  assumes inv: "kernel_inv k" and p: "p < k_next_proc k" "\<not> pc_is_zombie (k_proc k p)" and cur: "sc_current k = None"
  shows "count (places (reaped p left k)) t = (if tcb_process (sc_tcb k t) = p then 0 else count (places k) t)"
proof -
  let ?ts = "pc_tasks (k_proc k p)" and ?k' = "reaped p left k"
  have lp: "live_process k p" using p by (simp add: live_process_def)
  note w = reaped_waiting [OF p(1), of left]
  have c: "count (places ?k') t = count (mset (fold remove1 (List.map_filter (\<lambda>x. x) ?ts) (sc_ready_queue k))) t
      + (if Some t \<in> set ?ts then 0 else count (mset (map tv_task (tm_timers k))) t) + count (rest_waiting p k) t"
    unfolding places_def blocked_def w
    by (simp add: cur reaped_def Let_def upd_proc_def count_filter_timers [where P = "\<lambda>t. Some t \<notin> set ?ts"] del: mset_map)
  have c0: "count (places k) t = count (mset (sc_ready_queue k)) t + count (mset (map tv_task (tm_timers k))) t
      + count (mset (waiters_of (k_proc k p))) t + count (rest_waiting p k) t"
    using p(1) by (simp add: places_def blocked_def cur waiting_split del: mset_map)
  show ?thesis
  proof (cases "tcb_process (sc_tcb k t) = p")
    case True
    have "Some t \<in> set ?ts" if "t \<in># places k"
      using kernel_invD(1) [OF inv that] True by (simp add: placed_ok_def)
    moreover have "count (rest_waiting p k) t = 0"
      using True kernel_invD(5) [OF inv, of _ t]
      by (auto simp: rest_waiting_def count_sum count_eq_zero_iff)
    moreover have "count (mset (sc_ready_queue k)) t \<le> 1" using c0 count_places_le [OF inv, of t] by linarith
    moreover have "count (places k) t = 0" if "Some t \<notin> set ?ts"
      using that calculation(1) by (auto simp: count_eq_zero_iff)
    ultimately show ?thesis
      using True c c0 count_fold_remove1_in [of t "List.map_filter (\<lambda>x. x) ?ts" "sc_ready_queue k"]
        count_fold_remove1 [of t "List.map_filter (\<lambda>x. x) ?ts" "sc_ready_queue k"]
      by (cases "Some t \<in> set ?ts") (simp_all del: mset_map)
  next
    case False
    have "Some t \<notin> set ?ts" using False kernel_invD(7) [OF inv lp, of t] by (auto simp: member_ok_def)
    moreover have "count (mset (waiters_of (k_proc k p))) t = 0"
      using False kernel_invD(5) [OF inv p(1), of t] by (auto simp: count_eq_zero_iff)
    ultimately show ?thesis using False c c0 by (simp add: count_fold_remove1)
  qed
qed

lemma reaped_safe:
  assumes "kernel_inv k \<Longrightarrow> live_process k p" "sc_current k = None"
  shows "safe_step k (reaped p left k)" (is "safe_step k ?k'")
proof -
  have e: "sc_current ?k' = None" "k_next_proc ?k' = k_next_proc k" "k_next_task ?k' = k_next_task k" "sc_tcb ?k' = sc_tcb k"
    "waiters_of (k_proc ?k' q) = (if q = p then [] else waiters_of (k_proc k q))"
    "pc_is_zombie (k_proc ?k' q) \<longleftrightarrow> q = p \<or> pc_is_zombie (k_proc k q)"
    "q \<noteq> p \<Longrightarrow> pc_tasks (k_proc ?k' q) = pc_tasks (k_proc k q)"
    "pc_tid_allocator (k_proc ?k' q) = pc_tid_allocator (k_proc k q)" for q
    using assms(2) by (simp_all add: reaped_def Let_def upd_proc_def waiters_of_def)
  have live: "live_process ?k' q \<longleftrightarrow> q \<noteq> p \<and> live_process k q" for q by (auto simp: live_process_def e)
  have "kernel_inv ?k'" if inv: "kernel_inv k"
  proof -
    have lp: "live_process k p" by (rule assms(1) [OF inv])
    then have pl: "count (places ?k') t = (if tcb_process (sc_tcb k t) = p then 0 else count (places k) t)" for t
      using assms(2) by (intro reaped_places [OF inv]) (simp_all add: live_process_def)
    have in_pl: "t \<in># places ?k' \<longleftrightarrow> tcb_process (sc_tcb k t) \<noteq> p \<and> t \<in># places k" for t
      by (simp add: count_greater_zero_iff [symmetric] pl del: count_greater_zero_iff)
    have ready: "t \<in> set (sc_ready_queue k)" if "t \<in> set (sc_ready_queue ?k')" for t
    proof -
      have "set (fold remove1 ts xs) \<subseteq> set xs" for ts xs :: "nat list"
        by (induction ts arbitrary: xs) (simp, metis fold_simps(2) set_remove1_subset subset_trans)
      then show ?thesis using that by (auto simp: reaped_def Let_def upd_proc_def)
    qed
    have "mset (map tv_task (tm_timers ?k')) \<subseteq># mset (map tv_task (tm_timers k))"
      by (simp add: reaped_def Let_def upd_proc_def multiset_filter_subset image_mset_subseteq_mono mset_filter)
    moreover have "waiting ?k' \<subseteq># waiting k"
      using lp waiting_split [of p k] by (simp add: reaped_waiting live_process_def)
    ultimately have blk: "blocked ?k' \<subseteq># blocked k" unfolding blocked_def by (rule subset_mset.add_mono)
    show ?thesis unfolding kernel_inv_def
    proof (intro conjI allI impI ballI)
      show "placed_ok ?k' u" if "u \<in># places ?k'" for u
        using that kernel_invD(1) [OF inv, of u] by (auto simp: placed_ok_def in_pl pl e live)
      show "status ?k' u = Ready" if "u \<in> set (sc_ready_queue ?k')" for u
        using kernel_invD(2) [OF inv ready [OF that]] by (simp add: e)
      show "status ?k' u = Blocked" if "u \<in># blocked ?k'" for u
        using kernel_invD(3) [OF inv mset_subset_eqD [OF blk that]] by (simp add: e)
      show "tcb_process (sc_tcb ?k' u) = q" if "q < k_next_proc ?k'" "u \<in> set (waiters_of (k_proc ?k' q))" for q u
        using that kernel_invD(5) [OF inv, of q u] by (auto simp: e split: if_splits)
      show "tids_ok ?k' q" if "live_process ?k' q" for q
        using that kernel_invD(6) [OF inv, of q] by (simp add: tids_ok_def e live)
      show "member_ok ?k' q u" if "live_process ?k' q" "Some u \<in> set (pc_tasks (k_proc ?k' q))" for q u
        using that kernel_invD(7) [OF inv, of q u] by (auto simp: member_ok_def e live in_pl)
    qed (simp add: e)
  qed
  then show ?thesis by (intro safe_stepI) (simp_all add: e)
qed

lemma remove_from_pid2process_view: "remove_from_pid2process pid k = Inr k' \<Longrightarrow> sview k' = sview k"
  by (auto simp: remove_from_pid2process_def split: prod.splits option.splits)

lemma terminate_process_view:
  assumes "terminate_process p tid exit_code k = Inr k'"
  obtains left where "sview k' = sview (reaped p left k)"
proof -
  define z where "z = (\<lambda>pcb :: ProcessControlBlock. pcb\<lparr>pc_is_zombie := True, pc_exit_code := exit_code\<rparr>)"
  obtain k1 where k1: "remove_from_pid2process (pc_pid (k_proc k p)) k = Inr k1"
    using assms by (auto simp: terminate_process_def)
  obtain k3 where k3: "reparent p (pc_children (k_proc (upd_proc p z k1) p)) (upd_proc p z k1) = Inr k3"
    using assms k1 by (auto simp: terminate_process_def Let_def z_def)
  obtain rs k4 where k4: "take_resources (pc_tasks (k_proc k3 p)) k3 = (rs, k4)" by fastforce
  obtain k5 a s c where k5: "drop_resources rs k4 = Inr k5"
    and d: "drop_tasks (filter (\<lambda>t. t \<noteq> c \<and> t \<notin> Some ` set (waiters_of (k_proc k5 p))) (pc_tasks (k_proc k5 p)))
      (upd_proc p (\<lambda>pcb. pcb\<lparr>pc_tasks := [c]\<rparr>) (upd_proc p (\<lambda>pcb. pcb\<lparr>pc_children := [], pc_address_space := a,
        pc_fd_table := [], pc_mutex_list := [], pc_semaphore_list := [], pc_condvar_list := []\<rparr>) (k5\<lparr>k_phys := s\<rparr>))) = Inr k'"
    using assms k1 k3 k4 by (auto simp: terminate_process_def Let_def z_def upd_proc_def)
  have v3: "sview k3 = sview (upd_proc p z k)"
    using sview_reparent [OF k3] remove_from_pid2process_view [OF k1] by (simp add: sview_def upd_proc_def z_def fun_eq_iff)
  then have ts: "pc_tasks (k_proc k3 p) = pc_tasks (k_proc k p)" using sview_cong(6) [OF v3, of p] by (simp add: upd_proc_def z_def)
  have "sview k5 = sview (k3\<lparr>sc_ready_queue := fold remove1 (List.map_filter (\<lambda>x. x) (pc_tasks (k_proc k p))) (sc_ready_queue k3),
      tm_timers := filter (\<lambda>timer. Some (tv_task timer) \<notin> set (pc_tasks (k_proc k p))) (tm_timers k3)\<rparr>)"
    using sview_drop_resources [OF k5] take_resources_view [OF k4] by (simp add: ts)
  then have "sview k5 = sview ((upd_proc p z k)\<lparr>sc_ready_queue := fold remove1 (List.map_filter (\<lambda>x. x) (pc_tasks (k_proc k p))) (sc_ready_queue k),
      tm_timers := filter (\<lambda>timer. Some (tv_task timer) \<notin> set (pc_tasks (k_proc k p))) (tm_timers k)\<rparr>)"
    using v3 by (simp add: sview_def upd_proc_def fun_eq_iff)
  then have "sview k' = sview (reaped p [c] k)"
    unfolding sview_drop_tasks [OF d] reaped_def Let_def
    by (simp add: sview_def upd_proc_def z_def fun_eq_iff) (simp add: waiters_of_def)
  then show ?thesis by (rule that)
qed

lemma exit_current_safe:
  assumes "exit_current exit_code k = Inr k'"
  shows "safe_step k k'"
proof -
  define ex where "ex = (\<lambda>tcb :: TaskControlBlock. tcb\<lparr>tcb_exit_code := Some exit_code\<rparr>)"
  define clear where "clear = (\<lambda>tcb :: TaskControlBlock. tcb\<lparr>tcb_user_resource := None\<rparr>)"
  obtain t where t: "sc_current k = Some t"
    using assms by (auto simp: exit_current_def take_current_task_def)
  define p where "p = tcb_process (sc_tcb (k\<lparr>sc_current := None\<rparr>) t)"
  have p: "p = tcb_process (sc_tcb k t)" by (simp add: p_def)
  obtain tid :: usize and k2 where
    k2: "(case tcb_user_resource (sc_tcb (upd_tcb t ex (k\<lparr>sc_current := None\<rparr>)) t) of
        None \<Rightarrow> Inr (upd_tcb t ex (k\<lparr>sc_current := None\<rparr>))
      | Some ur \<Rightarrow> dealloc_user_resource ur (upd_tcb t ex (k\<lparr>sc_current := None\<rparr>))) = Inr k2"
    and k': "(if tid = 0 \<or> sg_killed (k_proc (upd_tcb t clear k2) p)
        then terminate_process p (unat tid) exit_code (upd_tcb t clear k2) else Inr (upd_tcb t clear k2)) = Inr k'"
    using assms [unfolded exit_current_def take_current_task_def Let_def t, folded ex_def clear_def p_def]
    by (simp only: prod.case unwrap_simps rbind_simps rbind_Inr_iff p_def [symmetric]) (elim exE conjE, rule that)
  define k3 where "k3 = upd_tcb t clear k2"
  have v: "sview k3 = sview (upd_tcb t ex (k\<lparr>sc_current := None\<rparr>))"
    using k2 by (auto simp: k3_def clear_def sview_upd_tcb dest: sview_user_resource split: option.split_asm)
  have s3: "safe_step k k3"
    using safe_step_trans [OF leave_safe [OF t, of exit_code] safe_step_view [OF v [unfolded ex_def]]] .
  have live: "live_process k3 p" if "kernel_inv k"
  proof -
    have "live_process k3 = live_process k"
      using v by (simp add: sview_def fun_eq_iff live_process_def) (simp add: upd_tcb_def)
    then show ?thesis using current_live(1) [OF that t] by (simp add: p)
  qed
  show ?thesis
  proof (cases "tid = 0 \<or> sg_killed (k_proc k3 p)")
    case True
    then have "terminate_process p (unat tid) exit_code k3 = Inr k'" using k' by (simp add: k3_def)
    then obtain left where l: "sview k' = sview (reaped p left k3)"
      by (rule terminate_process_view)
    show ?thesis
    proof (rule safe_step_inv)
      assume inv: "kernel_inv k"
      have "sc_current k3 = None" using v by (simp add: sview_def upd_tcb_def)
      then have "safe_step k3 (reaped p left k3)"
        using live [OF inv] by (intro reaped_safe) simp_all
      then show "safe_step k k'" using s3 safe_step_trans safe_step_view [OF l] by blast
    next
      show "k_next_task k' = k_next_task k"
        using l v by (simp add: sview_def reaped_def Let_def upd_proc_def upd_tcb_def)
    qed
  next
    case False
    then show ?thesis using k' s3 by (simp add: k3_def)
  qed
qed

section \<open>Signals\<close>

lemma more_view:
  fixes p q :: ProcessControlBlock
  assumes "sig_state.more p = sig_state.more q"
  shows "waiters_of p = waiters_of q" "pc_is_zombie p = pc_is_zombie q" "pc_tasks p = pc_tasks q"
    "pc_tid_allocator p = pc_tid_allocator q"
  using assms by (cases p; cases q; simp add: waiters_of_def)+

lemma check_pending_loop_more:
  "check_pending_loop cx ns (p, b, m) = Inr (p', b', m') \<Longrightarrow> sig_state.more p' = sig_state.more p"
proof (induction ns arbitrary: p)
  case (Cons n ns)
  have k: "sig_state.more (call_kernel_signal_handler f p) = sig_state.more p" for f
    by (simp add: call_kernel_signal_handler_def)
  from Cons.prems obtain yes where y: "deliverable n p = Inr yes"
    and r: "(if yes then if kernel_signal (sig_flag n)
        then check_pending_loop cx ns (call_kernel_signal_handler (sig_flag n) p, b, m)
        else call_user_signal_handler cx n (sig_flag n) (p, b, m)
      else check_pending_loop cx ns (p, b, m)) = Inr (p', b', m')"
    by auto
  show ?case
  proof (cases "yes \<and> \<not> kernel_signal (sig_flag n)")
    case True
    then show ?thesis using r by (auto simp: call_user_signal_handler_def Let_def split: if_splits)
  next
    case False
    then show ?thesis using r Cons.IH k by (auto split: if_splits)
  qed
qed simp

lemma put_delivery_view:
  assumes "sig_state.more pcb = sig_state.more (k_proc k (tcb_process (sc_tcb k t)))"
  shows "sview (put_delivery t (pcb, b, m) k) = sview k"
proof -
  let ?k1 = "upd_tcb t (\<lambda>tcb. tcb\<lparr>tcb_trap_cx_backup := b\<rparr>) (k\<lparr>k_phys := (k_phys k)\<lparr>pm_mem := m\<rparr>\<rparr>)"
  have "k_proc ?k1 = k_proc k" by (simp add: upd_tcb_def)
  then have "sview (upd_proc (tcb_process (sc_tcb k t)) (\<lambda>_. pcb) ?k1) = sview ?k1"
    using more_view [OF assms] by (intro sview_upd_proc) simp_all
  then show ?thesis by (simp add: put_delivery_def sview_upd_tcb)
qed

section \<open>System calls\<close>

lemma sview_hold [simp]:
  "sview (hold_process t p k) = sview k" "sview (hold_file t f k) = sview k" "sview (release_held t k) = sview k"
  "sview (put_ring r rb k) = sview k"
  by (simp_all add: hold_process_def hold_file_def release_held_def put_ring_def)

lemma safe_view_trans: "safe_step k k1 \<Longrightarrow> sview k' = sview k1 \<Longrightarrow> safe_step k k'"
  using safe_step_trans safe_step_view by blast

lemma view_safe_trans: "sview k1 = sview k \<Longrightarrow> safe_step k1 k' \<Longrightarrow> safe_step k k'"
  using safe_step_trans safe_step_view by blast

lemma signal_calls_safe:
  "sys_kill pid signum k = Inr (e, k') \<Longrightarrow> safe_step k k'"
  "sys_sigaction n action old_action k = Inr (e, k') \<Longrightarrow> safe_step k k'"
  "sys_sigprocmask new_mask k = Inr (e, k') \<Longrightarrow> safe_step k k'"
  "sys_sigreturn k = Inr (e, k') \<Longrightarrow> safe_step k k'"
proof -
  have k: "sig_state.more (snd (kill_process signum p)) = sig_state.more p" for p :: ProcessControlBlock
    by (simp add: kill_process_def Let_def)
  show "sys_kill pid signum k = Inr (e, k') \<Longrightarrow> safe_step k k'"
    by (rule safe_step_view)
      (auto simp: sys_kill_def ret_def sview_upd_proc more_view [OF k] split: if_splits option.splits prod.splits,
        metis k more_view snd_conv sview_upd_proc)
  show "safe_step k k'" if r: "sys_sigaction n action old_action k = Inr (e, k')"
  proof -
    obtain t ret pcb m where t: "sigaction_process (translated_refmut (task_satp t k)) n action old_action
        (k_proc k (tcb_process (sc_tcb k t))) (pm_mem (k_phys k)) = Inr (ret, pcb, m)"
      "k' = upd_proc (tcb_process (sc_tcb k t)) (\<lambda>_. pcb) (k\<lparr>k_phys := (k_phys k)\<lparr>pm_mem := m\<rparr>\<rparr>)"
      using r by (auto simp: sys_sigaction_def Let_def ret_def)
    have "sig_state.more pcb = sig_state.more (k_proc k (tcb_process (sc_tcb k t)))"
      using t(1) by (auto simp: sigaction_process_def Let_def split: if_splits)
    from more_view [OF this] show ?thesis unfolding t(2) by (intro safe_step_view) (simp add: sview_upd_proc)
  qed
  show "sys_sigprocmask new_mask k = Inr (e, k') \<Longrightarrow> safe_step k k'"
    by (rule safe_step_view) (auto simp: sys_sigprocmask_def sigprocmask_process_def ret_def sview_upd_proc)
  show "sys_sigreturn k = Inr (e, k') \<Longrightarrow> safe_step k k'"
    by (rule safe_step_view)
      (auto simp: sys_sigreturn_def sigreturn_process_def get_delivery_def ret_def Let_def put_delivery_view)
qed

lemma process_calls_safe:
  "sys_exit c k = Inr (e, k') \<Longrightarrow> safe_step k k'" "sys_yield k = Inr (e, k') \<Longrightarrow> safe_step k k'"
  "sys_get_time mtime k = Inr (e, k') \<Longrightarrow> safe_step k k'" "sys_getpid k = Inr (e, k') \<Longrightarrow> safe_step k k'"
  "sys_gettid k = Inr (e, k') \<Longrightarrow> safe_step k k'" "sys_sleep_call mtime ms k = Inr (e, k') \<Longrightarrow> safe_step k k'"
  by (auto simp: sys_exit_def sys_yield_def sys_get_time_def sys_getpid_def sys_gettid_def sys_sleep_call_def ret_def
      intro: exit_current_safe suspend_current_safe sys_sleep_safe)

lemma sys_fork_safe:
  assumes "sys_fork mc k = Inr (e, k')"
  shows "safe_step k k'"
proof -
  obtain p child k1 t where "fork mc p k = Inr (child, k1)" "write_trap_cx_word t 10 0 k1 = Inr k'"
    using assms by (auto simp: sys_fork_def ret_def)
  then show ?thesis using fork_safe sview_trap_cx(2) safe_view_trans by blast
qed

lemma sview_ProcessControlBlock_drop: "ProcessControlBlock_drop p k = Inr k' \<Longrightarrow> sview k' = sview k"
  by (auto simp: ProcessControlBlock_drop_def PidHandle_drop_def dest!: sview_drop_tasks)

lemma sys_waitpid_safe:
  assumes "sys_waitpid pid ptr k = Inr (e, k')"
  shows "safe_step k k'"
proof (rule safe_step_view)
  show "sview k' = sview k"
    using assms
    by (auto simp: sys_waitpid_def ret_def Let_def sview_upd_proc dest!: sview_ProcessControlBlock_drop
        split: if_splits option.splits)
qed

lemma alloc_fd_view:
  assumes "alloc_fd pcb = (fd, pcb')"
  shows "waiters_of (pcb'\<lparr>pc_fd_table := fds\<rparr>) = waiters_of pcb" "pc_is_zombie pcb' = pc_is_zombie pcb"
    "pc_tasks pcb' = pc_tasks pcb" "pc_tid_allocator pcb' = pc_tid_allocator pcb" "waiters_of pcb' = waiters_of pcb"
  using assms by (auto simp: alloc_fd_def split: option.splits)

lemma fd_calls_safe:
  "sys_dup fd k = Inr (e, k') \<Longrightarrow> safe_step k k'" "sys_close fd k = Inr (e, k') \<Longrightarrow> safe_step k k'"
  by (rule safe_step_view, auto simp: sys_dup_def sys_close_def ret_def Let_def sview_upd_proc alloc_fd_view
      split: if_splits prod.split_asm)+

text \<open>A new object without waiters.\<close>

lemma concat_put_slot:
  assumes "put_slot x xs = (i, l)" "g None = []" "g (Some x) = []"
  shows "concat (map g l) = concat (map g xs)"
proof (cases "find_index (\<lambda>m. m = None) xs")
  case None
  then show ?thesis using assms by (auto simp: put_slot_def)
next
  case (Some j)
  then have "l = xs[j := Some x]" "j < length xs" "xs ! j = None"
    using assms(1) find_index_Some [of "\<lambda>m. m = None" xs j] by (auto simp: put_slot_def)
  then show ?thesis using map_update_same [of j xs g "Some x"] assms(2,3) by simp
qed

lemma create_calls_safe:
  "sys_mutex_create blocking k = Inr (e, k') \<Longrightarrow> safe_step k k'"
  "sys_semaphore_create n k = Inr (e, k') \<Longrightarrow> safe_step k k'"
  "sys_condvar_create k = Inr (e, k') \<Longrightarrow> safe_step k k'"
proof -
  show "safe_step k k'" if r: "sys_mutex_create blocking k = Inr (e, k')"
  proof -
    define m where "m = (if blocking then MutexBlocking MutexBlocking_new else MutexSpin MutexSpin_new)"
    obtain p where "k' = upd_proc p (\<lambda>pcb. pcb\<lparr>pc_mutex_list := snd (put_slot m (pc_mutex_list (k_proc k p)))\<rparr>) k"
      using r by (auto simp: sys_mutex_create_def ret_def split_beta m_def [symmetric])
    then obtain i l where l: "put_slot m (pc_mutex_list (k_proc k p)) = (i, l)"
      "k' = upd_proc p (\<lambda>pcb. pcb\<lparr>pc_mutex_list := l\<rparr>) k"
      by (metis prod.collapse)
    have "concat (map (case_option [] Mutex_waiters) l) = concat (map (case_option [] Mutex_waiters) (pc_mutex_list (k_proc k p)))"
      by (rule concat_put_slot [OF l(1)]) (simp_all add: m_def MutexBlocking_new_def)
    then show ?thesis unfolding l(2) by (intro safe_step_view sview_upd_proc) (simp_all add: waiters_of_def)
  qed
  show "safe_step k k'" if r: "sys_semaphore_create n k = Inr (e, k')"
  proof -
    obtain p where "k' = upd_proc p (\<lambda>pcb. pcb\<lparr>pc_semaphore_list := snd (put_slot (Semaphore_new n) (pc_semaphore_list (k_proc k p)))\<rparr>) k"
      using r by (auto simp: sys_semaphore_create_def ret_def split_beta)
    then obtain i l where l: "put_slot (Semaphore_new n) (pc_semaphore_list (k_proc k p)) = (i, l)"
      "k' = upd_proc p (\<lambda>pcb. pcb\<lparr>pc_semaphore_list := l\<rparr>) k"
      by (metis prod.collapse)
    have "concat (map (case_option [] sem_waiter_queue) l) = concat (map (case_option [] sem_waiter_queue) (pc_semaphore_list (k_proc k p)))"
      by (rule concat_put_slot [OF l(1)]) (simp_all add: Semaphore_new_def)
    then show ?thesis unfolding l(2) by (intro safe_step_view sview_upd_proc) (simp_all add: waiters_of_def)
  qed
  show "safe_step k k'" if r: "sys_condvar_create k = Inr (e, k')"
  proof -
    obtain p where "k' = upd_proc p (\<lambda>pcb. pcb\<lparr>pc_condvar_list := snd (put_slot Condvar_new (pc_condvar_list (k_proc k p)))\<rparr>) k"
      using r by (auto simp: sys_condvar_create_def ret_def split_beta)
    then obtain i l where l: "put_slot Condvar_new (pc_condvar_list (k_proc k p)) = (i, l)"
      "k' = upd_proc p (\<lambda>pcb. pcb\<lparr>pc_condvar_list := l\<rparr>) k"
      by (metis prod.collapse)
    have "concat (map (case_option [] (\<lambda>queue. queue)) l) = concat (map (case_option [] (\<lambda>queue. queue)) (pc_condvar_list (k_proc k p)))"
      by (rule concat_put_slot [OF l(1)]) (simp_all add: Condvar_new_def)
    then show ?thesis unfolding l(2) by (intro safe_step_view sview_upd_proc) (simp_all add: waiters_of_def)
  qed
qed

lemma mutex_lock_call_safe:
  assumes "mutex_lock_call i k = Inr (e, k')"
  shows "safe_step k k'"
proof -
  obtain p m e1 m' k1 where l: "current_process k = Inr p" "get_slot i (pc_mutex_list (k_proc k p)) = Inr m"
    "Mutex_lock m k = Inr (e1, m', k1)"
    "(case e1 of Acquired \<Rightarrow> ret 0 (put_mutex p i m' k1) | Retry \<Rightarrow> Inr (Leaves (CLock i), put_mutex p i m' k1)
      | Waits \<Rightarrow> Inr (Leaves (CRet 0), put_mutex p i m' k1)) = Inr (e, k')"
    using assms unfolding mutex_lock_call_def Let_def
    by (simp only: rbind_Inr_iff split_paired_Ex prod.case) (elim exE conjE, rule that)
  have "k' = put_mutex p i m' k1" using l(4) by (cases e1) (auto simp: ret_def)
  then show ?thesis using l(1-3) by (auto simp: current_process_Inr intro: mutex_lock_safe)
qed

lemma sync_calls_safe:
  "sys_mutex_lock i k = Inr (e, k') \<Longrightarrow> safe_step k k'" "sys_mutex_unlock i k = Inr (e, k') \<Longrightarrow> safe_step k k'"
  "sys_semaphore_up i k = Inr (e, k') \<Longrightarrow> safe_step k k'" "sys_condvar_signal i k = Inr (e, k') \<Longrightarrow> safe_step k k'"
  by (auto simp: sys_mutex_lock_def sys_mutex_unlock_def sys_semaphore_up_def sys_condvar_signal_def current_process_Inr ret_def
      split_beta intro: mutex_lock_call_safe mutex_unlock_safe semaphore_up_safe [OF _ refl _ _ prod.collapse [symmetric]]
        condvar_signal_safe [OF _ refl _ _ prod.collapse [symmetric]])

lemma blocking_calls_safe:
  "sys_semaphore_down i k = Inr (e, k') \<Longrightarrow> safe_step k k'"
  "sys_condvar_wait i j k = Inr (e, k') \<Longrightarrow> safe_step k k'"
proof -
  show "safe_step k k'" if r: "sys_semaphore_down i k = Inr (e, k')"
  proof -
    obtain t s e1 s' k1 where t: "sc_current k = Some t" "unat i < length (pc_semaphore_list (k_proc k (tcb_process (sc_tcb k t))))"
      "pc_semaphore_list (k_proc k (tcb_process (sc_tcb k t))) ! unat i = Some s" "Semaphore_down s k = Inr (e1, s', k1)"
      "sview k' = sview (put_semaphore (tcb_process (sc_tcb k t)) (unat i) s' k1)"
      using r by (auto simp: sys_semaphore_down_def Let_def ret_def split: if_splits)
    show ?thesis by (rule safe_view_trans [OF semaphore_down_safe [OF t(1) refl t(2,3,4)] t(5)])
  qed
  show "safe_step k k'" if r: "sys_condvar_wait i j k = Inr (e, k')"
  proof -
    obtain t c m c' m' k1 where t: "sc_current k = Some t"
      "unat i < length (pc_condvar_list (k_proc k (tcb_process (sc_tcb k t))))"
      "pc_condvar_list (k_proc k (tcb_process (sc_tcb k t))) ! unat i = Some c"
      "unat j < length (pc_mutex_list (k_proc k (tcb_process (sc_tcb k t))))"
      "pc_mutex_list (k_proc k (tcb_process (sc_tcb k t))) ! unat j = Some m" "Condvar_wait c m k = Inr (c', m', k1)"
      "sview k' = sview (put_mutex (tcb_process (sc_tcb k t)) (unat j) m' (put_condvar (tcb_process (sc_tcb k t)) (unat i) c' k1))"
      using r by (auto simp: sys_condvar_wait_def Let_def)
    show ?thesis by (rule safe_view_trans [OF condvar_wait_safe [OF t(1) refl t(2-6)] t(7)])
  qed
qed

text \<open>A thread that has ended and is waited for gives up its slot and its id.\<close>

lemma forget_thread_safe:
  assumes "tcb_exit_code (sc_tcb k u) \<noteq> None" "unat tid < length (pc_tasks (k_proc k p))"
    "pc_tasks (k_proc k p) ! unat tid = Some u" "ra_dealloc tid (pc_tid_allocator (k_proc k p)) = Inr al"
  shows "safe_step k (upd_proc p (\<lambda>pcb. pcb\<lparr>pc_tid_allocator := al\<rparr>)
    (upd_proc p (\<lambda>pcb. pcb\<lparr>pc_tasks := (pc_tasks (k_proc k p))[unat tid := None]\<rparr>) k))" (is "safe_step k ?k'")
proof -
  let ?ts = "pc_tasks (k_proc k p)"
  have e: "sc_ready_queue ?k' = sc_ready_queue k" "sc_current ?k' = sc_current k" "tm_timers ?k' = tm_timers k"
    "sc_tcb ?k' = sc_tcb k" "k_next_proc ?k' = k_next_proc k" "k_next_task ?k' = k_next_task k"
    "waiters_of (k_proc ?k' q) = waiters_of (k_proc k q)" "pc_is_zombie (k_proc ?k' q) = pc_is_zombie (k_proc k q)"
    "pc_tasks (k_proc ?k' q) = (if q = p then ?ts[unat tid := None] else pc_tasks (k_proc k q))"
    "pc_tid_allocator (k_proc ?k' q) = (if q = p then al else pc_tid_allocator (k_proc k q))" for q
    by (simp_all add: upd_proc_def)
  have b: "blocked ?k' = blocked k" by (rule blocked_cong) (simp_all add: e)
  have pl: "places ?k' = places k" by (simp add: places_def b e)
  have live: "live_process ?k' = live_process k" by (simp add: live_process_def e fun_eq_iff)
  have left: "Some v \<in> set (?ts[unat tid := None])" if "Some v \<in> set ?ts" "v \<noteq> u" for v
  proof -
    obtain j where "j < length ?ts" "?ts ! j = Some v" using \<open>Some v \<in> set ?ts\<close> by (auto simp: in_set_conv_nth)
    moreover have "j \<noteq> unat tid" using calculation(2) assms(3) that(2) by auto
    ultimately show ?thesis by (metis length_list_update nth_list_update_neq nth_mem)
  qed
  have "kernel_inv ?k'" if inv: "kernel_inv k"
    unfolding kernel_inv_def
  proof (intro conjI allI impI ballI)
    show "placed_ok ?k' v" if "v \<in># places ?k'" for v
    proof -
      have "placed_ok k v" using that kernel_invD(1) [OF inv, of v] by (simp add: pl)
      moreover from this have "v \<noteq> u" using assms(1) by (auto simp: placed_ok_def)
      ultimately show ?thesis using left [of v] by (auto simp: placed_ok_def pl e live)
    qed
    show "tids_ok ?k' q" if "live_process ?k' q" for q
    proof (cases "q = p")
      case True
      have t: "tids_ok k p" using that True kernel_invD(6) [OF inv, of p] by (simp add: live)
      then have al: "al = (pc_tid_allocator (k_proc k p))\<lparr>ra_recycled := ra_recycled (pc_tid_allocator (k_proc k p)) @ [tid]\<rparr>"
        "tid \<in> ra_live (pc_tid_allocator (k_proc k p))"
        using assms(4) by (auto simp: tids_ok_def ra_dealloc_eq Let_def split: if_splits)
      have inv_al: "ra_inv al" using t al by (auto simp: tids_ok_def Let_def ra_inv_def ra_live_def)
      have cur: "ra_current al = ra_current (pc_tid_allocator (k_proc k p))" by (simp add: al(1))
      have slot: "i < 2 ^ 64 \<and> of_nat i \<in> ra_live al" if i: "i < length ?ts" "?ts[unat tid := None] ! i \<noteq> None" for i
      proof -
        have ne: "i \<noteq> unat tid" "?ts ! i \<noteq> None" using i assms(2) by (cases "i = unat tid"; simp)+
        then have "i < 2 ^ 64" "of_nat i \<in> ra_live (pc_tid_allocator (k_proc k p))"
          using t i(1) by (auto simp: tids_ok_def Let_def)
        moreover from this(1) ne(1) have "of_nat i \<noteq> tid" using unat_of_nat_64 [of i] by auto
        ultimately show ?thesis by (auto simp: al(1) ra_live_def)
      qed
      show ?thesis using t True inv_al cur slot by (simp add: tids_ok_def Let_def e)
    next
      case False
      then show ?thesis using that kernel_invD(6) [OF inv, of q] by (simp add: tids_ok_def e live)
    qed
    show "member_ok ?k' q v" if "live_process ?k' q" "Some v \<in> set (pc_tasks (k_proc ?k' q))" for q v
    proof -
      have "Some v \<in> set (pc_tasks (k_proc k q))"
        using that(2) set_update_subset_insert [of ?ts "unat tid" None] by (auto simp: e split: if_splits)
      then show ?thesis using that(1) kernel_invD(7) [OF inv, of q v] by (simp add: member_ok_def e live pl)
    qed
  qed (use kernel_invD(2,3,4,5) [OF inv] in \<open>simp_all add: e b\<close>)
  then show ?thesis by (intro safe_stepI) (simp_all add: e)
qed

lemma sys_waittid_safe:
  assumes "sys_waittid tid k = Inr (e, k')"
  shows "safe_step k k'"
proof (cases "k' = k")
  case False
  obtain t where t: "sc_current k = Some t" using assms by (auto simp: sys_waittid_def)
  define p where "p = tcb_process (sc_tcb k t)"
  define kt where "kt = upd_proc p (\<lambda>pcb. pcb\<lparr>pc_tasks := (pc_tasks (k_proc k p))[unat tid := None]\<rparr>) k"
  obtain u c k1 pcb where u: "unat tid < length (pc_tasks (k_proc k p))" "pc_tasks (k_proc k p) ! unat tid = Some u"
    "tcb_exit_code (sc_tcb k u) = Some c" "TaskControlBlock_drop u kt = Inr k1" "dealloc_tid tid (k_proc k1 p) = Inr pcb"
    "k' = upd_proc p (\<lambda>_. pcb) k1"
    using assms False t
    by (auto simp: sys_waittid_def Let_def ret_def p_def [symmetric] kt_def [symmetric] index_def
        split: if_splits option.splits)
  note v = sview_TaskControlBlock_drop [OF u(4)]
  have "pc_tid_allocator (k_proc k1 p) = pc_tid_allocator (k_proc kt p)" using v by (simp add: sview_def fun_eq_iff)
  also have "\<dots> = pc_tid_allocator (k_proc k p)" by (simp add: kt_def upd_proc_def)
  finally obtain al where al: "ra_dealloc tid (pc_tid_allocator (k_proc k p)) = Inr al"
    "pcb = (k_proc k1 p)\<lparr>pc_tid_allocator := al\<rparr>"
    using u(5) by (auto simp: dealloc_tid_def)
  have "sview k' = sview (upd_proc p (\<lambda>pcb. pcb\<lparr>pc_tid_allocator := al\<rparr>) k1)" by (simp add: u(6) al(2) upd_proc_def)
  also have "\<dots> = sview (upd_proc p (\<lambda>pcb. pcb\<lparr>pc_tid_allocator := al\<rparr>) kt)" by (rule sview_cong(3) [OF v])
  finally show ?thesis
    using forget_thread_safe [OF _ u(1,2) al(1)] u(3) safe_view_trans unfolding kt_def by blast
qed simp

subsection \<open>Files and programs\<close>

lemma pipe_calls_safe:
  "pipe_read_call n f pipe len already it k = Inr (e, k') \<Longrightarrow> safe_step k k'"
  "pipe_write_call n f pipe len already it k = Inr (e, k') \<Longrightarrow> safe_step k k'"
proof -
  show "safe_step k k'" if "pipe_read_call n f pipe len already it k = Inr (e, k')"
    using that
  proof (induction n arbitrary: already it k)
    case (Suc n)
    obtain r al rb it' m where p: "pipe_read_pass (file_alive k) len already (k_ring k (pipe_buffer pipe)) it (pm_mem (k_phys k))
        = Inr (r, al, rb, it', m)"
      using Suc.prems by fastforce
    let ?k1 = "put_ring (pipe_buffer pipe) rb (k\<lparr>k_phys := (k_phys k)\<lparr>pm_mem := m\<rparr>\<rparr>)"
    have v: "sview ?k1 = sview k" by simp
    show ?case
    proof (cases r)
      case (Return x)
      then show ?thesis using Suc.prems p v by (auto simp: Let_def ret_def intro: safe_step_view)
    next
      case Suspend
      then have "suspend_current ?k1 = Inr k'" using Suc.prems p by (auto simp: Let_def)
      then show ?thesis by (rule view_safe_trans [OF v suspend_current_safe])
    next
      case Again
      then show ?thesis using Suc.prems p Suc.IH by (auto simp: Let_def intro!: view_safe_trans [OF v])
    qed
  qed simp
  show "safe_step k k'" if "pipe_write_call n f pipe len already it k = Inr (e, k')"
    using that
  proof (induction n arbitrary: already it k)
    case (Suc n)
    obtain r al rb it' where p: "pipe_write_pass len already (k_ring k (pipe_buffer pipe)) it (pm_mem (k_phys k))
        = Inr (r, al, rb, it')"
      using Suc.prems by fastforce
    let ?k1 = "put_ring (pipe_buffer pipe) rb k"
    have v: "sview ?k1 = sview k" by simp
    show ?case
    proof (cases r)
      case (Return x)
      then show ?thesis using Suc.prems p v by (auto simp: Let_def ret_def intro: safe_step_view)
    next
      case Suspend
      then have "suspend_current ?k1 = Inr k'" using Suc.prems p by (auto simp: Let_def)
      then show ?thesis by (rule view_safe_trans [OF v suspend_current_safe])
    next
      case Again
      then show ?thesis using Suc.prems p Suc.IH by (auto simp: Let_def intro!: view_safe_trans [OF v])
    qed
  qed simp
qed

lemma keep_file_safe:
  assumes "keep_file t f r = Inr (e, k')" "\<And>e1 k1. r = Inr (e1, k1) \<Longrightarrow> safe_step k k1"
  shows "safe_step k k'"
proof -
  obtain k1 where "r = Inr (e, k1)" "sview k' = sview k1"
    using assms(1) by (cases e) (auto simp: keep_file_def)
  then show ?thesis using assms(2) safe_view_trans by blast
qed

lemma release_on_return_safe:
  assumes "release_on_return t r = Inr (e, k')" "\<And>e1 k1. r = Inr (e1, k1) \<Longrightarrow> safe_step k k1"
  shows "safe_step k k'"
proof -
  obtain k1 where "r = Inr (e, k1)" "sview k' = sview k1"
    using assms(1) by (cases e) (auto simp: release_on_return_def)
  then show ?thesis using assms(2) safe_view_trans by blast
qed

lemma Stdin_read_pass_safe: "Stdin_read_pass c buf k = Inr (e, k') \<Longrightarrow> safe_step k k'"
  by (auto simp: Stdin_read_pass_def ret_def split: if_splits intro: suspend_current_safe safe_step_view)

lemma Stdout_write_view: "Stdout_write bs k = Inr k' \<Longrightarrow> sview k' = sview k"
  by (induction bs k rule: Stdout_write.induct) (auto simp: Let_def)

lemma inode_calls_safe:
  "inode_read_call mc n f buf k = Inr (e, k') \<Longrightarrow> safe_step k k'"
  "inode_write_call mc n f buf k = Inr (e, k') \<Longrightarrow> safe_step k k'"
  by (auto simp: inode_read_call_def inode_write_call_def ret_def intro: safe_step_view)

lemma sys_write_safe:
  assumes "sys_write mc fd buffer len k = Inr (e, k')"
  shows "safe_step k k'"
proof -
  from assms obtain t where t: "sc_current k = Some t" by (auto simp: sys_write_def)
  let ?fds = "pc_fd_table (k_proc k (tcb_process (sc_tcb k t)))"
  show ?thesis
  proof (cases "k' = k")
    case False
    then obtain f buf where f: "?fds ! unat fd = Some f"
      "(case k_file k f of
          FStdin \<Rightarrow> Inl ExplicitPanic
        | FStdout \<Rightarrow> rbind (Stdout_write buf k) (\<lambda>k1. ret (UserBuffer_len buf) k1)
        | FPipe pipe \<Rightarrow>
            rbind (pipe_write_start pipe buf) (\<lambda>(buf_len, it). keep_file t f (pipe_write_call 2 f pipe buf_len 0 it k))
        | FInode inode \<Rightarrow> inode_write_call mc f inode buf k) = Inr (e, k')"
      using assms t by (auto simp: sys_write_def Let_def ret_def split: if_splits option.splits)
    show ?thesis
    proof (cases "k_file k f")
      case FStdout
      then show ?thesis using f(2) by (auto simp: ret_def dest: Stdout_write_view intro: safe_step_view)
    next
      case (FPipe pipe)
      then show ?thesis using f(2) pipe_calls_safe(2) by (auto elim!: keep_file_safe)
    next
      case (FInode inode)
      then show ?thesis using f(2) by (auto intro: inode_calls_safe)
    qed (use f(2) in simp)
  qed simp
qed

lemma sys_read_safe:
  assumes "sys_read mc c fd buffer len k = Inr (e, k')"
  shows "safe_step k k'"
proof -
  from assms obtain t where t: "sc_current k = Some t" by (auto simp: sys_read_def)
  let ?fds = "pc_fd_table (k_proc k (tcb_process (sc_tcb k t)))"
  show ?thesis
  proof (cases "k' = k")
    case False
    then obtain f buf where f: "?fds ! unat fd = Some f"
      "(case k_file k f of
          FStdout \<Rightarrow> Inl ExplicitPanic
        | FStdin \<Rightarrow> rbind (rassert (UserBuffer_len buf = 1)) (\<lambda>_. keep_file t f (Stdin_read_pass c buf k))
        | FPipe pipe \<Rightarrow>
            rbind (pipe_read_start pipe buf) (\<lambda>(buf_len, it). keep_file t f (pipe_read_call 2 f pipe buf_len 0 it k))
        | FInode inode \<Rightarrow> inode_read_call mc f inode buf k) = Inr (e, k')"
      using assms t by (auto simp: sys_read_def Let_def ret_def split: if_splits option.splits)
    show ?thesis
    proof (cases "k_file k f")
      case FStdin
      then show ?thesis using f(2) Stdin_read_pass_safe by (auto elim!: keep_file_safe)
    next
      case (FPipe pipe)
      then show ?thesis using f(2) pipe_calls_safe(1) by (auto elim!: keep_file_safe)
    next
      case (FInode inode)
      then show ?thesis using f(2) by (auto intro: inode_calls_safe)
    qed (use f(2) in simp)
  qed simp
qed

lemma sys_pipe_safe:
  assumes "sys_pipe pipe k = Inr (e, k')"
  shows "safe_step k k'"
proof -
  from assms obtain t where t: "sc_current k = Some t" by (auto simp: sys_pipe_def)
  let ?p = "tcb_process (sc_tcb k t)"
  obtain r w k1 where k1: "new_pipe k = (r, w, k1)" using prod_cases3 by blast
  obtain rfd p1 where p1: "alloc_fd (k_proc k1 ?p) = (rfd, p1)" by fastforce
  obtain wfd p3 where p3: "alloc_fd (p1\<lparr>pc_fd_table := (pc_fd_table p1)[rfd := Some r]\<rparr>) = (wfd, p3)" by fastforce
  have "sview k' = sview (upd_proc ?p (\<lambda>_. p3\<lparr>pc_fd_table := (pc_fd_table p3)[wfd := Some w]\<rparr>) k1)"
    using assms by (auto simp: sys_pipe_def t current_task_def Let_def k1 p1 p3 ret_def)
  moreover have "sview k1 = sview k" using k1 by (auto simp: new_pipe_def Let_def split: prod.splits)
  moreover have "sview (upd_proc ?p (\<lambda>_. p3\<lparr>pc_fd_table := (pc_fd_table p3)[wfd := Some w]\<rparr>) k1) = sview k1"
    using alloc_fd_view [OF p1] alloc_fd_view [OF p3] by (intro sview_upd_proc) simp_all
  ultimately show ?thesis by (intro safe_step_view) simp
qed

lemma sys_open_safe:
  assumes "sys_open mc path flags k = Inr (e, k')"
  shows "safe_step k k'"
proof (rule safe_step_view)
  from assms obtain t name fl r fs where t: "sc_current k = Some t" and o: "open_file (mc_BLOCK_DEVICE mc) (string_bytes name) fl (k_fs k) = Inr (r, fs)"
    and r: "(case r of
       Some inode \<Rightarrow>
         (case alloc_file (FInode inode) (k\<lparr>k_fs := fs\<rparr>) of (f, k1) \<Rightarrow>
          case alloc_fd (k_proc k1 (tcb_process (sc_tcb k t))) of (fd, pcb) \<Rightarrow>
          ret (of_nat fd) (upd_proc (tcb_process (sc_tcb k t)) (\<lambda>_. pcb\<lparr>pc_fd_table := (pc_fd_table pcb)[fd := Some f]\<rparr>) k1))
     | None \<Rightarrow> ret (- 1) (k\<lparr>k_fs := fs\<rparr>)) = Inr (e, k')"
    by (auto simp: sys_open_def Let_def)
  show "sview k' = sview k"
  proof (cases r)
    case None
    then show ?thesis using r by (auto simp: ret_def)
  next
    case (Some inode)
    obtain f k1 where k1: "alloc_file (FInode inode) (k\<lparr>k_fs := fs\<rparr>) = (f, k1)" by fastforce
    obtain fd pcb where fd: "alloc_fd (k_proc k1 (tcb_process (sc_tcb k t))) = (fd, pcb)" by fastforce
    have "k' = upd_proc (tcb_process (sc_tcb k t)) (\<lambda>_. pcb\<lparr>pc_fd_table := (pc_fd_table pcb)[fd := Some f]\<rparr>) k1"
      using r Some by (simp add: k1 fd ret_def)
    then have "sview k' = sview k1" using alloc_fd_view [OF fd] by (simp add: sview_upd_proc)
    then show ?thesis using k1 by (auto simp: alloc_file_def Let_def)
  qed
qed

lemma sys_exec_safe:
  assumes "sys_exec mc path args k = Inr (e, k')"
  shows "safe_step k k'"
proof (rule safe_step_view)
  show "sview k' = sview k"
    using assms by (auto simp: sys_exec_def Let_def ret_def dest!: sview_exec split: option.split_asm)
qed

section \<open>Traps\<close>

lemmas syscalls_safe = signal_calls_safe process_calls_safe sys_fork_safe sys_waitpid_safe fd_calls_safe create_calls_safe
  sync_calls_safe blocking_calls_safe sys_waittid_safe sys_thread_create_safe sys_write_safe sys_read_safe sys_pipe_safe
  sys_open_safe sys_exec_safe

lemma if_resultE: "(if c then a else b) = r \<Longrightarrow> (a = r \<Longrightarrow> P) \<Longrightarrow> (b = r \<Longrightarrow> P) \<Longrightarrow> P"
  by (simp split: if_splits)

lemma syscall_safe:
  assumes "syscall mc io syscall_id a0 a1 a2 k = Inr (e, k')"
  shows "safe_step k k'"
  using assms unfolding syscall_def by (elim if_resultE) (erule syscalls_safe | simp)+

lemma trap_return_same: "trap_return k = Inr (e, k') \<Longrightarrow> k' = k"
  by (auto simp: trap_return_def)

lemma finish_trap_safe:
  assumes "finish_trap k = Inr (e, k')"
  shows "safe_step k k'"
proof -
  obtain t cx again pcb b m where h: "handle_signals_pass cx (get_delivery t k) = Inr (again, pcb, b, m)"
    and r: "(if again then rbind (suspend_current (put_delivery t (pcb, b, m) k)) (\<lambda>k2. Inr (Away InSignals, k2))
      else rbind (check_signals_of_current (put_delivery t (pcb, b, m) k)) (\<lambda>r.
        case r of
          Some errno \<Rightarrow> rbind (exit_current errno (put_delivery t (pcb, b, m) k)) (\<lambda>k2. Inr (Gone, k2))
        | None \<Rightarrow> trap_return (put_delivery t (pcb, b, m) k))) = Inr (e, k')"
    using assms unfolding finish_trap_def Let_def
    by (simp only: rbind_Inr_iff split_paired_Ex prod.case) (elim exE conjE, rule that)
  let ?k1 = "put_delivery t (pcb, b, m) k"
  have "sig_state.more pcb = sig_state.more (k_proc k (tcb_process (sc_tcb k t)))"
    using h by (auto simp: handle_signals_pass_def get_delivery_def check_pending_signals_def dest: check_pending_loop_more)
  then have v: "sview ?k1 = sview k" by (rule put_delivery_view)
  have "safe_step ?k1 k'"
  proof (cases again)
    case True
    then have "suspend_current ?k1 = Inr k'" using r by auto
    then show ?thesis by (rule suspend_current_safe)
  next
    case False
    then obtain c where "(case c of
        Some errno \<Rightarrow> rbind (exit_current errno ?k1) (\<lambda>k2. Inr (Gone, k2)) | None \<Rightarrow> trap_return ?k1) = Inr (e, k')"
      using r by (auto simp del: split_paired_Ex)
    then show ?thesis by (cases c) (auto dest: trap_return_same intro: exit_current_safe)
  qed
  then show ?thesis by (rule view_safe_trans [OF v])
qed

lemma after_syscall_safe:
  assumes "after_syscall r = Inr (e, k')" "\<And>e1 k1. r = Inr (e1, k1) \<Longrightarrow> safe_step k k1"
  shows "safe_step k k'"
proof -
  obtain e1 k1 where r: "r = Inr (e1, k1)" using assms(1) by (cases r) (auto simp: after_syscall_def)
  have "safe_step k1 k'"
  proof (cases e1)
    case (Returns x)
    then obtain t k2 where "write_trap_cx_word t 10 x k1 = Inr k2" "finish_trap k2 = Inr (e, k')"
      using assms(1) r by (auto simp: after_syscall_def)
    then show ?thesis using finish_trap_safe sview_trap_cx(2) view_safe_trans by blast
  qed (use assms(1) r in \<open>auto simp: after_syscall_def\<close>)
  then show ?thesis using assms(2) [OF r] safe_step_trans by blast
qed

lemma add_signal_safe:
  assumes "rbind (current_add_signal f k) finish_trap = Inr (e, k')"
  shows "safe_step k k'"
proof -
  obtain p where f: "finish_trap (upd_proc p (\<lambda>pcb. pcb\<lparr>sg_signals := sg_signals pcb OR f\<rparr>) k) = Inr (e, k')"
    using assms by (auto simp: current_add_signal_def)
  show ?thesis by (rule view_safe_trans [OF _ finish_trap_safe [OF f]]) (simp add: sview_upd_proc)
qed

lemma trap_handler_safe:
  assumes "trap_handler mc io cause k = Inr (e, k')"
  shows "safe_step k k'"
proof (cases cause)
  case UserEnvCall
  then obtain m1 id a0 a1 a2 where "after_syscall (syscall mc io id a0 a1 a2 (k\<lparr>k_phys := (k_phys k)\<lparr>pm_mem := m1\<rparr>\<rparr>)) = Inr (e, k')"
    using assms by (auto simp: user_env_call_def Let_def)
  then show ?thesis
    by (rule after_syscall_safe) (rule view_safe_trans [OF _ syscall_safe], simp_all)
next
  case SupervisorSoft
  then have "suspend_current (check_timer (in_mtime io) k) = Inr k'" using assms by auto
  then show ?thesis using suspend_current_safe check_timer_safe safe_step_trans by blast
qed (use assms add_signal_safe in \<open>auto simp del: rbind_Inr_iff\<close>)

lemma resume_safe:
  assumes "resume c t cn k = Inr (e, k')"
  shows "safe_step k k'"
proof (cases cn)
  case (CRet r)
  then show ?thesis using assms by (auto simp: ret_def intro: safe_step_view)
next
  case (CLock i)
  then show ?thesis using assms mutex_lock_call_safe by (auto elim!: release_on_return_safe)
next
  case (CRead f n a it)
  then show ?thesis
    using assms pipe_calls_safe(1) by (cases "k_file k f") (auto elim!: release_on_return_safe)
next
  case (CWrite f n a it)
  then show ?thesis
    using assms pipe_calls_safe(2) by (cases "k_file k f") (auto elim!: release_on_return_safe)
next
  case (CStdin buf)
  then show ?thesis using assms Stdin_read_pass_safe by (auto elim!: release_on_return_safe)
qed

lemma continue_safe:
  assumes "continue io t cn k = Inr (e, k')"
  shows "safe_step k k'"
  using assms
proof (induction io t cn k rule: continue.induct)
  case (3 io t c k)
  then show ?case using resume_safe by (auto elim!: after_syscall_safe)
qed (auto dest: trap_return_same intro: finish_trap_safe)

section \<open>Runs of the kernel\<close>

lemma system_step_safe:
  assumes "system_step mc s s'"
  shows "safe_step (sy_kernel s) (sy_kernel s')"
  using assms
proof (cases rule: system_step.cases)
  case (step_trap t io cause m e k)
  have "sview (user_runs m (sy_kernel s)) = sview (sy_kernel s)" by (simp add: user_runs_def)
  from view_safe_trans [OF this trap_handler_safe [OF step_trap(3)]] show ?thesis by (simp add: step_trap(1))
next
  case (step_dispatch k1 t io e k)
  have "safe_step (sy_kernel s) k1" using step_dispatch by (intro run_tasks_iter_safe)
  from safe_step_trans [OF this continue_safe [OF step_dispatch(5)]] show ?thesis by (simp add: step_dispatch(1))
qed

lemma system_run_safe:
  assumes "(system_step mc)\<^sup>*\<^sup>* s s'"
  shows "safe_step (sy_kernel s) (sy_kernel s')"
  using assms by induction (auto intro: safe_step_trans system_step_safe)

text \<open>The invariant holds when the first process has been created.\<close>

lemma blank_kernel_inv: "blank_kernel k \<Longrightarrow> kernel_inv k"
  by (simp add: blank_kernel_def kernel_inv_def places_def blocked_def waiting_def live_process_def)

lemma list_apps_view: "list_apps mc k = Inr k' \<Longrightarrow> sview k' = sview k"
proof -
  have "sview (fold println apps k0) = sview k0" for apps k0
    by (induction apps arbitrary: k0) (simp_all add: println_def)
  then show "list_apps mc k = Inr k' \<Longrightarrow> sview k' = sview k"
    by (auto simp: list_apps_def Let_def println_def)
qed

lemma rust_main_safe:
  assumes "rust_main mc k = Inr k'"
  shows "safe_step k k'"
proof -
  obtain k1 v p k2 fs st where k1: "list_apps mc (println (str_bytes ''[kernel] Hello, world!'') k) = Inr k1"
    and k2: "ProcessControlBlock_new mc v (k1\<lparr>k_fs := fs\<lparr>rf_blocks := st\<rparr>\<rparr>) = Inr (p, k2)" "k' = k2\<lparr>k_initproc := p\<rparr>"
    using assms by (auto simp: rust_main_def add_initproc_def)
  have "sview (k1\<lparr>k_fs := fs\<lparr>rf_blocks := st\<rparr>\<rparr>) = sview k"
    using list_apps_view [OF k1] by (simp add: println_def)
  then have "safe_step k k2" by (rule view_safe_trans [OF _ ProcessControlBlock_new_safe [OF k2(1)]])
  then show ?thesis by (rule safe_view_trans) (simp add: k2(2))
qed

lemma reachable_inv:
  assumes "reachable mc s" "k_next_task (sy_kernel s) < 2 ^ 64"
  shows "kernel_inv (sy_kernel s)"
proof -
  obtain k0 where "blank_kernel k0" "safe_step k0 (sy_kernel s)"
    using assms(1) by induction (auto intro: rust_main_safe safe_step_trans system_step_safe)
  then show ?thesis using assms(2) blank_kernel_inv by (simp add: safe_step_def)
qed

end
