(* ===== verification/Kernel_Proofs.thy ===== *)
theory Kernel_Proofs
  imports Syscalls
begin

text \<open>
  What the process and system call layer guarantees: the areas of different threads do not overlap,
  descriptors are handed out and given back, a call on a pipe ends after at most two passes; and two
  places where the code does not do what it is meant to do.
\<close>

section \<open>Segments\<close>

lemma add_segment_framed_inv:
  assumes "as_inv l a s" "unat sva < 2 ^ 39" "unat eva < 2 ^ 39" "add_segment_framed sva eva perm a s = Inr (a', s')"
  obtains seg where "as_inv l a' s'" "as_segments a' = as_segments a @ [seg]"
    "set (items (ms_vpn_range seg)) = {addr_floor sva..<addr_ceil eva}"
    "\<forall>v \<in> set (items (ms_vpn_range seg)). as_lookup a (pm_mem s) v = None"
    "sr_l (ms_vpn_range seg) = addr_floor sva"
    "\<forall>v. vpn_ok v \<and> v \<notin> set (items (ms_vpn_range seg)) \<longrightarrow> as_lookup a' (pm_mem s') v = as_lookup a (pm_mem s) v"
proof -
  obtain seg where new: "MemorySegment_new sva eva Framed perm = Inr seg" and add: "add_segment seg None a s = Inr (a', s')"
    using assms(4) by (auto simp: add_segment_framed_def)
  note N = MemorySegment_new_ok [OF assms(2,3) new]
  obtain fs where fs: "as_segments a' = as_segments a @ [seg\<lparr>ms_data_frames := fs\<rparr>]"
    "bt_keys fs = items (ms_vpn_range seg)"
    "\<And>v. v \<in> set (bt_keys fs) \<Longrightarrow> as_lookup a (pm_mem s) v = None" "as_inv l a' s'"
    "pt.framed l (ms_permission seg) fs (as_page_table a, s) (as_page_table a', s')"
    by (rule add_segment_inv [OF assms(1) N(3,2,1) add]) blast
  have "as_lookup a' (pm_mem s') v = as_lookup a (pm_mem s) v" if "vpn_ok v" "v \<notin> set (items (ms_vpn_range seg))" for v
  proof -
    have "map_of fs v = None" using that(2) fs(2) by (metis map_of_eq_None_iff set_map)
    then show ?thesis using fs(5) that(1) by (simp add: pt.framed_def cong: option.case_cong)
  qed
  then have out: "\<forall>v. vpn_ok v \<and> v \<notin> set (items (ms_vpn_range seg)) \<longrightarrow> as_lookup a' (pm_mem s') v = as_lookup a (pm_mem s) v"
    by blast
  have "set (items (ms_vpn_range seg)) = {addr_floor sva..<addr_ceil eva}"
    by (intro set_eqI) (simp only: range_ok_items(3) [OF N(1)] N(5,6) atLeastLessThan_iff)
  moreover have "\<forall>v \<in> set (items (ms_vpn_range seg)). as_lookup a (pm_mem s) v = None"
    unfolding fs(2) [symmetric] using fs(3) by blast
  ultimately show thesis using N(5) out by (intro that [OF fs(4,1)]) simp_all
qed

text \<open>Mapping a page that a segment already covers panics.\<close>

lemma add_segment_framed_mapped:
  assumes "as_inv l a s" "seg \<in> set (as_segments a)" "addr_floor sva \<in> set (items (ms_vpn_range seg))"
    "addr_floor sva < addr_ceil eva" "unat sva < 2 ^ 39" "unat eva < 2 ^ 39"
  shows "\<exists>e. add_segment_framed sva eva perm a s = Inl e"
proof (cases "add_segment_framed sva eva perm a s")
  case (Inr r)
  obtain a' s' where r: "add_segment_framed sva eva perm a s = Inr (a', s')" using Inr by (cases r) auto
  obtain seg' :: MemorySegment where "set (items (ms_vpn_range seg')) = {addr_floor sva..<addr_ceil eva}"
    "\<forall>v \<in> set (items (ms_vpn_range seg')). as_lookup a (pm_mem s) v = None"
    by (rule add_segment_framed_inv [OF assms(1,5,6) r]) blast
  then have "as_lookup a (pm_mem s) (addr_floor sva) = None" using assms(4) by simp
  moreover have "seg_inv (as_lookup a (pm_mem s)) seg" using assms(1,2) by (simp add: as_inv_def)
  ultimately show ?thesis using seg_inv_mapped assms(3) by blast
qed simp

lemma remove_segment_absent:
  assumes "\<And>seg. seg \<in> set (as_segments a) \<Longrightarrow> sr_l (ms_vpn_range seg) \<noteq> vpn"
  shows "remove_segment_with_start_vpn vpn a s = Inr (a, s)"
proof -
  have "find_index (\<lambda>seg. sr_l (ms_vpn_range seg) = vpn) (as_segments a) = None"
    using assms by (simp add: find_index_None)
  then show ?thesis by (simp add: remove_segment_with_start_vpn_def)
qed

lemma floor_less_ceil:
  assumes "unat b + 0x2000 < 2 ^ 39"
  shows "addr_floor b < addr_ceil (b + USER_STACK_SIZE)"
proof -
  have "unat (b + USER_STACK_SIZE) = unat b + 0x2000"
    using assms by (simp add: unat_word_ariths USER_STACK_SIZE_def)
  then show ?thesis using assms by (simp add: word_less_nat_alt unat_addr_floor unat_addr_ceil)
qed

section \<open>The user resources of a thread are not given back\<close>

lemma upd_proc_same: "f (k_proc k p) = k_proc k p \<Longrightarrow> upd_proc p f k = k"
  by (simp add: upd_proc_def)

lemma alloc_user_resource_inv:
  assumes inv: "as_inv l (pc_address_space (k_proc k (ur_process ur))) (k_phys k)"
    and bottom: "unat (user_stack_bottom (ur_user_stack_base ur) (ur_tid ur)) + 0x2000 < 2 ^ 39"
    and ok: "alloc_user_resource ur k = Inr k1"
  obtains seg where "as_inv l (pc_address_space (k_proc k1 (ur_process ur))) (k_phys k1)"
    "seg \<in> set (as_segments (pc_address_space (k_proc k1 (ur_process ur))))"
    "addr_floor (user_stack_bottom (ur_user_stack_base ur) (ur_tid ur)) \<in> set (items (ms_vpn_range seg))"
proof -
  let ?b = "user_stack_bottom (ur_user_stack_base ur) (ur_tid ur)"
  have b: "VirtAddr_from ?b = ?b" "VirtAddr_from (?b + USER_STACK_SIZE) = ?b + USER_STACK_SIZE"
    using bottom by (simp_all add: VirtAddr_from_small unat_word_ariths USER_STACK_SIZE_def)
  obtain a1 s1 a2 s2 where
    a1: "add_segment_framed ?b (?b + USER_STACK_SIZE) (Permission_R OR Permission_W OR Permission_U)
        (pc_address_space (k_proc k (ur_process ur))) (k_phys k) = Inr (a1, s1)" and
    a2: "add_segment_framed (VirtAddr_from (trap_cx_bottom (ur_tid ur))) (VirtAddr_from (trap_cx_bottom (ur_tid ur) + PAGE_SIZE))
        (Permission_R OR Permission_W) a1 s1 = Inr (a2, s2)" and
    k1: "k1 = upd_proc (ur_process ur) (\<lambda>pcb. pcb\<lparr>pc_address_space := a2\<rparr>) (k\<lparr>k_phys := s2\<rparr>)"
    using ok b by (auto simp: alloc_user_resource_def Let_def)
  have lt: "unat ?b < 2 ^ 39" "unat (?b + USER_STACK_SIZE) < 2 ^ 39"
    using bottom by (simp_all add: unat_word_ariths USER_STACK_SIZE_def)
  obtain seg :: MemorySegment where seg: "as_inv l a1 s1" "as_segments a1 = as_segments (pc_address_space (k_proc k (ur_process ur))) @ [seg]"
    "set (items (ms_vpn_range seg)) = {addr_floor ?b..<addr_ceil (?b + USER_STACK_SIZE)}"
    by (rule add_segment_framed_inv [OF inv lt a1]) blast
  obtain seg2 :: MemorySegment where "as_inv l a2 s2" "as_segments a2 = as_segments a1 @ [seg2]"
    by (rule add_segment_framed_inv [OF seg(1) unat_VirtAddr_from unat_VirtAddr_from a2]) blast
  then show thesis
    using that [of seg] seg(2,3) floor_less_ceil [OF bottom] k1 by (auto simp: upd_proc_def)
qed

lemma dealloc_user_resource_absent:
  assumes "\<And>seg. seg \<in> set (as_segments (pc_address_space (k_proc k (ur_process ur)))) \<Longrightarrow>
      sr_l (ms_vpn_range seg) \<noteq> VirtPageNum_from (user_stack_bottom (ur_user_stack_base ur) (ur_tid ur))
      \<and> sr_l (ms_vpn_range seg) \<noteq> VirtPageNum_from (trap_cx_bottom (ur_tid ur))"
  shows "dealloc_user_resource ur k = Inr k"
proof -
  have "remove_segment_with_start_vpn (VirtPageNum_from (user_stack_bottom (ur_user_stack_base ur) (ur_tid ur)))
      (pc_address_space (k_proc k (ur_process ur))) (k_phys k) = Inr (pc_address_space (k_proc k (ur_process ur)), k_phys k)"
    "remove_segment_with_start_vpn (VirtPageNum_from (trap_cx_bottom (ur_tid ur)))
      (pc_address_space (k_proc k (ur_process ur))) (k_phys k) = Inr (pc_address_space (k_proc k (ur_process ur)), k_phys k)"
    using assms by (auto intro!: remove_segment_absent)
  then show ?thesis by (simp add: dealloc_user_resource_def Let_def upd_proc_same)
qed

text \<open>A process with nothing but its page table, whose main thread gets its user resources.\<close>

lemma add_segment_framed_total:
  assumes "as_inv l a s" "unat sva < 2 ^ 39" "unat eva < 2 ^ 39" "addr_floor sva \<le> addr_ceil eva"
    "\<forall>v. addr_floor sva \<le> v \<and> v < addr_ceil eva \<longrightarrow> as_lookup a (pm_mem s) v = None"
    "3 * (unat (addr_ceil eva) - unat (addr_floor sva)) \<le> avail s"
  shows "\<exists>a' s'. add_segment_framed sva eva perm a s = Inr (a', s')
    \<and> avail s \<le> avail s' + 3 * (unat (addr_ceil eva) - unat (addr_floor sva))"
proof -
  obtain seg :: MemorySegment where new: "MemorySegment_new sva eva Framed perm = Inr seg"
    using assms(4) by (simp add: MemorySegment_new_def SimpleRange_new_def)
  note N = MemorySegment_new_ok [OF assms(2,3) new]
  have len: "length (items (ms_vpn_range seg)) = unat (addr_ceil eva) - unat (addr_floor sva)"
    using length_items [OF N(1)] N(5,6) by simp
  have "\<forall>v \<in> set (items (ms_vpn_range seg)). as_lookup a (pm_mem s) v = None"
    using assms(5) by (simp only: range_ok_items(3) [OF N(1)] N(5,6) Ball_def)
  then obtain a' s' where "add_segment seg None a s = Inr (a', s')"
    "avail s \<le> avail s' + 3 * length (items (ms_vpn_range seg))"
    using add_segment_total [OF assms(1) N(3,2,1)] assms(6) len by auto
  then show ?thesis using new len by (auto simp: add_segment_framed_def)
qed

definition ur0 :: TaskUserResource where
  "ur0 = \<lparr>ur_tid = 0, ur_user_stack_base = 0x10000, ur_process = 0\<rparr>"

definition kernel0 :: "AddressSpace \<Rightarrow> phys \<Rightarrow> kernel" where
  "kernel0 a s =
     \<lparr>sc_ready_queue = [], sc_current = Some 0,
      sc_tcb = (\<lambda>_. tcb0\<lparr>tcb_status := Running, tcb_user_resource := Some ur0\<rparr>), tm_timers = [],
      k_phys = s, k_kernel_space = a, k_proc = (\<lambda>_. fresh_pcb 0 a None [Some 0, Some 1, Some 2] SignalActionTable_default 0),
      k_next_proc = 1, k_next_task = 1, k_pid2pcb = [], k_pid_allocator = ra_new, k_kernel_stack_allocator = ra_new,
      k_initproc = 0, k_file = (\<lambda>_. FStdout), k_next_file = 3, k_ring = (\<lambda>_. PipeRingBuffer_new), k_next_ring = 0,
      k_held = (\<lambda>_. []), k_held_file = (\<lambda>_. []), k_console = [],
      k_fs = \<lparr>rf_root = None, rf_blocks = \<lparr>bs_dev = [], bs_queue = [], bs_held = []\<rparr>\<rparr>\<rparr>"

lemma VirtAddr_trap_cx: "VirtAddr_from (trap_cx_bottom 0) = 0x7FFFFFE000" "VirtAddr_from (trap_cx_bottom 0 + PAGE_SIZE) = 0x7FFFFFF000"
  "VirtPageNum_from (trap_cx_bottom 0) = 0x7FFE000"
  by (simp_all add: word_unat_eq_iff VirtAddr_from_def VirtPageNum_from_def unat_shl_shr width_defs trap_cx_bottom_def TRAP_CONTEXT_BASE_def
      TRAMPOLINE_def PAGE_SIZE_def)

lemma floor_trap_cx: "addr_floor 0x7FFFFFE000 = 0x7FFFFFE" "addr_ceil 0x7FFFFFF000 = 0x7FFFFFF"
  by (simp_all add: word_unat_eq_iff unat_addr_floor unat_addr_ceil)

text \<open>
  C35. Giving back the user resources of a thread gives back nothing: \<open>dealloc_user_resource\<close>
  passes the addresses of the user stack and of the trap context where page numbers are expected, so
  that, when no other segment happens to start there, both segments stay; and the next thread that
  gets the same identifier makes the kernel panic when it maps its stack.
\<close>

theorem thread_resources_not_freed:
  assumes "as_inv l (pc_address_space (k_proc k (ur_process ur))) (k_phys k)"
    "unat (user_stack_bottom (ur_user_stack_base ur) (ur_tid ur)) + 0x2000 < 2 ^ 39"
    "alloc_user_resource ur k = Inr k1"
    "\<forall>seg \<in> set (as_segments (pc_address_space (k_proc k1 (ur_process ur)))).
       sr_l (ms_vpn_range seg) \<noteq> VirtPageNum_from (user_stack_bottom (ur_user_stack_base ur) (ur_tid ur))
       \<and> sr_l (ms_vpn_range seg) \<noteq> VirtPageNum_from (trap_cx_bottom (ur_tid ur))"
  shows "dealloc_user_resource ur k1 = Inr k1 \<and> (\<exists>e. alloc_user_resource ur k1 = Inl e)"
proof
  let ?b = "user_stack_bottom (ur_user_stack_base ur) (ur_tid ur)"
  let ?a = "pc_address_space (k_proc k1 (ur_process ur))"
  show "dealloc_user_resource ur k1 = Inr k1"
    using assms(4) by (intro dealloc_user_resource_absent) blast
  obtain seg :: MemorySegment where seg: "as_inv l ?a (k_phys k1)" "seg \<in> set (as_segments ?a)"
    "addr_floor ?b \<in> set (items (ms_vpn_range seg))"
    by (rule alloc_user_resource_inv [OF assms(1-3)]) blast
  have b: "VirtAddr_from ?b = ?b" "VirtAddr_from (?b + USER_STACK_SIZE) = ?b + USER_STACK_SIZE"
    and lt: "unat ?b < 2 ^ 39" "unat (?b + USER_STACK_SIZE) < 2 ^ 39"
    using assms(2) by (simp_all add: VirtAddr_from_small unat_word_ariths USER_STACK_SIZE_def)
  obtain e where "add_segment_framed ?b (?b + USER_STACK_SIZE) (Permission_R OR Permission_W OR Permission_U) ?a (k_phys k1) = Inl e"
    using add_segment_framed_mapped [OF seg floor_less_ceil [OF assms(2)] lt] by blast
  then show "\<exists>e. alloc_user_resource ur k1 = Inl e"
    using b by (simp add: alloc_user_resource_def Let_def)
qed

lemma alloc_user_resource0:
  obtains a s k1 where "as_inv frame0 a s" "alloc_user_resource ur0 (kernel0 a s) = Inr k1"
    "\<forall>seg \<in> set (as_segments (pc_address_space (k_proc k1 0))). sr_l (ms_vpn_range seg) \<in> {0x10, 0x7FFFFFE}"
proof -
  obtain a s where b: "as_inv frame0 a s" "as_segments a = []"
    "\<And>v. as_lookup a (pm_mem s) v = None" "avail s = 31743" using bare0 by blast
  have b10: "user_stack_bottom 0x10000 0 = 0x10000" "VirtAddr_from 0x10000 = 0x10000"
    "VirtAddr_from (0x10000 + USER_STACK_SIZE) = 0x12000"
    by (simp_all add: user_stack_bottom_def VirtAddr_from_small USER_STACK_SIZE_def)
  obtain a1 s1 where a1: "add_segment_framed 0x10000 0x12000 (Permission_R OR Permission_W OR Permission_U) a s = Inr (a1, s1)"
    "31743 \<le> avail s1 + 6"
    using add_segment_framed_total [OF b(1), of "0x10000" "0x12000" "Permission_R OR Permission_W OR Permission_U"] b(3,4) by (auto simp: floor_0x10000)
  obtain seg1 :: MemorySegment where s1: "as_inv frame0 a1 s1" "as_segments a1 = as_segments a @ [seg1]"
    "set (items (ms_vpn_range seg1)) = {addr_floor 0x10000..<addr_ceil 0x12000}"
    "sr_l (ms_vpn_range seg1) = addr_floor 0x10000"
    "\<forall>v. vpn_ok v \<and> v \<notin> set (items (ms_vpn_range seg1)) \<longrightarrow> as_lookup a1 (pm_mem s1) v = as_lookup a (pm_mem s) v"
    by (rule add_segment_framed_inv [OF b(1) _ _ a1(1)]) auto
  have free: "as_lookup a1 (pm_mem s1) v = None" if v: "0x7FFFFFE \<le> v" "v < 0x7FFFFFF" for v
  proof -
    have "v \<notin> set (items (ms_vpn_range seg1))" using v by (simp add: s1(3) floor_0x10000 word_le_nat_alt word_less_nat_alt)
    moreover have "vpn_ok v" using v by (simp add: word_less_nat_alt)
    ultimately show ?thesis using s1(5) b(3) by simp
  qed
  obtain a2 s2 where a2: "add_segment_framed 0x7FFFFFE000 0x7FFFFFF000 (Permission_R OR Permission_W) a1 s1 = Inr (a2, s2)"
    using add_segment_framed_total [OF s1(1), of "0x7FFFFFE000" "0x7FFFFFF000" "Permission_R OR Permission_W"] free a1(2)
    by (auto simp: floor_trap_cx)
  obtain seg2 :: MemorySegment where s2: "as_segments a2 = as_segments a1 @ [seg2]" "sr_l (ms_vpn_range seg2) = addr_floor 0x7FFFFFE000"
    by (rule add_segment_framed_inv [OF s1(1) _ _ a2]) auto
  define k1 where "k1 = upd_proc 0 (\<lambda>pcb. pcb\<lparr>pc_address_space := a2\<rparr>) ((kernel0 a s)\<lparr>k_phys := s2\<rparr>)"
  have "alloc_user_resource ur0 (kernel0 a s) = Inr k1"
    using a1(1) a2 by (simp add: alloc_user_resource_def ur0_def kernel0_def fresh_pcb_def Let_def b10 VirtAddr_trap_cx k1_def)
  moreover have "\<forall>seg \<in> set (as_segments (pc_address_space (k_proc k1 0))). sr_l (ms_vpn_range seg) \<in> {0x10, 0x7FFFFFE}"
    using s1(2,4) s2 b(2) by (auto simp: k1_def upd_proc_def floor_0x10000 floor_trap_cx)
  ultimately show thesis using that [OF b(1)] by blast
qed

theorem thread_resources_not_freed_witness:
  "\<exists>k1. dealloc_user_resource ur0 k1 = Inr k1 \<and> (\<exists>e. alloc_user_resource ur0 k1 = Inl e)"
proof -
  obtain a s k1 where k1: "as_inv frame0 a s" "alloc_user_resource ur0 (kernel0 a s) = Inr k1"
    "\<forall>seg \<in> set (as_segments (pc_address_space (k_proc k1 0))). sr_l (ms_vpn_range seg) \<in> {0x10, 0x7FFFFFE}"
    by (rule alloc_user_resource0) blast
  have n: "VirtPageNum_from 0x10000 = 0x10000"
    by (simp add: word_unat_eq_iff VirtPageNum_from_def unat_shl_shr width_defs)
  have "dealloc_user_resource ur0 k1 = Inr k1 \<and> (\<exists>e. alloc_user_resource ur0 k1 = Inl e)"
  proof (rule thread_resources_not_freed)
    show "as_inv frame0 (pc_address_space (k_proc (kernel0 a s) (ur_process ur0))) (k_phys (kernel0 a s))"
      using k1(1) by (simp add: kernel0_def fresh_pcb_def)
    show "\<forall>seg \<in> set (as_segments (pc_address_space (k_proc k1 (ur_process ur0)))).
       sr_l (ms_vpn_range seg) \<noteq> VirtPageNum_from (user_stack_bottom (ur_user_stack_base ur0) (ur_tid ur0))
       \<and> sr_l (ms_vpn_range seg) \<noteq> VirtPageNum_from (trap_cx_bottom (ur_tid ur0))"
      using k1(3) by (fastforce simp: ur0_def user_stack_bottom_def n VirtAddr_trap_cx)
  qed (simp_all add: k1(2), simp add: ur0_def user_stack_bottom_def)
  then show ?thesis by blast
qed

section \<open>The areas of different threads\<close>

lemma unat_mult_small: "unat (i :: usize) < 2 ^ 20 \<Longrightarrow> unat c \<le> 2 ^ 20 \<Longrightarrow> unat (i * c) = unat i * unat c"
proof -
  assume "unat i < 2 ^ 20" "unat c \<le> 2 ^ 20"
  then have "unat i * unat c \<le> 2 ^ 20 * 2 ^ 20" by (intro mult_le_mono) simp_all
  then show ?thesis by (simp add: unat_word_ariths)
qed

lemma unat_kernel_stack:
  assumes "unat i < 2 ^ 20"
  shows "unat (KernelStack_get_top i) = 2 ^ 64 - 4096 - unat i * 12288"
    "unat (KernelStack_get_bottom i) = 2 ^ 64 - 4096 - 8192 - unat i * 12288"
proof -
  have m: "unat (i * 12288) = unat i * 12288" using unat_mult_small [of i 12288] assms by simp
  have t: "unat (TRAMPOLINE - i * 12288) = 2 ^ 64 - 4096 - unat i * 12288"
    using m assms by (subst unat_sub) (simp_all add: word_le_nat_alt TRAMPOLINE_def PAGE_SIZE_def)
  show "unat (KernelStack_get_top i) = 2 ^ 64 - 4096 - unat i * 12288"
    using t by (simp add: KernelStack_get_top_def kernel_stack_position_def KERNEL_STACK_SIZE_def PAGE_SIZE_def Let_def)
  have "unat (TRAMPOLINE - i * 12288 - 8192) = unat (TRAMPOLINE - i * 12288) - 8192"
    using t assms by (subst unat_sub) (simp_all add: word_le_nat_alt)
  then show "unat (KernelStack_get_bottom i) = 2 ^ 64 - 4096 - 8192 - unat i * 12288"
    using t by (simp add: KernelStack_get_bottom_def kernel_stack_position_def KERNEL_STACK_SIZE_def PAGE_SIZE_def Let_def)
qed

lemma unat_trap_cx_bottom:
  assumes "unat i < 2 ^ 20"
  shows "unat (trap_cx_bottom i) = 2 ^ 64 - 8192 - unat i * 4096"
proof -
  have m: "unat (i * 4096) = unat i * 4096" using unat_mult_small [of i 4096] assms by simp
  then show ?thesis
    using assms unfolding trap_cx_bottom_def PAGE_SIZE_def
    by (subst unat_sub) (simp_all add: word_le_nat_alt TRAP_CONTEXT_BASE_def TRAMPOLINE_def PAGE_SIZE_def)
qed

lemma unat_user_stack_bottom:
  assumes "unat i < 2 ^ 20" "unat base < 2 ^ 37"
  shows "unat (user_stack_bottom base i) = unat base + unat i * 12288"
proof -
  have m: "unat (i * 12288) = unat i * 12288" using unat_mult_small [of i 12288] assms by simp
  then have "unat base + unat (i * 12288) < 2 ^ 64" using assms by simp
  then have "unat (base + i * 12288) = unat base + unat i * 12288" using m by (simp add: unat_word_ariths)
  then show ?thesis by (simp add: user_stack_bottom_def PAGE_SIZE_def USER_STACK_SIZE_def)
qed

text \<open>
  C36. The areas of different threads do not overlap: the kernel stacks of two threads, and the user
  stacks of two threads of a process, are separated by at least one unmapped page; their trap
  contexts are different pages; all kernel stacks are in the upper half of the address space and
  all user stacks in the lower half.
\<close>

theorem thread_areas_disjoint:
  assumes "i < j" "unat j < 2 ^ 20" "unat base < 2 ^ 37"
  shows "unat (KernelStack_get_top j) + 4096 \<le> unat (KernelStack_get_bottom i)
    \<and> 2 ^ 64 - 2 ^ 38 \<le> unat (KernelStack_get_bottom j)
    \<and> unat (user_stack_bottom base i) + unat USER_STACK_SIZE + 4096 \<le> unat (user_stack_bottom base j)
    \<and> unat (user_stack_bottom base j) + unat USER_STACK_SIZE < 2 ^ 38
    \<and> unat (trap_cx_bottom j) + 4096 \<le> unat (trap_cx_bottom i)"
proof -
  have ij: "unat i < unat j" "unat i < 2 ^ 20" using assms by (simp_all add: word_less_nat_alt)
  then have "unat i + 1 \<le> unat j" by simp
  then show ?thesis
    using ij assms unat_kernel_stack [of i] unat_kernel_stack [of j] unat_trap_cx_bottom [of i] unat_trap_cx_bottom [of j]
      unat_user_stack_bottom [of i base] unat_user_stack_bottom [of j base]
    by (simp add: USER_STACK_SIZE_def) arith
qed

theorem thread_areas_disjoint_witness:
  "unat (KernelStack_get_top 5) + 4096 \<le> unat (KernelStack_get_bottom 2)"
  using thread_areas_disjoint [of 2 5 "0x20000"] by simp

section \<open>File descriptors\<close>

text \<open>
  C37. \<open>dup\<close> on an open descriptor returns the lowest free one and makes it refer to the same
  file, leaving all others alone; closing it again puts the descriptor table back.
\<close>

theorem dup_then_close:
  assumes "current_process k = Inr p" "unat fd < length (pc_fd_table (k_proc k p))"
    "pc_fd_table (k_proc k p) ! unat fd = Some f" "length (pc_fd_table (k_proc k p)) < 2 ^ 60"
  shows "\<exists>r k1 k2. sys_dup fd k = Inr (Returns (of_nat r), k1)
    \<and> r \<le> length (pc_fd_table (k_proc k p)) \<and> (\<forall>i < r. pc_fd_table (k_proc k p) ! i \<noteq> None)
    \<and> (r < length (pc_fd_table (k_proc k p)) \<longrightarrow> pc_fd_table (k_proc k p) ! r = None)
    \<and> pc_fd_table (k_proc k1 p) = (if r < length (pc_fd_table (k_proc k p))
         then (pc_fd_table (k_proc k p))[r := Some f] else pc_fd_table (k_proc k p) @ [Some f])
    \<and> sys_close (of_nat r) k1 = Inr (Returns 0, k2)
    \<and> pc_fd_table (k_proc k2 p) = (if r < length (pc_fd_table (k_proc k p))
         then pc_fd_table (k_proc k p) else pc_fd_table (k_proc k p) @ [None])"
proof -
  let ?t = "pc_fd_table (k_proc k p)"
  define r where "r = (case find_index (\<lambda>f. f = None) ?t of Some i \<Rightarrow> i | None \<Rightarrow> length ?t)"
  define t1 where "t1 = (if r < length ?t then ?t[r := Some f] else ?t @ [Some f])"
  have r: "r \<le> length ?t" "\<forall>i < r. ?t ! i \<noteq> None" "r < length ?t \<longrightarrow> ?t ! r = None"
    by (auto simp: r_def find_index_None find_index_Some set_conv_nth split: option.splits)
  define pcb1 where "pcb1 = (k_proc k p)\<lparr>pc_fd_table := t1\<rparr>"
  define k1 where "k1 = upd_proc p (\<lambda>_. pcb1) k"
  define k2 where "k2 = upd_proc p (\<lambda>pcb. pcb\<lparr>pc_fd_table := t1[r := None]\<rparr>) k1"
  have dup: "sys_dup fd k = Inr (Returns (of_nat r), k1)"
  proof (cases "find_index (\<lambda>f. f = None) ?t")
    case None
    then show ?thesis
      using assms(1-3) by (simp add: sys_dup_def alloc_fd_def ret_def Let_def r_def t1_def k1_def pcb1_def)
  next
    case (Some i)
    then show ?thesis
      using assms(1-3) find_index_SomeD(1) [OF Some]
      by (simp add: sys_dup_def alloc_fd_def ret_def Let_def r_def t1_def k1_def pcb1_def)
  qed
  have t1: "r < length t1" "t1 ! r = Some f" using r(1) by (auto simp: t1_def nth_append)
  have ur: "unat (of_nat r :: usize) = r" using r(1) assms(4) by (intro unat_of_nat_64) simp
  have cur: "current_process k1 = Inr p" using assms(1) by (auto simp: k1_def upd_proc_def current_process_def current_task_def)
  have close: "sys_close (of_nat r) k1 = Inr (Returns 0, k2)"
    using cur t1 ur by (simp add: sys_close_def ret_def Let_def k2_def k1_def pcb1_def upd_proc_def)
  have "t1[r := None] = (if r < length ?t then ?t else ?t @ [None])"
    using r by (auto simp: t1_def list_update_append nth_append) (metis list_update_id)
  then show ?thesis
    using dup r close by (intro exI [of _ r] exI [of _ k1] exI [of _ k2])
      (simp add: k1_def k2_def pcb1_def upd_proc_def t1_def)
qed

theorem dup_then_close_witness:
  "\<exists>a s k1. sys_dup 1 (kernel0 a s) = Inr (Returns 3, k1) \<and> pc_fd_table (k_proc k1 0) = [Some 0, Some 1, Some 2, Some 1]"
proof -
  fix a s
  have cur: "current_process (kernel0 a s) = Inr 0"
    by (simp add: current_process_def current_task_def kernel0_def tcb0_def)
  let ?t = "pc_fd_table (k_proc (kernel0 a s) 0)"
  have t: "?t = [Some 0, Some 1, Some 2]" by (simp add: kernel0_def fresh_pcb_def)
  have h: "unat (1 :: usize) < length ?t" "?t ! unat (1 :: usize) = Some 1" "length ?t < 2 ^ 60" by (simp_all add: t)
  obtain r k1 where r: "sys_dup 1 (kernel0 a s) = Inr (Returns (of_nat r), k1)" "r \<le> length ?t"
    "r < length ?t \<longrightarrow> ?t ! r = None"
    "pc_fd_table (k_proc k1 0) = (if r < length ?t then ?t[r := Some 1] else ?t @ [Some 1])"
    using dup_then_close [OF cur h] by blast
  have "r = 3" using r(2,3) by (auto simp: t numeral_3_eq_3 le_Suc_eq nth_Cons')
  then have "sys_dup 1 (kernel0 a s) = Inr (Returns 3, k1)" "pc_fd_table (k_proc k1 0) = [Some 0, Some 1, Some 2, Some 1]"
    using r(1,4) by (simp_all add: t)
  then show ?thesis by blast
qed

section \<open>Waiting\<close>

text \<open>
  C38. \<open>waittid\<close> with the number of threads as its argument indexes the list of threads out of
  bounds and panics: the guard compares with \<open><\<close> where \<open>\<le>\<close> is meant.
\<close>

theorem waittid_out_of_bounds:
  assumes "sc_current k = Some t" "tcb_user_resource (sc_tcb k t) = Some ur" "ur_tid ur \<noteq> tid"
    "unat tid = length (pc_tasks (k_proc k (tcb_process (sc_tcb k t))))"
  shows "sys_waittid tid k = Inl IndexOutOfBounds"
  using assms by (simp add: sys_waittid_def current_task_def get_tid_def index_def Let_def)

theorem waittid_out_of_bounds_witness:
  "\<exists>a s. sys_waittid 1 (upd_proc 0 (\<lambda>pcb. pcb\<lparr>pc_tasks := [Some 0]\<rparr>) (kernel0 a s)) = Inl IndexOutOfBounds"
  by (intro exI, rule waittid_out_of_bounds [where t = 0 and ur = ur0])
    (simp_all add: kernel0_def upd_proc_def tcb0_def ur0_def)

section \<open>Reading and writing pipes\<close>

text \<open>A pass that does not complete the transfer leaves the ring buffer empty, or full.\<close>

lemma read_loop_empties:
  "read_loop n buf_len already rb it m = Inr (False, already', rb', it', m') \<Longrightarrow> rb_inv rb \<Longrightarrow> available_read rb = n
    \<Longrightarrow> available_read rb' = 0"
proof (induction n arbitrary: already rb it m)
  case (Suc n)
  obtain rb1 where rb1: "read_byte rb = Inr (rb_arr rb ! rb_head rb, rb1)" "rb_inv rb1" "available_read rb1 = n"
    using read_byte_step [OF Suc.prems(2)] Suc.prems(3) by auto
  obtain it1 a where "UserBufferIterator_next it = Inr (Some a, it1)" "already + 1 \<noteq> buf_len"
    "read_loop n buf_len (already + 1) rb1 it1 (m(a := rb_arr rb ! rb_head rb)) = Inr (False, already', rb', it', m')"
    using Suc.prems(1) rb1(1) by (auto split: if_splits)
  then show ?case using Suc.IH rb1 by auto
qed simp

lemma write_loop_fills:
  "write_loop n buf_len already rb it m = Inr (False, already', rb', it') \<Longrightarrow> rb_inv rb \<Longrightarrow> available_write rb = n
    \<Longrightarrow> available_write rb' = 0"
proof (induction n arbitrary: already rb it)
  case (Suc n)
  obtain it1 a rb1 where *: "UserBufferIterator_next it = Inr (Some a, it1)" "write_byte (m a) rb = Inr rb1" "already + 1 \<noteq> buf_len"
    "write_loop n buf_len (already + 1) rb1 it1 m = Inr (False, already', rb', it')"
    using Suc.prems(1) by (auto split: if_splits)
  have "rb_inv rb1" "available_write rb1 = n"
    using write_byte_step [OF Suc.prems(2), of "m a"] Suc.prems(3) *(2) by (auto simp: available_write_def RING_BUFFER_SIZE_def)
  then show ?case using Suc.IH * by auto
qed simp

text \<open>So two passes in a row are enough: more fuel does not change the result of a call.\<close>

lemma pipe_read_call_fuel:
  assumes "rb_inv (k_ring k (pipe_buffer pipe))"
  shows "pipe_read_call (Suc (Suc n)) f pipe buf_len already it k = pipe_read_call 2 f pipe buf_len already it k"
proof -
  have "pipe_read_call (Suc n) f pipe buf_len already' it' k1 = pipe_read_call 1 f pipe buf_len already' it' k1"
    if "available_read (k_ring k1 (pipe_buffer pipe)) = 0" for already' it' k1
    using that by (simp add: pipe_read_pass_def rbind_def split: sum.split)
  then show ?thesis
    using read_loop_empties [OF _ assms refl]
    by (auto simp: numeral_2_eq_2 pipe_read_pass_def put_ring_def Let_def rbind_def split: sum.split pass_end.split)
qed

lemma pipe_write_call_fuel:
  assumes "rb_inv (k_ring k (pipe_buffer pipe))"
  shows "pipe_write_call (Suc (Suc n)) f pipe buf_len already it k = pipe_write_call 2 f pipe buf_len already it k"
proof -
  have "pipe_write_call (Suc n) f pipe buf_len already' it' k1 = pipe_write_call 1 f pipe buf_len already' it' k1"
    if "available_write (k_ring k1 (pipe_buffer pipe)) = 0" for already' it' k1
    using that by (simp add: pipe_write_pass_def)
  then show ?thesis
    using write_loop_fills [OF _ assms refl]
    by (auto simp: numeral_2_eq_2 pipe_write_pass_def put_ring_def Let_def rbind_def split: sum.split pass_end.split)
qed

end
