(* ===== verification/Kernel_Runs.thy ===== *)
theory Kernel_Runs
  imports Kernel_Invariant Kernel_Proofs
begin

text \<open>
  What holds in every run of the kernel, with an example of a run, and a run that ends in a panic: a
  process that ends while one of its threads waits for a semaphore cannot be waited for.
\<close>

text \<open>
  C1. In every run of the kernel, from its start or from a state that satisfies the invariant, and
  whatever user programs do to memory: a thread is never in two places; a thread of a live process is
  in a place exactly as long as it has not ended, so no thread is lost and none runs after its end;
  the threads in places belong to live processes and are in the thread lists of these; the running
  thread is \<open>Running\<close>, threads in the ready queue are \<open>Ready\<close>, threads with a timer or in a waiting
  list are \<open>Blocked\<close>; and only threads of a process wait in its lists.
\<close>

theorem threads_accounted_for:
  assumes "reachable mc s \<or> (\<exists>s0. kernel_inv (sy_kernel s0) \<and> (system_step mc)\<^sup>*\<^sup>* s0 s)"
    "k = sy_kernel s" "k_next_task k < 2 ^ 64"
  shows "(\<forall>t. count (places k) t \<le> 1)
    \<and> (\<forall>p t. live_process k p \<and> Some t \<in> set (pc_tasks (k_proc k p))
         \<longrightarrow> (t \<in># places k \<longleftrightarrow> tcb_exit_code (sc_tcb k t) = None))
    \<and> (\<forall>t. t \<in># places k \<longrightarrow> live_process k (tcb_process (sc_tcb k t))
         \<and> Some t \<in> set (pc_tasks (k_proc k (tcb_process (sc_tcb k t)))))
    \<and> (\<forall>t. sc_current k = Some t \<longrightarrow> status k t = Running)
    \<and> (\<forall>t \<in> set (sc_ready_queue k). status k t = Ready)
    \<and> (\<forall>t. t \<in># blocked k \<longrightarrow> status k t = Blocked)
    \<and> (\<forall>p < k_next_proc k. \<forall>t \<in> set (waiters_of (k_proc k p)). tcb_process (sc_tcb k t) = p)"
proof -
  have inv: "kernel_inv k"
    using assms reachable_inv [of mc s] system_run_safe [of mc _ s] by (auto simp: safe_step_def)
  have once: "\<forall>t. count (places k) t \<le> 1" using count_places_le [OF inv] by blast
  have placed: "placed_ok k t" if "t \<in># places k" for t by (rule kernel_invD(1) [OF inv that])
  have member: "member_ok k p t" if "live_process k p" "Some t \<in> set (pc_tasks (k_proc k p))" for p t
    by (rule kernel_invD(7) [OF inv that])
  show ?thesis
    using once placed member kernel_invD(2,3,4,5) [OF inv] by (auto simp: placed_ok_def member_ok_def)
qed

text \<open>A system with one process and one running thread, and its state after a timer interrupt.\<close>

definition kernel_one :: "AddressSpace \<Rightarrow> phys \<Rightarrow> kernel" where
  "kernel_one a s =
     upd_proc 0 (\<lambda>pcb. pcb\<lparr>pc_tasks := [Some 0], pc_tid_allocator := \<lparr>ra_current = 1, ra_recycled = []\<rparr>\<rparr>) (kernel0 a s)"

definition system_one :: "AddressSpace \<Rightarrow> phys \<Rightarrow> system" where
  "system_one a s = \<lparr>sy_kernel = kernel_one a s, sy_cont = (\<lambda>_. None)\<rparr>"

definition system_two :: "AddressSpace \<Rightarrow> phys \<Rightarrow> system" where
  "system_two a s =
     \<lparr>sy_kernel = add_task 0 (set_status 0 Ready (kernel_one a s\<lparr>tm_timers := [], sc_current := None\<rparr>)),
      sy_cont = (\<lambda>_. None)(0 := Some InSignals)\<rparr>"

lemma kernel_one_simps:
  "sc_ready_queue (kernel_one a s) = []" "sc_current (kernel_one a s) = Some 0" "tm_timers (kernel_one a s) = []"
  "k_next_proc (kernel_one a s) = 1" "k_next_task (kernel_one a s) = 1" "waiters_of (k_proc (kernel_one a s) p) = []"
  "pc_is_zombie (k_proc (kernel_one a s) p) = False" "pc_tasks (k_proc (kernel_one a s) 0) = [Some 0]"
  "pc_tid_allocator (k_proc (kernel_one a s) 0) = \<lparr>ra_current = 1, ra_recycled = []\<rparr>"
  "tcb_process (sc_tcb (kernel_one a s) t) = 0" "tcb_exit_code (sc_tcb (kernel_one a s) t) = None"
  "tcb_status (sc_tcb (kernel_one a s) t) = Running"
  by (simp_all add: kernel_one_def kernel0_def upd_proc_def tcb0_def)

lemma kernel_one_inv: "kernel_inv (kernel_one a s)"
proof -
  have p: "places (kernel_one a s) = {#0#}" "blocked (kernel_one a s) = {#}"
    by (simp_all add: places_def blocked_def waiting_def kernel_one_simps)
  show ?thesis
    by (auto simp: kernel_inv_def p kernel_one_simps placed_ok_def member_ok_def tids_ok_def live_process_def
        ra_inv_def ra_live_def)
qed

lemma system_one_step: "system_step mc (system_one a s) (system_two a s)"
proof -
  let ?io = "\<lparr>in_getchar = 0, in_mtime = 0\<rparr>" and ?m = "pm_mem (k_phys (kernel_one a s))"
  have "trap_handler mc ?io SupervisorSoft (user_runs ?m (sy_kernel (system_one a s))) = Inr (Away InSignals, sy_kernel (system_two a s))"
    by (simp add: user_runs_def system_one_def system_two_def check_timer_def kernel_one_simps suspend_current_def take_current_task_def)
  from step_trap [of "system_one a s" 0 mc ?io SupervisorSoft ?m, OF _ this] show ?thesis
    by (simp add: system_one_def system_two_def kernel_one_simps)
qed

theorem threads_accounted_for_witness:
  "\<exists>a s. let k = sy_kernel (system_two a s) in
     k_next_task k = 1 \<and> sc_ready_queue k = [0] \<and> sc_current k = None
     \<and> count (places k) 0 = 1 \<and> live_process k (tcb_process (sc_tcb k 0)) \<and> status k 0 = Ready"
proof -
  fix a s and mc :: machine
  let ?k = "sy_kernel (system_two a s)"
  have "reachable mc (system_two a s) \<or> (\<exists>s0. kernel_inv (sy_kernel s0) \<and> (system_step mc)\<^sup>*\<^sup>* s0 (system_two a s))"
    using kernel_one_inv [of a s] system_one_step [of mc a s]
    by (intro disjI2 exI [of _ "system_one a s"]) (simp add: system_one_def r_into_rtranclp)
  moreover have n: "k_next_task ?k = 1" "sc_ready_queue ?k = [0]" "sc_current ?k = None"
    by (simp_all add: system_two_def add_task_def set_status_def kernel_one_simps)
  ultimately have t: "count (places ?k) 0 \<le> 1" "0 \<in># places ?k \<longrightarrow> live_process ?k (tcb_process (sc_tcb ?k 0))"
    "\<forall>t \<in> set (sc_ready_queue ?k). status ?k t = Ready"
    using threads_accounted_for [of mc "system_two a s" ?k] by simp_all
  have "0 \<in># places ?k" by (simp add: places_def n)
  moreover from this have "count (places ?k) 0 = 1" using t(1) by (simp add: count_greater_zero_iff [symmetric] del: count_greater_zero_iff)
  ultimately show ?thesis using t n by (intro exI [of _ a] exI [of _ s]) (simp add: Let_def)
qed

section \<open>A process that cannot be waited for\<close>

lemma strong_count_held:
  assumes "t < k_next_task k" "p \<in> set (k_held k t)"
  shows "0 < strong_count p k"
proof -
  have "count_list (k_held k t) p \<noteq> 0" using assms(2) by (simp add: count_list_0_iff)
  moreover have "count_list (k_held k t) p \<le> sum_list (map (\<lambda>t. count_list (k_held k t) p) [0..<k_next_task k])"
    using assms(1) by (intro member_le_sum_list) (auto simp: image_iff)
  ultimately show ?thesis by (simp add: strong_count_def)
qed

text \<open>The end of a process drops nothing that sits on a kernel stack.\<close>

lemma held_dealloc_user_resource: "dealloc_user_resource ur k = Inr k' \<Longrightarrow> k_held k' = k_held k"
  by (auto simp: dealloc_user_resource_def Let_def upd_proc_def)

lemma held_TaskControlBlock_drop: "TaskControlBlock_drop t k = Inr k' \<Longrightarrow> k_held k' = k_held k"
  by (auto simp: TaskControlBlock_drop_def KernelStack_drop_def kernel_remove_segment_with_start_vpn_def
      dest!: held_dealloc_user_resource split: option.splits)

lemma held_drop_tasks: "drop_tasks ts k = Inr k' \<Longrightarrow> k_held k' = k_held k"
  by (induction ts k rule: drop_tasks.induct) (auto dest: held_TaskControlBlock_drop)

lemma held_drop_resources: "drop_resources rs k = Inr k' \<Longrightarrow> k_held k' = k_held k"
  by (induction rs arbitrary: k) (auto dest: held_dealloc_user_resource)

lemma held_reparent: "reparent p cs k = Inr k' \<Longrightarrow> k_held k' = k_held k"
  by (induction p cs k rule: reparent.induct) (auto simp: Let_def upd_proc_def split: if_splits)

lemma held_take_resources: "take_resources ts k = (rs, k') \<Longrightarrow> k_held k' = k_held k"
proof (induction ts k arbitrary: rs rule: take_resources.induct)
  case (3 t ts k)
  let ?k2 = "upd_tcb t (\<lambda>tcb. tcb\<lparr>tcb_user_resource := None\<rparr>) (remove_inactive_task t k)"
  obtain rs' where "take_resources ts ?k2 = (rs', k')" using "3.prems" by (auto simp: Let_def split: prod.splits)
  from "3.IH" [OF refl refl this] show ?case
    by (simp add: remove_inactive_task_def remove_timer_def remove_task_eq upd_tcb_def)
qed simp_all

lemma held_terminate_process:
  assumes "terminate_process p tid exit_code k = Inr k'"
  shows "k_held k' = k_held k"
proof -
  define z where "z = (\<lambda>pcb :: ProcessControlBlock. pcb\<lparr>pc_is_zombie := True, pc_exit_code := exit_code\<rparr>)"
  obtain k1 where k1: "remove_from_pid2process (pc_pid (k_proc k p)) k = Inr k1"
    using assms by (auto simp: terminate_process_def)
  obtain k3 where k3: "reparent p (pc_children (k_proc (upd_proc p z k1) p)) (upd_proc p z k1) = Inr k3"
    using assms k1 by (auto simp: terminate_process_def Let_def z_def)
  obtain rs k4 where k4: "take_resources (pc_tasks (k_proc k3 p)) k3 = (rs, k4)" by fastforce
  obtain k5 ts a s f where k5: "drop_resources rs k4 = Inr k5" and d: "drop_tasks ts (upd_proc p f (k5\<lparr>k_phys := s\<rparr>)) = Inr k'"
    using assms k1 k3 k4 by (auto simp: terminate_process_def Let_def z_def upd_proc_def)
  have "k_held k1 = k_held k"
    using k1 by (auto simp: remove_from_pid2process_def split: prod.splits option.splits)
  then show ?thesis
    using held_reparent [OF k3] held_take_resources [OF k4] held_drop_resources [OF k5] held_drop_tasks [OF d]
    by (simp add: upd_proc_def)
qed

lemma exit_current_main:
  assumes "exit_current exit_code k = Inr k'" "sc_current k = Some u"
    "tcb_user_resource (sc_tcb k u) = Some ur" "ur_tid ur = 0"
  shows "k_held k' = k_held k" "k_next_task k' = k_next_task k" "pc_is_zombie (k_proc k' (tcb_process (sc_tcb k u)))"
proof -
  define ex where "ex = (\<lambda>tcb :: TaskControlBlock. tcb\<lparr>tcb_exit_code := Some exit_code\<rparr>)"
  define clear where "clear = (\<lambda>tcb :: TaskControlBlock. tcb\<lparr>tcb_user_resource := None\<rparr>)"
  obtain k2 where k2: "dealloc_user_resource ur (upd_tcb u ex (k\<lparr>sc_current := None\<rparr>)) = Inr k2"
    and k': "terminate_process (tcb_process (sc_tcb k u)) 0 exit_code (upd_tcb u clear k2) = Inr k'"
    using assms by (auto simp: exit_current_def take_current_task_def get_tid_def Let_def ex_def clear_def upd_tcb_def)
  obtain left where l: "sview k' = sview (reaped (tcb_process (sc_tcb k u)) left (upd_tcb u clear k2))"
    using terminate_process_view [OF k'] .
  show "k_held k' = k_held k"
    using held_terminate_process [OF k'] held_dealloc_user_resource [OF k2] by (simp add: upd_tcb_def)
  have "k_next_task k2 = k_next_task k"
    using sview_user_resource(2) [OF k2] by (simp add: sview_def upd_tcb_def)
  then show "k_next_task k' = k_next_task k" using l by (simp add: sview_def reaped_def Let_def upd_proc_def upd_tcb_def)
  show "pc_is_zombie (k_proc k' (tcb_process (sc_tcb k u)))"
    using l by (simp add: sview_def reaped_def Let_def upd_proc_def fun_eq_iff)
qed

text \<open>Context switches: the running thread is preempted, a ready thread is dispatched.\<close>

inductive switches :: "kernel \<Rightarrow> kernel \<Rightarrow> bool" for k where
  switches_none: "switches k k"
| switches_preempt: "switches k k1 \<Longrightarrow> suspend_current k1 = Inr k2 \<Longrightarrow> switches k k2"
| switches_dispatch: "switches k k1 \<Longrightarrow> sc_current k1 = None \<Longrightarrow> run_tasks_iter k1 = Dispatched k2 \<Longrightarrow> switches k k2"

lemma switches_keep:
  assumes "switches k k'"
  shows "k_held k' = k_held k \<and> k_next_task k' = k_next_task k \<and> k_proc k' = k_proc k
    \<and> (\<forall>t. tcb_process (sc_tcb k' t) = tcb_process (sc_tcb k t))"
  using assms
  by induction (auto simp: suspend_current_def take_current_task_def add_task_def set_status_def run_tasks_iter_def fetch_task_def
      unwrap_def split: option.splits list.splits)

text \<open>
  C39. A thread \<open>t\<close> of a process blocks in \<open>semaphore_down\<close>; after context switches the main thread
  \<open>u\<close> of the process exits, and after more context switches a thread of the parent calls \<open>waitpid\<close> for
  the process, which has no other child that has ended and matches. The process is a zombie then, but
  the pointer to it on the kernel stack of \<open>t\<close> is still there, and the kernel panics at the assertion
  of \<open>waitpid\<close> that it holds the last pointer.
\<close>

theorem semaphore_wait_leaks_process:
  assumes "sc_current k = Some t" "t < k_next_task k" "q = tcb_process (sc_tcb k t)"
    "sys_semaphore_down sem_id k = Inr (Leaves c, k1)" "switches k1 k2"
    "sc_current k2 = Some u" "tcb_process (sc_tcb k2 u) = q" "tcb_user_resource (sc_tcb k2 u) = Some ur" "ur_tid ur = 0"
    "exit_current exit_code k2 = Inr k3" "switches k3 k4" "current_process k4 = Inr p"
    "q \<in> set (pc_children (k_proc k4 p))" "pid_matches pid k4 q"
    "\<forall>d \<in> set (pc_children (k_proc k4 p)). pc_is_zombie (k_proc k4 d) \<and> pid_matches pid k4 d \<longrightarrow> d = q"
  shows "pc_is_zombie (k_proc k4 q) \<and> q \<in> set (k_held k4 t) \<and> sys_waitpid pid ptr k4 = Inl AssertionFailed"
proof -
  have k1: "q \<in> set (k_held k1 t)" "k_next_task k1 = k_next_task k"
    using assms(1,3,4) by (auto simp: sys_semaphore_down_def current_task_def hold_process_def ret_def Let_def put_semaphore_def
        upd_proc_def Semaphore_down_def block_current_def take_current_task_def set_status_def split: if_splits)
  note s = switches_keep [OF assms(5)] switches_keep [OF assms(11)]
  note e = exit_current_main [OF assms(10,6,8,9), unfolded assms(7)]
  have z: "pc_is_zombie (k_proc k4 q)" using e(3) s(2) by simp
  have h: "q \<in> set (k_held k4 t)" "t < k_next_task k4" using k1 e s assms(2) by simp_all
  let ?P = "\<lambda>d. pc_is_zombie (k_proc k4 d) \<and> pid_matches pid k4 d" and ?cs = "pc_children (k_proc k4 p)"
  obtain i where i: "find_index ?P ?cs = Some i"
    using z assms(13,14) find_index_None [of ?P ?cs] by (cases "find_index ?P ?cs") auto
  then have q: "?cs ! i = q" using assms(15) by (auto simp: find_index_Some)
  have "0 < strong_count q (upd_proc p (\<lambda>pcb. pcb\<lparr>pc_children := remove_at i ?cs\<rparr>) k4)"
    using h by (intro strong_count_held [of t]) (simp_all add: upd_proc_def)
  moreover have "list_ex (pid_matches pid k4) ?cs" using assms(13,14) by (auto simp: list_ex_iff)
  ultimately have "sys_waitpid pid ptr k4 = Inl AssertionFailed" using i q assms(12) by (simp add: sys_waitpid_def Let_def)
  then show ?thesis using z h by simp
qed

text \<open>
  Process 0 with thread 0 is the parent of process 1, whose main thread is thread 1; thread 2 of
  process 1 runs and its semaphore has no permits. The address spaces have no segments, so that there is
  nothing to unmap at the end of the process.
\<close>

definition kernel_pair :: kernel where
  "kernel_pair =
     (let a = \<lparr>as_page_table = \<lparr>pt_root_ppn = 1, pt_frames = []\<rparr>, as_segments = []\<rparr>;
          k = kernel0 a \<lparr>pm_mem = (\<lambda>_. 0), pm_frames = fa_new\<rparr>;
          tcb = (\<lambda>p tid ks st. tcb0\<lparr>tcb_process := p, tcb_kernel_stack := ks, tcb_status := st,
                   tcb_user_resource := Some \<lparr>ur_tid = tid, ur_user_stack_base = 0x10000, ur_process = p\<rparr>\<rparr>);
          pcb = (\<lambda>pid parent. fresh_pcb pid a parent [Some 0, Some 1, Some 2] SignalActionTable_default 0) in
      k\<lparr>sc_ready_queue := [1, 0], sc_current := Some 2,
        sc_tcb := (sc_tcb k)(0 := tcb 0 0 0 Ready, 1 := tcb 1 0 1 Ready, 2 := tcb 1 1 2 Running),
        k_next_proc := 2, k_next_task := 3, k_pid2pcb := [(0, 0), (1, 1)],
        k_pid_allocator := \<lparr>ra_current = 2, ra_recycled = []\<rparr>, k_kernel_stack_allocator := \<lparr>ra_current = 3, ra_recycled = []\<rparr>,
        k_proc := (k_proc k)
          (0 := (pcb 0 None)\<lparr>pc_children := [1], pc_tasks := [Some 0], pc_tid_allocator := \<lparr>ra_current = 1, ra_recycled = []\<rparr>\<rparr>,
           1 := (pcb 1 (Some 0))\<lparr>pc_tasks := [Some 1, Some 2], pc_tid_allocator := \<lparr>ra_current = 2, ra_recycled = []\<rparr>,
                   pc_semaphore_list := [Some (Semaphore_new 0)]\<rparr>)\<rparr>)"

lemmas kernel_pair_eval = kernel_pair_def kernel0_def Let_def tcb0_def fresh_pcb_def Semaphore_new_def

lemma kernel_pair_simps:
  "sc_ready_queue kernel_pair = [1, 0]" "sc_current kernel_pair = Some 2" "tm_timers kernel_pair = []"
  "k_next_proc kernel_pair = 2" "k_next_task kernel_pair = 3" "waiters_of (k_proc kernel_pair p) = []"
  "pc_is_zombie (k_proc kernel_pair p) = False"
  "pc_tasks (k_proc kernel_pair 0) = [Some 0]" "pc_tasks (k_proc kernel_pair (Suc 0)) = [Some 1, Some 2]"
  "pc_tid_allocator (k_proc kernel_pair 0) = \<lparr>ra_current = 1, ra_recycled = []\<rparr>"
  "pc_tid_allocator (k_proc kernel_pair (Suc 0)) = \<lparr>ra_current = 2, ra_recycled = []\<rparr>"
  "tcb_process (sc_tcb kernel_pair 0) = 0" "tcb_process (sc_tcb kernel_pair (Suc 0)) = 1" "tcb_process (sc_tcb kernel_pair 2) = 1"
  "tcb_exit_code (sc_tcb kernel_pair t) = None" "status kernel_pair 0 = Ready" "status kernel_pair (Suc 0) = Ready"
  "status kernel_pair 2 = Running"
  by (simp_all add: kernel_pair_eval waiters_of_def)

lemma kernel_pair_inv: "kernel_inv kernel_pair"
proof -
  have p: "places kernel_pair = {#0, 1, 2#}" "blocked kernel_pair = {#}"
    by (simp_all add: places_def blocked_def waiting_def kernel_pair_simps)
  have live: "live_process kernel_pair q \<longleftrightarrow> q = 0 \<or> q = Suc 0" for q by (auto simp: live_process_def kernel_pair_simps)
  have "tids_ok kernel_pair q" if "q = 0 \<or> q = Suc 0" for q
    using that by (auto simp: tids_ok_def kernel_pair_simps ra_inv_def ra_live_def less_Suc_eq less_2_cases_iff)
  moreover have "member_ok kernel_pair q t" if "q = 0 \<or> q = Suc 0" "Some t \<in> set (pc_tasks (k_proc kernel_pair q))" for q t
    using that by (auto simp: member_ok_def kernel_pair_simps p)
  moreover have "placed_ok kernel_pair t" if "t \<in># places kernel_pair" for t
    using that by (auto simp: placed_ok_def p live kernel_pair_simps)
  ultimately show ?thesis
    unfolding kernel_inv_def p live by (auto simp: kernel_pair_simps)
qed

definition kernel_pair_waits :: kernel where
  "kernel_pair_waits =
     hold_process 2 1 (put_semaphore 1 0 \<lparr>sem_count = - 1, sem_waiter_queue = [2]\<rparr>
       (set_status 2 Blocked (kernel_pair\<lparr>sc_current := None\<rparr>)))"

lemma kernel_pair_down: "sys_semaphore_down 0 kernel_pair = Inr (Leaves (CRet 0), kernel_pair_waits)"
  by (simp add: kernel_pair_waits_def sys_semaphore_down_def current_task_def get_slot_def index_def Semaphore_down_def
      block_current_def take_current_task_def) (simp add: kernel_pair_eval)

abbreviation run_first :: "nat \<Rightarrow> nat list \<Rightarrow> kernel \<Rightarrow> kernel" where
  "run_first t ts k \<equiv> (set_status t Running (k\<lparr>sc_ready_queue := ts\<rparr>))\<lparr>sc_current := Some t\<rparr>"

lemma switches_run_first: "sc_current k = None \<Longrightarrow> sc_ready_queue k = t # ts \<Longrightarrow> switches k (run_first t ts k)"
  by (rule switches_dispatch [OF switches_none]) (simp_all add: run_tasks_iter_def fetch_task_def)

lemma kernel_pair_exit:
  "\<exists>k3. exit_current 0 (run_first 1 [0] kernel_pair_waits) = Inr k3 \<and> sc_current k3 = None \<and> sc_ready_queue k3 = [0]
    \<and> tcb_process (sc_tcb k3 0) = 0 \<and> pc_children (k_proc k3 0) = [1]"
  by (simp add: exit_current_def take_current_task_def get_tid_def dealloc_user_resource_def remove_segment_with_start_vpn_def
      terminate_process_def remove_from_pid2process_def recycle_data_pages_def index_def remove_inactive_task_def remove_timer_def
      remove_task_eq upd_proc_def upd_tcb_def kernel_pair_waits_def hold_process_def put_semaphore_def set_status_def waiters_of_def
      kernel_pair_eval)

theorem semaphore_wait_leaks_process_witness:
  "\<exists>k2 k3 k4. kernel_inv kernel_pair \<and> sys_semaphore_down 0 kernel_pair = Inr (Leaves (CRet 0), kernel_pair_waits)
     \<and> switches kernel_pair_waits k2 \<and> exit_current 0 k2 = Inr k3 \<and> switches k3 k4
     \<and> sys_waitpid (- 1) 0x10000 k4 = Inl AssertionFailed"
proof -
  let ?k2 = "run_first 1 [0] kernel_pair_waits"
  obtain k3 where k3: "exit_current 0 ?k2 = Inr k3" "sc_current k3 = None" "sc_ready_queue k3 = [0]"
    "tcb_process (sc_tcb k3 0) = 0" "pc_children (k_proc k3 0) = [1]" using kernel_pair_exit by blast
  let ?k4 = "run_first 0 [] k3"
  have s: "switches kernel_pair_waits ?k2" "switches k3 ?k4"
    using k3 by (intro switches_run_first; simp add: kernel_pair_waits_def hold_process_def put_semaphore_def upd_proc_def
        set_status_def kernel_pair_eval)+
  have "sys_waitpid (- 1) 0x10000 ?k4 = Inl AssertionFailed"
    using semaphore_wait_leaks_process [where t = 2 and q = 1 and u = 1 and p = 0 and pid = "- 1" and ptr = "0x10000"
        and ur = "\<lparr>ur_tid = 0, ur_user_stack_base = 0x10000, ur_process = 1\<rparr>",
        OF _ _ _ kernel_pair_down s(1) _ _ _ _ k3(1) s(2)] k3(4,5)
    by (simp add: kernel_pair_waits_def hold_process_def put_semaphore_def upd_proc_def set_status_def current_process_def
        current_task_def pid_matches_def kernel_pair_eval)
  then show ?thesis using kernel_pair_inv kernel_pair_down s k3(1) by blast
qed

end
