(* ===== verification/File_Contents.thy ===== *)
theory File_Contents
  imports Easy_FS
begin

text \<open>
  The contents of a file as a client of the block cache sees them: which block holds a position of
  the file, through the direct, indirect and doubly indirect blocks of its inode, and that
  \<open>DiskInode::read_at\<close> and \<open>DiskInode::write_at\<close> read and write these contents and nothing else.
\<close>

section \<open>The blocks of a file\<close>

definition block_words :: "(usize \<Rightarrow> u8 list) \<Rightarrow> u32 \<Rightarrow> u32 list" where
  "block_words V b = decode_words 4 128 (V (ucast b))"

definition block_no :: "(usize \<Rightarrow> u8 list) \<Rightarrow> DiskInode \<Rightarrow> nat \<Rightarrow> u32" where
  "block_no V di n =
     (if n < DIRECT_BOUND then di_direct di ! n
      else if n < INDIRECT1_BOUND then block_words V (di_indirect1 di) ! (n - DIRECT_BOUND)
      else block_words V (block_words V (di_indirect2 di) ! ((n - INDIRECT1_BOUND) div INODE_INDIRECT1_COUNT))
             ! ((n - INDIRECT1_BOUND) mod INODE_INDIRECT1_COUNT))"

text \<open>The blocks that hold block numbers, for a file of \<open>n\<close> data blocks.\<close>

definition index_blocks :: "(usize \<Rightarrow> u8 list) \<Rightarrow> DiskInode \<Rightarrow> nat \<Rightarrow> u32 set" where
  "index_blocks V di n =
     (if n > DIRECT_BOUND then {di_indirect1 di} else {})
     \<union> (if n > INDIRECT1_BOUND
        then insert (di_indirect2 di)
          ((\<lambda>a. block_words V (di_indirect2 di) ! a) ` {a. a * INODE_INDIRECT1_COUNT < n - INDIRECT1_BOUND})
        else {})"

definition file_blocks :: "(usize \<Rightarrow> u8 list) \<Rightarrow> DiskInode \<Rightarrow> nat \<Rightarrow> u32 set" where
  "file_blocks V di n = block_no V di ` {..<n}"

text \<open>
  A well-formed file of \<open>n\<close> data blocks: its blocks are different, can be accessed, and do not hold
  block numbers of the file.
\<close>

definition file_ok :: "(usize \<times> bool) list \<Rightarrow> (usize \<Rightarrow> bool) \<Rightarrow> (usize \<Rightarrow> u8 list) \<Rightarrow> DiskInode \<Rightarrow> nat \<Rightarrow> bool" where
  "file_ok H D V di n \<longleftrightarrow>
     length (di_direct di) = INODE_DIRECT_COUNT \<and> n \<le> INDIRECT2_BOUND
     \<and> inj_on (block_no V di) {..<n} \<and> file_blocks V di n \<inter> index_blocks V di n = {}
     \<and> (\<forall>b \<in> file_blocks V di n \<union> index_blocks V di n. D (ucast b) \<and> ucast b \<notin> fst ` set H)"

definition file_byte :: "(usize \<Rightarrow> u8 list) \<Rightarrow> DiskInode \<Rightarrow> nat \<Rightarrow> u8" where
  "file_byte V di i = V (ucast (block_no V di (i div BLOCK_SZ))) ! (i mod BLOCK_SZ)"

definition file_bytes :: "(usize \<Rightarrow> u8 list) \<Rightarrow> DiskInode \<Rightarrow> nat \<Rightarrow> nat \<Rightarrow> u8 list" where
  "file_bytes V di i j = map (file_byte V di) [i..<j]"

lemma length_file_bytes [simp]: "length (file_bytes V di i j) = j - i"
  by (simp add: file_bytes_def)

lemma file_bytes_append: "i \<le> j \<Longrightarrow> j \<le> k \<Longrightarrow> file_bytes V di i j @ file_bytes V di j k = file_bytes V di i k"
  by (simp add: file_bytes_def flip: map_append) (metis upt_add_eq_append le_add_diff_inverse)

lemma unat_ucast_u32 [simp]: "unat (ucast (a :: u32) :: usize) = unat a"
proof -
  have "unat a < 2 ^ 32" using unat_less_2p [of a] by simp
  then show ?thesis by (simp add: unsigned_ucast_eq take_bit_nat_eq_self)
qed

lemma ucast_u32_inj: "ucast (a :: u32) = (ucast b :: usize) \<longleftrightarrow> a = b"
  by (metis unat_ucast_u32 word_unat_eq_iff)

lemma file_okD:
  assumes "file_ok H D V di n"
  shows "length (di_direct di) = 28" "n \<le> 16540" "inj_on (block_no V di) {..<n}"
    "i < n \<Longrightarrow> D (ucast (block_no V di i))" "i < n \<Longrightarrow> ucast (block_no V di i) \<notin> fst ` set H"
    "b \<in> index_blocks V di n \<Longrightarrow> D (ucast b)" "b \<in> index_blocks V di n \<Longrightarrow> ucast b \<notin> fst ` set H"
    "i < n \<Longrightarrow> block_no V di i \<notin> index_blocks V di n"
  using assms by (auto simp: file_ok_def file_blocks_def)

text \<open>The indirect blocks that lead to a data block of the file.\<close>

lemma index_blocks_lookup:
  assumes "i < n"
  shows "DIRECT_BOUND \<le> i \<Longrightarrow> di_indirect1 di \<in> index_blocks V di n"
    "INDIRECT1_BOUND \<le> i \<Longrightarrow> di_indirect2 di \<in> index_blocks V di n"
    "INDIRECT1_BOUND \<le> i \<Longrightarrow>
      block_words V (di_indirect2 di) ! ((i - INDIRECT1_BOUND) div INODE_INDIRECT1_COUNT) \<in> index_blocks V di n"
proof -
  show "DIRECT_BOUND \<le> i \<Longrightarrow> di_indirect1 di \<in> index_blocks V di n"
    "INDIRECT1_BOUND \<le> i \<Longrightarrow> di_indirect2 di \<in> index_blocks V di n"
    using assms by (auto simp: index_blocks_def)
  assume i: "INDIRECT1_BOUND \<le> i"
  have "(i - 156) div 128 * 128 \<le> i - 156" by simp
  also have "\<dots> < n - 156" using assms i by simp
  finally show "block_words V (di_indirect2 di) ! ((i - INDIRECT1_BOUND) div INODE_INDIRECT1_COUNT) \<in> index_blocks V di n"
    using assms i by (auto simp: index_blocks_def)
qed

text \<open>What the block numbers depend on.\<close>

lemma block_no_cong:
  assumes "i < n" "\<forall>b \<in> index_blocks V di n. V' (ucast b) = V (ucast b)"
  shows "block_no V' di i = block_no V di i"
proof -
  have "block_words V' b = block_words V b" if "b \<in> index_blocks V di n" for b
    using assms(2) that by (simp add: block_words_def)
  note w = this
  show ?thesis
    using w [OF index_blocks_lookup(1) [OF assms(1)]] w [OF index_blocks_lookup(2) [OF assms(1)]]
      w [OF index_blocks_lookup(3) [OF assms(1)]]
    by (auto simp: block_no_def)
qed

lemma index_blocks_cong:
  assumes "\<forall>b \<in> index_blocks V di n. V' (ucast b) = V (ucast b)"
  shows "index_blocks V' di n = index_blocks V di n"
proof (cases "n > 156")
  case True
  then have "di_indirect2 di \<in> index_blocks V di n" by (simp add: index_blocks_def)
  then have "block_words V' (di_indirect2 di) = block_words V (di_indirect2 di)" using assms by (simp add: block_words_def)
  then show ?thesis by (simp add: index_blocks_def)
qed (simp add: index_blocks_def)

lemma file_ok_cong:
  assumes "file_ok H D V di n" "\<forall>b \<in> index_blocks V di n. V' (ucast b) = V (ucast b)"
  shows "file_ok H D V' di n"
proof -
  have b: "block_no V' di i = block_no V di i" if "i < n" for i by (rule block_no_cong [OF that assms(2)])
  have "file_blocks V' di n = file_blocks V di n" using b by (auto simp: file_blocks_def)
  moreover have "inj_on (block_no V' di) {..<n} = inj_on (block_no V di) {..<n}" using b by (auto simp: inj_on_def)
  moreover have "index_blocks V' di n = index_blocks V di n" by (rule index_blocks_cong [OF assms(2)])
  ultimately show ?thesis using assms(1) by (simp add: file_ok_def)
qed

section \<open>The part of a block that holds a piece of the file\<close>

abbreviation (input) next_block :: "nat \<Rightarrow> nat" where "next_block i \<equiv> (i div BLOCK_SZ + 1) * BLOCK_SZ"

lemma block_offset: "i < next_block i" "i - i mod BLOCK_SZ = i div BLOCK_SZ * BLOCK_SZ"
  "i \<le> j \<Longrightarrow> j < next_block i \<Longrightarrow> j div BLOCK_SZ = i div BLOCK_SZ \<and> j mod BLOCK_SZ = i mod BLOCK_SZ + (j - i)" for i j :: nat
proof -
  show "i < next_block i" by (simp add: dividend_less_div_times)
  show "i - i mod BLOCK_SZ = i div BLOCK_SZ * BLOCK_SZ" by (simp add: minus_mod_eq_div_mult)
  assume "i \<le> j" "j < next_block i"
  then have "i div 512 \<le> j div 512" "j div 512 < i div 512 + 1"
    by (simp_all only: div_le_mono less_mult_imp_div_less)
  then have "j div 512 = i div 512" by simp
  moreover have "i = i div 512 * 512 + i mod 512" "j = j div 512 * 512 + j mod 512" by simp_all
  ultimately show "j div BLOCK_SZ = i div BLOCK_SZ \<and> j mod BLOCK_SZ = i mod BLOCK_SZ + (j - i)"
    using \<open>i \<le> j\<close> by linarith
qed

lemma piece_fits: "i mod BLOCK_SZ + (j - i) \<le> BLOCK_SZ" if "j \<le> next_block i" for i j :: nat
proof -
  have "m + (j - (q * 512 + m)) \<le> 512" if "j \<le> (q + 1) * 512" "m < 512" for q m :: nat using that by simp
  from this [of "i div 512" "i mod 512"] that show ?thesis by simp
qed

lemma block_piece:
  assumes "i \<le> j" "j \<le> next_block i" "length (V (ucast (block_no V di (i div BLOCK_SZ)))) = BLOCK_SZ"
  shows "take (j - i) (drop (i mod BLOCK_SZ) (V (ucast (block_no V di (i div BLOCK_SZ))))) = file_bytes V di i j"
proof (rule nth_equalityI)
  have "i mod 512 + (j - i) \<le> 512" by (rule piece_fits [OF assms(2)])
  then show len: "length (take (j - i) (drop (i mod BLOCK_SZ) (V (ucast (block_no V di (i div BLOCK_SZ))))))
      = length (file_bytes V di i j)"
    using assms(3) by simp
  fix k assume k: "k < length (take (j - i) (drop (i mod BLOCK_SZ) (V (ucast (block_no V di (i div BLOCK_SZ))))))"
  then have "k < j - i" by simp
  then have "i + k < next_block i" "i \<le> i + k" using assms(2) by simp_all
  with block_offset(3) [of i "i + k"] \<open>k < j - i\<close> k
  show "take (j - i) (drop (i mod BLOCK_SZ) (V (ucast (block_no V di (i div BLOCK_SZ))))) ! k = file_bytes V di i j ! k"
    by (simp add: file_bytes_def file_byte_def)
qed

lemma nth_put_bytes:
  assumes "a + m \<le> length xs" "length ys = m"
  shows "put_bytes a ys xs ! j = (if a \<le> j \<and> j < a + m then ys ! (j - a) else xs ! j)"
proof -
  have "j - a < m \<longleftrightarrow> j < a + m" if "a \<le> j" using that by linarith
  then show ?thesis using assms by (cases "a \<le> j") (simp_all add: put_bytes_def nth_append)
qed

text \<open>The effect of writing a piece into one block of a file.\<close>

lemma write_piece:
  assumes "file_ok H D V di n" "cur < e" "e \<le> next_block cur" "cur div BLOCK_SZ < n" "length piece = e - cur"
    "length (V (ucast (block_no V di (cur div BLOCK_SZ)))) = BLOCK_SZ"
    "b = ucast (block_no V di (cur div BLOCK_SZ))" "V' = V(b := put_bytes (cur mod BLOCK_SZ) piece (V b))"
  shows "file_ok H D V' di n" "i < n * BLOCK_SZ \<Longrightarrow>
    file_byte V' di i = (if cur \<le> i \<and> i < e then piece ! (i - cur) else file_byte V di i)"
    "file_blocks V' di n = file_blocks V di n" "length (V' b) = BLOCK_SZ"
proof -
  have same: "\<forall>x \<in> index_blocks V di n. V' (ucast x) = V (ucast x)"
    using file_okD(8) [OF assms(1,4)] by (auto simp: assms(7,8) ucast_u32_inj)
  show "file_ok H D V' di n" by (rule file_ok_cong [OF assms(1) same])
  have no: "block_no V' di k = block_no V di k" if "k < n" for k by (rule block_no_cong [OF that same])
  then show "file_blocks V' di n = file_blocks V di n" by (auto simp: file_blocks_def)
  have fits: "cur mod 512 + (e - cur) \<le> 512" by (rule piece_fits [OF assms(3)])
  then show "length (V' b) = BLOCK_SZ" using assms(5,6) by (simp add: assms(7,8) length_put_bytes)
  assume i: "i < n * BLOCK_SZ"
  then have k: "i div 512 < n" by (simp add: less_mult_imp_div_less)
  show "file_byte V' di i = (if cur \<le> i \<and> i < e then piece ! (i - cur) else file_byte V di i)"
  proof (cases "i div 512 = cur div 512")
    case True
    have d: "i = cur div 512 * 512 + i mod 512" "cur = cur div 512 * 512 + cur mod 512"
      using True div_mult_mod_eq [of i 512] by simp_all
    then have in_piece: "cur \<le> i \<and> i < e \<longleftrightarrow> cur mod 512 \<le> i mod 512 \<and> i mod 512 < cur mod 512 + (e - cur)"
      "i - cur = i mod 512 - cur mod 512" using assms(2) by linarith+
    have "file_byte V' di i = put_bytes (cur mod 512) piece (V b) ! (i mod 512)"
      using True no [OF k] by (simp add: file_byte_def assms(7,8))
    also have "\<dots> = (if cur mod 512 \<le> i mod 512 \<and> i mod 512 < cur mod 512 + (e - cur)
        then piece ! (i mod 512 - cur mod 512) else V b ! (i mod 512))"
      using fits assms(5,6,7) by (intro nth_put_bytes) simp_all
    finally show ?thesis using in_piece True by (simp add: file_byte_def assms(7))
  next
    case False
    then have "block_no V di (i div 512) \<noteq> block_no V di (cur div 512)"
      using inj_onD [OF file_okD(3) [OF assms(1)]] k assms(4) by auto
    then have "V' (ucast (block_no V di (i div 512))) = V (ucast (block_no V di (i div 512)))"
      by (simp add: assms(7,8) ucast_u32_inj)
    moreover have "\<not> (cur \<le> i \<and> i < e)" using False block_offset(3) [of cur i] assms(3) by auto
    ultimately show ?thesis using no [OF k] by (auto simp: file_byte_def)
  qed
qed

section \<open>Reading\<close>

context block_device
begin

lemma read_data:
  assumes "rep bd valid H D V st" "length H < BLOCK_CACHE_SIZE" "D i" "i \<notin> fst ` set H"
    "post (g (V i)) (\<lambda>r. \<forall>st'. rep bd valid H D V st' \<longrightarrow> Q (r, st'))"
  shows "post (BlockCache_read bd i DataBlock_codec 0 (closure_ref g) st) Q"
  using assms(5) rep_length [OF assms(1,3)] by (intro read_pure [OF assms(1-4)]) (simp_all add: DataBlock_codec_def)

lemma modify_data:
  assumes "rep bd valid H D V st" "length H < BLOCK_CACHE_SIZE" "D i" "i \<notin> fst ` set H"
    "post (g (V i)) (\<lambda>(r, b). length b = BLOCK_SZ \<and> (\<forall>st'. rep bd valid H D (V(i := b)) st' \<longrightarrow> Q (r, st')))"
  shows "post (BlockCache_modify bd i DataBlock_codec 0 (closure_mut g) st) Q"
  using assms(5) rep_length [OF assms(1,3)]
  by (intro modify_pure [OF assms(1-4)]) (simp_all add: DataBlock_codec_def, elim post_mono, auto simp: put_bytes_def)

lemma read_indirect_ok:
  assumes "rep bd valid H D V st" "length H < BLOCK_CACHE_SIZE" "D (ucast b)" "ucast b \<notin> fst ` set H" "i < 128"
  shows "post (read_indirect bd b i st) (\<lambda>(x, st'). x = block_words V b ! i \<and> rep bd valid H D V st')"
  unfolding read_indirect_def IndirectBlock_codec_def
  by (rule read_words [OF assms(1-4)]) (simp_all add: index_def assms(5) block_words_def)

lemma get_disk_id_ok:
  assumes "rep bd valid H D V st" "length H < BLOCK_CACHE_SIZE" "file_ok H D V di n" "i < n"
  shows "post (get_disk_id bd di (of_nat i) st) (\<lambda>(x, st'). x = block_no V di i \<and> rep bd valid H D V st')"
proof -
  note f = file_okD [OF assms(3)]
  have u: "unat (of_nat i :: u32) = i" using assms(4) f(2) by (simp add: unat_of_nat)
  have ind: "D (ucast b)" "ucast b \<notin> fst ` set H" if "b \<in> index_blocks V di n" for b using f(6,7) that by auto
  note lookup = index_blocks_lookup [OF assms(4), where di = di and V = V]
  consider "i < 28" | "28 \<le> i" "i < 156" | "156 \<le> i" by linarith
  then show ?thesis
  proof cases
    case 1
    then show ?thesis using assms(1) f(1) by (simp add: get_disk_id_def u block_no_def index_def)
  next
    case 2
    then show ?thesis
      using read_indirect_ok [OF assms(1,2) ind [OF lookup(1)], of "i - 28"] by (simp add: get_disk_id_def u block_no_def)
  next
    case 3
    let ?a = "(i - 156) div 128" and ?b = "(i - 156) mod 128"
    have a: "?a < 128" using assms(4) f(2) by (simp add: less_mult_imp_div_less)
    have "post (read_indirect bd (di_indirect2 di) ?a st) (\<lambda>(x, st'). x = block_words V (di_indirect2 di) ! ?a \<and> rep bd valid H D V st')"
      using read_indirect_ok [OF assms(1,2) ind [OF lookup(2)] a] 3 by simp
    then have "post (read_indirect bd (di_indirect2 di) ?a st) (\<lambda>(x, st1). post (read_indirect bd x ?b st1)
        (\<lambda>(x, st'). x = block_no V di i \<and> rep bd valid H D V st'))"
    proof (rule post_mono, clarify)
      fix st1 assume "rep bd valid H D V st1"
      from read_indirect_ok [OF this assms(2) ind [OF lookup(3)], of ?b]
      show "post (read_indirect bd (block_words V (di_indirect2 di) ! ?a) ?b st1) (\<lambda>(x, st'). x = block_no V di i \<and> rep bd valid H D V st')"
        using 3 by (simp add: block_no_def)
    qed
    then show ?thesis using 3 by (simp add: get_disk_id_def u case_prod_unfold)
  qed
qed


lemma inode_read_loop_ok:
  assumes "rep bd valid H D V st" "length H < BLOCK_CACHE_SIZE" "file_ok H D V di n" "cur < stop" "stop \<le> n * BLOCK_SZ"
  shows "post (inode_read_loop bd di cur stop st) (\<lambda>(bs, st'). bs = file_bytes V di cur stop \<and> rep bd valid H D V st')"
  using assms(1,4)
proof (induction "stop - cur" arbitrary: cur st rule: less_induct)
  case less
  let ?e = "min (next_block cur) stop" and ?b = "ucast (block_no V di (cur div BLOCK_SZ)) :: usize"
  have blk: "cur div BLOCK_SZ < n" using less.prems(2) assms(5) by (simp add: less_mult_imp_div_less)
  have e: "cur < ?e" using block_offset(1) [of cur] less.prems(2) by simp
  note f = file_okD(4,5) [OF assms(3) blk]
  have len: "length (V ?b) = BLOCK_SZ" using rep_length [OF less.prems(1) f(1)] .
  have piece: "take (?e - cur) (drop (cur mod BLOCK_SZ) (V ?b)) = file_bytes V di cur ?e"
    using e len by (intro block_piece) simp_all
  have rd: "post (BlockCache_read bd ?b DataBlock_codec 0 (closure_ref (\<lambda>data_block.
      Inr (take (?e - cur) (drop (cur mod BLOCK_SZ) data_block)))) st1) (\<lambda>(src, st'). src = file_bytes V di cur ?e \<and> rep bd valid H D V st')"
    if "rep bd valid H D V st1" for st1
    using piece by (intro read_data [OF that assms(2) f]) simp
  have rest: "post (if ?e = stop then Inr (file_bytes V di cur ?e, st2)
      else rbind (inode_read_loop bd di ?e stop st2) (\<lambda>(rest, st). Inr (file_bytes V di cur ?e @ rest, st)))
      (\<lambda>(bs, st'). bs = file_bytes V di cur stop \<and> rep bd valid H D V st')"
    if r: "rep bd valid H D V st2" for st2
  proof (cases "?e = stop")
    case False
    then have "?e < stop" by simp
    then have "post (inode_read_loop bd di ?e stop st2) (\<lambda>(bs, st'). bs = file_bytes V di ?e stop \<and> rep bd valid H D V st')"
      using e r by (intro less.hyps) simp_all
    then show ?thesis
      using False e file_bytes_append [of cur ?e stop V di]
      by (simp only: if_False post_rbind) (erule post_mono, auto)
  qed (use r in simp)
  show ?case
    unfolding inode_read_loop.simps [of bd di cur stop st] Let_def post_rbind
    by (rule post_mono [OF get_disk_id_ok [OF less.prems(1) assms(2,3) blk]])
      (clarsimp simp only: prod.case post_rbind, rule post_mono [OF rd], assumption, clarsimp simp only: prod.case, rule rest)
qed

lemma DiskInode_read_at_ok:
  assumes "rep bd valid H D V st" "length H < BLOCK_CACHE_SIZE" "file_ok H D V di n" "unat (di_size di) \<le> n * BLOCK_SZ"
    "unat offset + unat len < 2 ^ 64"
  shows "post (DiskInode_read_at bd di offset len st) (\<lambda>(bs, st').
    bs = file_bytes V di (unat offset) (min (unat offset + unat len) (unat (di_size di))) \<and> rep bd valid H D V st')"
proof -
  have u: "unat (offset + len) = unat offset + unat len" using assms(5) by (simp add: unat_word_ariths)
  show ?thesis
    using assms(1,4) inode_read_loop_ok [OF assms(1-3), of "unat offset" "min (unat offset + unat len) (unat (di_size di))"]
    by (auto simp: DiskInode_read_at_def Let_def u file_bytes_def not_le)
qed

section \<open>Writing\<close>

lemma inode_write_loop_ok:
  assumes "rep bd valid H D V st" "length H < BLOCK_CACHE_SIZE" "file_ok H D V di n" "cur < stop" "stop \<le> n * BLOCK_SZ"
    "stop - cur \<le> length buf"
  shows "post (inode_write_loop bd di cur stop buf st) (\<lambda>(m, st'). m = stop - cur \<and> (\<exists>V'. rep bd valid H D V' st' \<and> file_ok H D V' di n
    \<and> (\<forall>i < n * BLOCK_SZ. file_byte V' di i = (if cur \<le> i \<and> i < stop then buf ! (i - cur) else file_byte V di i))
    \<and> (\<forall>b. b \<notin> ucast ` file_blocks V di n \<longrightarrow> V' b = V b)))"
  using assms(1,3,4,6)
proof (induction "stop - cur" arbitrary: cur buf V st rule: less_induct)
  case less
  let ?e = "min (next_block cur) stop" and ?b = "ucast (block_no V di (cur div BLOCK_SZ)) :: usize"
  let ?piece = "take (?e - cur) buf"
  define V1 where "V1 = V(?b := put_bytes (cur mod BLOCK_SZ) ?piece (V ?b))"
  have blk: "cur div BLOCK_SZ < n" using less.prems(3) assms(5) by (simp add: less_mult_imp_div_less)
  have e: "cur < ?e" using block_offset(1) [of cur] less.prems(3) by simp
  note f = file_okD(4,5) [OF less.prems(2) blk]
  have len: "length (V ?b) = BLOCK_SZ" using rep_length [OF less.prems(1) f(1)] .
  have lp: "length ?piece = ?e - cur" using less.prems(4) by auto
  note w = write_piece [OF less.prems(2) e _ blk lp len refl V1_def]
  have v1: "b \<notin> ucast ` file_blocks V di n \<Longrightarrow> V1 b = V b" for b
    using blk by (auto simp: V1_def file_blocks_def)
  have wr: "post (BlockCache_modify bd ?b DataBlock_codec 0 (closure_mut (\<lambda>data_block.
      Inr ((), put_bytes (cur mod BLOCK_SZ) ?piece data_block))) st1) (\<lambda>(_, st'). rep bd valid H D V1 st')"
    if "rep bd valid H D V st1" for st1
    using w(4) by (intro modify_data [OF that assms(2) f]) (simp_all add: V1_def)
  have rest: "post (if ?e = stop then Inr (?e - cur, st2)
      else rbind (inode_write_loop bd di ?e stop (drop (?e - cur) buf) st2) (\<lambda>(m, st). Inr (?e - cur + m, st)))
      (\<lambda>(m, st'). m = stop - cur \<and> (\<exists>V'. rep bd valid H D V' st' \<and> file_ok H D V' di n
        \<and> (\<forall>i < n * BLOCK_SZ. file_byte V' di i = (if cur \<le> i \<and> i < stop then buf ! (i - cur) else file_byte V di i))
        \<and> (\<forall>b. b \<notin> ucast ` file_blocks V di n \<longrightarrow> V' b = V b)))"
    if r: "rep bd valid H D V1 st2" for st2
  proof (cases "?e = stop")
    case True
    then show ?thesis using r w(1,2) v1 by (auto intro!: exI [of _ V1])
  next
    case False
    then have lt: "?e < stop" by simp
    have "post (inode_write_loop bd di ?e stop (drop (?e - cur) buf) st2) (\<lambda>(m, st'). m = stop - ?e \<and> (\<exists>V'. rep bd valid H D V' st'
        \<and> file_ok H D V' di n
        \<and> (\<forall>i < n * BLOCK_SZ. file_byte V' di i = (if ?e \<le> i \<and> i < stop then drop (?e - cur) buf ! (i - ?e) else file_byte V1 di i))
        \<and> (\<forall>b. b \<notin> ucast ` file_blocks V1 di n \<longrightarrow> V' b = V1 b)))"
      using e lt r w(1) less.prems(4) by (intro less.hyps) simp_all
    then show ?thesis
      using False
    proof (simp only: if_False post_rbind, elim post_mono, clarsimp simp only: prod.case post_simps, intro conjI)
      fix V' st'
      assume V': "rep bd valid H D V' st'" "file_ok H D V' di n"
        "\<forall>i < n * BLOCK_SZ. file_byte V' di i = (if ?e \<le> i \<and> i < stop then drop (?e - cur) buf ! (i - ?e) else file_byte V1 di i)"
        "\<forall>b. b \<notin> ucast ` file_blocks V1 di n \<longrightarrow> V' b = V1 b"
      show "?e - cur + (stop - ?e) = stop - cur" using e by simp
      have "file_byte V' di i = (if cur \<le> i \<and> i < stop then buf ! (i - cur) else file_byte V di i)" if "i < n * BLOCK_SZ" for i
        using V'(3) w(2) [OF _ that] that e less.prems(4) by auto
      moreover have "V' b = V b" if "b \<notin> ucast ` file_blocks V di n" for b
        using V'(4) v1 [OF that] that w(3) by simp
      ultimately show "\<exists>V'. rep bd valid H D V' st' \<and> file_ok H D V' di n
        \<and> (\<forall>i < n * BLOCK_SZ. file_byte V' di i = (if cur \<le> i \<and> i < stop then buf ! (i - cur) else file_byte V di i))
        \<and> (\<forall>b. b \<notin> ucast ` file_blocks V di n \<longrightarrow> V' b = V b)"
        using V'(1,2) by blast
    qed
  qed
  show ?case
    unfolding inode_write_loop.simps [of bd di cur stop buf st] Let_def post_rbind
    by (rule post_mono [OF get_disk_id_ok [OF less.prems(1) assms(2) less.prems(2) blk]])
      (clarsimp simp only: prod.case post_rbind, rule post_mono [OF wr], assumption, clarsimp simp only: prod.case, rule rest)
qed

end

end
