(* ===== verification/File_Growth.thy ===== *)
theory File_Growth
  imports File_Contents
begin

text \<open>
  How a file grows. Appending one data block to a file, with the indirect blocks it needs, is a
  function on what clients of the block cache see; \<open>DiskInode::increase_size\<close>, which fills the
  direct, indirect and doubly indirect parts in three loops, is the iteration of it.
\<close>

section \<open>Well-formed files\<close>

definition data_list :: "(usize \<Rightarrow> u8 list) \<Rightarrow> DiskInode \<Rightarrow> nat \<Rightarrow> u32 list" where
  "data_list V di n = map (block_no V di) [0..<n]"

definition indirect_count :: "nat \<Rightarrow> nat" where
  "indirect_count n = (n - INDIRECT1_BOUND + (INODE_INDIRECT1_COUNT - 1)) div INODE_INDIRECT1_COUNT"

definition index_list :: "(usize \<Rightarrow> u8 list) \<Rightarrow> DiskInode \<Rightarrow> nat \<Rightarrow> u32 list" where
  "index_list V di n =
     (if n > DIRECT_BOUND then [di_indirect1 di] else [])
     @ (if n > INDIRECT1_BOUND then di_indirect2 di # take (indirect_count n) (block_words V (di_indirect2 di)) else [])"

definition blocks_of :: "(usize \<Rightarrow> u8 list) \<Rightarrow> DiskInode \<Rightarrow> nat \<Rightarrow> u32 set" where
  "blocks_of V di n = set (data_list V di n) \<union> set (index_list V di n)"

definition file_wf :: "(usize \<Rightarrow> u8 list) \<Rightarrow> DiskInode \<Rightarrow> nat \<Rightarrow> bool" where
  "file_wf V di n \<longleftrightarrow> length (di_direct di) = INODE_DIRECT_COUNT \<and> n \<le> INDIRECT2_BOUND
     \<and> distinct (data_list V di n) \<and> distinct (index_list V di n)
     \<and> set (data_list V di n) \<inter> set (index_list V di n) = {}"

lemma length_block_words [simp]: "length (block_words V b) = 128"
  by (simp add: block_words_def)

lemma data_list_Suc: "data_list V di (Suc n) = data_list V di n @ [block_no V di n]"
  by (simp add: data_list_def)

lemma length_data_list [simp]: "length (data_list V di n) = n"
  by (simp add: data_list_def)

lemma data_list_cong: "(\<And>i. i < n \<Longrightarrow> block_no V' di' i = block_no V di i) \<Longrightarrow> data_list V' di' n = data_list V di n"
  by (simp add: data_list_def)

lemma set_index_list: "n \<le> INDIRECT2_BOUND \<Longrightarrow> set (index_list V di n) = index_blocks V di n"
proof -
  assume n: "n \<le> INDIRECT2_BOUND"
  have c: "a < indirect_count n \<longleftrightarrow> a * 128 < n - 156" for a by (auto simp: indirect_count_def)
  have "indirect_count n \<le> 128" using n by (simp add: indirect_count_def)
  then have "set (take (indirect_count n) ws) = (\<lambda>a. ws ! a) ` {a. a * 128 < n - 156}" if "length ws = 128" for ws :: "u32 list"
    using that c by (simp flip: nth_image add: atLeast0LessThan lessThan_def)
  then show ?thesis by (auto simp: index_list_def index_blocks_def)
qed

lemma file_wf_ok:
  assumes "file_wf V di n" "\<forall>b \<in> blocks_of V di n. D (ucast b) \<and> ucast b \<notin> fst ` set H"
  shows "file_ok H D V di n"
  using assms set_index_list [of n V di]
  by (auto simp: file_wf_def file_ok_def blocks_of_def file_blocks_def data_list_def distinct_map lessThan_atLeast0)

section \<open>Appending a block\<close>

definition set_word :: "u32 \<Rightarrow> nat \<Rightarrow> u32 \<Rightarrow> (usize \<Rightarrow> u8 list) \<Rightarrow> usize \<Rightarrow> u8 list" where
  "set_word b i w V = V(ucast b := encode_words 4 ((block_words V b)[i := w]))"

type_synonym growing = "(usize \<Rightarrow> u8 list) \<times> DiskInode \<times> u32 list"

text \<open>The indirect block of the inode that block \<open>n\<close> is the first to use.\<close>

definition assign_index :: "nat \<Rightarrow> growing \<Rightarrow> growing" where
  "assign_index n = (\<lambda>(V, di, v).
     if n = DIRECT_BOUND then (V, di\<lparr>di_indirect1 := hd v\<rparr>, tl v)
     else if n = INDIRECT1_BOUND then (V, di\<lparr>di_indirect2 := hd v\<rparr>, tl v)
     else (V, di, v))"

definition put_block :: "nat \<Rightarrow> growing \<Rightarrow> growing" where
  "put_block n = (\<lambda>(V, di, v).
     if n < DIRECT_BOUND then (V, di\<lparr>di_direct := (di_direct di)[n := hd v]\<rparr>, tl v)
     else if n < INDIRECT1_BOUND then (set_word (di_indirect1 di) (n - DIRECT_BOUND) (hd v) V, di, tl v)
     else
       let a = (n - INDIRECT1_BOUND) div INODE_INDIRECT1_COUNT; b = (n - INDIRECT1_BOUND) mod INODE_INDIRECT1_COUNT;
           (V, v) = (if b = 0 then (set_word (di_indirect2 di) a (hd v) V, tl v) else (V, v))
       in (set_word (block_words V (di_indirect2 di) ! a) b (hd v) V, di, tl v))"

definition append_block :: "nat \<Rightarrow> growing \<Rightarrow> growing" where
  "append_block n s = put_block n (assign_index n s)"

fun grow :: "nat \<Rightarrow> nat \<Rightarrow> growing \<Rightarrow> growing" where
  "grow 0 n s = s"
| "grow (Suc m) n s = grow m (n + 1) (append_block n s)"

text \<open>The number of blocks that appending data block \<open>n\<close> takes.\<close>

definition block_need :: "nat \<Rightarrow> nat" where
  "block_need n = 1 + (if n = DIRECT_BOUND \<or> n = INDIRECT1_BOUND then 1 else 0)
     + (if INDIRECT1_BOUND \<le> n \<and> (n - INDIRECT1_BOUND) mod INODE_INDIRECT1_COUNT = 0 then 1 else 0)"

lemma block_words_set_word:
  "i < 128 \<Longrightarrow> block_words (set_word b i w V) c = (if c = b then (block_words V b)[i := w] else block_words V c)"
  by (simp add: set_word_def block_words_def ucast_u32_inj decode_encode_words)

lemma set_word_other: "c \<noteq> ucast b \<Longrightarrow> set_word b i w V c = V c"
  by (simp add: set_word_def)

lemma length_set_word: "length (V c) = BLOCK_SZ \<Longrightarrow> length (set_word b i w V c) = BLOCK_SZ"
  by (simp add: set_word_def)

lemma round_up_128: "(x + 127) div 128 = x div 128 + (if x mod 128 = 0 then 0 else 1)" for x :: nat
proof -
  have "(x mod 128 + 127) div 128 = (if x mod 128 = 0 then 0 else 1)" by (auto intro: div_nat_eqI)
  then show ?thesis by (simp add: div_add1_eq [of x 127])
qed

lemma round_up_Suc: "(Suc x + 127) div 128 = (x + 127) div 128 + (if x mod 128 = 0 then 1 else 0)" for x :: nat
  using div_add_self2 [of 128 x] by (simp add: round_up_128 [of x] add.commute)

lemma indirect_count_Suc:
  "indirect_count (Suc n) = indirect_count n + (if INDIRECT1_BOUND \<le> n \<and> (n - INDIRECT1_BOUND) mod INODE_INDIRECT1_COUNT = 0 then 1 else 0)"
proof (cases "156 \<le> n")
  case True
  have "indirect_count (Suc n) = (Suc (n - 156) + 127) div 128" using True by (simp add: indirect_count_def Suc_diff_le)
  also have "\<dots> = indirect_count n + (if (n - 156) mod 128 = 0 then 1 else 0)"
    by (simp only: round_up_Suc) (simp add: indirect_count_def)
  finally show ?thesis using True by simp
qed (simp add: indirect_count_def)

lemma indirect_count_div:
  "indirect_count n = (n - INDIRECT1_BOUND) div INODE_INDIRECT1_COUNT
     + (if (n - INDIRECT1_BOUND) mod INODE_INDIRECT1_COUNT = 0 then 0 else 1)"
  using round_up_128 [of "n - 156"] by (simp add: indirect_count_def)

lemma total_blocks_eq: "total_blocks_of n = n + (if n > DIRECT_BOUND then 1 else 0) + (if n > INDIRECT1_BOUND then 1 + indirect_count n else 0)"
  by (simp add: total_blocks_of_def indirect_count_def)

lemma total_blocks_Suc: "total_blocks_of (Suc n) = total_blocks_of n + block_need n"
  by (auto simp: total_blocks_eq indirect_count_Suc block_need_def) (simp add: indirect_count_def)

lemma append_direct:
  assumes "file_wf V di n" "n < DIRECT_BOUND" "block_need n \<le> length v"
  shows "append_block n (V, di, v) = (V, di\<lparr>di_direct := (di_direct di)[n := hd v]\<rparr>, tl v)"
    "data_list V (di\<lparr>di_direct := (di_direct di)[n := hd v]\<rparr>) (Suc n) = data_list V di n @ [hd v]"
  using assms by (auto simp: append_block_def assign_index_def put_block_def data_list_def file_wf_def block_no_def)

lemma append_indirect1:
  assumes "file_wf V di n" "DIRECT_BOUND \<le> n" "n < INDIRECT1_BOUND" "V' = set_word i (n - DIRECT_BOUND) w V"
    "n = DIRECT_BOUND \<or> i = di_indirect1 di"
  shows "data_list V' (di\<lparr>di_indirect1 := i\<rparr>) (Suc n) = data_list V di n @ [w]"
proof -
  have "block_no V' (di\<lparr>di_indirect1 := i\<rparr>) k = block_no V di k" if "k < n" for k
    using assms that by (auto simp: block_no_def block_words_set_word)
  moreover have "block_no V' (di\<lparr>di_indirect1 := i\<rparr>) n = w"
    using assms by (simp add: block_no_def block_words_set_word)
  ultimately show ?thesis using data_list_cong [of n V' "di\<lparr>di_indirect1 := i\<rparr>" V di] by (simp add: data_list_Suc)
qed


lemma append_indirect2:
  assumes "file_wf V di n" "INDIRECT1_BOUND \<le> n" "n < INDIRECT2_BOUND" "n = INDIRECT1_BOUND \<or> i2 = di_indirect2 di"
    "a = (n - INDIRECT1_BOUND) div INODE_INDIRECT1_COUNT" "b = (n - INDIRECT1_BOUND) mod INODE_INDIRECT1_COUNT"
    "V1 = (if b = 0 then set_word i2 a i1 V else V)" "block_words V1 i2 ! a = i1" "V' = set_word i1 b w V1"
    "i1 \<noteq> i2" "di_indirect1 di \<noteq> i1" "di_indirect1 di \<noteq> i2" "b = 0 \<Longrightarrow> i1 \<notin> set (index_list V di n)"
  shows "data_list V' (di\<lparr>di_indirect2 := i2\<rparr>) (Suc n) = data_list V di n @ [w]"
    "index_list V' (di\<lparr>di_indirect2 := i2\<rparr>) (Suc n)
      = index_list V di n @ (if n = INDIRECT1_BOUND then [i2] else []) @ (if b = 0 then [i1] else [])"
proof -
  let ?W = "block_words V i2" and ?di = "di\<lparr>di_indirect2 := i2\<rparr>"
  have ab: "a < 128" "b < 128" "n = 156 + a * 128 + b" using assms(2,3,5,6) by auto
  have count: "indirect_count n = (if b = 0 then a else Suc a)" "indirect_count (Suc n) = Suc a"
    using assms(2,5,6) by (simp_all add: indirect_count_Suc) (simp_all add: indirect_count_div)
  have W1: "block_words V1 i2 = ?W[a := i1]" using assms(7,8) ab by (auto simp: block_words_set_word)
  have W2: "block_words V' i2 = ?W[a := i1]" using W1 assms(9,10) ab by (simp add: block_words_set_word)
  have Wb: "?W ! a = i1" if "b \<noteq> 0" using that assms(7,8) by simp
  have other: "block_words V' c = block_words V c" if "c \<noteq> i1" "c \<noteq> i2" for c
    using that assms(7,9) ab by (simp add: block_words_set_word)
  have in1: "block_words V' i1 = (block_words V i1)[b := w]"
    using assms(7,9,10) ab by (simp add: block_words_set_word)
  have old: "block_no V' ?di k = block_no V di k" if k: "k < n" "156 \<le> k" for k
  proof -
    let ?a = "(k - 156) div 128" and ?b = "(k - 156) mod 128"
    have i2: "i2 = di_indirect2 di" "n > 156" using assms(4) k by auto
    have kk: "k - 156 = ?a * 128 + ?b" "?b < 128" by simp_all
    have d: "distinct (i2 # take (indirect_count n) ?W)" using assms(1) i2 by (auto simp: file_wf_def index_list_def)
    have "?a \<le> a" using k div_le_mono [of "k - 156" "n - 156" 128] by (simp add: assms(5))
    moreover have "?b < b" if "?a = a" using kk(1) k ab(3) unfolding that by simp
    ultimately consider (same) "?a = a" "?b < b" | (less) "?a < a" by fastforce
    then show ?thesis
    proof cases
      case same
      then have "b \<noteq> 0" by simp
      then show ?thesis using k same W2 Wb in1 i2 ab by (auto simp: block_no_def)
    next
      case less
      have "?a < indirect_count n" using less count by simp
      then have w: "?W ! ?a \<in> set (take (indirect_count n) ?W)" using nth_mem [of ?a "take (indirect_count n) ?W"] ab less by simp
      have "?W ! ?a \<noteq> i2" using d w by auto
      moreover have "?W ! ?a \<noteq> i1"
      proof (cases "b = 0")
        case True
        then show ?thesis using assms(13) w i2 by (auto simp: index_list_def)
      next
        case False
        then have "distinct (take (Suc a) ?W)" "i1 = ?W ! a" using d count Wb by simp_all
        then show ?thesis using nth_eq_iff_index_eq [of "take (Suc a) ?W" ?a a] less ab by simp
      qed
      ultimately show ?thesis using k less other W2 i2 by (simp add: block_no_def)
    qed
  qed
  have "block_no V' ?di k = block_no V di k" if "k < n" for k
    using old [OF that] other [OF assms(11,12)] by (cases "156 \<le> k") (auto simp: block_no_def)
  moreover have "block_no V' ?di n = w"
    using W2 in1 ab assms(2) by (simp add: block_no_def flip: assms(5,6))
  ultimately show "data_list V' ?di (Suc n) = data_list V di n @ [w]"
    using data_list_cong [of n V' ?di V di] by (simp add: data_list_Suc)
  have "take (Suc a) (?W[a := i1]) = (if b = 0 then take a ?W @ [i1] else take (Suc a) ?W)"
    using ab Wb by (simp add: take_Suc_conv_app_nth)
  then show "index_list V' ?di (Suc n) = index_list V di n @ (if n = INDIRECT1_BOUND then [i2] else []) @ (if b = 0 then [i1] else [])"
    using assms(2,4) W2 count ab by (auto simp: index_list_def)
qed

text \<open>
  Appending takes blocks from the front of the list: first the indirect blocks that become
  necessary, then the data block. Only indirect blocks of the file are changed.
\<close>

definition appended :: "nat \<Rightarrow> growing \<Rightarrow> growing \<Rightarrow> bool" where
  "appended n = (\<lambda>(V, di, v) (V', di', v'). v' = drop (block_need n) v
     \<and> data_list V' di' (Suc n) = data_list V di n @ [v ! (block_need n - 1)]
     \<and> index_list V' di' (Suc n) = index_list V di n @ take (block_need n - 1) v
     \<and> (\<forall>b. b \<notin> ucast ` set (index_list V' di' (Suc n)) \<longrightarrow> V' b = V b)
     \<and> (\<forall>b. length (V b) = BLOCK_SZ \<longrightarrow> length (V' b) = BLOCK_SZ)
     \<and> length (di_direct di') = INODE_DIRECT_COUNT \<and> di_size di' = di_size di \<and> di_type di' = di_type di)"

lemma appended_small:
  assumes "file_wf V di n" "n < INDIRECT1_BOUND" "block_need n \<le> length v"
  shows "appended n (V, di, v) (append_block n (V, di, v))"
proof -
  have l: "length (di_direct di) = 28" using assms(1) by (simp add: file_wf_def)
  consider (direct) "n < 28" | (first) "n = 28" | (more) "28 < n" by linarith
  then show ?thesis
  proof cases
    case direct
    then obtain x v1 where v: "v = x # v1" using assms(3) by (cases v) (auto simp: block_need_def)
    show ?thesis
      unfolding append_direct(1) [OF assms(1) direct assms(3)]
      using append_direct(2) [OF assms(1) direct assms(3)] direct l
      by (simp add: appended_def block_need_def index_list_def v)
  next
    case first
    then obtain x y v1 where v: "v = x # y # v1"
      using assms(3) by (cases v; cases "tl v") (auto simp: block_need_def)
    then show ?thesis
      using append_indirect1 [OF assms(1) _ assms(2) refl, of x y] first l
      by (simp add: appended_def append_block_def assign_index_def put_block_def block_need_def index_list_def set_word_other length_set_word)
  next
    case more
    then obtain x v1 where v: "v = x # v1" using assms(3) by (cases v) (auto simp: block_need_def)
    then show ?thesis
      using append_indirect1 [OF assms(1) _ assms(2) refl, of "di_indirect1 di" x] more assms(2) l
      by (simp add: appended_def append_block_def assign_index_def put_block_def block_need_def index_list_def set_word_other length_set_word)
  qed
qed

lemma appended_large:
  assumes "file_wf V di n" "INDIRECT1_BOUND \<le> n" "n < INDIRECT2_BOUND" "block_need n \<le> length v" "distinct v"
    "set v \<inter> blocks_of V di n = {}"
  shows "appended n (V, di, v) (append_block n (V, di, v))"
proof -
  let ?a = "(n - 156) div 128" and ?b = "(n - 156) mod 128"
  have l: "length (di_direct di) = 28" using assms(1) by (simp add: file_wf_def)
  have a: "?a < 128" "?b < 128" using assms(3) by auto
  have new: "x \<notin> set (index_list V di n)" if "x \<in> set v" for x using assms(6) that by (auto simp: blocks_of_def)
  have i1: "di_indirect1 di \<in> set (index_list V di n)" using assms(2) by (simp add: index_list_def)
  note simps = appended_def append_block_def assign_index_def put_block_def block_need_def set_word_other length_set_word
  consider (first) "n = 156" | (block) "156 < n" "?b = 0" | (more) "156 < n" "?b \<noteq> 0" using assms(2) by linarith
  then show ?thesis
  proof cases
    case first
    then obtain x y z v1 where v: "v = x # y # z # v1"
      using assms(4) by (cases v; cases "tl v"; cases "tl (tl v)") (auto simp: block_need_def)
    have n: "y \<noteq> x" "di_indirect1 di \<noteq> y" "di_indirect1 di \<noteq> x" "y \<notin> set (index_list V di n)"
      using assms(5) new i1 by (auto simp: v)
    from append_indirect2 [OF assms(1,2,3) _ refl refl refl _ refl, of x y z] n first
    show ?thesis by (simp add: simps v l block_words_set_word)
  next
    case block
    then obtain x y v1 where v: "v = x # y # v1"
      using assms(4) by (cases v; cases "tl v") (auto simp: block_need_def)
    have i2: "di_indirect2 di \<in> set (index_list V di n)" "di_indirect1 di \<noteq> di_indirect2 di"
      using assms(1) block by (auto simp: index_list_def file_wf_def)
    have n: "x \<noteq> di_indirect2 di" "di_indirect1 di \<noteq> x" "x \<notin> set (index_list V di n)" using new i1 i2 by (auto simp: v)
    from append_indirect2 [OF assms(1,2,3) _ refl refl refl _ refl, of "di_indirect2 di" x y] n i2 block a
    show ?thesis by (simp add: simps v l block_words_set_word) (metis set_word_other imageI)
  next
    case more
    then obtain x v1 where v: "v = x # v1" using assms(4) by (cases v) (auto simp: block_need_def)
    let ?i = "block_words V (di_indirect2 di) ! ?a"
    have "?a < indirect_count n" using more by (simp add: indirect_count_div)
    then have "?i \<in> set (take (indirect_count n) (block_words V (di_indirect2 di)))"
      using nth_mem [of ?a "take (indirect_count n) (block_words V (di_indirect2 di))"] a by simp
    then have i: "?i \<in> set (index_list V di n)" "?i \<noteq> di_indirect2 di" "di_indirect1 di \<noteq> ?i" "di_indirect1 di \<noteq> di_indirect2 di"
      using assms(1) more by (auto simp: index_list_def file_wf_def)
    from append_indirect2 [OF assms(1,2,3) _ refl refl refl _ refl, of "di_indirect2 di" ?i x] i more a
    show ?thesis by (simp add: simps v l) (metis set_word_other imageI)
  qed
qed

lemmas append_block_ok = appended_small appended_large


lemma total_blocks_mono: "total_blocks_of n \<le> total_blocks_of (n + m)"
  by (induction m) (simp_all add: total_blocks_Suc)

text \<open>
  Growing by \<open>m\<close> blocks: the file is well formed, its old blocks are where they were, the new ones
  are from the list, and only its indirect blocks are changed.
\<close>

definition grown :: "nat \<Rightarrow> nat \<Rightarrow> growing \<Rightarrow> growing \<Rightarrow> bool" where
  "grown m n = (\<lambda>(V, di, v) (V', di', v'). file_wf V' di' (n + m) \<and> v' = drop (total_blocks_of (n + m) - total_blocks_of n) v
     \<and> take n (data_list V' di' (n + m)) = data_list V di n \<and> set (index_list V di n) \<subseteq> set (index_list V' di' (n + m))
     \<and> blocks_of V' di' (n + m) \<union> set v' \<subseteq> blocks_of V di n \<union> set v \<and> set v' \<inter> blocks_of V' di' (n + m) = {}
     \<and> (\<forall>b. b \<notin> ucast ` set (index_list V' di' (n + m)) \<longrightarrow> V' b = V b)
     \<and> (\<forall>b. length (V b) = BLOCK_SZ \<longrightarrow> length (V' b) = BLOCK_SZ)
     \<and> di_size di' = di_size di \<and> di_type di' = di_type di)"

lemma appended_grown:
  assumes "file_wf V di n" "n < INDIRECT2_BOUND" "block_need n \<le> length v" "distinct v" "set v \<inter> blocks_of V di n = {}"
  shows "grown 1 n (V, di, v) (append_block n (V, di, v))"
proof -
  obtain V' di' v' where s: "append_block n (V, di, v) = (V', di', v')" by (metis prod_cases3)
  let ?k = "block_need n"
  have "appended n (V, di, v) (V', di', v')"
    using append_block_ok(1) [OF assms(1) _ assms(3)] append_block_ok(2) [OF assms(1) _ assms(2-5)] s by fastforce
  then have a: "v' = drop ?k v" "data_list V' di' (Suc n) = data_list V di n @ [v ! (?k - 1)]"
    "index_list V' di' (Suc n) = index_list V di n @ take (?k - 1) v" "length (di_direct di') = 28"
    "di_size di' = di_size di" "di_type di' = di_type di"
    "\<forall>b. b \<notin> ucast ` set (index_list V' di' (Suc n)) \<longrightarrow> V' b = V b"
    "\<forall>b. length (V b) = BLOCK_SZ \<longrightarrow> length (V' b) = BLOCK_SZ" by (simp_all add: appended_def)
  have k: "1 \<le> ?k" by (simp add: block_need_def)
  then have v: "v = take (?k - 1) v @ v ! (?k - 1) # drop ?k v"
    using assms(3) by (metis id_take_nth_drop Suc_diff_1 Suc_le_lessD le_less_trans diff_less less_le_trans zero_less_one One_nat_def)
  then have d: "distinct (take (?k - 1) v)" "v ! (?k - 1) \<notin> set (take (?k - 1) v)"
    "set v' \<inter> set (take (?k - 1) v) = {}" "v ! (?k - 1) \<notin> set v'"
    using assms(4) a(1) by (metis distinct_append, metis disjoint_iff distinct_append list.set_intros(1),
      metis disjoint_iff distinct_append list.set_intros(2), metis distinct.simps(2) distinct_append)
  have sub: "set (take (?k - 1) v) \<subseteq> set v" "v ! (?k - 1) \<in> set v" "set v' \<subseteq> set v"
    using k assms(3) a(1) by (auto simp: set_take_subset set_drop_subset dest: in_set_takeD in_set_dropD)
  have "file_wf V' di' (Suc n)"
    using assms(1,2,5) a(2,3,4) d sub by (auto simp: file_wf_def blocks_of_def)
  moreover have "set v' \<inter> blocks_of V' di' (Suc n) = {}"
    using assms(5) a(2,3) d sub by (auto simp: blocks_of_def)
  moreover have "blocks_of V' di' (Suc n) \<union> set v' \<subseteq> blocks_of V di n \<union> set v"
    using a(2,3) sub by (auto simp: blocks_of_def)
  ultimately show ?thesis
    using a by (simp add: grown_def s total_blocks_Suc)
qed

lemma grown_trans:
  assumes "grown m n s s'" "grown m' (n + m) s' s''"
  shows "grown (m + m') n s s''"
proof -
  obtain V di v V' di' v' V'' di'' v'' where s: "s = (V, di, v)" "s' = (V', di', v')" "s'' = (V'', di'', v'')"
    by (metis prod_cases3)
  have "take n (data_list V'' di'' (n + (m + m'))) = data_list V di n"
    using assms by (auto simp: grown_def s add.assoc) (metis le_add1 min.absorb1 take_take)
  moreover have "V'' b = V b" if "b \<notin> ucast ` set (index_list V'' di'' (n + (m + m')))" for b
  proof -
    have "b \<notin> ucast ` set (index_list V' di' (n + m))"
      using assms(2) that by (auto simp: grown_def s add.assoc)
    then show ?thesis using assms that by (simp add: grown_def s add.assoc)
  qed
  moreover have "total_blocks_of (n + m + m') - total_blocks_of (n + m) + (total_blocks_of (n + m) - total_blocks_of n)
      = total_blocks_of (n + m + m') - total_blocks_of n"
    using total_blocks_mono [of n m] total_blocks_mono [of "n + m" m'] by simp
  ultimately show ?thesis
    using assms by (auto simp: grown_def s add.assoc)
qed

lemma grow_ok:
  assumes "file_wf V di n" "n + m \<le> INDIRECT2_BOUND" "total_blocks_of (n + m) - total_blocks_of n \<le> length v"
    "distinct v" "set v \<inter> blocks_of V di n = {}"
  shows "grown m n (V, di, v) (grow m n (V, di, v))"
  using assms
proof (induction m arbitrary: n V di v)
  case 0
  then show ?case by (simp add: grown_def)
next
  case (Suc m)
  obtain V' di' v' where s: "append_block n (V, di, v) = (V', di', v')" by (metis prod_cases3)
  have t: "total_blocks_of (n + Suc m) - total_blocks_of n = block_need n + (total_blocks_of (Suc n + m) - total_blocks_of (Suc n))"
    using total_blocks_mono [of "Suc n" m] by (simp add: total_blocks_Suc)
  have one: "grown 1 n (V, di, v) (V', di', v')"
    using appended_grown [OF Suc.prems(1), of v] Suc.prems t s by simp
  then have "file_wf V' di' (Suc n)" "v' = drop (block_need n) v" "set v' \<inter> blocks_of V' di' (Suc n) = {}"
    by (auto simp: grown_def total_blocks_Suc)
  then have "grown m (Suc n) (V', di', v') (grow m (Suc n) (V', di', v'))"
    using Suc.prems(2,3,4) t by (intro Suc.IH) simp_all
  from grown_trans [OF one, of m] this s show ?case by simp
qed


section \<open>The loops of \<open>increase_size\<close>\<close>

text \<open>Growing when the indirect block of the inode that block \<open>n\<close> needs is assigned already.\<close>

definition grow_open :: "nat \<Rightarrow> nat \<Rightarrow> growing \<Rightarrow> growing" where
  "grow_open m n s = (if m = 0 then s else grow (m - 1) (n + 1) (put_block n s))"

lemma grow_open_simps [simp]: "grow_open 0 n s = s" "grow_open (Suc m) n s = grow m (Suc n) (put_block n s)"
  by (simp_all add: grow_open_def)

lemma grow_assign: "0 < m \<Longrightarrow> grow m n s = grow_open m n (assign_index n s)"
  by (cases m) (simp_all add: append_block_def)

lemma grow_eq_open: "m = 0 \<or> n \<noteq> 28 \<and> n \<noteq> 156 \<Longrightarrow> grow m n s = grow_open m n s"
  by (cases m) (auto simp: append_block_def assign_index_def split: prod.splits)

lemma grow_add: "grow (m + m') n s = grow m' (n + m) (grow m n s)"
  by (induction m arbitrary: n s) simp_all

lemma fill_direct:
  assumes "c \<le> bound" "bound \<le> INODE_DIRECT_COUNT" "length (di_direct di) = INODE_DIRECT_COUNT" "bound - c \<le> length v"
  shows "\<exists>arr. fill_blocks c bound (di_direct di) v = Inr (bound, arr, drop (bound - c) v) \<and> length arr = INODE_DIRECT_COUNT
    \<and> grow (bound - c) c (V, di, v) = (V, di\<lparr>di_direct := arr\<rparr>, drop (bound - c) v)"
  using assms
proof (induction "bound - c" arbitrary: c di v)
  case 0
  then show ?case by (simp add: fill_blocks.simps)
next
  case (Suc m)
  then obtain x v1 where v: "v = x # v1" by (cases v) auto
  let ?di = "di\<lparr>di_direct := (di_direct di)[c := x]\<rparr>"
  have m: "m = bound - Suc c" "bound - c = Suc m" "c < bound" using Suc.hyps(2) by simp_all
  have "append_block c (V, di, v) = (V, ?di, v1)"
    using Suc.prems m by (simp add: append_block_def assign_index_def put_block_def v)
  moreover have "fill_blocks c bound (di_direct di) v = fill_blocks (Suc c) bound (di_direct ?di) v1"
    using Suc.prems m by (simp add: fill_blocks.simps [of c] v)
  ultimately show ?case
    using Suc.hyps(1) [OF m(1), of ?di v1] Suc.prems m by (auto simp: v)
qed

lemma fill_words:
  assumes "c \<le> bound" "bound \<le> INODE_INDIRECT1_COUNT" "length arr = INODE_INDIRECT1_COUNT" "bound - c \<le> length v"
  shows "\<exists>arr'. fill_blocks c bound arr v = Inr (bound, arr', drop (bound - c) v) \<and> length arr' = INODE_INDIRECT1_COUNT
    \<and> grow_open (bound - c) (DIRECT_BOUND + c) (V(ucast (di_indirect1 di) := encode_words 4 arr), di, v)
      = (V(ucast (di_indirect1 di) := encode_words 4 arr'), di, drop (bound - c) v)"
  using assms
proof (induction "bound - c" arbitrary: c arr v)
  case 0
  then show ?case by (simp add: fill_blocks.simps)
next
  case (Suc m)
  then obtain x v1 where v: "v = x # v1" by (cases v) auto
  let ?i = "di_indirect1 di"
  have m: "m = bound - Suc c" "bound - c = Suc m" "c < bound" using Suc.hyps(2) by simp_all
  have "put_block (28 + c) (V(ucast ?i := encode_words 4 arr), di, v) = (V(ucast ?i := encode_words 4 (arr[c := x])), di, v1)"
    using Suc.prems m by (simp add: put_block_def v set_word_def block_words_def decode_encode_words)
  moreover have "fill_blocks c bound arr v = fill_blocks (Suc c) bound (arr[c := x]) v1"
    using Suc.prems m by (simp add: fill_blocks.simps [of c] v)
  moreover have "grow m (Suc (28 + c)) s = grow_open m (28 + Suc c) s" for s
    using Suc.prems m by (subst grow_eq_open) auto
  ultimately show ?case
    using Suc.hyps(1) [OF m(1), of "arr[c := x]" v1] Suc.prems m by (auto simp: v)
qed


text \<open>
  The loop below the doubly indirect block holds that block and passes its words along; the other
  blocks change on the way. Counted from the first block of this part, \<open>x\<close> data blocks take
  \<open>double_need x\<close> blocks.
\<close>

definition double_need :: "nat \<Rightarrow> nat" where
  "double_need x = x + (x + 127) div 128"

lemma double_need_Suc: "double_need (Suc x) = double_need x + (if x mod 128 = 0 then 2 else 1)"
  unfolding double_need_def round_up_Suc by simp

lemma double_need_mono: "x \<le> y \<Longrightarrow> double_need x \<le> double_need y"
  by (induction y rule: dec_induct) (simp_all add: double_need_Suc)

lemma put_block_double:
  assumes "x = a * 128 + b" "a < 128" "b < 128" "length ws = 128" "V2 = V(ucast (di_indirect2 di) := encode_words 4 ws)"
    "(ws', v') = (if b = 0 then (ws[a := hd v], tl v) else (ws, v))" "ws' ! a \<noteq> di_indirect2 di"
  shows "put_block (INDIRECT1_BOUND + x) (V2, di, v)
    = ((V(ucast (ws' ! a) := encode_words 4 ((block_words V (ws' ! a))[b := hd v'])))(ucast (di_indirect2 di) := encode_words 4 ws'), di, tl v')"
proof -
  have x: "x div 128 = a" "x mod 128 = b" using assms(1,3) by simp_all
  let ?i = "di_indirect2 di"
  have s: "(if b = 0 then (set_word ?i a (hd v) V2, tl v) else (V2, v)) = (V(ucast ?i := encode_words 4 ws'), v')"
    using assms(2,4,5,6) by (simp add: set_word_def block_words_def decode_encode_words split: if_splits)
  have l: "length ws' = 128" using assms(4,6) by (simp split: if_splits)
  have w: "block_words (V(ucast ?i := encode_words 4 ws')) ?i = ws'" "block_words (V(ucast ?i := encode_words 4 ws')) (ws' ! a) = block_words V (ws' ! a)"
    using l assms(7) by (simp_all add: block_words_def decode_encode_words ucast_u32_inj)
  have "set_word (ws' ! a) b (hd v') (V(ucast ?i := encode_words 4 ws'))
    = (V(ucast (ws' ! a) := encode_words 4 ((block_words V (ws' ! a))[b := hd v'])))(ucast ?i := encode_words 4 ws')"
    using assms(7) unfolding set_word_def w by (simp add: fun_upd_twist ucast_u32_inj)
  then show ?thesis
    unfolding put_block_def using x s by (simp add: w split del: if_split)
qed

context block_device
begin

lemma fill_indirect2_ok:
  assumes "rep bd valid H D V st" "length H < BLOCK_CACHE_SIZE" "ucast (di_indirect2 di) \<in> fst ` set H" "length ws = 128"
    "b0 < 128" "b1 < 128" "x = a0 * 128 + b0" "y = a1 * 128 + b1" "x \<le> y" "y \<le> 16384" "double_need y - double_need x \<le> length v"
    "\<forall>b \<in> set v \<union> set (take ((x + 127) div 128) ws). D (ucast b) \<and> ucast b \<notin> fst ` set H"
  shows "post (fill_indirect2 bd a0 b0 a1 b1 ws v st) (\<lambda>(v', ws', st'). \<exists>V'. rep bd valid H D V' st' \<and> length ws' = 128
    \<and> grow_open (y - x) (INDIRECT1_BOUND + x) (V(ucast (di_indirect2 di) := encode_words 4 ws), di, v)
      = (V'(ucast (di_indirect2 di) := encode_words 4 ws'), di, v'))"
  using assms(1,4,5,7,9,11,12)
proof (induction "y - x" arbitrary: x a0 b0 ws v V st)
  case 0
  then have "a0 = a1" "b0 = b1" using assms(6,8) by simp_all (metis add.commute div_mult_self3 div_less add_cancel_right_left mod_less mod_mult_self3)+
  then show ?case using 0 by (subst fill_indirect2.simps) auto
next
  case (Suc m)
  let ?i2 = "di_indirect2 di" and ?first = "b0 = 0"
  have a0: "a0 < 128" using Suc.hyps(2) Suc.prems(4) assms(10) by simp
  have xy: "x < y" "m = y - Suc x" using Suc.hyps(2) by simp_all
  have loop: "a0 < a1 \<or> a0 = a1 \<and> b0 < b1" using xy(1) assms(6,8) Suc.prems(3,4) by (cases a0 a1 rule: linorder_cases) auto
  have md: "x mod 128 = b0" "(x + 127) div 128 = (if ?first then a0 else Suc a0)"
    using Suc.prems(3,4) by (simp_all add: round_up_128)
  have md2: "(Suc x + 127) div 128 = Suc a0" by (simp only: round_up_Suc md) simp
  have need: "(if ?first then 2 else 1) + (double_need y - double_need (Suc x)) \<le> length v"
    using Suc.prems(6) double_need_mono [of "Suc x" y] xy md by (simp add: double_need_Suc split: if_splits)
  obtain ws' v' where wv: "(ws', v') = (if ?first then (ws[a0 := hd v], tl v) else (ws, v))" by (metis surj_pair)
  have v: "v \<noteq> []" "v' \<noteq> []" "double_need y - double_need (Suc x) \<le> length (tl v')" "set v' \<subseteq> set v"
    using need wv by (cases v; cases "tl v"; auto split: if_splits)+
  have ws': "length ws' = 128" "set (take ((Suc x + 127) div 128) ws') \<subseteq> set v \<union> set (take ((x + 127) div 128) ws)"
    unfolding md2 md(2) using wv Suc.prems(2) a0 v(1) by (auto simp: take_Suc_conv_app_nth split: if_splits)
  let ?i1 = "ws' ! a0"
  have "?i1 \<in> set (take ((Suc x + 127) div 128) ws')"
    unfolding md2 using nth_mem [of a0 "take (Suc a0) ws'"] ws'(1) a0 by simp
  then have i1: "D (ucast ?i1)" "ucast ?i1 \<notin> fst ` set H" using ws'(2) Suc.prems(7) by blast+
  then have i1_i2: "?i1 \<noteq> ?i2" using assms(3) by metis
  define V1 where "V1 = V(ucast ?i1 := encode_words 4 ((block_words V ?i1)[b0 := hd v']))"
  have md_i1: "post (BlockCache_modify bd (ucast ?i1) IndirectBlock_codec 0 (closure_mut (\<lambda>indirect1.
      rbind (unwrap (if v' = [] then None else Some (hd v'))) (\<lambda>b.
      if b0 < length indirect1 then Inr ((), indirect1[b0 := b]) else Inl IndexOutOfBounds))) st) (\<lambda>(_, st'). rep bd valid H D V1 st')"
    unfolding IndirectBlock_codec_def using v(2) Suc.prems(3)
    by (intro modify_words [OF Suc.prems(1) assms(2) i1]) (simp_all add: V1_def block_words_def)
  have put: "put_block (156 + x) (V(ucast ?i2 := encode_words 4 ws), di, v) = (V1(ucast ?i2 := encode_words 4 ws'), di, tl v')"
    unfolding V1_def by (rule put_block_double [OF Suc.prems(4) a0 Suc.prems(3,2) refl wv i1_i2])
  have next_ok: "post (fill_indirect2 bd a b a1 b1 ws' (tl v') st1) (\<lambda>(v'', ws'', st'). \<exists>V'. rep bd valid H D V' st' \<and> length ws'' = 128
      \<and> grow_open (y - x) (INDIRECT1_BOUND + x) (V(ucast ?i2 := encode_words 4 ws), di, v)
        = (V'(ucast ?i2 := encode_words 4 ws''), di, v''))"
    if "rep bd valid H D V1 st1" "b < 128" "Suc x = a * 128 + b" for a b st1
  proof -
    have ok: "\<forall>b \<in> set (tl v') \<union> set (take ((Suc x + 127) div 128) ws'). D (ucast b) \<and> ucast b \<notin> fst ` set H"
      using Suc.prems(7) ws'(2) v(2,4) list.set_sel(2) [of v'] by blast
    have "grow_open (y - x) (156 + x) (V(ucast ?i2 := encode_words 4 ws), di, v)
        = grow_open m (156 + Suc x) (V1(ucast ?i2 := encode_words 4 ws'), di, tl v')"
      using grow_eq_open [of m "156 + Suc x"] put Suc.hyps(2) [symmetric] by simp
    then show ?thesis using Suc.hyps(1) [OF xy(2) that(1) ws'(1) that(2,3) _ v(3) ok] xy by simp
  qed
  have step: "fill_indirect2 bd a0 b0 a1 b1 ws v st =
     rbind (BlockCache_modify bd (ucast ?i1) IndirectBlock_codec 0 (closure_mut (\<lambda>indirect1.
      rbind (unwrap (if v' = [] then None else Some (hd v'))) (\<lambda>b.
      if b0 < length indirect1 then Inr ((), indirect1[b0 := b]) else Inl IndexOutOfBounds))) st) (\<lambda>(_, st).
        if b0 + 1 = INODE_INDIRECT1_COUNT then fill_indirect2 bd (a0 + 1) 0 a1 b1 ws' (tl v') st
        else fill_indirect2 bd a0 (b0 + 1) a1 b1 ws' (tl v') st)"
    using loop v(1) wv a0 ws'(1) Suc.prems(2,3)
    by (subst fill_indirect2.simps) (auto simp: index_in_range split: if_splits)
  have pos: "Suc x = (a0 + 1) * 128 + 0" if "b0 + 1 = 128" using Suc.prems(4) that by simp
  have pos': "Suc x = a0 * 128 + (b0 + 1)" using Suc.prems(4) by simp
  show ?case
    unfolding step post_rbind
  proof (rule post_mono [OF md_i1], clarify)
    fix st1
    assume r: "rep bd valid H D V1 st1"
    show "post (if b0 + 1 = 128 then fill_indirect2 bd (a0 + 1) 0 a1 b1 ws' (tl v') st1
        else fill_indirect2 bd a0 (b0 + 1) a1 b1 ws' (tl v') st1) (\<lambda>(v'', ws'', st'). \<exists>V'. rep bd valid H D V' st' \<and> length ws'' = 128
      \<and> grow_open (y - x) (INDIRECT1_BOUND + x) (V(ucast ?i2 := encode_words 4 ws), di, v)
        = (V'(ucast ?i2 := encode_words 4 ws''), di, v''))"
    proof (cases "b0 + 1 = 128")
      case True
      show ?thesis unfolding if_P [OF True] by (rule next_ok [OF r _ pos [OF True]]) simp
    next
      case False
      show ?thesis unfolding if_not_P [OF False] by (rule next_ok [OF r _ pos']) (use False Suc.prems(3) in simp)
    qed
  qed
qed

end

end
