(* ===== verification/File_Updates.thy ===== *)
theory File_Updates
  imports File_Growth
begin

text \<open>
  Writing to a file: \<open>DiskInode::increase_size\<close> grows a file as \<open>File_Growth\<close> says, the blocks it
  needs come from the data bitmap, and \<open>Inode::write_at\<close> changes the contents of its file and of no
  other.
\<close>

section \<open>Growing a file\<close>

text \<open>The blocks of the file and of the list can be accessed, and the list is long enough.\<close>

definition can_grow :: "(usize \<times> bool) list \<Rightarrow> (usize \<Rightarrow> bool) \<Rightarrow> nat \<Rightarrow> nat \<Rightarrow> growing \<Rightarrow> bool" where
  "can_grow H D n tot = (\<lambda>(V, di, v). file_wf V di n \<and> n \<le> tot \<and> tot \<le> INDIRECT2_BOUND
     \<and> total_blocks_of tot - total_blocks_of n \<le> length v \<and> distinct v \<and> set v \<inter> blocks_of V di n = {}
     \<and> (\<forall>b \<in> set v \<union> blocks_of V di n. D (ucast b) \<and> ucast b \<notin> fst ` set H))"

lemma grownD:
  assumes "grown m n (V, di, v) (V', di', v')"
  shows "file_wf V' di' (n + m)" "v' = drop (total_blocks_of (n + m) - total_blocks_of n) v"
    "take n (data_list V' di' (n + m)) = data_list V di n" "set (index_list V di n) \<subseteq> set (index_list V' di' (n + m))"
    "blocks_of V' di' (n + m) \<union> set v' \<subseteq> blocks_of V di n \<union> set v" "set v' \<inter> blocks_of V' di' (n + m) = {}"
    "b \<notin> ucast ` set (index_list V' di' (n + m)) \<Longrightarrow> V' b = V b" "di_size di' = di_size di" "di_type di' = di_type di"
  using assms unfolding grown_def prod.case by blast+

lemma can_grow_grown:
  assumes "can_grow H D n tot s" "n + m \<le> tot"
  shows "grown m n s (grow m n s)" "can_grow H D (n + m) tot (grow m n s)"
proof -
  obtain V di v V' di' v' where s: "s = (V, di, v)" "grow m n s = (V', di', v')" by (metis prod_cases3)
  have t: "total_blocks_of (n + m) \<le> total_blocks_of tot" "total_blocks_of n \<le> total_blocks_of (n + m)"
    using total_blocks_mono [of "n + m" "tot - (n + m)"] total_blocks_mono [of n m] assms(2) by simp_all
  show g: "grown m n s (grow m n s)"
    using assms t unfolding s(1) by (intro grow_ok) (auto simp: can_grow_def)
  have g': "grown m n (V, di, v) (V', di', v')" using g s by simp
  show "can_grow H D (n + m) tot (grow m n s)"
    using grownD(1,2,5,6) [OF g'] assms t unfolding s(2) by (auto simp: can_grow_def s(1))
qed

lemma set_size_block_no [simp]: "block_no V (di\<lparr>di_size := sz\<rparr>) = block_no V di"
  by (simp add: block_no_def fun_eq_iff)

lemma set_size_simps [simp]:
  "data_list V (di\<lparr>di_size := sz\<rparr>) = data_list V di" "index_list V (di\<lparr>di_size := sz\<rparr>) = index_list V di"
  by (simp_all add: fun_eq_iff data_list_def index_list_def)

lemma set_size_file [simp]:
  "blocks_of V (di\<lparr>di_size := sz\<rparr>) = blocks_of V di" "file_wf V (di\<lparr>di_size := sz\<rparr>) n = file_wf V di n"
  by (simp_all add: fun_eq_iff blocks_of_def file_wf_def)

lemma set_size_can_grow [simp]: "can_grow H D n tot (V, di\<lparr>di_size := sz\<rparr>, v) = can_grow H D n tot (V, di, v)"
  by (simp add: can_grow_def)

context block_device
begin

lemma increase_indirect1:
  assumes "rep bd valid H D V st" "length H < BLOCK_CACHE_SIZE" "can_grow H D c tot (V, di, v)" "DIRECT_BOUND \<le> c" "DIRECT_BOUND < tot"
    "(di', v') = (if c = DIRECT_BOUND then (di\<lparr>di_indirect1 := hd v\<rparr>, tl v) else (di, v))" "c' = max c (min INDIRECT1_BOUND tot)"
  shows "post (BlockCache_modify bd (ucast (di_indirect1 di')) IndirectBlock_codec 0
      (closure_mut (\<lambda>indirect1. rbind (fill_blocks (c - DIRECT_BOUND) (min INODE_INDIRECT1_COUNT (tot - DIRECT_BOUND)) indirect1 v')
         (\<lambda>(c, arr, rest). Inr ((c, rest), arr)))) st)
    (\<lambda>((c2, v2), st'). c2 = c' - DIRECT_BOUND \<and> (\<exists>V'. rep bd valid H D V' st' \<and> grow (c' - c) c (V, di, v) = (V', di', v2)))"
proof -
  let ?i = "di_indirect1 di'" and ?bound = "min 128 (tot - 28)"
  have cg: "file_wf V di c" "c \<le> tot" "total_blocks_of tot - total_blocks_of c \<le> length v"
    "\<And>b. b \<in> set v \<or> b \<in> blocks_of V di c \<Longrightarrow> D (ucast b) \<and> ucast b \<notin> fst ` set H"
    using assms(3) by (auto simp: can_grow_def)
  have v: "v \<noteq> []" if "c = 28" using cg(3) assms(5) that by (auto simp: total_blocks_eq)
  have i: "D (ucast ?i)" "ucast ?i \<notin> fst ` set H"
    using assms(4,6) cg(4) [of ?i] hd_in_set [OF v] by (auto simp: blocks_of_def index_list_def split: if_splits)
  have same: "V(ucast ?i := encode_words 4 (block_words V ?i)) = V"
    using rep_length [OF assms(1) i(1)] by (simp add: block_words_def encode_decode_words)
  show ?thesis
  proof (cases "c \<le> 156")
    case False
    then have "fill_blocks (c - 28) ?bound (block_words V ?i) v' = Inr (c - 28, block_words V ?i, v')"
      by (subst fill_blocks.simps) auto
    then show ?thesis
      unfolding IndirectBlock_codec_def using False assms(6,7) cg(2) same
      by (intro modify_words [OF assms(1,2) i]) (auto simp: block_words_def)
  next
    case True
    then have b: "c - 28 \<le> ?bound" "c' = 28 + ?bound" using assms(4,5,7) cg(2) by auto
    have len: "?bound - (c - 28) \<le> length v'"
    proof -
      have "total_blocks_of c' \<le> total_blocks_of tot" using total_blocks_mono [of c' "tot - c'"] cg(2) b assms(5) by simp
      moreover have "total_blocks_of c' = c' + 1" "total_blocks_of c = c + (if c = 28 then 0 else 1)"
        using True b assms(4,5) by (auto simp: total_blocks_eq)
      moreover have "length v' = length v - (if c = 28 then 1 else 0)" using assms(6) by (simp split: if_splits)
      ultimately have "c' - c \<le> length v'" using cg(3) by (cases "c = 28") simp_all
      moreover have "c' - c = ?bound - (c - 28)" unfolding b(2) using assms(4) by simp
      ultimately show ?thesis by simp
    qed
    from fill_words [OF b(1) _ _ len, of "block_words V ?i" V di'] obtain arr where
      f: "fill_blocks (c - 28) ?bound (block_words V ?i) v' = Inr (?bound, arr, drop (?bound - (c - 28)) v')" "length arr = 128"
      "grow_open (?bound - (c - 28)) (28 + (c - 28)) (V, di', v') = (V(ucast ?i := encode_words 4 arr), di', drop (?bound - (c - 28)) v')"
      by (auto simp: same)
    have "grow (c' - c) c (V, di, v) = grow_open (c' - c) c (V, di', v')"
    proof (cases "c' = c")
      case True
      then have "c \<noteq> 28" using assms(5) b by auto
      then show ?thesis using True assms(6) by simp
    next
      case False
      then have "c < c'" "c \<noteq> 156" using assms(4) b by auto
      then show ?thesis using assms(6) by (subst grow_assign) (auto simp: assign_index_def split: if_splits)
    qed
    moreover have e: "c' - c = ?bound - (c - 28)" "28 + (c - 28) = c" "c' - 28 = ?bound" unfolding b(2) using assms(4) by simp_all
    ultimately have g: "grow (c' - c) c (V, di, v) = (V(ucast ?i := encode_words 4 arr), di', drop (?bound - (c - 28)) v')"
      using f(3) by simp
    show ?thesis
      unfolding IndirectBlock_codec_def g e(3)
      by (intro modify_words [OF assms(1,2) i]) (simp_all only: f(1,2) block_words_def [symmetric] rbind_simps prod.case post_simps, auto)
  qed
qed


lemma increase_indirect2:
  assumes "rep bd valid H D V st" "length H + 1 < BLOCK_CACHE_SIZE" "can_grow H D c tot (V, di, v)" "INDIRECT1_BOUND \<le> c" "INDIRECT1_BOUND < tot"
    "(di', v') = (if c = INDIRECT1_BOUND then (di\<lparr>di_indirect2 := hd v\<rparr>, tl v) else (di, v))" "x = c - INDIRECT1_BOUND" "y = tot - INDIRECT1_BOUND"
  shows "post (BlockCache_modify bd (ucast (di_indirect2 di')) IndirectBlock_codec 0
      (\<lambda>indirect2 st. fill_indirect2 bd (x div INODE_INDIRECT1_COUNT) (x mod INODE_INDIRECT1_COUNT)
         (y div INODE_INDIRECT1_COUNT) (y mod INODE_INDIRECT1_COUNT) indirect2 v' st) st)
    (\<lambda>(_, st'). \<exists>V' v2. rep bd valid H D V' st' \<and> grow (tot - c) c (V, di, v) = (V', di', v2))"
proof -
  let ?i = "di_indirect2 di'"
  have cg: "file_wf V di c" "c \<le> tot" "total_blocks_of tot - total_blocks_of c \<le> length v" "tot \<le> 16540"
    "\<And>b. b \<in> set v \<or> b \<in> blocks_of V di c \<Longrightarrow> D (ucast b) \<and> ucast b \<notin> fst ` set H" "distinct v" "set v \<inter> blocks_of V di c = {}"
    using assms(3) by (auto simp: can_grow_def)
  have v: "v \<noteq> []" if "c = 156" using cg(3) assms(5) that by (auto simp: total_blocks_eq)
  have i: "D (ucast ?i)" "ucast ?i \<notin> fst ` set H"
    using assms(4,6) cg(5) [of ?i] hd_in_set [OF v] by (auto simp: blocks_of_def index_list_def split: if_splits)
  let ?W = "block_words V ?i" and ?H = "(ucast ?i :: usize, True) # H"
  have same: "V(ucast ?i := encode_words 4 ?W) = V"
    using rep_length [OF assms(1) i(1)] by (simp add: block_words_def encode_decode_words)
  have cnt: "(x + 127) div 128 = indirect_count c" using assms(7) by (simp add: indirect_count_def)
  have need: "double_need y - double_need x \<le> length v'"
    using cg(3) assms(4-8) by (auto simp: total_blocks_eq double_need_def indirect_count_def split: if_splits)
  have blocks: "\<forall>b \<in> set v' \<union> set (take ((x + 127) div 128) ?W). D (ucast b) \<and> ucast b \<notin> fst ` set ?H"
  proof (cases "c = 156")
    case True
    then have "b \<noteq> ?i" "b \<in> set v" if "b \<in> set v'" for b
      using that assms(6) cg(6) v by (cases v; auto)+
    then show ?thesis using cg(5) True assms(7) by (auto simp: ucast_u32_inj)
  next
    case False
    then have il: "index_list V di c = [di_indirect1 di, ?i] @ take ((x + 127) div 128) ?W" "v' = v"
      using assms(4,6) unfolding cnt by (simp_all add: index_list_def)
    then have "b \<noteq> ?i" "b \<in> set v \<or> b \<in> blocks_of V di c" if "b \<in> set v' \<union> set (take ((x + 127) div 128) ?W)" for b
      using that cg(1,7) by (auto simp: file_wf_def blocks_of_def)
    then show ?thesis using cg(5) by (auto simp: ucast_u32_inj)
  qed
  have "grow (tot - c) c (V, di, v) = grow_open (tot - c) c (V, di', v')"
  proof (cases "c = tot")
    case True
    then show ?thesis using assms(5,6) by simp
  next
    case False
    then show ?thesis using cg(2) assms(4,6) by (subst grow_assign) (auto simp: assign_index_def split: if_splits)
  qed
  moreover have "tot - c = y - x" "c = 156 + x" using assms(4,7,8) cg(2) by simp_all
  ultimately have g: "grow (tot - c) c (V, di, v) = grow_open (y - x) (156 + x) (V, di', v')" by simp
  have "post (fill_indirect2 bd (x div 128) (x mod 128) (y div 128) (y mod 128) ?W v' st1) (\<lambda>(v2, ws', st'). \<exists>V'. rep bd valid ?H D V' st' \<and> length ws' = 128
    \<and> grow_open (y - x) (INDIRECT1_BOUND + x) (V, di', v') = (V'(ucast ?i := encode_words 4 ws'), di', v2))"
    if "rep bd valid ?H D V st1" for st1
    using fill_indirect2_ok [OF that, of di' ?W "x mod 128" "y mod 128" x "x div 128" y "y div 128" v'] assms(2,7,8) cg(2,4) need blocks
    by (simp add: same)
  note fill = this
  have c: "sizeof IndirectBlock_codec = 512" "encode IndirectBlock_codec = encode_words 4"
    "decode IndirectBlock_codec (take (sizeof IndirectBlock_codec) (drop (unat (0 :: usize)) (V (ucast ?i)))) = ?W"
    using rep_length [OF assms(1) i(1)] by (simp_all add: IndirectBlock_codec_def words_codec_def block_words_def)
  have len': "length (V' (ucast ?i)) = 512" if "rep bd valid ?H D V' st'" for V' st' using rep_length [OF that] i(1) by blast
  show ?thesis
  proof (rule BlockCache_modify_rule [OF assms(1) _ i])
    fix st1
    assume r: "rep bd valid ?H D V st1"
    show "post (fill_indirect2 bd (x div 128) (x mod 128) (y div 128) (y mod 128)
        (decode IndirectBlock_codec (take (sizeof IndirectBlock_codec) (drop (unat (0 :: usize)) (V (ucast ?i))))) v' st1)
      (\<lambda>(r, w, st). length (encode IndirectBlock_codec w) \<le> sizeof IndirectBlock_codec \<and> (\<exists>V'. rep bd valid ?H D V' st
        \<and> (\<forall>st. rep bd valid H D (V'(ucast ?i := put_bytes (unat (0 :: usize)) (encode IndirectBlock_codec w) (V' (ucast ?i)))) st
          \<longrightarrow> (case (r, st) of (_, st') \<Rightarrow> \<exists>V' v2. rep bd valid H D V' st' \<and> grow (tot - c) c (V, di, v) = (V', di', v2)))))"
      unfolding c(3) using len' by (intro post_mono [OF fill [OF r]]) (fastforce simp: c put_bytes_def g)
  qed (use assms(2) in \<open>simp_all add: c(1)\<close>)
qed


lemma increase_direct:
  assumes "can_grow H D n tot (V, di, v)" "c = max n (min DIRECT_BOUND tot)"
  obtains arr v' where "fill_blocks n (min INODE_DIRECT_COUNT tot) (di_direct di) v = Inr (c, arr, v')"
    "grow (c - n) n (V, di, v) = (V, di\<lparr>di_direct := arr\<rparr>, v')"
proof -
  have cg: "n \<le> tot" "length (di_direct di) = 28" "total_blocks_of tot - total_blocks_of n \<le> length v"
    using assms(1) by (auto simp: can_grow_def file_wf_def)
  show ?thesis
  proof (cases "n \<le> min 28 tot")
    case True
    then have c: "c = min 28 tot" using assms(2) by simp
    have "total_blocks_of c \<le> total_blocks_of tot" using total_blocks_mono [of c "tot - c"] c by simp
    moreover have "total_blocks_of c = c" "total_blocks_of n = n" using c True by (auto simp: total_blocks_eq)
    ultimately have "c - n \<le> length v" using cg(3) by simp
    then show ?thesis using fill_direct [of n c di v V] that True c cg(2) by auto
  next
    case False
    then have "fill_blocks n (min 28 tot) (di_direct di) v = Inr (n, di_direct di, v)" by (subst fill_blocks.simps) auto
    moreover have "c = n" using assms(2) False by auto
    ultimately show ?thesis using that by simp
  qed
qed

lemma increase_size_ok:
  assumes "rep bd valid H D V st" "length H + 1 < BLOCK_CACHE_SIZE" "can_grow H D n tot (V, di, v)"
    "n = unat (data_blocks di)" "tot = unat (data_blocks_of new_size)"
  shows "post (increase_size bd new_size v di st) (\<lambda>(di', st'). \<exists>V' v'. rep bd valid H D V' st'
    \<and> grow (tot - n) n (V, di\<lparr>di_size := new_size\<rparr>, v) = (V', di', v'))"
proof -
  let ?di = "di\<lparr>di_size := new_size\<rparr>"
  have tot: "unat (data_blocks ?di) = tot" by (simp add: data_blocks_def assms(5))
  have cg: "can_grow H D n tot (V, ?di, v)" using assms(3) by simp
  then have nt: "n \<le> tot" by (simp add: can_grow_def)
  obtain c1 where c1: "c1 = max n (min 28 tot)" by simp
  obtain arr v1 where p1: "fill_blocks n (min 28 tot) (di_direct ?di) v = Inr (c1, arr, v1)"
    "grow (c1 - n) n (V, ?di, v) = (V, ?di\<lparr>di_direct := arr\<rparr>, v1)"
    by (rule increase_direct [OF cg c1])
  let ?d1 = "?di\<lparr>di_direct := arr\<rparr>"
  have n1: "n \<le> c1" "c1 \<le> tot" using c1 nt by simp_all
  then have cg1: "can_grow H D c1 tot (V, ?d1, v1)" using can_grow_grown(2) [OF cg, of "c1 - n"] p1(2) by simp
  show ?thesis
  proof (cases "tot \<le> 28")
    case True
    then have "c1 = tot" using c1 nt by simp
    then show ?thesis
      unfolding increase_size_def Let_def tot assms(4) [symmetric] p1(1) using True p1(2) assms(1) by simp
  next
    case False
    then have c1': "28 \<le> c1" "28 < tot" using c1 by simp_all
    have v1: "v1 \<noteq> []" if "c1 = 28"
      using cg1 False that by (auto simp: can_grow_def total_blocks_eq)
    obtain d2 v2 where d2: "(d2, v2) = (if c1 = 28 then (?d1\<lparr>di_indirect1 := hd v1\<rparr>, tl v1) else (?d1, v1))" by (metis surj_pair)
    have s2: "(if c1 = INODE_DIRECT_COUNT
        then rbind (unwrap (if v1 = [] then None else Some (hd v1))) (\<lambda>b. Inr (?d1\<lparr>di_indirect1 := b\<rparr>, tl v1))
        else Inr (?d1, v1)) = Inr (d2, v2)" using d2 v1 by (simp split: if_splits)
    obtain c2 where c2: "c2 = max c1 (min 156 tot)" by simp
    have n2: "c1 \<le> c2" "c2 \<le> tot" using c2 n1 by simp_all
    have step2: "grow (c2 - n) n (V, ?di, v) = (V2, d2, v3) \<and> can_grow H D c2 tot (V2, d2, v3)"
      if "grow (c2 - c1) c1 (V, ?d1, v1) = (V2, d2, v3)" for V2 v3
      using that p1(2) grow_add [of "c1 - n" "c2 - c1" n "(V, ?di, v)"] can_grow_grown(2) [OF cg1, of "c2 - c1"] n1 n2 by simp
    have rest: "post (if tot - 28 \<le> 128 then Inr (d2, st2)
        else rbind (if c2 - 28 = 128
               then rbind (unwrap (if v3 = [] then None else Some (hd v3))) (\<lambda>b. Inr (d2\<lparr>di_indirect2 := b\<rparr>, tl v3))
               else Inr (d2, v3)) (\<lambda>(di, new_blocks).
          rbind (BlockCache_modify bd (ucast (di_indirect2 di)) IndirectBlock_codec 0
             (\<lambda>indirect2 st. fill_indirect2 bd ((c2 - 28 - 128) div 128) ((c2 - 28 - 128) mod 128)
                ((tot - 28 - 128) div 128) ((tot - 28 - 128) mod 128) indirect2 new_blocks st) st2) (\<lambda>(_, st).
           Inr (di, st)))) (\<lambda>(di', st'). \<exists>V' v'. rep bd valid H D V' st' \<and> grow (tot - n) n (V, ?di, v) = (V', di', v'))"
      if r: "rep bd valid H D V2 st2" and g: "grow (c2 - c1) c1 (V, ?d1, v1) = (V2, d2, v3)" for V2 v3 st2
    proof (cases "tot \<le> 156")
      case True
      then have "c2 = tot" using c2 n1 by simp
      moreover have "tot - 28 \<le> 128" using True by simp
      ultimately show ?thesis using r step2 [OF g] by simp
    next
      case False
      then have c2': "156 \<le> c2" "156 < tot" using c2 by simp_all
      have cg2: "can_grow H D c2 tot (V2, d2, v3)" using step2 [OF g] by simp
      have v3: "v3 \<noteq> []" if "c2 = 156"
        using cg2 False that by (auto simp: can_grow_def total_blocks_eq)
      obtain d3 v4 where d3: "(d3, v4) = (if c2 = 156 then (d2\<lparr>di_indirect2 := hd v3\<rparr>, tl v3) else (d2, v3))" by (metis surj_pair)
      have s3: "(if c2 - 28 = 128
          then rbind (unwrap (if v3 = [] then None else Some (hd v3))) (\<lambda>b. Inr (d2\<lparr>di_indirect2 := b\<rparr>, tl v3))
          else Inr (d2, v3)) = Inr (d3, v4)" using d3 v3 c2' by (auto split: if_splits)
      have "grow (tot - n) n (V, ?di, v) = grow (tot - c2) c2 (V2, d2, v3)"
        using grow_add [of "c2 - n" "tot - c2" n "(V, ?di, v)"] step2 [OF g] n1 n2 by simp
      moreover have "\<not> tot - 28 \<le> 128" using False by simp
      ultimately show ?thesis
        using increase_indirect2 [OF r assms(2) cg2 c2' d3 refl refl] unfolding s3
        by (simp add: post_rbind) (elim post_mono, auto)
    qed
    have "post (BlockCache_modify bd (ucast (di_indirect1 d2)) IndirectBlock_codec 0
        (closure_mut (\<lambda>indirect1. rbind (fill_blocks (c1 - 28) (min 128 (tot - 28)) indirect1 v2) (\<lambda>(c, arr, rest). Inr ((c, rest), arr)))) st)
      (\<lambda>((cc, v2), st'). cc = c2 - 28 \<and> (\<exists>V'. rep bd valid H D V' st' \<and> grow (c2 - c1) c1 (V, ?d1, v1) = (V', d2, v2)))"
      using assms(2) by (intro increase_indirect1 [OF assms(1) _ cg1 c1' d2 c2]) simp
    then show ?thesis
      unfolding increase_size_def Let_def tot assms(4) [symmetric] p1(1) rbind_simps prod.case if_not_P [OF False] s2 post_rbind
      by (elim post_mono) (clarsimp simp only: prod.case, erule (1) rest)
  qed
qed

end

end
