(* ===== verification/File_Writes.thy ===== *)
theory File_Writes
  imports File_Updates
begin

text \<open>
  Reading and writing files through inodes: the blocks of the data area and the bitmap that says
  which are used, the inode as it is stored in its block, and what \<open>Inode::write_at\<close> does to the
  contents of its file and of the others.
\<close>

section \<open>The data area\<close>

definition data_block :: "EasyFileSystem \<Rightarrow> nat \<Rightarrow> u32" where
  "data_block fs x = of_nat x + fs_data_area_start_block fs"

text \<open>
  The first \<open>N\<close> bits of the data bitmap stand for blocks of the device that are not blocks of the
  bitmap.
\<close>

definition data_area :: "EasyFileSystem \<Rightarrow> (usize \<Rightarrow> bool) \<Rightarrow> nat \<Rightarrow> bool" where
  "data_area fs D N \<longleftrightarrow> N \<le> unat (bm_blocks (fs_data_bitmap fs)) * 4096 \<and> N < 2 ^ 32
     \<and> (\<forall>i. bitmap_block (fs_data_bitmap fs) i \<longrightarrow> D i)
     \<and> (\<forall>x < N. D (ucast (data_block fs x)) \<and> \<not> bitmap_block (fs_data_bitmap fs) (ucast (data_block fs x)))"

definition used :: "EasyFileSystem \<Rightarrow> nat \<Rightarrow> (usize \<Rightarrow> u8 list) \<Rightarrow> u32 set" where
  "used fs N V = data_block fs ` {x. x < N \<and> bitmap_bit V (fs_data_bitmap fs) x}"

definition free_blocks :: "EasyFileSystem \<Rightarrow> nat \<Rightarrow> (usize \<Rightarrow> u8 list) \<Rightarrow> nat" where
  "free_blocks fs N V = card {x. x < N \<and> \<not> bitmap_bit V (fs_data_bitmap fs) x}"

lemma ucast_of_nat_u32: "ucast (of_nat m :: usize) = (of_nat m :: u32)"
  by (simp add: unsigned_of_nat word_of_nat_eq_iff)

lemma ucast_u32_image [simp]: "ucast (b :: u32) \<in> (ucast ` S :: usize set) \<longleftrightarrow> b \<in> S"
  by (auto simp: ucast_u32_inj)

lemma data_block_inj: "N < 2 ^ 32 \<Longrightarrow> x < N \<Longrightarrow> y < N \<Longrightarrow> data_block fs x = data_block fs y \<Longrightarrow> x = y"
proof -
  assume "N < 2 ^ 32" "x < N" "y < N" "data_block fs x = data_block fs y"
  then have "unat (of_nat x :: u32) = unat (of_nat y :: u32)" by (simp add: data_block_def)
  then show "x = y" using \<open>N < 2 ^ 32\<close> \<open>x < N\<close> \<open>y < N\<close> by (simp add: unat_of_nat take_bit_nat_eq_self)
qed

lemma used_area: "data_area fs D N \<Longrightarrow> b \<in> data_block fs ` {..<N} \<Longrightarrow> D (ucast b) \<and> \<not> bitmap_block (fs_data_bitmap fs) (ucast b)"
  by (auto simp: data_area_def)

lemma used_subset: "used fs N V \<subseteq> data_block fs ` {..<N}"
  by (auto simp: used_def)

text \<open>One allocation: a block that was free is used, nothing else changes in the data area.\<close>

lemma used_bit_changed:
  assumes "data_area fs D N" "x < N" "bit_changed (fs_data_bitmap fs) x True V V'"
  shows "used fs N V' = insert (data_block fs x) (used fs N V)"
    "\<not> bitmap_bit V (fs_data_bitmap fs) x \<Longrightarrow> Suc (free_blocks fs N V') = free_blocks fs N V"
    "\<not> bitmap_bit V (fs_data_bitmap fs) x \<Longrightarrow> data_block fs x \<notin> used fs N V"
proof -
  let ?bm = "fs_data_bitmap fs"
  have b: "bitmap_bit V' ?bm y = (y = x \<or> bitmap_bit V ?bm y)" if "y < N" for y
    using assms that by (auto simp: bit_changed_def data_area_def)
  then have "{y. y < N \<and> bitmap_bit V' ?bm y} = insert x {y. y < N \<and> bitmap_bit V ?bm y}" using assms(2) by auto
  then show "used fs N V' = insert (data_block fs x) (used fs N V)" by (simp add: used_def)
  assume n: "\<not> bitmap_bit V ?bm x"
  have "{y. y < N \<and> \<not> bitmap_bit V ?bm y} = insert x {y. y < N \<and> \<not> bitmap_bit V' ?bm y}" using b n assms(2) by auto
  moreover have "x \<notin> {y. y < N \<and> \<not> bitmap_bit V' ?bm y}" using b assms(2) by simp
  ultimately show "Suc (free_blocks fs N V') = free_blocks fs N V" by (simp add: free_blocks_def)
  have "N < 2 ^ 32" using assms(1) by (simp add: data_area_def)
  then show "data_block fs x \<notin> used fs N V"
    using n assms(2) data_block_inj [of N x _ fs] by (auto simp: used_def)
qed

context block_device
begin

lemma alloc_data_ok:
  assumes "rep bd valid H D V st" "length H < BLOCK_CACHE_SIZE" "data_area fs D N"
    "\<forall>i. bitmap_block (fs_data_bitmap fs) i \<longrightarrow> i \<notin> fst ` set H" "0 < free_blocks fs N V"
  shows "post (alloc_data bd fs st) (\<lambda>(b, st'). \<exists>V'. rep bd valid H D V' st' \<and> b \<in> data_block fs ` {..<N} \<and> b \<notin> used fs N V
    \<and> used fs N V' = insert b (used fs N V) \<and> Suc (free_blocks fs N V') = free_blocks fs N V
    \<and> (\<forall>i. \<not> bitmap_block (fs_data_bitmap fs) i \<longrightarrow> V' i = V i))"
proof -
  let ?bm = "fs_data_bitmap fs"
  have "{x. x < N \<and> \<not> bitmap_bit V ?bm x} \<noteq> {}" using assms(5) by (simp add: free_blocks_def card_gt_0_iff)
  then obtain x0 where x0: "x0 < N" "\<not> bitmap_bit V ?bm x0" by blast
  have N: "N \<le> unat (bm_blocks ?bm) * 4096" and bl: "\<forall>i. bitmap_block ?bm i \<longrightarrow> D i \<and> i \<notin> fst ` set H"
    using assms(3,4) by (auto simp: data_area_def)
  have "post (unwrap r) (\<lambda>x. \<exists>V'. rep bd valid H D V' st' \<and> ucast x + fs_data_area_start_block fs \<in> data_block fs ` {..<N}
      \<and> ucast x + fs_data_area_start_block fs \<notin> used fs N V
      \<and> used fs N V' = insert (ucast x + fs_data_area_start_block fs) (used fs N V) \<and> Suc (free_blocks fs N V') = free_blocks fs N V
      \<and> (\<forall>i. \<not> bitmap_block ?bm i \<longrightarrow> V' i = V i))"
    if al: "case r of None \<Rightarrow> rep bd valid H D V st' \<and> (\<forall>m < unat (bm_blocks ?bm) * 4096. bitmap_bit V ?bm m)
      | Some x \<Rightarrow> \<exists>V' m. rep bd valid H D V' st' \<and> x = of_nat m \<and> m < unat (bm_blocks ?bm) * 4096 \<and> \<not> bitmap_bit V ?bm m
        \<and> (\<forall>m' < m. bitmap_bit V ?bm m') \<and> bit_changed ?bm m True V V'" for r :: "usize option" and st'
  proof (cases r)
    case None
    then show ?thesis using al x0 N by auto
  next
    case (Some x)
    then obtain V' m where m: "rep bd valid H D V' st'" "x = of_nat m" "\<not> bitmap_bit V ?bm m" "\<forall>m' < m. bitmap_bit V ?bm m'"
      "bit_changed ?bm m True V V'" using al by auto
    have "m < N" using m(4) x0 by (metis not_le_imp_less order_le_less_trans)
    moreover have "ucast x + fs_data_area_start_block fs = data_block fs m" by (simp add: m(2) data_block_def ucast_of_nat_u32)
    ultimately show ?thesis
      using Some m(1,5) used_bit_changed(1) [OF assms(3) _ m(5)] used_bit_changed(2,3) [OF assms(3) _ m(5,3)]
      by (auto simp: bit_changed_def)
  qed
  then show ?thesis
    unfolding alloc_data_def post_rbind
    by (intro post_mono [OF Bitmap_alloc_ok [OF assms(1,2) bl]]) (auto simp: post_rbind)
qed

lemma alloc_datas_ok:
  assumes "rep bd valid H D V st" "length H < BLOCK_CACHE_SIZE" "data_area fs D N"
    "\<forall>i. bitmap_block (fs_data_bitmap fs) i \<longrightarrow> i \<notin> fst ` set H" "m \<le> free_blocks fs N V"
  shows "post (alloc_datas bd fs m st) (\<lambda>(v, st'). \<exists>V'. rep bd valid H D V' st' \<and> length v = m \<and> distinct v
    \<and> set v \<subseteq> data_block fs ` {..<N} \<and> set v \<inter> used fs N V = {} \<and> used fs N V' = used fs N V \<union> set v
    \<and> (\<forall>i. \<not> bitmap_block (fs_data_bitmap fs) i \<longrightarrow> V' i = V i))"
  using assms(1,5)
proof (induction m arbitrary: V st)
  case (Suc m)
  let ?Q = "\<lambda>(v, st'). \<exists>V'. rep bd valid H D V' st' \<and> length v = Suc m \<and> distinct v
    \<and> set v \<subseteq> data_block fs ` {..<N} \<and> set v \<inter> used fs N V = {} \<and> used fs N V' = used fs N V \<union> set v
    \<and> (\<forall>i. \<not> bitmap_block (fs_data_bitmap fs) i \<longrightarrow> V' i = V i)"
  have tail: "post (rbind (alloc_datas bd fs m st1) (\<lambda>(v, st). Inr (b # v, st))) ?Q"
    if V1: "rep bd valid H D V1 st1" "b \<in> data_block fs ` {..<N}" "b \<notin> used fs N V" "used fs N V1 = insert b (used fs N V)"
      "Suc (free_blocks fs N V1) = free_blocks fs N V" "\<forall>i. \<not> bitmap_block (fs_data_bitmap fs) i \<longrightarrow> V1 i = V i" for V1 st1 b
  proof -
    have "m \<le> free_blocks fs N V1" using V1(5) Suc.prems(2) by simp
    from Suc.IH [OF V1(1) this] show ?thesis
      unfolding post_rbind
    proof (rule post_mono, clarsimp simp only: prod.case post_simps)
      fix v st' V'
      assume a: "rep bd valid H D V' st'" "distinct v" "set v \<subseteq> data_block fs ` {..<N}" "set v \<inter> used fs N V1 = {}"
        "used fs N V' = used fs N V1 \<union> set v" "\<forall>i. \<not> bitmap_block (fs_data_bitmap fs) i \<longrightarrow> V' i = V1 i"
      have "distinct (b # v)" "set (b # v) \<inter> used fs N V = {}" "used fs N V' = used fs N V \<union> set (b # v)"
        using a(2,4,5) V1(3,4) by auto
      then show "\<exists>V'. rep bd valid H D V' st' \<and> length (b # v) = Suc (length v) \<and> distinct (b # v)
        \<and> set (b # v) \<subseteq> data_block fs ` {..<N} \<and> set (b # v) \<inter> used fs N V = {} \<and> used fs N V' = used fs N V \<union> set (b # v)
        \<and> (\<forall>i. \<not> bitmap_block (fs_data_bitmap fs) i \<longrightarrow> V' i = V i)"
        using a(1,3,6) V1(2,6) by auto
    qed
  qed
  have "0 < free_blocks fs N V" using Suc.prems(2) by simp
  from alloc_data_ok [OF Suc.prems(1) assms(2-4) this] show ?case
    unfolding alloc_datas.simps post_rbind [of "alloc_data bd fs st"]
    by (rule post_mono) (clarsimp simp only: prod.case, rule tail, auto)
qed (auto intro: exI)

end


section \<open>Files\<close>

text \<open>What a file depends on: its inode and the indirect blocks.\<close>

lemma file_cong:
  assumes "n \<le> INDIRECT2_BOUND" "\<forall>b \<in> set (index_list V di n). V' (ucast b) = V (ucast b)"
  shows "data_list V' di n = data_list V di n" "index_list V' di n = index_list V di n" "blocks_of V' di n = blocks_of V di n"
    "file_wf V' di n = file_wf V di n"
proof -
  have same: "\<forall>b \<in> index_blocks V di n. V' (ucast b) = V (ucast b)" using assms set_index_list by blast
  show d: "data_list V' di n = data_list V di n" using block_no_cong [OF _ same] by (simp add: data_list_def)
  have "n > 156 \<Longrightarrow> block_words V' (di_indirect2 di) = block_words V (di_indirect2 di)"
    using assms(2) by (simp add: index_list_def block_words_def)
  then show i: "index_list V' di n = index_list V di n" by (simp add: index_list_def)
  show "blocks_of V' di n = blocks_of V di n" "file_wf V' di n = file_wf V di n"
    using d i by (simp_all add: blocks_of_def file_wf_def)
qed

definition contents :: "(usize \<Rightarrow> u8 list) \<Rightarrow> DiskInode \<Rightarrow> u8 list" where
  "contents V di = file_bytes V di 0 (unat (di_size di))"

definition file_size_ok :: "nat \<Rightarrow> bool" where
  "file_size_ok sz \<longleftrightarrow> sz \<le> INDIRECT2_BOUND * BLOCK_SZ"

text \<open>A file whose blocks are different, and all used according to the bitmap.\<close>

definition fs_file :: "EasyFileSystem \<Rightarrow> nat \<Rightarrow> (usize \<Rightarrow> u8 list) \<Rightarrow> DiskInode \<Rightarrow> bool" where
  "fs_file fs N V di \<longleftrightarrow> file_size_ok (unat (di_size di)) \<and> file_wf V di (unat (data_blocks di))
     \<and> blocks_of V di (unat (data_blocks di)) \<subseteq> used fs N V"

lemma unat_data_blocks_of:
  assumes "file_size_ok (unat sz)"
  shows "unat (data_blocks_of sz) = (unat sz + 511) div 512"
proof -
  have "unat (511 + sz) = unat sz + 511" using assms by (simp add: file_size_ok_def unat_word_ariths)
  then show ?thesis by (simp add: data_blocks_of_def unat_div_distrib)
qed

lemma size_in_blocks: "file_size_ok (unat sz) \<Longrightarrow> unat sz \<le> unat (data_blocks_of sz) * 512" "file_size_ok (unat sz) \<Longrightarrow> unat (data_blocks_of sz) \<le> 16540"
proof -
  assume s: "file_size_ok (unat sz)"
  have "sz' \<le> (sz' + 511) div 512 * 512" for sz' :: nat
    using div_mult_mod_eq [of "sz' + 511" 512] mod_less_divisor [of 512 "sz' + 511"] by linarith
  then show "unat sz \<le> unat (data_blocks_of sz) * 512" using unat_data_blocks_of [OF s] by simp
  have "(unat sz + 511) div 512 \<le> (16540 * 512 + 511) div 512" using s by (intro div_le_mono) (simp add: file_size_ok_def)
  then show "unat (data_blocks_of sz) \<le> 16540" using unat_data_blocks_of [OF s] by simp
qed

lemma length_contents [simp]: "length (contents V di) = unat (di_size di)"
  by (simp add: contents_def)

lemma contents_cong:
  assumes "fs_file fs N V di" "\<forall>b \<in> blocks_of V di (unat (data_blocks di)). V' (ucast b) = V (ucast b)"
  shows "contents V' di = contents V di" "blocks_of V' di (unat (data_blocks di)) = blocks_of V di (unat (data_blocks di))"
    "file_wf V' di (unat (data_blocks di))"
proof -
  let ?n = "unat (data_blocks di)"
  have n: "?n \<le> 16540" "unat (di_size di) \<le> ?n * 512"
    using assms(1) size_in_blocks [of "di_size di"] by (simp_all add: fs_file_def data_blocks_def)
  note c = file_cong [OF n(1), of V di V']
  have i: "\<forall>b \<in> set (index_list V di ?n). V' (ucast b) = V (ucast b)" using assms(2) by (simp add: blocks_of_def)
  show "blocks_of V' di ?n = blocks_of V di ?n" "file_wf V' di ?n"
    using c(3,4) [OF i] assms(1) by (simp_all add: fs_file_def)
  have "file_byte V' di k = file_byte V di k" if "k < unat (di_size di)" for k
  proof -
    have k: "k div 512 < ?n" using that n(2) by (simp add: less_mult_imp_div_less)
    have "block_no V' di (k div 512) = block_no V di (k div 512)" using c(1) [OF i] k by (simp add: data_list_def)
    moreover have "block_no V di (k div 512) \<in> blocks_of V di ?n" using k by (simp add: blocks_of_def data_list_def)
    ultimately show ?thesis using assms(2) by (simp add: file_byte_def)
  qed
  then show "contents V' di = contents V di" by (simp add: contents_def file_bytes_def)
qed


section \<open>Inodes\<close>

lemma decode_encode_words_append:
  fixes ws :: "'a::len word list"
  assumes "length ws = n" "LENGTH('a) \<le> 8 * sz"
  shows "decode_words sz n (encode_words sz ws @ rest) = ws"
proof (rule nth_equalityI)
  fix k assume "k < length (decode_words sz n (encode_words sz ws @ rest) :: 'a word list)"
  then have k: "k < length ws" using assms(1) by simp
  then have "sz * Suc k \<le> sz * length ws" by (intro mult_le_mono2) simp
  then have "take sz (drop (sz * k) (encode_words sz ws @ rest)) = le_bytes sz (ws ! k)"
    using k take_drop_encode_words [OF k, of sz] by simp
  then show "decode_words sz n (encode_words sz ws @ rest) ! k = ws ! k"
    using k assms by (simp add: decode_words_def le_word_le_bytes)
qed (simp add: assms(1))

lemma length_encode_DiskInode: "length (di_direct di) = INODE_DIRECT_COUNT \<Longrightarrow> length (encode DiskInode_codec di) = 125"
  by (simp add: DiskInode_codec_def)

lemma DiskInode_roundtrip:
  assumes "length (di_direct di) = INODE_DIRECT_COUNT"
  shows "decode DiskInode_codec (encode DiskInode_codec di @ rest) = di"
proof -
  let ?ws = "di_size di # di_direct di @ [di_indirect1 di, di_indirect2 di]"
  let ?ty = "case di_type di of File \<Rightarrow> 0 | Directory \<Rightarrow> (1 :: u8)"
  have d: "decode_words 4 31 (encode_words 4 ?ws @ ?ty # rest) = ?ws"
    using assms by (intro decode_encode_words_append) simp_all
  have "(encode_words 4 ?ws @ ?ty # rest) ! 124 = ?ty" using assms by (simp add: nth_append del: encode_words_def)
  then show ?thesis
    using d assms by (cases "di_type di") (simp_all add: DiskInode_codec_def Let_def nth_append nth_Cons')
qed

text \<open>The inode at its place in a block, and the places of two inodes.\<close>

definition inode_at :: "(usize \<Rightarrow> u8 list) \<Rightarrow> Inode \<Rightarrow> DiskInode" where
  "inode_at V ino = decode DiskInode_codec (take 128 (drop (unat (ino_block_offset ino)) (V (ino_disk_id ino))))"

definition inode_place :: "EasyFileSystem \<Rightarrow> (usize \<Rightarrow> bool) \<Rightarrow> nat \<Rightarrow> Inode \<Rightarrow> bool" where
  "inode_place fs D N ino \<longleftrightarrow> D (ino_disk_id ino) \<and> unat (ino_block_offset ino) + 128 \<le> BLOCK_SZ
     \<and> \<not> bitmap_block (fs_data_bitmap fs) (ino_disk_id ino) \<and> (\<forall>x < N. ino_disk_id ino \<noteq> ucast (data_block fs x))"

definition separate :: "Inode \<Rightarrow> Inode \<Rightarrow> bool" where
  "separate ino ino' \<longleftrightarrow> ino_disk_id ino \<noteq> ino_disk_id ino'
     \<or> unat (ino_block_offset ino) + 128 \<le> unat (ino_block_offset ino')
     \<or> unat (ino_block_offset ino') + 128 \<le> unat (ino_block_offset ino)"

lemma inode_at_put:
  assumes "length (V (ino_disk_id ino)) = BLOCK_SZ" "unat (ino_block_offset ino) + 128 \<le> BLOCK_SZ" "length (di_direct di) = INODE_DIRECT_COUNT"
    "V' = V(ino_disk_id ino := put_bytes (unat (ino_block_offset ino)) (encode DiskInode_codec di) (V (ino_disk_id ino)))"
  shows "inode_at V' ino = di" "length (V' (ino_disk_id ino)) = BLOCK_SZ"
    "separate ino ino' \<Longrightarrow> unat (ino_block_offset ino') + 128 \<le> BLOCK_SZ \<Longrightarrow> inode_at V' ino' = inode_at V ino'"
proof -
  let ?o = "unat (ino_block_offset ino)" and ?e = "encode DiskInode_codec di" and ?b = "V (ino_disk_id ino)"
  have l: "length ?e = 125" by (rule length_encode_DiskInode [OF assms(3)])
  show "length (V' (ino_disk_id ino)) = BLOCK_SZ" using assms(1,2,4) l by (simp add: length_put_bytes)
  have "take 128 (drop ?o (put_bytes ?o ?e ?b)) = ?e @ take 3 (drop (?o + 125) ?b)"
    using assms(1,2) l by (simp add: put_bytes_def)
  then show "inode_at V' ino = di" using DiskInode_roundtrip [OF assms(3)] by (simp add: inode_at_def assms(4))
  assume sep: "separate ino ino'" "unat (ino_block_offset ino') + 128 \<le> BLOCK_SZ"
  let ?o' = "unat (ino_block_offset ino')"
  have "take 128 (drop ?o' (put_bytes ?o ?e ?b)) = take 128 (drop ?o' ?b)" if "?o + 128 \<le> ?o' \<or> ?o' + 128 \<le> ?o"
  proof (rule nth_equalityI)
    fix k assume "k < length (take 128 (drop ?o' (put_bytes ?o ?e ?b)))"
    then show "take 128 (drop ?o' (put_bytes ?o ?e ?b)) ! k = take 128 (drop ?o' ?b) ! k"
      using that assms(1,2) sep(2) l by (auto simp: nth_put_bytes [OF _ l] length_put_bytes)
  qed (use assms(1,2) l in \<open>simp add: length_put_bytes\<close>)
  then show "inode_at V' ino' = inode_at V ino'"
    using sep by (cases "ino_disk_id ino = ino_disk_id ino'") (auto simp: inode_at_def assms(4) separate_def)
qed


section \<open>Reading through an inode\<close>

lemma file_bytes_take_drop: "file_bytes V di i (min (i + l) n) = take l (drop i (file_bytes V di 0 n))"
  by (rule nth_equalityI) (simp_all add: file_bytes_def less_diff_conv add.commute)

lemma fs_file_blocks:
  assumes "data_area fs D N" "fs_file fs N V di" "b \<in> blocks_of V di (unat (data_blocks di))"
  shows "b \<in> data_block fs ` {..<N}" "D (ucast b)" "\<not> bitmap_block (fs_data_bitmap fs) (ucast b)"
proof -
  show "b \<in> data_block fs ` {..<N}" using assms(2,3) used_subset [of fs N V] by (auto simp: fs_file_def subset_iff)
  then show "D (ucast b)" "\<not> bitmap_block (fs_data_bitmap fs) (ucast b)" using used_area [OF assms(1)] by simp_all
qed

lemma fs_file_ok:
  assumes "data_area fs D N" "fs_file fs N V di" "\<forall>x < N. ucast (data_block fs x) \<notin> fst ` set H"
  shows "file_ok H D V di (unat (data_blocks di))"
proof (rule file_wf_ok)
  show "file_wf V di (unat (data_blocks di))" using assms(2) by (simp add: fs_file_def)
  show "\<forall>b \<in> blocks_of V di (unat (data_blocks di)). D (ucast b) \<and> ucast b \<notin> fst ` set H"
    using fs_file_blocks [OF assms(1,2)] assms(3) by blast
qed

lemma fs_file_size: "fs_file fs N V di \<Longrightarrow> unat (di_size di) \<le> unat (data_blocks di) * 512"
  using size_in_blocks(1) [of "di_size di"] by (simp add: fs_file_def data_blocks_def)

lemma inode_offset: "unat (o1 + 128) \<le> 512" "unat o1 < 512" if "unat (o1 :: usize) + 128 \<le> 512"
  using that by (simp_all add: unat_word_ariths)

context block_device
begin

lemma Inode_read_at_ok:
  assumes "rep bd valid [] D V st" "data_area fs D N" "inode_place fs D N ino" "fs_file fs N V (inode_at V ino)"
    "unat offset + unat len < 2 ^ 64"
  shows "post (Inode_read_at bd offset len ino st) (\<lambda>(bs, st').
    bs = take (unat len) (drop (unat offset) (contents V (inode_at V ino))) \<and> rep bd valid [] D V st')"
proof -
  let ?di = "inode_at V ino" and ?H = "[(ino_disk_id ino, False)]"
  have p: "D (ino_disk_id ino)" "unat (ino_block_offset ino) + 128 \<le> 512" using assms(3) by (simp_all add: inode_place_def)
  have "file_ok ?H D V ?di (unat (data_blocks ?di))"
    using assms(3) by (intro fs_file_ok [OF assms(2,4)]) (auto simp: inode_place_def)
  then have rd: "post (DiskInode_read_at bd ?di offset len st1) (\<lambda>(bs, st').
      bs = take (unat len) (drop (unat offset) (contents V ?di)) \<and> rep bd valid ?H D V st')" if "rep bd valid ?H D V st1" for st1
    using DiskInode_read_at_ok [OF that _ _ fs_file_size [OF assms(4)] assms(5)]
    by (simp add: contents_def file_bytes_take_drop)
  have c: "sizeof DiskInode_codec = 128" by (simp add: DiskInode_codec_def)
  show ?thesis
    unfolding Inode_read_at_def read_disk_inode_def using p inode_offset [OF p(2)]
    by (intro BlockCache_read_rule [OF assms(1)], simp_all add: c flip: inode_at_def, elim post_mono [OF rd]) auto
qed

end

section \<open>Growing a file\<close>

lemma used_cong:
  assumes "data_area fs D N" "\<forall>i. bitmap_block (fs_data_bitmap fs) i \<longrightarrow> V' i = V i"
  shows "used fs N V' = used fs N V" "free_blocks fs N V' = free_blocks fs N V"
proof -
  have "bitmap_bit V' (fs_data_bitmap fs) x = bitmap_bit V (fs_data_bitmap fs) x" if "x < N" for x
  proof -
    have "x div 4096 < unat (bm_blocks (fs_data_bitmap fs))" using that assms(1) by (auto simp: data_area_def less_mult_imp_div_less)
    then have "bitmap_block (fs_data_bitmap fs) (of_nat (x div 4096) + bm_start_disk_id (fs_data_bitmap fs))"
      unfolding bitmap_block_def by blast
    then show ?thesis using assms(2) by (simp add: bitmap_bit_def)
  qed
  then have "{x. x < N \<and> bitmap_bit V' (fs_data_bitmap fs) x} = {x. x < N \<and> bitmap_bit V (fs_data_bitmap fs) x}"
    "{x. x < N \<and> \<not> bitmap_bit V' (fs_data_bitmap fs) x} = {x. x < N \<and> \<not> bitmap_bit V (fs_data_bitmap fs) x}" by auto
  then show "used fs N V' = used fs N V" "free_blocks fs N V' = free_blocks fs N V" by (simp_all add: used_def free_blocks_def)
qed

text \<open>A file after an operation on it, seen from the state before.\<close>

definition file_step :: "EasyFileSystem \<Rightarrow> nat \<Rightarrow> (usize \<Rightarrow> u8 list) \<Rightarrow> DiskInode \<Rightarrow> (usize \<Rightarrow> u8 list) \<Rightarrow> DiskInode \<Rightarrow> bool" where
  "file_step fs N V di V' di' \<longleftrightarrow> fs_file fs N V' di' \<and> di_type di' = di_type di \<and> used fs N V \<subseteq> used fs N V'
     \<and> blocks_of V di (unat (data_blocks di)) \<subseteq> blocks_of V' di' (unat (data_blocks di'))
     \<and> blocks_of V' di' (unat (data_blocks di')) \<inter> used fs N V \<subseteq> blocks_of V di (unat (data_blocks di))
     \<and> (\<forall>b. \<not> bitmap_block (fs_data_bitmap fs) b \<longrightarrow> b \<notin> ucast ` blocks_of V' di' (unat (data_blocks di')) \<longrightarrow> V' b = V b)"

lemma total_blocks_less: "n \<le> 16540 \<Longrightarrow> total_blocks_of n < 2 ^ 32"
proof -
  assume "n \<le> 16540"
  then have "total_blocks_of n \<le> total_blocks_of 16540" using total_blocks_mono [of n "16540 - n"] by simp
  then show ?thesis by (simp add: total_blocks_of_def)
qed

lemma blocks_num_needed_eq:
  assumes "file_size_ok (unat new_size)" "di_size di \<le> new_size"
  obtains x where "blocks_num_needed new_size di = Inr x"
    "unat x = total_blocks_of (unat (data_blocks_of new_size)) - total_blocks_of (unat (data_blocks di))"
    "unat (data_blocks di) \<le> unat (data_blocks_of new_size)"
proof
  let ?n = "unat (data_blocks di)" and ?t = "unat (data_blocks_of new_size)"
  have le: "unat (di_size di) \<le> unat new_size" using assms(2) by (simp add: word_le_nat_alt)
  then have s: "file_size_ok (unat (di_size di))" using assms(1) by (simp add: file_size_ok_def)
  show nt: "?n \<le> ?t" using le unat_data_blocks_of [OF assms(1)] unat_data_blocks_of [OF s] by (simp add: data_blocks_def div_le_mono)
  have t: "?t \<le> 16540" by (rule size_in_blocks(2) [OF assms(1)])
  have mono: "total_blocks_of ?n \<le> total_blocks_of ?t" using total_blocks_mono [of ?n "?t - ?n"] nt by simp
  have u: "unat (total_blocks new_size) = total_blocks_of ?t" "unat (total_blocks (di_size di)) = total_blocks_of ?n"
    using total_blocks_less [OF t] mono by (simp_all add: total_blocks_def data_blocks_def unat_of_nat take_bit_nat_eq_self)
  show "blocks_num_needed new_size di = Inr (total_blocks new_size - total_blocks (di_size di))"
    using assms(2) by (simp add: blocks_num_needed_def)
  show "unat (total_blocks new_size - total_blocks (di_size di)) = total_blocks_of ?t - total_blocks_of ?n"
    using u mono by (simp add: unat_sub word_le_nat_alt)
qed


lemma grown_file_step:
  assumes "data_area fs D N" "fs_file fs N V di" "file_size_ok (unat new_size)" "n = unat (data_blocks di)" "tot = unat (data_blocks_of new_size)" "n \<le> tot"
    "set v \<subseteq> data_block fs ` {..<N}" "set v \<inter> used fs N V = {}" "used fs N V1 = used fs N V \<union> set v"
    "\<forall>i. \<not> bitmap_block (fs_data_bitmap fs) i \<longrightarrow> V1 i = V i"
    "grown (tot - n) n (V1, di\<lparr>di_size := new_size\<rparr>, v) (V2, di2, v2)" "index_list V1 di n = index_list V di n" "data_list V1 di n = data_list V di n"
  shows "file_step fs N V di V2 di2" "k < unat (di_size di) \<Longrightarrow> file_byte V2 di2 k = file_byte V di k" "di_size di2 = new_size"
proof -
  let ?bm = "fs_data_bitmap fs"
  have sz: "di_size di2 = new_size" "di_type di2 = di_type di" and wf: "file_wf V2 di2 tot"
    using grownD(1,8,9) [OF assms(11)] assms(6) by simp_all
  then have tot: "unat (data_blocks di2) = tot" by (simp add: data_blocks_def assms(5))
  show "di_size di2 = new_size" by (fact sz)
  have bl: "blocks_of V2 di2 tot \<subseteq> blocks_of V di n \<union> set v" using grownD(5) [OF assms(11)] assms(6,12,13) by (simp add: blocks_of_def)
  have old: "blocks_of V di n \<subseteq> used fs N V" using assms(2,4) by (simp add: fs_file_def)
  have dl: "take n (data_list V2 di2 tot) = data_list V di n" using grownD(3) [OF assms(11)] assms(6,13) by simp
  then have "set (data_list V di n) \<subseteq> set (data_list V2 di2 tot)" using set_take_subset [of n "data_list V2 di2 tot"] by simp
  then have kept: "blocks_of V di n \<subseteq> blocks_of V2 di2 tot"
    using grownD(4) [OF assms(11)] assms(6,12) by (auto simp: blocks_of_def)
  have area: "blocks_of V2 di2 tot \<subseteq> data_block fs ` {..<N}" using bl old used_subset [of fs N V] assms(7) by blast
  have idx: "set (index_list V2 di2 tot) \<subseteq> blocks_of V2 di2 tot" by (simp add: blocks_of_def)
  have same: "V2 b = V1 b" if "b \<notin> ucast ` set (index_list V2 di2 tot)" for b
    using grownD(7) [OF assms(11)] that assms(6) by simp
  have "V2 i = V1 i" if "bitmap_block ?bm i" for i
    using same [of i] that area idx used_area [OF assms(1)] by blast
  then have us: "used fs N V2 = used fs N V \<union> set v" using used_cong(1) [OF assms(1)] assms(9) by metis
  have frame: "V2 b = V b" if "\<not> bitmap_block ?bm b" "b \<notin> ucast ` blocks_of V2 di2 tot" for b
    using same [of b] that idx assms(10) by auto
  have "file_size_ok (unat (di_size di2))" using assms(3) sz by simp
  then show "file_step fs N V di V2 di2"
    using wf sz bl old us frame kept assms(4,8) by (auto simp: file_step_def fs_file_def tot)
  assume k: "k < unat (di_size di)"
  then have kn: "k div 512 < n" using fs_file_size [OF assms(2)] assms(4) by (simp add: less_mult_imp_div_less)
  from dl have b: "block_no V2 di2 (k div 512) = block_no V di (k div 512)"
    using kn assms(6) by (simp add: data_list_def take_map map_eq_conv)
  have in2: "block_no V2 di2 (k div 512) \<in> set (data_list V2 di2 tot)" using kn assms(6) by (simp add: data_list_def)
  then have "block_no V2 di2 (k div 512) \<notin> set (index_list V2 di2 tot)" using wf by (auto simp: file_wf_def)
  then have "V2 (ucast (block_no V di (k div 512))) = V1 (ucast (block_no V di (k div 512)))"
    using b by (intro same) (auto simp: ucast_u32_inj)
  moreover have "\<not> bitmap_block ?bm (ucast (block_no V di (k div 512)))"
    using in2 area used_area [OF assms(1)] b by (auto simp: blocks_of_def)
  ultimately show "file_byte V2 di2 k = file_byte V di k" using b assms(10) by (simp add: file_byte_def)
qed

context block_device
begin

lemma Inode_increase_size_ok:
  assumes "rep bd valid H D V st" "length H + 1 < BLOCK_CACHE_SIZE" "data_area fs D N" "fs_file fs N V di"
    "\<forall>i. bitmap_block (fs_data_bitmap fs) i \<longrightarrow> i \<notin> fst ` set H" "\<forall>x < N. ucast (data_block fs x) \<notin> fst ` set H"
    "file_size_ok (unat new_size)"
    "total_blocks_of (unat (data_blocks_of new_size)) - total_blocks_of (unat (data_blocks di)) \<le> free_blocks fs N V"
  shows "post (Inode_increase_size bd fs new_size di st) (\<lambda>(di', st'). \<exists>V'. rep bd valid H D V' st' \<and> file_step fs N V di V' di'
    \<and> (\<forall>k < unat (di_size di). file_byte V' di' k = file_byte V di k) \<and> di_size di' = max new_size (di_size di))"
proof (cases "new_size < di_size di")
  case True
  then show ?thesis
    using assms(1,4) by (auto simp: Inode_increase_size_def file_step_def intro!: exI [of _ V])
next
  case False
  then have le: "di_size di \<le> new_size" by simp
  let ?n = "unat (data_blocks di)" and ?t = "unat (data_blocks_of new_size)"
  obtain x where x: "blocks_num_needed new_size di = Inr x" "unat x = total_blocks_of ?t - total_blocks_of ?n" "?n \<le> ?t"
    by (rule blocks_num_needed_eq [OF assms(7) le])
  let ?Q = "\<lambda>(di', st'). \<exists>V'. rep bd valid H D V' st' \<and> file_step fs N V di V' di'
    \<and> (\<forall>k < unat (di_size di). file_byte V' di' k = file_byte V di k) \<and> di_size di' = max new_size (di_size di)"
  have grow: "post (increase_size bd new_size v di st1) ?Q"
    if a: "rep bd valid H D V1 st1" "length v = unat x" "distinct v" "set v \<subseteq> data_block fs ` {..<N}" "set v \<inter> used fs N V = {}"
      "used fs N V1 = used fs N V \<union> set v" "\<forall>i. \<not> bitmap_block (fs_data_bitmap fs) i \<longrightarrow> V1 i = V i" for v V1 st1
  proof -
    have wf: "file_wf V di ?n" "blocks_of V di ?n \<subseteq> used fs N V" using assms(4) by (simp_all add: fs_file_def)
    have "\<forall>b \<in> set (index_list V di ?n). V1 (ucast b) = V (ucast b)"
      using a(7) fs_file_blocks(3) [OF assms(3,4)] by (simp add: blocks_of_def)
    note cong = file_cong [OF _ this]
    have n: "?n \<le> 16540" using wf(1) by (simp add: file_wf_def)
    have "\<forall>b \<in> set v \<union> blocks_of V di ?n. D (ucast b) \<and> ucast b \<notin> fst ` set H"
      using a(4) used_area [OF assms(3)] fs_file_blocks [OF assms(3,4)] assms(6) by blast
    then have cg: "can_grow H D ?n ?t (V1, di, v)"
      using wf a(2,3,5) x(2,3) cong(3,4) [OF n] size_in_blocks(2) [OF assms(7)] by (auto simp: can_grow_def)
    then have "grown (?t - ?n) ?n (V1, di\<lparr>di_size := new_size\<rparr>, v) (grow (?t - ?n) ?n (V1, di\<lparr>di_size := new_size\<rparr>, v))"
      using x(3) by (intro can_grow_grown(1) [of H D _ ?t]) simp_all
    note step = grown_file_step [OF assms(3,4,7) refl refl x(3) a(4-7) _ cong(2) [OF n] cong(1) [OF n]]
    show ?thesis
      using increase_size_ok [OF a(1) assms(2) cg refl refl]
      by (rule post_mono) (use step \<open>grown _ _ _ _\<close> le in \<open>auto simp: max_def\<close>)
  qed
  show ?thesis
    unfolding Inode_increase_size_def if_not_P [OF False] x(1) rbind_simps post_rbind
    using assms(2,8) x(2)
    by (intro post_mono [OF alloc_datas_ok [OF assms(1) _ assms(3,5)]]) (auto intro!: grow)
qed

end


section \<open>Writing through an inode\<close>

lemma file_step_frame:
  "file_step fs N V di V' di' \<Longrightarrow> \<not> bitmap_block (fs_data_bitmap fs) b \<Longrightarrow> b \<notin> ucast ` blocks_of V' di' (unat (data_blocks di'))
    \<Longrightarrow> V' b = V b"
  by (simp add: file_step_def)

lemma file_step_trans:
  assumes "file_step fs N V di V1 di1" "file_step fs N V1 di1 V2 di2"
  shows "file_step fs N V di V2 di2"
proof -
  let ?n = "\<lambda>di. unat (data_blocks di)"
  have "V2 b = V b" if "\<not> bitmap_block (fs_data_bitmap fs) b" "b \<notin> ucast ` blocks_of V2 di2 (?n di2)" for b
  proof -
    have "b \<notin> ucast ` blocks_of V1 di1 (?n di1)" using that(2) assms(2) by (auto simp: file_step_def)
    then show ?thesis using that assms by (simp add: file_step_def)
  qed
  moreover have "fs_file fs N V2 di2" "di_type di2 = di_type di" "used fs N V \<subseteq> used fs N V2"
    "blocks_of V di (?n di) \<subseteq> blocks_of V2 di2 (?n di2)" using assms unfolding file_step_def by auto
  moreover have "blocks_of V2 di2 (?n di2) \<inter> used fs N V \<subseteq> blocks_of V di (?n di)"
    using assms unfolding file_step_def by (elim conjE) blast
  ultimately show ?thesis unfolding file_step_def by simp
qed

text \<open>Writing into the data blocks of a file.\<close>

lemma data_written:
  assumes "data_area fs D N" "fs_file fs N V di" "n = unat (data_blocks di)" "\<forall>b. b \<notin> ucast ` set (data_list V di n) \<longrightarrow> V' b = V b"
  shows "file_step fs N V di V' di"
proof -
  have wf: "file_wf V di n" using assms(2,3) by (simp add: fs_file_def)
  then have "V' (ucast b) = V (ucast b)" if "b \<in> set (index_list V di n)" for b
    using assms(4) [rule_format, of "ucast b"] that by (auto simp: file_wf_def)
  then have "\<forall>b \<in> set (index_list V di n). V' (ucast b) = V (ucast b)" by blast
  note c = file_cong [OF _ this]
  have n: "n \<le> 16540" using wf by (simp add: file_wf_def)
  have "V' i = V i" if "bitmap_block (fs_data_bitmap fs) i" for i
    using that fs_file_blocks(3) [OF assms(1,2)] by (intro assms(4) [rule_format]) (auto simp: blocks_of_def assms(3))
  then have us: "used fs N V' = used fs N V" using used_cong(1) [OF assms(1)] by metis
  have "V' b = V b" if "b \<notin> ucast ` blocks_of V di n" for b
    using that assms(4) by (auto simp: blocks_of_def)
  then show ?thesis
    using c(3,4) [OF n] us assms(2,3) by (simp add: file_step_def fs_file_def)
qed

lemma contents_written:
  assumes "a + length buf \<le> unat (di_size di)"
    "\<forall>i < unat (di_size di). file_byte V' di i = (if a \<le> i \<and> i < a + length buf then buf ! (i - a) else file_byte V di i)"
  shows "contents V' di = take a (contents V di) @ buf @ drop (a + length buf) (contents V di)"
proof -
  have "contents V' di ! i = put_bytes a buf (contents V di) ! i" if "i < unat (di_size di)" for i
    using nth_put_bytes [of a "length buf" "contents V di" buf i] assms that by (simp add: contents_def file_bytes_def)
  then have "contents V' di = put_bytes a buf (contents V di)"
    using assms(1) by (intro nth_equalityI) (simp_all add: length_put_bytes)
  then show ?thesis by (simp add: put_bytes_def)
qed

context block_device
begin

lemma DiskInode_write_at_ok:
  assumes "rep bd valid H D V st" "length H < BLOCK_CACHE_SIZE" "data_area fs D N" "fs_file fs N V di"
    "\<forall>x < N. ucast (data_block fs x) \<notin> fst ` set H" "unat offset + length buf \<le> unat (di_size di)" "buf \<noteq> []"
  shows "post (DiskInode_write_at bd di offset buf st) (\<lambda>(m, st'). m = length buf \<and> (\<exists>V'. rep bd valid H D V' st' \<and> file_step fs N V di V' di
    \<and> contents V' di = take (unat offset) (contents V di) @ buf @ drop (unat offset + length buf) (contents V di)))"
proof -
  let ?n = "unat (data_blocks di)" and ?a = "unat offset" and ?e = "unat offset + length buf"
  have "unat (di_size di) < 2 ^ 32" using unat_less_2p [of "di_size di"] by simp
  then have "unat (offset + of_nat (length buf)) = ?e" using assms(6) by (simp add: unat_word_ariths unat_of_nat take_bit_nat_eq_self)
  then have stop: "min (unat (offset + of_nat (length buf))) (unat (di_size di)) = ?e" using assms(6) by simp
  have ok: "file_ok H D V di ?n" by (rule fs_file_ok [OF assms(3,4,5)])
  have e: "?a < ?e" "?e \<le> ?n * 512" using assms(6,7) fs_file_size [OF assms(4)] by (simp_all add: Nat.gr0I)
  have fb: "file_blocks V di ?n = set (data_list V di ?n)" by (auto simp: file_blocks_def data_list_def)
  have "post (inode_write_loop bd di ?a ?e buf st) (\<lambda>(m, st'). m = length buf \<and> (\<exists>V'. rep bd valid H D V' st' \<and> file_ok H D V' di ?n
    \<and> (\<forall>i < ?n * 512. file_byte V' di i = (if ?a \<le> i \<and> i < ?e then buf ! (i - ?a) else file_byte V di i))
    \<and> (\<forall>b. b \<notin> ucast ` file_blocks V di ?n \<longrightarrow> V' b = V b)))"
    using inode_write_loop_ok [OF assms(1,2) ok e, of buf] by simp
  then have "post (inode_write_loop bd di ?a ?e buf st) (\<lambda>(m, st'). m = length buf \<and> (\<exists>V'. rep bd valid H D V' st' \<and> file_step fs N V di V' di
    \<and> contents V' di = take ?a (contents V di) @ buf @ drop ?e (contents V di)))"
  proof (rule post_mono, clarify, intro conjI refl)
    fix st' V'
    assume V': "rep bd valid H D V' st'" "\<forall>b. b \<notin> ucast ` file_blocks V di ?n \<longrightarrow> V' b = V b"
      "\<forall>i < ?n * 512. file_byte V' di i = (if ?a \<le> i \<and> i < ?e then buf ! (i - ?a) else file_byte V di i)"
    have "file_step fs N V di V' di" using V'(2) unfolding fb by (rule data_written [OF assms(3,4) refl])
    moreover have "contents V' di = take ?a (contents V di) @ buf @ drop ?e (contents V di)"
      using V'(3) fs_file_size [OF assms(4)] by (intro contents_written [OF assms(6)]) simp
    ultimately show "\<exists>V'. rep bd valid H D V' st' \<and> file_step fs N V di V' di
      \<and> contents V' di = take ?a (contents V di) @ buf @ drop ?e (contents V di)" using V'(1) by blast
  qed
  then show ?thesis by (simp add: DiskInode_write_at_def Let_def stop)
qed

end


text \<open>The files of a set of inodes: at different places, each well formed, and with no block in common.\<close>

definition ino_blocks :: "(usize \<Rightarrow> u8 list) \<Rightarrow> Inode \<Rightarrow> u32 set" where
  "ino_blocks V ino = blocks_of V (inode_at V ino) (unat (data_blocks (inode_at V ino)))"

definition ino_contents :: "(usize \<Rightarrow> u8 list) \<Rightarrow> Inode \<Rightarrow> u8 list" where
  "ino_contents V ino = contents V (inode_at V ino)"

definition files_ok :: "EasyFileSystem \<Rightarrow> (usize \<Rightarrow> bool) \<Rightarrow> nat \<Rightarrow> (usize \<Rightarrow> u8 list) \<Rightarrow> Inode set \<Rightarrow> bool" where
  "files_ok fs D N V inos \<longleftrightarrow> data_area fs D N
     \<and> (\<forall>i \<in> inos. inode_place fs D N i \<and> fs_file fs N V (inode_at V i))
     \<and> (\<forall>i \<in> inos. \<forall>j \<in> inos. i \<noteq> j \<longrightarrow> separate i j \<and> ino_blocks V i \<inter> ino_blocks V j = {})"

lemma file_step_other:
  assumes "data_area fs D N" "file_step fs N V di V' di'" "fs_file fs N V di2"
    "blocks_of V di2 (unat (data_blocks di2)) \<inter> blocks_of V di (unat (data_blocks di)) = {}"
  shows "fs_file fs N V' di2" "contents V' di2 = contents V di2"
    "blocks_of V' di2 (unat (data_blocks di2)) = blocks_of V di2 (unat (data_blocks di2))"
    "blocks_of V di2 (unat (data_blocks di2)) \<inter> blocks_of V' di' (unat (data_blocks di')) = {}"
proof -
  let ?b = "blocks_of V di2 (unat (data_blocks di2))"
  have us: "?b \<subseteq> used fs N V" using assms(3) by (simp add: fs_file_def)
  then show dis: "?b \<inter> blocks_of V' di' (unat (data_blocks di')) = {}"
    using assms(2,4) by (auto simp: file_step_def)
  have "V' (ucast b) = V (ucast b)" if "b \<in> ?b" for b
    using that dis fs_file_blocks(3) [OF assms(1,3) that] by (intro file_step_frame [OF assms(2)]) auto
  note c = contents_cong [OF assms(3), of V']
  show "contents V' di2 = contents V di2" "blocks_of V' di2 (unat (data_blocks di2)) = ?b" "fs_file fs N V' di2"
    using c \<open>\<And>b. b \<in> ?b \<Longrightarrow> V' (ucast b) = V (ucast b)\<close> us assms(2,3) by (auto simp: fs_file_def file_step_def)
qed

text \<open>Writing the inode back changes no file.\<close>

lemma inode_written:
  assumes "data_area fs D N" "inode_place fs D N ino" "fs_file fs N V di" "V' = V(ino_disk_id ino := x)"
  shows "fs_file fs N V' di" "contents V' di = contents V di"
    "blocks_of V' di (unat (data_blocks di)) = blocks_of V di (unat (data_blocks di))"
proof -
  have "V' (ucast b) = V (ucast b)" if "b \<in> blocks_of V di (unat (data_blocks di))" for b
    using fs_file_blocks(1) [OF assms(1,3) that] assms(2) by (auto simp: assms(4) inode_place_def)
  note c = contents_cong [OF assms(3), of V']
  moreover have "used fs N V' = used fs N V"
    using assms(2) by (intro used_cong(1) [OF assms(1)]) (auto simp: assms(4) inode_place_def)
  ultimately show "contents V' di = contents V di" "blocks_of V' di (unat (data_blocks di)) = blocks_of V di (unat (data_blocks di))"
    "fs_file fs N V' di"
    using \<open>\<And>b. b \<in> blocks_of V di (unat (data_blocks di)) \<Longrightarrow> V' (ucast b) = V (ucast b)\<close> assms(3) by (auto simp: fs_file_def)
qed

lemma file_step_inode:
  assumes "files_ok fs D N V inos" "ino \<in> inos" "length (V (ino_disk_id ino)) = BLOCK_SZ" "file_step fs N V (inode_at V ino) V1 di1"
    "V' = V1(ino_disk_id ino := put_bytes (unat (ino_block_offset ino)) (encode DiskInode_codec di1) (V1 (ino_disk_id ino)))"
  shows "files_ok fs D N V' inos" "inode_at V' ino = di1" "ino_contents V' ino = contents V1 di1"
    "i \<in> inos \<Longrightarrow> i \<noteq> ino \<Longrightarrow> inode_at V' i = inode_at V i \<and> ino_contents V' i = ino_contents V i"
proof -
  have da: "data_area fs D N" and pl: "inode_place fs D N i" and f: "fs_file fs N V (inode_at V i)" if "i \<in> inos" for i
    using assms(1) that by (auto simp: files_ok_def)
  have f1: "fs_file fs N V1 di1" using assms(4) by (simp add: file_step_def)
  then have l: "length (di_direct di1) = 28" by (simp add: fs_file_def file_wf_def)
  have V1: "V1 (ino_disk_id i) = V (ino_disk_id i)" if "i \<in> inos" for i
    using pl [OF that] fs_file_blocks(1) [OF da [OF that] f1]
    by (intro file_step_frame [OF assms(4)]) (fastforce simp: inode_place_def)+
  note p = inode_at_put [of V1 ino, OF _ _ l assms(5)]
  have o1: "unat (ino_block_offset i) + 128 \<le> 512" if "i \<in> inos" for i using pl [OF that] by (simp add: inode_place_def)
  have len: "length (V1 (ino_disk_id ino)) = 512" using assms(2,3) V1 by simp
  note w = inode_written [OF da [OF assms(2)] pl [OF assms(2)] _ assms(5)]
  show at: "inode_at V' ino = di1" by (rule p(1) [OF len o1 [OF assms(2)]])
  then show "ino_contents V' ino = contents V1 di1" using w(2) [OF f1] by (simp add: ino_contents_def)
  have bl: "ino_blocks V' ino = blocks_of V1 di1 (unat (data_blocks di1))" using w(3) [OF f1] at by (simp add: ino_blocks_def)
  have other: "inode_at V' i = inode_at V i \<and> fs_file fs N V' (inode_at V i) \<and> contents V' (inode_at V i) = contents V (inode_at V i)
      \<and> ino_blocks V' i = ino_blocks V i \<and> ino_blocks V' i \<inter> ino_blocks V' ino = {}" if i: "i \<in> inos" "i \<noteq> ino" for i
  proof -
    have sep: "separate ino i" "ino_blocks V i \<inter> ino_blocks V ino = {}" using assms(1,2) i by (auto simp: files_ok_def)
    have "inode_at V' i = inode_at V1 i" using p(3) [OF len o1 [OF assms(2)] sep(1) o1 [OF i(1)]] .
    also have "\<dots> = inode_at V i" using V1 [OF i(1)] by (simp add: inode_at_def)
    finally have same: "inode_at V' i = inode_at V i" .
    note s = file_step_other [OF da [OF i(1)] assms(4) f [OF i(1)]]
    have "blocks_of V (inode_at V i) (unat (data_blocks (inode_at V i))) \<inter> blocks_of V (inode_at V ino) (unat (data_blocks (inode_at V ino))) = {}"
      using sep(2) by (simp add: ino_blocks_def)
    note s = s [OF this]
    show ?thesis using same s w [OF s(1)] bl by (simp add: ino_blocks_def)
  qed
  show "i \<in> inos \<Longrightarrow> i \<noteq> ino \<Longrightarrow> inode_at V' i = inode_at V i \<and> ino_contents V' i = ino_contents V i"
    using other by (simp add: ino_contents_def)
  have wf: "fs_file fs N V' (inode_at V' i)" if "i \<in> inos" for i
    using other [OF that] at w(1) [OF f1] by (cases "i = ino") simp_all
  moreover have "ino_blocks V' i \<inter> ino_blocks V' j = {}" if "i \<in> inos" "j \<in> inos" "i \<noteq> j" for i j
    using other [OF that(1)] other [OF that(2)] that assms(1) by (cases "i = ino"; cases "j = ino") (auto simp: files_ok_def)
  ultimately show "files_ok fs D N V' inos" using assms(1) by (auto simp: files_ok_def)
qed


lemma contents_grown:
  assumes "\<forall>k < unat (di_size di). file_byte V' di' k = file_byte V di k" "unat (di_size di') = max e (unat (di_size di))" "a \<le> unat (di_size di)"
  shows "take a (contents V' di') = take a (contents V di)" "drop e (contents V' di') = drop e (contents V di)"
  using assms by (auto simp: contents_def file_bytes_def take_map drop_map take_upt intro!: nth_equalityI)

context block_device
begin

lemma Inode_write_at_ok:
  assumes "rep bd valid [] D V st" "files_ok fs D N V inos" "ino \<in> inos" "unat offset \<le> length (ino_contents V ino)" "buf \<noteq> []"
    "e = unat offset + length buf" "file_size_ok e"
    "total_blocks_of ((e + 511) div 512) - total_blocks_of ((length (ino_contents V ino) + 511) div 512) \<le> free_blocks fs N V"
  shows "post (Inode_write_at bd fs offset buf ino st) (\<lambda>(m, st'). m = length buf \<and> (\<exists>V'. rep bd valid [] D V' st'
    \<and> (\<forall>i. D i \<longrightarrow> read_block bd i (bs_dev st') = Inr (V' i)) \<and> files_ok fs D N V' inos
    \<and> (\<forall>i \<in> inos. ino_contents V' i = (if i = ino then take (unat offset) (ino_contents V ino) @ buf @ drop e (ino_contents V ino)
         else ino_contents V i))))"
proof -
  let ?di = "inode_at V ino" and ?H = "[(ino_disk_id ino, True)]" and ?new = "ucast (offset + of_nat (length buf)) :: u32"
  let ?Q = "\<lambda>V'. files_ok fs D N V' inos \<and> (\<forall>i \<in> inos. ino_contents V' i
      = (if i = ino then take (unat offset) (ino_contents V ino) @ buf @ drop e (ino_contents V ino) else ino_contents V i))"
  have da: "data_area fs D N" and pl: "inode_place fs D N ino" and f: "fs_file fs N V ?di"
    using assms(2,3) by (auto simp: files_ok_def)
  have p: "D (ino_disk_id ino)" "unat (ino_block_offset ino) + 128 \<le> 512" using pl by (simp_all add: inode_place_def)
  have H: "\<forall>i. bitmap_block (fs_data_bitmap fs) i \<longrightarrow> i \<notin> fst ` set ?H" "\<forall>x < N. ucast (data_block fs x) \<notin> fst ` set ?H"
    using pl by (auto simp: inode_place_def)
  have "e < 2 ^ 32" using assms(7) by (simp add: file_size_ok_def)
  then have new: "unat ?new = e"
    using assms(6) by (simp add: unat_word_ariths unat_of_nat take_bit_nat_eq_self unsigned_ucast_eq)
  have sz: "unat (di_size ?di) = length (ino_contents V ino)" by (simp add: ino_contents_def)
  have fr: "total_blocks_of (unat (data_blocks_of ?new)) - total_blocks_of (unat (data_blocks ?di)) \<le> free_blocks fs N V"
    using assms(7,8) f new sz by (simp add: unat_data_blocks_of data_blocks_def fs_file_def)
  have wr: "post (DiskInode_write_at bd di1 offset buf st1) (\<lambda>(m, st'). m = length buf \<and> length (encode DiskInode_codec di1) \<le> 128
      \<and> (\<exists>V'. rep bd valid ?H D V' st' \<and> ?Q (V'(ino_disk_id ino := put_bytes (unat (ino_block_offset ino)) (encode DiskInode_codec di1) (V' (ino_disk_id ino))))))"
    if a: "rep bd valid ?H D V1 st1" "file_step fs N V ?di V1 di1" "\<forall>k < unat (di_size ?di). file_byte V1 di1 k = file_byte V ?di k"
      "di_size di1 = max ?new (di_size ?di)" for V1 st1 di1
  proof -
    have f1: "fs_file fs N V1 di1" using a(2) by (simp add: file_step_def)
    then have l: "length (encode DiskInode_codec di1) = 125" by (intro length_encode_DiskInode) (simp add: fs_file_def file_wf_def)
    have s1: "unat (di_size di1) = max e (unat (di_size ?di))" using a(4) new by (simp add: max_def word_le_nat_alt)
    have c: "take (unat offset) (contents V1 di1) = take (unat offset) (ino_contents V ino)" "drop e (contents V1 di1) = drop e (ino_contents V ino)"
      using contents_grown [OF a(3) s1] assms(4) by (simp_all add: ino_contents_def)
    have "post (DiskInode_write_at bd di1 offset buf st1) (\<lambda>(m, st'). m = length buf \<and> (\<exists>V'. rep bd valid ?H D V' st' \<and> file_step fs N V1 di1 V' di1
      \<and> contents V' di1 = take (unat offset) (contents V1 di1) @ buf @ drop (unat offset + length buf) (contents V1 di1)))"
      using s1 assms(5,6) by (intro DiskInode_write_at_ok [OF a(1) _ da f1 H(2)]) simp_all
    then show ?thesis
    proof (rule post_mono, clarify, intro conjI refl)
      fix st' V2
      assume b: "rep bd valid ?H D V2 st'" "file_step fs N V1 di1 V2 di1"
        "contents V2 di1 = take (unat offset) (contents V1 di1) @ buf @ drop (unat offset + length buf) (contents V1 di1)"
      show "length (encode DiskInode_codec di1) \<le> 128" using l by simp
      note s = file_step_inode [OF assms(2,3) rep_length [OF assms(1) p(1)] file_step_trans [OF a(2) b(2)] refl]
      show "\<exists>V'. rep bd valid ?H D V' st'
        \<and> ?Q (V'(ino_disk_id ino := put_bytes (unat (ino_block_offset ino)) (encode DiskInode_codec di1) (V' (ino_disk_id ino))))"
        using b(1,3) s c assms(6) by (intro exI [of _ V2]) simp
    qed
  qed
  have cs: "sizeof DiskInode_codec = 128" by (simp add: DiskInode_codec_def)
  have "post (modify_disk_inode bd ino (\<lambda>disk_inode st.
         rbind (Inode_increase_size bd fs ?new disk_inode st) (\<lambda>(disk_inode, st).
         rbind (DiskInode_write_at bd disk_inode offset buf st) (\<lambda>(n, st). Inr (n, disk_inode, st)))) st)
      (\<lambda>(m, st'). m = length buf \<and> (\<exists>V'. rep bd valid [] D V' st' \<and> ?Q V'))"
    unfolding modify_disk_inode_def
  proof (rule BlockCache_modify_rule [OF assms(1)], simp_all only: cs)
    fix st1
    assume r: "rep bd valid [(ino_disk_id ino, True)] D V st1"
    have inc: "post (Inode_increase_size bd fs ?new ?di st1) (\<lambda>(di', st'). \<exists>V'. rep bd valid ?H D V' st' \<and> file_step fs N V ?di V' di'
      \<and> (\<forall>k < unat (di_size ?di). file_byte V' di' k = file_byte V ?di k) \<and> di_size di' = max ?new (di_size ?di))"
      using new assms(7) by (intro Inode_increase_size_ok [OF r _ da f H _ fr]) simp_all
    show "post (rbind (Inode_increase_size bd fs ?new (decode DiskInode_codec (take 128 (drop (unat (ino_block_offset ino)) (V (ino_disk_id ino))))) st1)
        (\<lambda>(disk_inode, st). rbind (DiskInode_write_at bd disk_inode offset buf st) (\<lambda>(n, st). Inr (n, disk_inode, st))))
      (\<lambda>(r, v, st). length (encode DiskInode_codec v) \<le> 128 \<and> (\<exists>V'. rep bd valid [(ino_disk_id ino, True)] D V' st
        \<and> (\<forall>st. rep bd valid [] D (V'(ino_disk_id ino := put_bytes (unat (ino_block_offset ino)) (encode DiskInode_codec v) (V' (ino_disk_id ino)))) st
          \<longrightarrow> (case (r, st) of (m, st') \<Rightarrow> m = length buf \<and> (\<exists>V'. rep bd valid [] D V' st' \<and> ?Q V')))))"
      unfolding inode_at_def [symmetric] post_rbind
      by (rule post_mono [OF inc], clarify, unfold prod.case post_rbind, rule post_mono [OF wr], assumption+)
        (clarify, unfold prod.case post_simps, blast)
  qed (use p inode_offset [OF p(2)] in simp_all)
  then show ?thesis
    unfolding Inode_write_at_def post_rbind
    by (rule post_mono) (clarsimp simp only: prod.case post_rbind, rule post_mono [OF block_cache_sync_all_ok], assumption, auto)
qed

end


text \<open>
  C2. Files as byte sequences. With the files of a set of inodes well formed, \<open>Inode::write_at\<close> at a
  position up to the end of a file returns the number of bytes written and puts them there, through
  the direct, indirect and doubly indirect blocks, growing the file with blocks of the data bitmap
  if it has to; the contents of all other files stay the same and all files stay well formed.
  \<open>Inode::read_at\<close> then returns exactly the contents, of this file and of the others, and every
  block of the device holds what clients see, so the contents survive in the device.
\<close>

theorem file_write_then_read:
  assumes "rep BlockFile file_valid [] D V st" "files_ok fs D N V inos" "ino \<in> inos" "unat offset \<le> length (ino_contents V ino)"
    "buf \<noteq> []" "e = unat offset + length buf" "file_size_ok e"
    "total_blocks_of ((e + 511) div 512) - total_blocks_of ((length (ino_contents V ino) + 511) div 512) \<le> free_blocks fs N V"
  shows "\<exists>st' V'. Inode_write_at BlockFile fs offset buf ino st = Inr (length buf, st') \<and> rep BlockFile file_valid [] D V' st'
    \<and> files_ok fs D N V' inos
    \<and> ino_contents V' ino = take (unat offset) (ino_contents V ino) @ buf @ drop e (ino_contents V ino)
    \<and> (\<forall>i \<in> inos. i \<noteq> ino \<longrightarrow> ino_contents V' i = ino_contents V i)
    \<and> (\<forall>i \<in> inos. \<forall>offset' len. unat offset' + unat len < 2 ^ 64 \<longrightarrow>
         (\<exists>st''. Inode_read_at BlockFile offset' len i st' = Inr (take (unat len) (drop (unat offset') (ino_contents V' i)), st'')))
    \<and> (\<forall>i. D i \<longrightarrow> read_block BlockFile i (bs_dev st') = Inr (V' i))"
proof -
  from bf.Inode_write_at_ok [OF assms] obtain st' V' where w: "Inode_write_at BlockFile fs offset buf ino st = Inr (length buf, st')"
    "rep BlockFile file_valid [] D V' st'" "\<forall>i. D i \<longrightarrow> read_block BlockFile i (bs_dev st') = Inr (V' i)" "files_ok fs D N V' inos"
    "\<forall>i \<in> inos. ino_contents V' i = (if i = ino then take (unat offset) (ino_contents V ino) @ buf @ drop e (ino_contents V ino)
       else ino_contents V i)"
    unfolding post_iff by auto
  have rd: "\<exists>st''. Inode_read_at BlockFile offset' len i st' = Inr (take (unat len) (drop (unat offset') (ino_contents V' i)), st'')"
    if "i \<in> inos" "unat offset' + unat len < 2 ^ 64" for i and offset' len :: usize
    using bf.Inode_read_at_ok [OF w(2) _ _ _ that(2), of fs N i] w(4) that(1) by (auto simp: files_ok_def post_iff ino_contents_def)
  show ?thesis using w rd assms(3) by auto
qed

text \<open>Two empty files on a disk of six blocks: the inodes are in block 2, the bitmap is block 3, the data area blocks 4 and 5.\<close>

definition small_fs :: EasyFileSystem where
  "small_fs = \<lparr>fs_inode_bitmap = \<lparr>bm_start_disk_id = 1, bm_blocks = 1\<rparr>, fs_data_bitmap = \<lparr>bm_start_disk_id = 3, bm_blocks = 1\<rparr>,
     fs_inode_area_start_block = 2, fs_data_area_start_block = 4\<rparr>"

definition small_disk :: "u8 list bstate" where
  "small_disk = \<lparr>bs_dev = replicate 3072 0, bs_queue = [], bs_held = []\<rparr>"

definition small_inodes :: "Inode set" where
  "small_inodes = {\<lparr>ino_disk_id = 2, ino_block_offset = 0\<rparr>, \<lparr>ino_disk_id = 2, ino_block_offset = 128\<rparr>}"

abbreviation (input) "small_view \<equiv> block_view BlockFile file_valid small_disk"

lemma small_valid: "file_valid (replicate 3072 0) i \<longleftrightarrow> unat i < 6"
  by (auto simp: file_valid_def)

lemma small_view_zero: "unat i < 6 \<Longrightarrow> small_view i = replicate 512 0"
proof -
  assume i: "unat i < 6"
  then have "unat (i * 512) = unat i * 512" by (simp add: unat_word_ariths)
  then show ?thesis
    using i by (simp add: small_disk_def block_view_def disk_block_def BlockFile_def file_read_block_def small_valid)
qed

lemma small_inode_at: "unat (ino_disk_id i) < 6 \<Longrightarrow> unat (ino_block_offset i) + 128 \<le> 512 \<Longrightarrow>
  inode_at small_view i = \<lparr>di_size = 0, di_direct = replicate 28 0, di_indirect1 = 0, di_indirect2 = 0, di_type = File\<rparr>"
  by (simp add: inode_at_def small_view_zero DiskInode_codec_def decode_words_zero Let_def min_def)

lemma small_bitmap_block: "bitmap_block (fs_data_bitmap small_fs) i \<longleftrightarrow> i = 3"
  by (simp add: bitmap_block_def small_fs_def)

lemma small_data_area: "data_area small_fs (file_valid (replicate 3072 0)) 2" "x < 2 \<Longrightarrow> ucast (data_block small_fs x) \<in> {4 :: usize, 5}"
proof -
  show x: "ucast (data_block small_fs x) \<in> {4 :: usize, 5}" if "x < 2" for x
    using that by (cases "x = 0") (auto simp: data_block_def small_fs_def less_2_cases_iff)
  have "file_valid (replicate 3072 0) (ucast (data_block small_fs x)) \<and> ucast (data_block small_fs x) \<noteq> (3 :: usize)" if "x < 2" for x
    using x [OF that] by (auto simp: small_valid simp del: unat_ucast_u32)
  then show "data_area small_fs (file_valid (replicate 3072 0)) 2"
    by (simp add: data_area_def small_bitmap_block small_valid) (simp add: small_fs_def)
qed

lemma small_files_ok: "files_ok small_fs (file_valid (replicate 3072 0)) 2 small_view small_inodes"
proof -
  have place: "inode_place small_fs (file_valid (replicate 3072 0)) 2 i" and at: "inode_at small_view i
      = \<lparr>di_size = 0, di_direct = replicate 28 0, di_indirect1 = 0, di_indirect2 = 0, di_type = File\<rparr>" if "i \<in> small_inodes" for i
    using that small_data_area(2) by (force simp: small_inodes_def inode_place_def small_valid small_bitmap_block small_inode_at)+
  have "fs_file small_fs 2 small_view (inode_at small_view i)" "ino_blocks small_view i = {}" if "i \<in> small_inodes" for i
    using at [OF that]
    by (simp_all add: fs_file_def ino_blocks_def file_size_ok_def data_blocks_def data_blocks_of_def file_wf_def blocks_of_def data_list_def index_list_def)
  then show ?thesis
    using place small_data_area(1) by (auto simp: files_ok_def separate_def small_inodes_def)
qed

theorem file_write_then_read_witness:
  "\<exists>st' V'. Inode_write_at BlockFile small_fs 0 [1, 2, 3] \<lparr>ino_disk_id = 2, ino_block_offset = 128\<rparr> small_disk = Inr (3, st')
    \<and> ino_contents V' \<lparr>ino_disk_id = 2, ino_block_offset = 128\<rparr> = [1, 2, 3]
    \<and> (\<exists>st''. Inode_read_at BlockFile 1 5 \<lparr>ino_disk_id = 2, ino_block_offset = 128\<rparr> st' = Inr ([2, 3], st''))
    \<and> (\<exists>st''. Inode_read_at BlockFile 0 5 \<lparr>ino_disk_id = 2, ino_block_offset = 0\<rparr> st' = Inr ([], st''))"
proof -
  let ?i = "\<lparr>ino_disk_id = 2, ino_block_offset = 128\<rparr> :: Inode" and ?j = "\<lparr>ino_disk_id = 2, ino_block_offset = 0\<rparr> :: Inode"
  have r: "rep BlockFile file_valid [] (file_valid (replicate 3072 0)) small_view small_disk"
    by (simp add: rep_def cache_inv_def small_disk_def)
  have c: "ino_contents small_view ?i = []" "ino_contents small_view ?j = []"
    by (simp_all add: ino_contents_def contents_def small_inode_at file_bytes_def)
  have "\<not> bitmap_bit small_view (fs_data_bitmap small_fs) x" if "x < 2" for x
    using that by (simp add: bitmap_bit_def small_fs_def small_view_zero wbit_def decode_words_zero)
  then have "free_blocks small_fs 2 small_view = 2" by (simp add: free_blocks_def cong: conj_cong)
  then obtain st' V' where w: "Inode_write_at BlockFile small_fs 0 [1, 2, 3] ?i small_disk = Inr (length [1, 2, 3 :: u8], st')"
    "ino_contents V' ?i = [1, 2, 3]" "ino_contents V' ?j = []"
    "\<forall>i \<in> small_inodes. \<forall>offset' len. unat offset' + unat len < 2 ^ 64 \<longrightarrow>
         (\<exists>st''. Inode_read_at BlockFile offset' len i st' = Inr (take (unat len) (drop (unat offset') (ino_contents V' i)), st''))"
    using file_write_then_read [OF r small_files_ok, of ?i 0 "[1, 2, 3]" 3] c
    by (auto simp: small_inodes_def file_size_ok_def total_blocks_of_def)
  have "\<exists>st''. Inode_read_at BlockFile 1 5 ?i st' = Inr ([2, 3], st'')" "\<exists>st''. Inode_read_at BlockFile 0 5 ?j st' = Inr ([], st'')"
    using w(4) [rule_format, of ?i 1 5] w(4) [rule_format, of ?j 0 5] w(2,3) by (simp_all add: small_inodes_def)
  then show ?thesis using w(1,2) by auto
qed

end
