(* ===== verification/Buddy_Allocator.thy ===== *)
theory Buddy_Allocator
  imports Memory
begin

text \<open>
  The heap of the kernel: a buddy allocator whose free lists are threaded through the free blocks
  themselves (\<open>buddy-allocator/src/linked_list.rs\<close>, \<open>buddy-allocator/src/lib.rs\<close>,
  \<open>os/src/mm/heap_allocator.rs\<close>). The state is the array of list heads and the memory.
\<close>

section \<open>Linked lists in memory\<close>

text \<open>A list is its head pointer; the first word of a node is the pointer to the next one; 0 is null.\<close>

definition LinkedList_push :: "usize \<Rightarrow> usize \<times> mem \<Rightarrow> usize \<times> mem" where
  "LinkedList_push item l = (item, store64 (snd l) item (fst l))"

definition LinkedList_pop :: "usize \<times> mem \<Rightarrow> usize option \<times> usize" where
  "LinkedList_pop l = (if fst l = 0 then (None, fst l) else (Some (fst l), load64 (snd l) (fst l)))"

text \<open>Where a node is linked from: the head of the list or the node before it.\<close>

datatype link = FromHead | FromNode usize

record ListNode =
  ln_cur :: usize
  ln_prev :: link

text \<open>\<open>iter_mut().find(|block| block.value() as usize == buddy)\<close>; a cyclic list without the value is searched for ever.\<close>

partial_function (option) find_node :: "mem \<Rightarrow> usize \<Rightarrow> usize \<Rightarrow> link \<Rightarrow> ListNode option option" where
  "find_node m buddy cur prev =
     (if cur = 0 then Some None
      else if cur = buddy then Some (Some \<lparr>ln_cur = cur, ln_prev = prev\<rparr>)
      else find_node m buddy (load64 m cur) (FromNode cur))"

definition ListNode_pop :: "ListNode \<Rightarrow> usize \<times> mem \<Rightarrow> usize \<times> mem" where
  "ListNode_pop node l =
     (case ln_prev node of
        FromHead \<Rightarrow> (load64 (snd l) (ln_cur node), snd l)
      | FromNode p \<Rightarrow> (fst l, store64 (snd l) p (load64 (snd l) (ln_cur node))))"

section \<open>Powers of two\<close>

text \<open>\<open>leading_zeros\<close>, \<open>trailing_zeros\<close> and \<open>next_power_of_two\<close> of \<open>usize\<close>; the last wraps to 0.\<close>

definition leading_zeros :: "usize \<Rightarrow> nat" where
  "leading_zeros w = (case find_index (\<lambda>i. bit w (63 - i)) [0..<64] of Some i \<Rightarrow> i | None \<Rightarrow> 64)"

definition trailing_zeros :: "usize \<Rightarrow> nat" where
  "trailing_zeros w = (case find_index (bit w) [0..<64] of Some i \<Rightarrow> i | None \<Rightarrow> 64)"

definition next_power_of_two :: "usize \<Rightarrow> usize" where
  "next_power_of_two n = (if n \<le> 1 then 1 else drop_bit (leading_zeros (n - 1)) (- 1) + 1)"

definition prev_power_of_two :: "usize \<Rightarrow> usize" where
  "prev_power_of_two num =
     (let next_power = next_power_of_two num in if num = next_power then next_power else drop_bit 1 next_power)"

section \<open>The allocator\<close>

record BuddyAllocator =
  ba_free_list :: "usize list"
  ba_mem :: mem

record Layout =
  layout_size :: usize
  layout_align :: usize

definition BuddyAllocator_empty :: "mem \<Rightarrow> BuddyAllocator" where
  "BuddyAllocator_empty m = \<lparr>ba_free_list = replicate 32 0, ba_mem = m\<rparr>"

text \<open>Operations on the list \<open>free_list[i]\<close> of the array of 32 lists.\<close>

definition free_head :: "nat \<Rightarrow> BuddyAllocator \<Rightarrow> usize result" where
  "free_head i b = (if i < 32 then Inr (ba_free_list b ! i) else Inl IndexOutOfBounds)"

definition free_push :: "nat \<Rightarrow> usize \<Rightarrow> BuddyAllocator \<Rightarrow> BuddyAllocator result" where
  "free_push i item b =
     rbind (free_head i b) (\<lambda>head.
     let (head, m) = LinkedList_push item (head, ba_mem b)
     in Inr \<lparr>ba_free_list = (ba_free_list b)[i := head], ba_mem = m\<rparr>)"

definition free_pop :: "nat \<Rightarrow> BuddyAllocator \<Rightarrow> (usize option \<times> BuddyAllocator) result" where
  "free_pop i b =
     rbind (free_head i b) (\<lambda>head.
     let (item, head) = LinkedList_pop (head, ba_mem b)
     in Inr (item, b\<lparr>ba_free_list := (ba_free_list b)[i := head]\<rparr>))"

section \<open>Powers of two, proved\<close>

lemma find_index_upt_Some: "find_index P [0..<n] = Some i \<longleftrightarrow> i < n \<and> P i \<and> (\<forall>j < i. \<not> P j)"
  by (auto simp: find_index_Some)

lemma find_index_upt_None: "find_index P [0..<n] = None \<longleftrightarrow> (\<forall>i < n. \<not> P i)"
  by (auto simp: find_index_None)

lemma trailing_zeros_0: "trailing_zeros 0 = 64"
  by (simp add: trailing_zeros_def find_index_upt_None [THEN iffD2] del: upt_rec_numeral)

lemma trailing_zeros_power: "k < 64 \<Longrightarrow> trailing_zeros (2 ^ k) = k"
proof -
  assume "k < 64"
  then have "find_index (bit (2 ^ k :: usize)) [0..<64] = Some k"
    unfolding find_index_upt_Some by (simp add: bit_simps)
  then show ?thesis by (simp add: trailing_zeros_def)
qed

lemma unat_2p:
  assumes "k < 64"
  shows "unat (2 ^ k :: usize) = 2 ^ k"
proof -
  have "(2 :: nat) ^ k < 2 ^ 64" using assms by (intro power_strict_increasing) simp_all
  then have "unat (of_nat (2 ^ k) :: usize) = 2 ^ k" by (intro unat_of_nat_64) simp
  then show ?thesis by simp
qed

lemma bit_imp_le_unat:
  assumes "bit (w :: usize) k"
  shows "2 ^ k \<le> unat w"
proof -
  have "odd (unat w div 2 ^ k)" using assms by (simp add: bit_unsigned_iff flip: bit_iff_odd)
  then have "unat w div 2 ^ k \<noteq> 0" by (metis even_zero)
  then show ?thesis by (simp add: div_eq_0_iff)
qed

lemma no_bit_imp_unat_less:
  assumes "\<And>j. k \<le> j \<Longrightarrow> \<not> bit (w :: usize) j"
  shows "unat w < 2 ^ k"
proof -
  have "take_bit k w = w" using assms by (intro bit_word_eqI) (auto simp: bit_simps not_less [symmetric])
  then have "unat w = unat w mod 2 ^ k" using unat_take_bit [of k w] by simp
  then show ?thesis by (metis mod_less_divisor zero_less_numeral zero_less_power)
qed

text \<open>The highest bit of a number that is not 0.\<close>

lemma leading_zeros_bound:
  assumes "w \<noteq> 0"
  shows "leading_zeros w < 64" "2 ^ (63 - leading_zeros w) \<le> unat w" "unat w < 2 ^ (64 - leading_zeros w)"
proof -
  have "\<exists>i < 64. bit w (63 - i)"
  proof (rule ccontr)
    assume no: "\<not> ?thesis"
    have "\<not> bit w i" if "i < 64" for i using no that by (auto dest: spec [of _ "63 - i"])
    then have "w = 0" by (intro bit_word_eqI) simp
    then show False using assms by simp
  qed
  then obtain i where i: "find_index (\<lambda>i. bit w (63 - i)) [0..<64] = Some i"
    using find_index_upt_None [of "\<lambda>i. bit w (63 - i)" 64] by (cases "find_index (\<lambda>i. bit w (63 - i)) [0..<64]") auto
  then have lz: "leading_zeros w = i" by (simp add: leading_zeros_def)
  have i': "i < 64" "bit w (63 - i)" "j < i \<Longrightarrow> \<not> bit w (63 - j)" for j
    using i by (simp_all add: find_index_upt_Some)
  show "leading_zeros w < 64" using lz i'(1) by simp
  show "2 ^ (63 - leading_zeros w) \<le> unat w" unfolding lz using i'(2) by (rule bit_imp_le_unat)
  have "\<not> bit w j" if "64 - i \<le> j" for j
    using that i'(3) [of "63 - j"] by (cases "j < 64") (auto dest: bit_imp_le_length)
  then show "unat w < 2 ^ (64 - leading_zeros w)" unfolding lz by (rule no_bit_imp_unat_less)
qed

lemma next_power_of_two_eq: "1 < n \<Longrightarrow> next_power_of_two n = 2 ^ (64 - leading_zeros (n - 1))"
proof -
  assume "1 < n"
  moreover have "drop_bit i (- 1 :: usize) = mask (64 - i)" for i
    by (rule bit_word_eqI) (auto simp: bit_simps)
  moreover have "mask k + 1 = (2 ^ k :: usize)" for k by (simp add: mask_eq_exp_minus_1)
  ultimately show ?thesis by (simp add: next_power_of_two_def)
qed

lemma next_power_of_two:
  assumes "unat n \<le> 2 ^ 63"
  shows "\<exists>k < 64. next_power_of_two n = 2 ^ k \<and> unat n \<le> 2 ^ k \<and> (unat n \<le> 1 \<and> k = 0 \<or> 2 ^ (k - 1) < unat n \<and> k \<noteq> 0)"
proof (cases "1 < n")
  case False
  then have "unat n \<le> 1" by (simp add: word_less_nat_alt)
  then show ?thesis using False by (intro exI [of _ 0]) (simp add: next_power_of_two_def)
next
  case True
  then have n: "n - 1 \<noteq> 0" "1 < unat n" by (auto simp: word_less_nat_alt)
  have u: "unat (n - 1) = unat n - 1" using n(2) by (subst unat_sub) (simp_all add: word_le_nat_alt)
  define i where "i = leading_zeros (n - 1)"
  note lz = leading_zeros_bound [OF n(1), folded i_def, unfolded u]
  have "i \<noteq> 0"
  proof
    assume "i = 0"
    then show False using lz(2) assms n(2) by simp
  qed
  moreover have "63 - i = 64 - i - 1" by simp
  ultimately show ?thesis
    using lz n(2) next_power_of_two_eq [OF True] by (intro exI [of _ "64 - i"]) (auto simp: i_def [symmetric])
qed

lemma prev_power_of_two_le:
  assumes "0 < x"
  shows "prev_power_of_two x \<le> x"
proof (cases "x = 1")
  case True
  then show ?thesis by (simp add: prev_power_of_two_def next_power_of_two_def)
next
  case False
  then have x: "1 < x" using assms by (simp add: word_less_nat_alt word_unat_eq_iff)
  then have n: "x - 1 \<noteq> 0" "1 < unat x" by (auto simp: word_less_nat_alt)
  have u: "unat (x - 1) = unat x - 1" using n(2) by (subst unat_sub) (simp_all add: word_le_nat_alt)
  define i where "i = leading_zeros (x - 1)"
  note lz = leading_zeros_bound [OF n(1), folded i_def, unfolded u]
  have "drop_bit 1 (2 ^ (64 - i)) \<le> x"
  proof (cases "i = 0")
    case True
    then show ?thesis by simp
  next
    case False
    then have "unat (2 ^ (64 - i) :: usize) = 2 ^ (64 - i)" by (intro unat_2p) simp
    then have "unat (drop_bit 1 (2 ^ (64 - i)) :: usize) = 2 ^ (64 - i) div 2 ^ 1" by (simp only: unat_drop_bit)
    moreover have "64 - i = Suc (63 - i)" using lz(1) by simp
    then have "(2 :: nat) ^ (64 - i) div 2 ^ 1 = 2 ^ (63 - i)" by simp
    ultimately show ?thesis using lz(2) unfolding word_le_nat_alt by linarith
  qed
  then show ?thesis using next_power_of_two_eq [OF x] by (simp add: prev_power_of_two_def Let_def i_def)
qed

function init_loop :: "usize \<Rightarrow> usize \<Rightarrow> BuddyAllocator \<Rightarrow> BuddyAllocator result" where
  "init_loop start stop b =
     (if start < stop
      then let lowbit = start AND (NOT start + 1);
               sz = min lowbit (prev_power_of_two (stop - start))
           in rbind (free_push (trailing_zeros sz) start b) (init_loop (start + sz) stop)
      else Inr b)"
  by pat_completeness auto
termination
proof (relation "measure (\<lambda>(start, stop, _). unat (stop - start))", goal_cases)
  case (2 start stop b lowbit sz b1)
  have "0 < stop - start" using 2(1) by (metis eq_iff_diff_eq_0 word_gt_0 order_less_irrefl)
  then have le: "sz \<le> stop - start" using prev_power_of_two_le 2(3) by (meson min.cobounded2 order_trans)
  have "trailing_zeros sz < 32" using 2(4) by (auto simp: free_push_def free_head_def split: if_splits)
  then have "sz \<noteq> 0" using trailing_zeros_0 by auto
  then have "stop - start - sz < stop - start" using le unat_gt_0 [of sz]
    by (simp add: word_less_nat_alt word_le_nat_alt unat_sub)
  then show ?case by (simp add: word_less_nat_alt algebra_simps)
qed simp

declare init_loop.simps [simp del]

definition BuddyAllocator_init :: "usize \<Rightarrow> usize \<Rightarrow> BuddyAllocator \<Rightarrow> BuddyAllocator result" where
  "BuddyAllocator_init start sz b =
     (let start = (start + 8 - 1) AND (NOT 8 + 1);
          stop = (start + sz) AND (NOT 8 + 1)
      in rbind (rassert (start \<le> stop)) (\<lambda>_. init_loop start stop b))"

text \<open>\<open>init_heap\<close>; the linker places the array \<open>HEAP_SPACE\<close>.\<close>

definition init_heap :: "usize \<Rightarrow> BuddyAllocator \<Rightarrow> BuddyAllocator result" where
  "init_heap heap_space b = BuddyAllocator_init heap_space 0x200000 b"

definition class_of :: "Layout \<Rightarrow> nat" where
  "class_of layout =
     trailing_zeros (max (next_power_of_two (layout_size layout)) (max (layout_align layout) 8))"

text \<open>\<open>for j in (class + 1..=i).rev()\<close>: split a block of class \<open>i\<close> down to the wanted class.\<close>

fun split_blocks :: "nat \<Rightarrow> nat \<Rightarrow> BuddyAllocator \<Rightarrow> BuddyAllocator result" where
  "split_blocks cls 0 b = Inr b"
| "split_blocks cls (Suc j) b =
     (if cls < Suc j
      then rbind (free_pop (Suc j) b) (\<lambda>(r, b).
           rbind (unwrap r) (\<lambda>block.
           rbind (free_push j block b) (\<lambda>b.
           rbind (free_push j (block + push_bit j 1) b) (split_blocks cls j))))
      else Inr b)"

text \<open>The result \<open>Err(())\<close> is \<open>None\<close>.\<close>

definition BuddyAllocator_alloc :: "Layout \<Rightarrow> BuddyAllocator \<Rightarrow> (usize option \<times> BuddyAllocator) result" where
  "BuddyAllocator_alloc layout b =
     (let cls = class_of layout
      in case find_index (\<lambda>head. head \<noteq> 0) (drop cls (ba_free_list b)) of
        None \<Rightarrow> Inr (None, b)
      | Some d \<Rightarrow>
          rbind (split_blocks cls (cls + d) b) (\<lambda>b.
          rbind (free_pop cls b) (\<lambda>(r, b).
          rbind (unwrap r) (\<lambda>p.
            Inr (if p \<noteq> 0 then Some p else None, b)))))"

function merge_loop :: "nat \<Rightarrow> usize \<Rightarrow> BuddyAllocator \<Rightarrow> BuddyAllocator result" where
  "merge_loop cls ptr b =
     (if cls < 32
      then let buddy = ptr XOR push_bit cls 1
           in rbind (returns (map_option Inr (find_node (ba_mem b) buddy (ba_free_list b ! cls) FromHead))) (\<lambda>found.
              case found of
                None \<Rightarrow> Inr b
              | Some block \<Rightarrow>
                  let (head, m) = ListNode_pop block (ba_free_list b ! cls, ba_mem b);
                      b1 = \<lparr>ba_free_list = (ba_free_list b)[cls := head], ba_mem = m\<rparr>
                  in rbind (free_pop cls b1) (\<lambda>(_, b2).
                     rbind (free_push (cls + 1) (min ptr buddy) b2) (merge_loop (cls + 1) (min ptr buddy))))
      else Inr b)"
  by pat_completeness auto
termination by (relation "measure (\<lambda>(cls, _, b). 32 - cls)") auto

declare merge_loop.simps [simp del]

definition BuddyAllocator_dealloc :: "usize \<Rightarrow> Layout \<Rightarrow> BuddyAllocator \<Rightarrow> BuddyAllocator result" where
  "BuddyAllocator_dealloc ptr layout b =
     (let cls = class_of layout
      in rbind (free_push cls ptr b) (merge_loop cls ptr))"

text \<open>\<open>GlobalAlloc\<close>: the null pointer when there is no block.\<close>

definition global_alloc :: "Layout \<Rightarrow> BuddyAllocator \<Rightarrow> (usize \<times> BuddyAllocator) result" where
  "global_alloc layout b =
     rbind (BuddyAllocator_alloc layout b) (\<lambda>(r, b). Inr (case r of Some p \<Rightarrow> p | None \<Rightarrow> 0, b))"

end
