(* ===== verification/Buddy_Proofs.thy ===== *)
theory Buddy_Proofs
  imports Buddy_Allocator "HOL-Library.Disjoint_Sets"
begin

text \<open>
  Correctness of the buddy allocator: the free lists threaded through memory represent sets of
  aligned blocks; free and live blocks never overlap; no operation panics or touches live memory.
\<close>

section \<open>Blocks\<close>

text \<open>A block is its address and its class; it has \<open>2 ^ class\<close> bytes.\<close>

type_synonym block = "usize \<times> nat"

definition region :: "block \<Rightarrow> nat set" where
  "region p = {unat (fst p) ..< unat (fst p) + 2 ^ snd p}"

definition block_ok :: "block \<Rightarrow> bool" where
  "block_ok p \<longleftrightarrow> fst p \<noteq> 0 \<and> 3 \<le> snd p \<and> snd p < 32 \<and> unat (fst p) mod 2 ^ snd p = 0"

definition apart :: "block \<Rightarrow> block \<Rightarrow> bool" where
  "apart p q \<longleftrightarrow> region p \<inter> region q = {}"

definition blocks_ok :: "block set \<Rightarrow> bool" where
  "blocks_ok S \<longleftrightarrow> (\<forall>p \<in> S. block_ok p) \<and> pairwise apart S"

lemma apart_sym: "apart p q \<longleftrightarrow> apart q p"
  by (auto simp: apart_def)

lemma region_nonempty: "unat (fst p) \<in> region p"
  by (simp add: region_def)

lemma blocks_okD: "blocks_ok S \<Longrightarrow> p \<in> S \<Longrightarrow> q \<in> S \<Longrightarrow> p \<noteq> q \<Longrightarrow> region p \<inter> region q = {}"
  by (auto simp: blocks_ok_def pairwise_def apart_def)

lemma blocks_ok_same_address: "blocks_ok S \<Longrightarrow> (a, i) \<in> S \<Longrightarrow> (a, j) \<in> S \<Longrightarrow> i = j"
  using blocks_okD [of S "(a, i)" "(a, j)"] region_nonempty [of "(a, i)"] region_nonempty [of "(a, j)"] by auto

lemma blocks_ok_subset: "blocks_ok S \<Longrightarrow> T \<subseteq> S \<Longrightarrow> blocks_ok T"
  unfolding blocks_ok_def by (meson pairwise_subset subsetD)

lemma blocks_ok_insert:
  "blocks_ok (insert p S) \<longleftrightarrow> block_ok p \<and> blocks_ok S \<and> (\<forall>q \<in> S. q \<noteq> p \<longrightarrow> region p \<inter> region q = {})"
  unfolding apart_def [symmetric] blocks_ok_def pairwise_insert using apart_sym by blast

lemma block_ok_aligned8: "block_ok (a, i) \<Longrightarrow> aligned8 a"
proof -
  assume "block_ok (a, i)"
  then have "unat a mod 2 ^ i = 0" "3 \<le> i" by (simp_all add: block_ok_def)
  then have "(2 :: nat) ^ 3 dvd unat a" by (meson dvd_eq_mod_eq_0 dvd_trans le_imp_power_dvd)
  then show ?thesis by (simp add: aligned8_def mod_eq_0_iff_dvd)
qed

text \<open>Aligned blocks do not run over the end of the address space.\<close>

lemma block_ok_bound:
  assumes "unat (a :: usize) mod 2 ^ i = 0" "i < 64"
  shows "unat a + 2 ^ i \<le> 2 ^ 64"
proof -
  have "(2 :: nat) ^ i dvd 2 ^ 64" using assms(2) by (intro le_imp_power_dvd) simp
  then have d: "2 ^ i dvd (2 :: nat) ^ 64 - unat a" using assms(1) by (intro dvd_diff_nat) (simp_all add: mod_eq_0_iff_dvd)
  have "0 < (2 :: nat) ^ 64 - unat a" using unat_less_2p_64 [of a] by simp
  then have "2 ^ i \<le> (2 :: nat) ^ 64 - unat a" using d by (rule dvd_imp_le [rotated])
  then show ?thesis using unat_less_2p_64 [of a] by simp
qed

lemma unat_add_block:
  assumes "unat (a :: usize) mod 2 ^ Suc j = 0" "Suc j < 64"
  shows "unat (a + 2 ^ j) = unat a + 2 ^ j"
proof -
  have "unat a + 2 ^ Suc j \<le> 2 ^ 64" using assms by (rule block_ok_bound)
  moreover have "(2 :: nat) ^ j < 2 ^ Suc j" by simp
  ultimately have "unat a + 2 ^ j < 2 ^ 64" by linarith
  then show ?thesis using unat_2p [of j] assms(2) by (simp add: unat_word_ariths)
qed

text \<open>The two halves of a block, and the block of two halves.\<close>

lemma halves:
  assumes "block_ok (a, Suc j)" "3 \<le> j"
  shows "block_ok (a, j)" "block_ok (a + 2 ^ j, j)"
    "region (a, j) \<inter> region (a + 2 ^ j, j) = {}" "region (a, j) \<union> region (a + 2 ^ j, j) = region (a, Suc j)"
proof -
  have u: "unat (a + 2 ^ j) = unat a + 2 ^ j" using assms(1) by (intro unat_add_block) (simp_all add: block_ok_def)
  have m: "unat a mod 2 ^ j = 0" using assms(1) by (auto simp: block_ok_def mod_eq_0_iff_dvd intro: dvd_trans [of _ "2 ^ Suc j"])
  show "block_ok (a, j)" using assms m by (simp add: block_ok_def)
  have "a + 2 ^ j \<noteq> 0" using u by (auto simp: word_unat_eq_iff)
  then show "block_ok (a + 2 ^ j, j)" using assms m u by (simp add: block_ok_def)
  show "region (a, j) \<inter> region (a + 2 ^ j, j) = {}" "region (a, j) \<union> region (a + 2 ^ j, j) = region (a, Suc j)"
    using u by (auto simp: region_def)
qed

lemma blocks_ok_split:
  assumes "blocks_ok (insert (a, Suc j) S)" "(a, Suc j) \<notin> S" "3 \<le> j"
  shows "blocks_ok (insert (a, j) (insert (a + 2 ^ j, j) S))"
proof -
  have a: "block_ok (a, Suc j)" and S: "blocks_ok S" and d: "q \<in> S \<Longrightarrow> region (a, Suc j) \<inter> region q = {}" for q
    using assms by (auto simp: blocks_ok_insert)
  note h = halves [OF a assms(3)]
  have "region (a, j) \<inter> region q = {}" "region (a + 2 ^ j, j) \<inter> region q = {}" if "q \<in> S" for q
    using d [OF that] h(4) by blast+
  then show ?thesis using h(1-3) S by (auto simp: blocks_ok_insert)
qed

lemma blocks_ok_merge:
  assumes "blocks_ok (insert (a, j) (insert (a + 2 ^ j, j) S))" "(a, j) \<notin> S" "(a + 2 ^ j, j) \<notin> S"
    "unat a mod 2 ^ Suc j = 0" "Suc j < 32"
  shows "blocks_ok (insert (a, Suc j) S)" "(a, Suc j) \<notin> S" "region (a, j) \<union> region (a + 2 ^ j, j) = region (a, Suc j)"
proof -
  have j: "3 \<le> j" "a \<noteq> 0" and S: "blocks_ok S" using assms(1) by (auto simp: blocks_ok_insert block_ok_def)
  then have ok: "block_ok (a, Suc j)" using assms(4,5) by (simp add: block_ok_def)
  note h = halves [OF ok j(1)]
  show r: "region (a, j) \<union> region (a + 2 ^ j, j) = region (a, Suc j)" by (rule h(4))
  have d: "region (a, Suc j) \<inter> region q = {}" if "q \<in> S" for q
  proof -
    have "region (a, j) \<inter> region q = {}" "region (a + 2 ^ j, j) \<inter> region q = {}"
      using assms(1-3) that by (auto simp: blocks_ok_insert)
    then show ?thesis using r by blast
  qed
  then show "blocks_ok (insert (a, Suc j) S)" using ok S by (auto simp: blocks_ok_insert)
  show "(a, Suc j) \<notin> S" using d [of "(a, Suc j)"] region_nonempty [of "(a, Suc j)"] by auto
qed

section \<open>Lists in memory\<close>

fun is_list :: "mem \<Rightarrow> usize \<Rightarrow> usize list \<Rightarrow> bool" where
  "is_list m h [] \<longleftrightarrow> h = 0"
| "is_list m h (x # xs) \<longleftrightarrow> h = x \<and> x \<noteq> 0 \<and> is_list m (load64 m x) xs"

lemma is_list_store:
  assumes "aligned8 a" "\<forall>x \<in> set xs. aligned8 x \<and> x \<noteq> a"
  shows "is_list (store64 m a v) h xs = is_list m h xs"
  using assms by (induction xs arbitrary: h) (auto simp: load64_store64_other)

lemma is_list_remove:
  assumes "is_list m h (ys @ p # c # zs)" "distinct (ys @ p # c # zs)" "\<forall>x \<in> set (ys @ p # c # zs). aligned8 x"
  shows "is_list (store64 m p (load64 m c)) h (ys @ p # zs)"
  using assms
proof (induction ys arbitrary: h)
  case Nil
  then have "\<forall>x \<in> set zs. aligned8 x \<and> x \<noteq> p" by auto
  moreover have "aligned8 p" using Nil by simp
  ultimately show ?case using Nil by (simp add: is_list_store)
next
  case (Cons y ys)
  then show ?case by (auto simp: load64_store64_other)
qed

text \<open>Searching a list: the node found is linked from its predecessor.\<close>

lemma find_node_None: "is_list m h xs \<Longrightarrow> c \<notin> set xs \<Longrightarrow> find_node m c h prev = Some None"
  by (induction xs arbitrary: h prev) (auto simp: find_node.simps)

lemma find_node_Some:
  "is_list m h (ys @ p # c # zs) \<Longrightarrow> c \<notin> set (ys @ [p]) \<Longrightarrow> find_node m c h prev = Some (Some \<lparr>ln_cur = c, ln_prev = FromNode p\<rparr>)"
proof (induction ys arbitrary: h prev)
  case Nil
  then show ?case by (auto simp: find_node.simps)
next
  case (Cons y ys)
  then show ?case by (subst find_node.simps) auto
qed

section \<open>The heap\<close>

definition free_blocks :: "(nat \<Rightarrow> usize list) \<Rightarrow> block set" where
  "free_blocks fl = {(a, i). i < 32 \<and> a \<in> set (fl i)}"

definition bytes :: "block set \<Rightarrow> nat set" where
  "bytes S = (\<Union>p \<in> S. region p)"

definition heap_inv :: "nat \<Rightarrow> nat \<Rightarrow> BuddyAllocator \<Rightarrow> (nat \<Rightarrow> usize list) \<Rightarrow> block set \<Rightarrow> bool" where
  "heap_inv lo hi b fl L \<longleftrightarrow>
     length (ba_free_list b) = 32 \<and> (\<forall>i < 32. is_list (ba_mem b) (ba_free_list b ! i) (fl i) \<and> distinct (fl i))
     \<and> free_blocks fl \<inter> L = {} \<and> blocks_ok (free_blocks fl \<union> L) \<and> bytes (free_blocks fl \<union> L) \<subseteq> {lo..<hi} \<and> hi < lo + 2 ^ 32"

lemma free_blocks_push: "i < 32 \<Longrightarrow> free_blocks (fl(i := a # fl i)) = insert (a, i) (free_blocks fl)"
  by (auto simp: free_blocks_def split: if_splits)

lemma free_blocks_pop: "i < 32 \<Longrightarrow> fl i = a # rest \<Longrightarrow> distinct (fl i) \<Longrightarrow> free_blocks (fl(i := rest)) = free_blocks fl - {(a, i)}"
  by (auto simp: free_blocks_def split: if_splits)

lemma heap_inv_nodes:
  assumes "heap_inv lo hi b fl L" "i < 32" "x \<in> set (fl i)"
  shows "aligned8 x" "block_ok (x, i)"
proof -
  show "block_ok (x, i)" using assms by (auto simp: heap_inv_def blocks_ok_def free_blocks_def)
  then show "aligned8 x" by (rule block_ok_aligned8)
qed

lemma heap_inv_free_live: "heap_inv lo hi b fl L \<Longrightarrow> i < 32 \<Longrightarrow> a \<in> set (fl i) \<Longrightarrow> (a, i) \<notin> L"
  unfolding heap_inv_def free_blocks_def by blast

text \<open>Memory that no operation may change: the bytes of the live blocks.\<close>

definition untouched :: "block set \<Rightarrow> mem \<Rightarrow> mem \<Rightarrow> bool" where
  "untouched L m m' \<longleftrightarrow> (\<forall>x. unat x \<in> bytes L \<longrightarrow> m' x = m x)"

lemma untouched_refl [simp]: "untouched L m m"
  by (simp add: untouched_def)

lemma untouched_trans: "untouched L m m' \<Longrightarrow> untouched L m' m'' \<Longrightarrow> untouched L m m''"
  by (simp add: untouched_def)

lemma untouched_subset: "untouched L m m' \<Longrightarrow> K \<subseteq> L \<Longrightarrow> untouched K m m'"
  by (auto simp: untouched_def bytes_def)

lemma store_untouched:
  assumes "block_ok (a, i)" "\<forall>q \<in> L. region (a, i) \<inter> region q = {}"
  shows "untouched L m (store64 m a v)"
  unfolding untouched_def
proof (intro allI impI)
  fix x :: usize assume x: "unat x \<in> bytes L"
  show "store64 m a v x = m x"
  proof (rule store64_other, rule notI)
    assume lt': "x - a < 8"
    define d where "d = x - a"
    have x_d: "x = a + d" and lt: "d < 8" using lt' by (simp_all add: d_def)
    have "3 \<le> i" "unat a mod 2 ^ i = 0" "i < 64" using assms(1) by (auto simp: block_ok_def)
    then have b: "unat a + 2 ^ i \<le> 2 ^ 64" "(2 :: nat) ^ 3 \<le> 2 ^ i"
      using block_ok_bound [of a i] power_increasing [of 3 i "2 :: nat"] by simp_all
    have "unat a + unat d < 2 ^ 64" using lt b by (simp add: word_less_nat_alt)
    then have "unat x = unat a + unat d" by (simp add: x_d unat_word_ariths)
    then have "unat x \<in> region (a, i)" using lt b by (simp add: region_def word_less_nat_alt)
    then show False using x assms(2) by (auto simp: bytes_def)
  qed
qed

lemma heap_inv_forget: "heap_inv lo hi b fl (insert p L) \<Longrightarrow> heap_inv lo hi b fl L"
  using blocks_ok_subset [of "free_blocks fl \<union> insert p L" "free_blocks fl \<union> L"]
  by (auto simp: heap_inv_def bytes_def)

text \<open>The list operations on the represented blocks.\<close>

lemma free_push_ok:
  assumes inv: "heap_inv lo hi b fl L" and i: "i < 32" and S: "(a, i) \<notin> free_blocks fl" "(a, i) \<notin> L"
    and ok: "blocks_ok (insert (a, i) (free_blocks fl \<union> L))" "region (a, i) \<subseteq> {lo..<hi}"
  shows "\<exists>b'. free_push i a b = Inr b' \<and> heap_inv lo hi b' (fl(i := a # fl i)) L \<and> untouched L (ba_mem b) (ba_mem b')"
proof -
  let ?m = "store64 (ba_mem b) a (ba_free_list b ! i)"
  let ?b = "\<lparr>ba_free_list = (ba_free_list b)[i := a], ba_mem = ?m\<rparr>"
  have a: "block_ok (a, i)" using ok(1) by (simp add: blocks_ok_insert)
  note a8 = block_ok_aligned8 [OF a]
  have ne: "x \<noteq> a" if "j < 32" "x \<in> set (fl j)" for j x
  proof
    assume "x = a"
    then have "(a, j) \<in> free_blocks fl" using that by (simp add: free_blocks_def)
    then have "j = i" using blocks_ok_same_address [OF ok(1), of a j i] by blast
    then show False using S(1) \<open>(a, j) \<in> free_blocks fl\<close> by simp
  qed
  have l: "is_list ?m (ba_free_list b ! j) (fl j)" if "j < 32" for j
    using inv that heap_inv_nodes(1) [OF inv that] ne [OF that] by (subst is_list_store [OF a8]) (auto simp: heap_inv_def)
  have "load64 ?m a = ba_free_list b ! i" by simp
  then have "is_list ?m (ba_free_list ?b ! j) ((fl(i := a # fl i)) j)" if "j < 32" for j
    using l [OF that] l [OF i] i inv a by (auto simp: heap_inv_def block_ok_def)
  moreover have "distinct ((fl(i := a # fl i)) j)" if "j < 32" for j
    using inv that ne [OF that, of a] by (auto simp: heap_inv_def)
  moreover have "bytes (free_blocks (fl(i := a # fl i)) \<union> L) \<subseteq> {lo..<hi}"
    using inv ok(2) i by (auto simp: heap_inv_def free_blocks_push bytes_def)
  ultimately have "heap_inv lo hi ?b (fl(i := a # fl i)) L"
    using inv S ok(1) i by (simp add: heap_inv_def free_blocks_push)
  moreover have "untouched L (ba_mem b) ?m"
    using ok(1) S(2) by (intro store_untouched [OF a]) (auto simp: blocks_ok_insert)
  ultimately show ?thesis using i by (simp add: free_push_def free_head_def LinkedList_push_def)
qed

text \<open>A block taken from a free list is live.\<close>

lemma heap_inv_take:
  assumes inv: "heap_inv lo hi b fl L" and i: "i < 32" and a: "a \<in> set (fl i)" and xs: "set xs = set (fl i) - {a}" "distinct xs"
    and b': "length (ba_free_list b') = 32" "\<forall>j < 32. is_list (ba_mem b') (ba_free_list b' ! j) ((fl(i := xs)) j)"
  shows "heap_inv lo hi b' (fl(i := xs)) (insert (a, i) L)"
proof -
  have f: "free_blocks (fl(i := xs)) = free_blocks fl - {(a, i)}"
    using xs(1) by (auto simp: free_blocks_def split: if_splits)
  have "(a, i) \<in> free_blocks fl" using a i by (simp add: free_blocks_def)
  then have u: "free_blocks (fl(i := xs)) \<union> insert (a, i) L = free_blocks fl \<union> L" using f by blast
  have "free_blocks (fl(i := xs)) \<inter> insert (a, i) L = {}" using f inv by (auto simp: heap_inv_def)
  moreover have "distinct ((fl(i := xs)) j)" if "j < 32" for j using inv xs(2) that by (simp add: heap_inv_def)
  ultimately show ?thesis using inv b' u by (simp add: heap_inv_def)
qed

lemma free_pop_ok:
  assumes inv: "heap_inv lo hi b fl L" and i: "i < 32" and fl: "fl i = a # rest"
  shows "\<exists>b'. free_pop i b = Inr (Some a, b') \<and> heap_inv lo hi b' (fl(i := rest)) (insert (a, i) L) \<and> ba_mem b' = ba_mem b"
proof -
  let ?b = "b\<lparr>ba_free_list := (ba_free_list b)[i := load64 (ba_mem b) a]\<rparr>"
  have l: "is_list (ba_mem b) (ba_free_list b ! i) (a # rest)" "distinct (a # rest)" "length (ba_free_list b) = 32"
    using inv i fl by (auto simp: heap_inv_def)
  have "heap_inv lo hi ?b (fl(i := rest)) (insert (a, i) L)"
    using l fl inv by (intro heap_inv_take [OF inv i]) (auto simp: heap_inv_def nth_list_update)
  then show ?thesis using i l(1) by (simp add: free_pop_def free_head_def LinkedList_pop_def)
qed

lemma bytes_Un: "bytes (S \<union> T) = bytes S \<union> bytes T"
  by (auto simp: bytes_def)

lemma bytes_insert: "bytes (insert p S) = region p \<union> bytes S"
  by (simp add: bytes_def)

text \<open>The block that two pushes or a merge put back was live.\<close>

lemma heap_inv_live_block:
  assumes "heap_inv lo hi b fl (insert p L)" "p \<notin> L"
  shows "blocks_ok (insert p (free_blocks fl \<union> L))" "p \<notin> free_blocks fl" "region p \<subseteq> {lo..<hi}"
  using assms by (auto simp: heap_inv_def bytes_def)

lemma blocks_ok_notin:
  assumes "blocks_ok (insert p S)" "p \<notin> S" "region q \<subseteq> region p"
  shows "q \<notin> S"
proof
  assume "q \<in> S"
  then have "p \<noteq> q" using assms(2) by auto
  then have "region p \<inter> region q = {}" using blocks_okD [OF assms(1), of p q] \<open>q \<in> S\<close> by simp
  then show False using assms(3) region_nonempty [of q] by blast
qed

section \<open>Allocation\<close>

lemma split_blocks_ok:
  "heap_inv lo hi b fl L \<Longrightarrow> 3 \<le> cls \<Longrightarrow> cls \<le> j \<Longrightarrow> j < 32 \<Longrightarrow> fl j \<noteq> [] \<Longrightarrow>
   \<exists>b' fl'. split_blocks cls j b = Inr b' \<and> heap_inv lo hi b' fl' L \<and> fl' cls \<noteq> [] \<and> untouched L (ba_mem b) (ba_mem b')
     \<and> bytes (free_blocks fl') = bytes (free_blocks fl)"
proof (induction j arbitrary: b fl)
  case 0
  then show ?case by simp
next
  case (Suc j)
  show ?case
  proof (cases "cls < Suc j")
    case False
    then have "cls = Suc j" using Suc.prems(3) by simp
    then show ?thesis using Suc.prems by (intro exI [of _ b] exI [of _ fl]) simp
  next
    case True
    obtain a rest where fl: "fl (Suc j) = a # rest" using Suc.prems(5) by (cases "fl (Suc j)") auto
    let ?c = "a + 2 ^ j"
    let ?fl1 = "fl(Suc j := rest)" and ?S = "free_blocks (fl(Suc j := rest)) \<union> L"
    obtain b1 where b1: "free_pop (Suc j) b = Inr (Some a, b1)" "heap_inv lo hi b1 ?fl1 (insert (a, Suc j) L)" "ba_mem b1 = ba_mem b"
      using free_pop_ok [OF Suc.prems(1,4) fl] by blast
    have j: "3 \<le> j" "j < 32" using True Suc.prems(2,4) by simp_all
    have notL: "(a, Suc j) \<notin> L" using heap_inv_free_live [OF Suc.prems(1,4)] fl by simp
    note live = heap_inv_live_block [OF b1(2) notL]
    have notS: "(a, Suc j) \<notin> ?S" using live(2) notL by simp
    have ok: "block_ok (a, Suc j)" using live(1) by (simp add: blocks_ok_insert)
    note h = halves [OF ok j(1)]
    have sp: "blocks_ok (insert (a, j) (insert (?c, j) ?S))" by (rule blocks_ok_split [OF live(1) notS j(1)])
    have nin: "(a, j) \<notin> ?S" "(?c, j) \<notin> ?S" using blocks_ok_notin [OF live(1) notS] h(4) by blast+
    have ne: "(?c, j) \<noteq> (a, j)" using h(3) region_nonempty [of "(a, j)"] by (metis Int_absorb empty_iff)
    let ?fl2 = "?fl1(j := a # ?fl1 j)" and ?fl3 = "(?fl1(j := a # ?fl1 j))(j := ?c # (?fl1(j := a # ?fl1 j)) j)"
    have f2: "free_blocks ?fl2 = insert (a, j) (free_blocks ?fl1)" using j(2) by (rule free_blocks_push)
    have f3: "free_blocks ?fl3 = insert (?c, j) (free_blocks ?fl2)" using j(2) by (rule free_blocks_push)
    have sub: "region (a, j) \<subseteq> {lo..<hi}" "region (?c, j) \<subseteq> {lo..<hi}" using live(3) h(4) by blast+
    have "blocks_ok (insert (a, j) ?S)" using sp by (rule blocks_ok_subset) blast
    then obtain b2 where b2: "free_push j a b1 = Inr b2" "heap_inv lo hi b2 ?fl2 L" "untouched L (ba_mem b1) (ba_mem b2)"
      using free_push_ok [OF heap_inv_forget [OF b1(2)] j(2) _ _ _ sub(1)] nin(1) by blast
    have "insert (?c, j) (free_blocks ?fl2 \<union> L) = insert (a, j) (insert (?c, j) ?S)" using f2 by blast
    then obtain b3 where b3: "free_push j ?c b2 = Inr b3" "heap_inv lo hi b3 ?fl3 L" "untouched L (ba_mem b2) (ba_mem b3)"
      using free_push_ok [OF b2(2) j(2) _ _ _ sub(2)] nin(2) ne f2 sp by auto
    have "bytes (free_blocks ?fl3) = region (a, Suc j) \<union> bytes (free_blocks ?fl1)"
      using f2 f3 h(4) by (auto simp: bytes_insert)
    moreover have "free_blocks fl = insert (a, Suc j) (free_blocks ?fl1)"
      using free_blocks_pop [of "Suc j" fl a rest] Suc.prems(1,4) fl by (auto simp: heap_inv_def free_blocks_def)
    ultimately have bytes3: "bytes (free_blocks ?fl3) = bytes (free_blocks fl)" by (simp add: bytes_insert)
    have "?fl3 j \<noteq> []" "cls \<le> j" using True by simp_all
    from Suc.IH [OF b3(2) Suc.prems(2) this(2) j(2) this(1)] obtain b' fl' where r: "split_blocks cls j b3 = Inr b'" "heap_inv lo hi b' fl' L" "fl' cls \<noteq> []"
      "untouched L (ba_mem b3) (ba_mem b')" "bytes (free_blocks fl') = bytes (free_blocks ?fl3)"
      by blast
    have "split_blocks cls (Suc j) b = Inr b'"
      using True b1(1) b2(1) b3(1) r(1) by simp
    moreover have "untouched L (ba_mem b) (ba_mem b')"
      using b2(3) b3(3) r(4) b1(3) untouched_trans by metis
    ultimately show ?thesis using r(2,3,5) bytes3 by auto
  qed
qed

text \<open>The class of a layout whose alignment is a power of two, as \<open>Layout\<close> guarantees.\<close>

definition layout_ok :: "Layout \<Rightarrow> bool" where
  "layout_ok l \<longleftrightarrow> unat (layout_size l) \<le> 2 ^ 63 \<and> (\<exists>k < 64. layout_align l = 2 ^ k)"

lemma max_2p:
  assumes "i < 64" "j < 64"
  shows "max (2 ^ i :: usize) (2 ^ j) = 2 ^ max i j"
proof -
  have "(2 ^ i :: usize) \<le> 2 ^ j \<longleftrightarrow> i \<le> j" using assms by (simp add: word_le_nat_alt unat_2p)
  then show ?thesis by (auto simp: max_def)
qed

lemma class_of_ok:
  assumes "layout_ok l"
  shows "3 \<le> class_of l" "class_of l < 64" "unat (layout_size l) \<le> 2 ^ class_of l" "unat (layout_align l) dvd 2 ^ class_of l"
proof -
  obtain k where k: "k < 64" "layout_align l = 2 ^ k" using assms by (auto simp: layout_ok_def)
  obtain n where n: "n < 64" "next_power_of_two (layout_size l) = 2 ^ n" "unat (layout_size l) \<le> 2 ^ n"
    using next_power_of_two [of "layout_size l"] assms by (auto simp: layout_ok_def)
  have "(8 :: usize) = 2 ^ 3" by simp
  then have "max (2 ^ n) (max (2 ^ k) 8) = (2 ^ max n (max k 3) :: usize)"
    using n(1) k(1) by (simp only: max_2p)
  then have c: "class_of l = max n (max k 3)" using n k trailing_zeros_power [of "max n (max k 3)"] by (simp add: class_of_def)
  then show "3 \<le> class_of l" "class_of l < 64" using n(1) k(1) by auto
  have "(2 :: nat) ^ n \<le> 2 ^ class_of l" using c by (intro power_increasing) simp_all
  then show "unat (layout_size l) \<le> 2 ^ class_of l" using n(3) by linarith
  show "unat (layout_align l) dvd 2 ^ class_of l"
    using c k by (simp add: unat_2p le_imp_power_dvd)
qed

lemma BuddyAllocator_alloc_ok:
  assumes inv: "heap_inv lo hi b fl L" and l: "layout_ok layout"
  shows "post (BuddyAllocator_alloc layout b) (\<lambda>(r, b'). case r of
      None \<Rightarrow> b' = b \<and> (\<forall>i. class_of layout \<le> i \<and> i < 32 \<longrightarrow> fl i = [])
    | Some p \<Rightarrow> \<exists>fl'. heap_inv lo hi b' fl' (insert (p, class_of layout) L) \<and> (p, class_of layout) \<notin> L
        \<and> class_of layout < 32 \<and> untouched L (ba_mem b) (ba_mem b') \<and> bytes (free_blocks fl') \<union> region (p, class_of layout) = bytes (free_blocks fl))"
proof -
  let ?c = "class_of layout"
  note c = class_of_ok [OF l]
  have len: "length (ba_free_list b) = 32" using inv by (simp add: heap_inv_def)
  have head: "ba_free_list b ! i = 0 \<longleftrightarrow> fl i = []" if "i < 32" for i
    using inv that by (cases "fl i") (auto simp: heap_inv_def)
  show ?thesis
  proof (cases "find_index (\<lambda>h. h \<noteq> 0) (drop ?c (ba_free_list b))")
    case None
    have "fl i = []" if "?c \<le> i" "i < 32" for i
    proof -
      have "drop ?c (ba_free_list b) ! (i - ?c) \<in> set (drop ?c (ba_free_list b))" using that len by (intro nth_mem) simp
      then have "ba_free_list b ! i = 0" using None that len by (auto simp: find_index_None)
      then show ?thesis using head that by simp
    qed
    then show ?thesis using None by (simp add: BuddyAllocator_alloc_def Let_def)
  next
    case (Some d)
    note d = find_index_SomeD [OF Some]
    then have j: "?c + d < 32" "fl (?c + d) \<noteq> []" using len head [of "?c + d"] by simp_all
    from split_blocks_ok [OF inv c(1) _ j] obtain b1 fl1 where b1: "split_blocks ?c (?c + d) b = Inr b1" "heap_inv lo hi b1 fl1 L"
      "fl1 ?c \<noteq> []" "untouched L (ba_mem b) (ba_mem b1)" "bytes (free_blocks fl1) = bytes (free_blocks fl)" by auto
    obtain p rest where p: "fl1 ?c = p # rest" using b1(3) by (cases "fl1 ?c") auto
    have c32: "?c < 32" using j(1) by simp
    obtain b2 where b2: "free_pop ?c b1 = Inr (Some p, b2)" "heap_inv lo hi b2 (fl1(?c := rest)) (insert (p, ?c) L)" "ba_mem b2 = ba_mem b1"
      using free_pop_ok [OF b1(2) c32 p] by blast
    have p0: "p \<noteq> 0" using heap_inv_nodes(2) [OF b1(2) c32, of p] p by (simp add: block_ok_def)
    have "free_blocks fl1 = insert (p, ?c) (free_blocks (fl1(?c := rest)))"
      using free_blocks_pop [of ?c fl1 p rest] b1(2) c32 p by (auto simp: heap_inv_def free_blocks_def)
    then have "bytes (free_blocks (fl1(?c := rest))) \<union> region (p, ?c) = bytes (free_blocks fl)"
      using b1(5) by (auto simp: bytes_insert)
    moreover have "(p, ?c) \<notin> L" using heap_inv_free_live [OF b1(2) c32] p by simp
    ultimately show ?thesis
      using Some b1(1,4) b2 p0 c32 by (auto simp: BuddyAllocator_alloc_def Let_def)
  qed
qed

section \<open>Release\<close>

lemma buddy_cases:
  assumes "unat (p :: usize) mod 2 ^ c = 0" "c < 63"
  obtains (lower) "p XOR 2 ^ c = p + 2 ^ c" "unat p mod 2 ^ Suc c = 0" "min p (p XOR 2 ^ c) = p"
    | (upper) "p = (p XOR 2 ^ c) + 2 ^ c" "unat (p XOR 2 ^ c) mod 2 ^ Suc c = 0" "min p (p XOR 2 ^ c) = p XOR 2 ^ c"
proof -
  have low: "\<not> bit p i" if "i < c" for i
  proof -
    have "take_bit c p = 0" using assms(1) unat_take_bit [of c p] by (simp add: word_unat_eq_iff)
    then show ?thesis using that bit_take_bit_iff [of c p i] by simp
  qed
  have al: "unat q mod 2 ^ Suc c = 0" if "\<And>i. i \<le> c \<Longrightarrow> \<not> bit q i" for q :: usize
  proof -
    have "take_bit (Suc c) q = 0" using that by (intro bit_word_eqI) (auto simp: bit_simps)
    then show ?thesis using unat_take_bit [of "Suc c" q] by simp
  qed
  have le: "q \<le> q + 2 ^ c" if "unat q mod 2 ^ Suc c = 0" for q :: usize
    using unat_add_block [OF that] assms(2) by (simp add: word_le_nat_alt)
  show thesis
  proof (cases "bit p c")
    case False
    have "p AND 2 ^ c = 0" using False by (intro bit_word_eqI) (auto simp: bit_simps)
    then have x: "p XOR 2 ^ c = p + 2 ^ c" by (simp add: disjunctive_add_eq_xor)
    have a: "unat p mod 2 ^ Suc c = 0" using low False by (intro al) (metis le_neq_implies_less)
    show thesis using lower x a le [OF a] by (simp add: min_def)
  next
    case True
    let ?q = "p XOR 2 ^ c"
    have nb: "\<not> bit ?q i" if "i \<le> c" for i using low True that assms(2) by (cases "i = c") (auto simp: bit_simps)
    then have "?q AND 2 ^ c = 0" using assms(2) by (intro bit_word_eqI) (auto simp: bit_simps)
    then have "?q + 2 ^ c = ?q XOR 2 ^ c" by (simp add: disjunctive_add_eq_xor)
    then have x: "p = ?q + 2 ^ c" by (simp add: xor.assoc)
    have a: "unat ?q mod 2 ^ Suc c = 0" using nb by (rule al)
    have "?q \<le> p" using le [OF a] x by simp
    then show thesis using upper x a by (simp add: min_def)
  qed
qed

text \<open>Unlinking a block that is not the first of its list.\<close>

lemma unlink_ok:
  assumes inv: "heap_inv lo hi b fl L" and i: "i < 32" and fl: "fl i = ys @ p # c # zs"
    and head: "b' = \<lparr>ba_free_list = (ba_free_list b)[i := ba_free_list b ! i], ba_mem = store64 (ba_mem b) p (load64 (ba_mem b) c)\<rparr>"
  shows "heap_inv lo hi b' (fl(i := ys @ p # zs)) (insert (c, i) L)" "untouched L (ba_mem b) (ba_mem b')"
proof -
  have d: "distinct (ys @ p # c # zs)" using inv i fl by (metis heap_inv_def)
  have p: "p \<in> set (fl i)" using fl by simp
  note P = heap_inv_nodes [OF inv i p]
  have other: "x \<noteq> p" if "j < 32" "j \<noteq> i" "x \<in> set (fl j)" for j x
  proof
    assume "x = p"
    then have "(p, j) \<in> free_blocks fl \<union> L" "(p, i) \<in> free_blocks fl \<union> L" using that p i by (auto simp: free_blocks_def)
    then show False using blocks_ok_same_address [of "free_blocks fl \<union> L"] inv that(2) by (auto simp: heap_inv_def)
  qed
  have "is_list (ba_mem b') (ba_free_list b ! j) ((fl(i := ys @ p # zs)) j)" if j: "j < 32" for j
  proof (cases "j = i")
    case True
    have "is_list (ba_mem b) (ba_free_list b ! i) (ys @ p # c # zs)" using inv i fl by (metis heap_inv_def)
    moreover have "\<forall>x \<in> set (ys @ p # c # zs). aligned8 x" using heap_inv_nodes(1) [OF inv i] fl by simp
    ultimately show ?thesis using True d head is_list_remove by simp
  next
    case False
    then show ?thesis
      using inv j head other [OF j False] heap_inv_nodes(1) [OF inv j] by (simp add: is_list_store P(1) heap_inv_def)
  qed
  then show "heap_inv lo hi b' (fl(i := ys @ p # zs)) (insert (c, i) L)"
    using d fl head inv by (intro heap_inv_take [OF inv i]) (auto simp: heap_inv_def)
  have "\<forall>q \<in> L. region (p, i) \<inter> region q = {}"
  proof
    fix q assume "q \<in> L"
    then have "(p, i) \<noteq> q" using heap_inv_free_live [OF inv i p] by auto
    then show "region (p, i) \<inter> region q = {}"
      using inv \<open>q \<in> L\<close> p i blocks_okD [of "free_blocks fl \<union> L" "(p, i)" q] by (auto simp: heap_inv_def free_blocks_def)
  qed
  then show "untouched L (ba_mem b) (ba_mem b')" using store_untouched [OF P(2)] head by simp
qed

text \<open>Two adjacent free blocks fit in the heap, so their class is below the highest.\<close>

lemma merged_class:
  assumes "region (a, c) \<subseteq> {lo..<hi}" "region (a + 2 ^ c, c) \<subseteq> {lo..<hi}" "unat a mod 2 ^ Suc c = 0" "c < 32" "hi < lo + 2 ^ 32"
  shows "Suc c < 32"
proof (rule ccontr)
  assume "\<not> Suc c < 32"
  then have c: "c = 31" using assms(4) by simp
  have u: "unat (a + 2 ^ c) = unat a + 2 ^ c" using assms(3,4) by (intro unat_add_block) simp_all
  have "unat a \<in> region (a, c)" "unat a + 2 ^ c + (2 ^ c - 1) \<in> region (a + 2 ^ c, c)"
    using u by (simp_all add: region_def c)
  then have "lo \<le> unat a" "unat a + 2 ^ c + (2 ^ c - 1) < hi" using assms(1,2) by auto
  then show False using assms(5) c by simp
qed

text \<open>One round of the merge: two free buddies become one free block of the next class.\<close>

lemma merge_round:
  assumes inv: "heap_inv lo hi b fl L" and i: "i < 32" and fl: "fl i = ptr # rest" and buddy: "ptr XOR 2 ^ i \<in> set rest"
  shows "\<exists>b1 b2 b3 node fl'. find_node (ba_mem b) (ptr XOR 2 ^ i) (ba_free_list b ! i) FromHead = Some (Some node)
    \<and> ListNode_pop node (ba_free_list b ! i, ba_mem b) = (ba_free_list b ! i, ba_mem b1)
    \<and> b1 = \<lparr>ba_free_list = (ba_free_list b)[i := ba_free_list b ! i], ba_mem = ba_mem b1\<rparr>
    \<and> free_pop i b1 = Inr (Some ptr, b2) \<and> free_push (Suc i) (min ptr (ptr XOR 2 ^ i)) b2 = Inr b3 \<and> Suc i < 32
    \<and> heap_inv lo hi b3 fl' L \<and> hd (fl' (Suc i)) = min ptr (ptr XOR 2 ^ i) \<and> fl' (Suc i) \<noteq> []
    \<and> untouched L (ba_mem b) (ba_mem b3) \<and> bytes (free_blocks fl') = bytes (free_blocks fl)"
proof -
  let ?c = "ptr XOR 2 ^ i"
  obtain ys zs where rest: "rest = ys @ ?c # zs" using buddy by (meson split_list)
  define us p where "us = butlast (ptr # ys)" and "p = last (ptr # ys)"
  have up: "ptr # ys = us @ [p]" by (simp add: us_def p_def)
  have fl': "fl i = us @ p # ?c # zs" using fl rest up by (metis append.assoc append_Cons append_Nil)
  have l: "is_list (ba_mem b) (ba_free_list b ! i) (us @ p # ?c # zs)" and d: "distinct (us @ p # ?c # zs)"
    using inv i fl' by (metis heap_inv_def)+
  let ?node = "\<lparr>ln_cur = ?c, ln_prev = FromNode p\<rparr>"
  have f: "find_node (ba_mem b) ?c (ba_free_list b ! i) FromHead = Some (Some ?node)"
    using find_node_Some [OF l] d by auto
  let ?m = "store64 (ba_mem b) p (load64 (ba_mem b) ?c)"
  let ?b1 = "\<lparr>ba_free_list = (ba_free_list b)[i := ba_free_list b ! i], ba_mem = ?m\<rparr>"
  have pop: "ListNode_pop ?node (ba_free_list b ! i, ba_mem b) = (ba_free_list b ! i, ?m)" by (simp add: ListNode_pop_def)
  let ?fl1 = "fl(i := us @ p # zs)"
  have b1: "heap_inv lo hi ?b1 ?fl1 (insert (?c, i) L)" "untouched L (ba_mem b) ?m"
    using unlink_ok [OF inv i fl' refl] by simp_all
  have "?fl1 i = ptr # ys @ zs" using up by (metis append.assoc append_Cons append_Nil fun_upd_same)
  from free_pop_ok [OF b1(1) i this] obtain b2 where b2: "free_pop i ?b1 = Inr (Some ptr, b2)"
    "heap_inv lo hi b2 (?fl1(i := ys @ zs)) (insert (ptr, i) (insert (?c, i) L))" "ba_mem b2 = ?m" by (elim exE conjE) (rule that, assumption, assumption, simp)
  have b22: "heap_inv lo hi b2 (fl(i := ys @ zs)) (insert (ptr, i) (insert (?c, i) L))" using b2(2) by simp
  let ?fl2 = "fl(i := ys @ zs)" and ?S = "free_blocks (fl(i := ys @ zs)) \<union> L"
  have ptr: "block_ok (ptr, i)" using heap_inv_nodes(2) [OF inv i, of ptr] fl by simp
  then have al: "unat ptr mod 2 ^ i = 0" "3 \<le> i" by (simp_all add: block_ok_def)
  have "distinct (ptr # ys @ ?c # zs)" using d fl fl' rest by metis
  then have nS: "(ptr, i) \<notin> ?S" "(?c, i) \<notin> ?S"
    using heap_inv_free_live [OF inv i, of ptr] heap_inv_free_live [OF inv i, of ?c] fl buddy by (simp_all add: free_blocks_def)
  have all: "blocks_ok (insert (ptr, i) (insert (?c, i) ?S))" "region (ptr, i) \<subseteq> {lo..<hi}" "region (?c, i) \<subseteq> {lo..<hi}" "hi < lo + 2 ^ 32"
    using b22 by (simp_all add: heap_inv_def bytes_def insert_commute)
  define a where "a = min ptr ?c"
  have m: "blocks_ok (insert (a, Suc i) ?S)" "(a, Suc i) \<notin> ?S" "region (ptr, i) \<union> region (?c, i) = region (a, Suc i)" "Suc i < 32"
  proof -
    have "i < 63" using i by simp
    from al(1) this have "blocks_ok (insert (a, Suc i) ?S) \<and> (a, Suc i) \<notin> ?S \<and> region (ptr, i) \<union> region (?c, i) = region (a, Suc i) \<and> Suc i < 32"
    proof (cases rule: buddy_cases)
      case lower
      then have "a = ptr" "?c = a + 2 ^ i" by (simp_all add: a_def)
      moreover from this have "Suc i < 32" using merged_class [of a i lo hi] all(2-4) lower(2) i by simp
      ultimately show ?thesis using blocks_ok_merge [of a i ?S] all(1) nS lower(2) by simp
    next
      case upper
      then have "a = ?c" "ptr = a + 2 ^ i" by (simp_all add: a_def)
      moreover from this have "Suc i < 32" using merged_class [of a i lo hi] all(2-4) upper(2) i by simp
      ultimately show ?thesis using blocks_ok_merge [of a i ?S] all(1) nS upper(2) by (simp add: insert_commute Un_commute)
    qed
    then show "blocks_ok (insert (a, Suc i) ?S)" "(a, Suc i) \<notin> ?S" "region (ptr, i) \<union> region (?c, i) = region (a, Suc i)" "Suc i < 32" by auto
  qed
  have inv2: "heap_inv lo hi b2 ?fl2 L" using b22 heap_inv_forget by blast
  have "region (a, Suc i) \<subseteq> {lo..<hi}" using m(3) all(2,3) by blast
  from free_push_ok [OF inv2 m(4) _ _ m(1) this] m(2) obtain b3 where b3: "free_push (Suc i) a b2 = Inr b3"
    "heap_inv lo hi b3 (?fl2(Suc i := a # ?fl2 (Suc i))) L" "untouched L (ba_mem b2) (ba_mem b3)" by auto
  have "bytes (free_blocks (?fl2(Suc i := a # ?fl2 (Suc i)))) = region (ptr, i) \<union> region (?c, i) \<union> bytes (free_blocks ?fl2)"
    using free_blocks_push [OF m(4), of ?fl2 a] m(3) by (simp add: bytes_insert)
  moreover have "free_blocks fl = insert (ptr, i) (insert (?c, i) (free_blocks ?fl2))"
    using fl rest i by (auto simp: free_blocks_def split: if_splits)
  ultimately have "bytes (free_blocks (?fl2(Suc i := a # ?fl2 (Suc i)))) = bytes (free_blocks fl)"
    by (auto simp: bytes_insert)
  moreover have "untouched L (ba_mem b) (ba_mem b3)" using b1(2) b2(3) b3(3) untouched_trans by metis
  ultimately show ?thesis
    using f pop b2(1) b3 m(4)
    by (intro exI [of _ ?b1] exI [of _ b2] exI [of _ b3] exI [of _ ?node] exI [of _ "?fl2(Suc i := a # ?fl2 (Suc i))"]) (simp add: a_def)
qed

lemma merge_loop_ok:
  "heap_inv lo hi b fl L \<Longrightarrow> i < 32 \<Longrightarrow> fl i = ptr # rest \<Longrightarrow>
   \<exists>b' fl'. merge_loop i ptr b = Inr b' \<and> heap_inv lo hi b' fl' L \<and> untouched L (ba_mem b) (ba_mem b')
     \<and> bytes (free_blocks fl') = bytes (free_blocks fl)"
proof (induction "32 - i" arbitrary: i ptr b fl rest)
  case 0
  then show ?case by simp
next
  case (Suc k)
  let ?c = "ptr XOR 2 ^ i"
  have l: "is_list (ba_mem b) (ba_free_list b ! i) (ptr # rest)" using Suc.prems by (auto simp: heap_inv_def)
  have ne: "ptr \<noteq> ?c"
  proof
    assume "ptr = ?c"
    then have "bit ptr i = bit ?c i" by simp
    then show False using Suc.prems(2) by (simp add: bit_simps)
  qed
  show ?case
  proof (cases "?c \<in> set rest")
    case False
    then have "find_node (ba_mem b) ?c (ba_free_list b ! i) FromHead = Some None"
      using find_node_None [OF l] ne by auto
    then have "merge_loop i ptr b = Inr b" using Suc.prems(2) by (subst merge_loop.simps) (simp add: Let_def)
    then show ?thesis using Suc.prems(1) by auto
  next
    case True
    obtain b1 b2 b3 node fl' where r: "find_node (ba_mem b) ?c (ba_free_list b ! i) FromHead = Some (Some node)"
      "ListNode_pop node (ba_free_list b ! i, ba_mem b) = (ba_free_list b ! i, ba_mem b1)"
      "b1 = \<lparr>ba_free_list = (ba_free_list b)[i := ba_free_list b ! i], ba_mem = ba_mem b1\<rparr>"
      "free_pop i b1 = Inr (Some ptr, b2)" "free_push (Suc i) (min ptr ?c) b2 = Inr b3" "Suc i < 32"
      "heap_inv lo hi b3 fl' L" "hd (fl' (Suc i)) = min ptr ?c" "fl' (Suc i) \<noteq> []"
      "untouched L (ba_mem b) (ba_mem b3)" "bytes (free_blocks fl') = bytes (free_blocks fl)"
      using merge_round [OF Suc.prems True] by blast
    have "fl' (Suc i) = min ptr ?c # tl (fl' (Suc i))" using r(8,9) by (cases "fl' (Suc i)") auto
    moreover have "k = 32 - Suc i" using Suc.hyps(2) by simp
    ultimately obtain b' fl'' where b': "merge_loop (Suc i) (min ptr ?c) b3 = Inr b'"
      "heap_inv lo hi b' fl'' L" "untouched L (ba_mem b3) (ba_mem b')" "bytes (free_blocks fl'') = bytes (free_blocks fl')"
      using Suc.hyps(1) [OF _ r(7,6)] by blast
    have "merge_loop i ptr b = merge_loop (Suc i) (min ptr ?c) b3"
      using Suc.prems(2) r(1,2,4,5) r(3) [symmetric] by (subst merge_loop.simps) (simp add: Let_def)
    then show ?thesis using b' r(10,11) untouched_trans by fastforce
  qed
qed

lemma BuddyAllocator_dealloc_ok:
  assumes inv: "heap_inv lo hi b fl (insert (ptr, class_of layout) L)" and L: "(ptr, class_of layout) \<notin> L" and c: "class_of layout < 32"
  shows "post (BuddyAllocator_dealloc ptr layout b) (\<lambda>b'. \<exists>fl'. heap_inv lo hi b' fl' L \<and> untouched L (ba_mem b) (ba_mem b')
    \<and> bytes (free_blocks fl') = bytes (free_blocks fl) \<union> region (ptr, class_of layout))"
proof -
  let ?c = "class_of layout"
  note live = heap_inv_live_block [OF inv L]
  obtain b1 where b1: "free_push ?c ptr b = Inr b1" "heap_inv lo hi b1 (fl(?c := ptr # fl ?c)) L" "untouched L (ba_mem b) (ba_mem b1)"
    using free_push_ok [OF heap_inv_forget [OF inv] c live(2) L live(1,3)] by blast
  have "(fl(?c := ptr # fl ?c)) ?c = ptr # fl ?c" by simp
  from merge_loop_ok [OF b1(2) c this] obtain b' fl' where b': "merge_loop ?c ptr b1 = Inr b'" "heap_inv lo hi b' fl' L"
    "untouched L (ba_mem b1) (ba_mem b')" "bytes (free_blocks fl') = bytes (free_blocks (fl(?c := ptr # fl ?c)))" by blast
  have "bytes (free_blocks fl') = bytes (free_blocks fl) \<union> region (ptr, ?c)"
    using b'(4) free_blocks_push [OF c, of fl ptr] by (auto simp: bytes_insert)
  then show ?thesis using b1(1,3) b' untouched_trans by (auto simp: BuddyAllocator_dealloc_def Let_def)
qed

section \<open>Initialisation\<close>

lemma lowbit:
  assumes "s \<noteq> (0 :: usize)" "unat s mod 8 = 0"
  shows "\<exists>t. 3 \<le> t \<and> t < 64 \<and> s AND (NOT s + 1) = 2 ^ t \<and> unat s mod 2 ^ t = 0"
proof -
  have "\<exists>t. bit s t"
  proof (rule ccontr)
    assume "\<not> ?thesis"
    then have "s = 0" by (intro bit_word_eqI) simp
    then show False using assms(1) by simp
  qed
  then obtain t where t: "bit s t" "\<And>i. i < t \<Longrightarrow> \<not> bit s i" by (metis exists_least_iff)
  have t64: "t < 64" using t(1) bit_imp_le_length [of s t] by simp
  have tk: "take_bit t s = 0" using t(2) by (intro bit_word_eqI) (auto simp: bit_simps)
  have "take_bit 3 s = 0" using assms(2) unat_take_bit [of 3 s] by (simp add: word_unat_eq_iff)
  then have "3 \<le> t" using t(1) bit_take_bit_iff [of 3 s t] by (simp add: not_less [symmetric])
  moreover have "unat s mod 2 ^ t = 0" using unat_take_bit [of t s] tk by simp
  moreover have "s AND (NOT s + 1) = 2 ^ t"
  proof -
    define y where "y = s AND NOT (2 ^ t)"
    have y: "\<not> bit y i" if "i \<le> t" for i using t that t64 by (cases "i = t") (auto simp: y_def bit_simps)
    have ys: "y OR 2 ^ t = s" using t(1) by (intro bit_word_eqI) (auto simp: y_def bit_simps)
    have "y AND 2 ^ t = 0" using t64 by (intro bit_word_eqI) (auto simp: y_def bit_simps)
    then have s1: "s = y + 2 ^ t" using ys by (simp add: disjunctive_add_eq_or)
    have "\<not> (bit y i \<and> i < t)" for i using y [of i] by auto
    then have "y AND mask t = 0" by (intro bit_word_eqI) (auto simp: bit_simps)
    then have "y + mask t = y OR mask t" by (simp add: disjunctive_add_eq_or)
    then have "s - 1 = y OR mask t" using s1 by (simp add: mask_eq_exp_minus_1 algebra_simps)
    moreover have "NOT s + 1 = NOT (s - 1)" by (simp add: not_eq_complement)
    ultimately have "s AND (NOT s + 1) = (y OR 2 ^ t) AND NOT (y OR mask t)" using ys by simp
    also have "\<dots> = 2 ^ t"
    proof (rule bit_word_eqI)
      fix i assume "i < LENGTH(64)"
      then show "bit ((y OR 2 ^ t) AND NOT (y OR mask t)) i = bit (2 ^ t :: usize) i"
        using y [of i] t64 by (cases "i = t") (auto simp: bit_simps)
    qed
    finally show ?thesis .
  qed
  ultimately show ?thesis using t64 by (intro exI [of _ t]) simp
qed

lemma prev_power_of_two_ok:
  assumes "8 \<le> unat x" "unat x mod 8 = 0" "unat x < 2 ^ 32"
  shows "\<exists>k. 3 \<le> k \<and> k < 32 \<and> prev_power_of_two x = 2 ^ k \<and> 2 ^ k \<le> unat x"
proof -
  obtain n where n: "n < 64" "next_power_of_two x = 2 ^ n" "unat x \<le> 2 ^ n" "2 ^ (n - 1) < unat x" "n \<noteq> 0"
    using next_power_of_two [of x] assms by auto
  show ?thesis
  proof (cases "x = 2 ^ n")
    case True
    then have u: "unat x = 2 ^ n" using unat_2p [OF n(1)] by simp
    have "(2 :: nat) ^ 3 \<le> 2 ^ n" "(2 :: nat) ^ n < 2 ^ 32" using assms u by simp_all
    then have "3 \<le> n" "n < 32" by (simp_all only: power_increasing_iff power_strict_increasing_iff numeral_less_iff semiring_norm)
    then show ?thesis using True n(2) u by (intro exI [of _ n]) (simp add: prev_power_of_two_def)
  next
    case False
    then have ne: "unat x \<noteq> 2 ^ n" using unat_2p [OF n(1)] by (metis word_unat_eq_iff)
    have "(2 :: nat) ^ 3 < 2 ^ n" using assms(1) n(3) ne by simp
    then have "3 < n" by (simp only: power_strict_increasing_iff numeral_less_iff semiring_norm)
    moreover have "(2 :: nat) ^ (n - 1) < 2 ^ 32" using n(4) assms(3) by linarith
    then have "n - 1 < 32" by (simp only: power_strict_increasing_iff numeral_less_iff semiring_norm)
    moreover have "drop_bit 1 (2 ^ n :: usize) = 2 ^ (n - 1)"
    proof -
      have "unat (drop_bit 1 (2 ^ n :: usize)) = 2 ^ n div 2 ^ 1" using unat_2p [OF n(1)] by (simp only: unat_drop_bit)
      also have "\<dots> = 2 ^ (n - 1)" using n(5) by (cases n) simp_all
      also have "\<dots> = unat (2 ^ (n - 1) :: usize)" using unat_2p [of "n - 1"] n(1) by simp
      finally show ?thesis by (metis word_unat_eq_iff)
    qed
    ultimately show ?thesis
      using False n(2,4) by (intro exI [of _ "n - 1"]) (simp add: prev_power_of_two_def)
  qed
qed

lemma init_block:
  assumes "start < stop" "unat start mod 8 = 0" "unat stop mod 8 = 0" "start \<noteq> 0" "unat stop < unat start + 2 ^ 32"
  shows "\<exists>k. 3 \<le> k \<and> k < 32 \<and> min (start AND (NOT start + 1)) (prev_power_of_two (stop - start)) = 2 ^ k
    \<and> unat start mod 2 ^ k = 0 \<and> unat start + 2 ^ k \<le> unat stop \<and> unat (start + 2 ^ k) = unat start + 2 ^ k"
proof -
  have d: "unat (stop - start) = unat stop - unat start" using assms(1) by (intro unat_sub) simp
  have lt: "unat start < unat stop" using assms(1) by (simp add: word_less_nat_alt)
  have "8 dvd unat stop - unat start" using assms(2,3) by (intro dvd_diff_nat) (simp_all add: mod_eq_0_iff_dvd)
  then have "unat (stop - start) mod 8 = 0" "8 \<le> unat (stop - start)" using d lt by (auto simp: dest: dvd_imp_le)
  moreover have "unat (stop - start) < 2 ^ 32" using assms(5) lt unfolding d by linarith
  ultimately obtain p where p: "3 \<le> p" "p < 32" "prev_power_of_two (stop - start) = 2 ^ p" "2 ^ p \<le> unat stop - unat start"
    using prev_power_of_two_ok [of "stop - start"] d by auto
  from lowbit [OF assms(4,2)] obtain t where t: "3 \<le> t" "t < 64" "start AND (NOT start + 1) = 2 ^ t" "unat start mod 2 ^ t = 0"
    by (elim exE conjE) (rule that)
  define k where "k = min t p"
  have "(2 ^ t :: usize) \<le> 2 ^ p \<longleftrightarrow> t \<le> p" using t(2) p(2) by (simp add: word_le_nat_alt unat_2p)
  then have m: "min (2 ^ t :: usize) (2 ^ p) = 2 ^ k" by (auto simp: min_def k_def)
  have "2 ^ k \<le> (2 :: nat) ^ p" unfolding k_def by (rule power_increasing) simp_all
  then have le: "unat start + 2 ^ k \<le> unat stop" using p(4) lt by linarith
  have k: "3 \<le> k" "k < 32" using t p by (simp_all add: k_def)
  have "unat start + 2 ^ k < 2 ^ 64" using le unat_less_2p_64 [of stop] by simp
  then have "unat (start + 2 ^ k) = unat start + 2 ^ k" using unat_2p [of k] k(2) by (simp add: unat_word_ariths)
  moreover have "(2 :: nat) ^ k dvd 2 ^ t" by (rule le_imp_power_dvd) (simp add: k_def)
  then have "2 ^ k dvd unat start" using t(4) by (auto simp: mod_eq_0_iff_dvd intro: dvd_trans)
  then have "unat start mod 2 ^ k = 0" by (simp add: mod_eq_0_iff_dvd)
  ultimately show ?thesis using k m le t(3) p(3) by (intro exI [of _ k]) simp
qed

lemma init_loop_ok:
  "heap_inv lo (unat stop) b fl {} \<Longrightarrow> bytes (free_blocks fl) = {lo..<unat start} \<Longrightarrow> lo \<le> unat start \<Longrightarrow> start \<le> stop \<Longrightarrow>
   unat start mod 8 = 0 \<Longrightarrow> unat stop mod 8 = 0 \<Longrightarrow> start \<noteq> 0 \<Longrightarrow>
   \<exists>b' fl'. init_loop start stop b = Inr b' \<and> heap_inv lo (unat stop) b' fl' {} \<and> bytes (free_blocks fl') = {lo..<unat stop}"
proof (induction start stop b arbitrary: fl rule: init_loop.induct)
  case (1 start stop b)
  note prems = "1.prems"
  show ?case
  proof (cases "start < stop")
    case False
    then have "start = stop" using prems(4) by simp
    then show ?thesis using prems by (subst init_loop.simps) auto
  next
    case True
    have hi: "unat stop < lo + 2 ^ 32" using prems(1) by (simp add: heap_inv_def)
    obtain k where k: "3 \<le> k" "k < 32" "min (start AND (NOT start + 1)) (prev_power_of_two (stop - start)) = 2 ^ k"
      "unat start mod 2 ^ k = 0" "unat start + 2 ^ k \<le> unat stop" "unat (start + 2 ^ k) = unat start + 2 ^ k"
      using init_block [OF True prems(5,6,7)] hi prems(3) by auto
    have r: "region (start, k) = {unat start..<unat start + 2 ^ k}" by (simp add: region_def)
    have ok: "block_ok (start, k)" using k prems(7) by (simp add: block_ok_def)
    have disj: "region (start, k) \<inter> region q = {}" if "q \<in> free_blocks fl" for q
    proof -
      have "region q \<subseteq> {lo..<unat start}" using that prems(2) by (auto simp: bytes_def)
      then show ?thesis using r by auto
    qed
    then have nin: "(start, k) \<notin> free_blocks fl" using region_nonempty [of "(start, k)"] by auto
    have "blocks_ok (insert (start, k) (free_blocks fl \<union> {}))"
      using ok disj prems(1) by (auto simp: blocks_ok_insert heap_inv_def)
    moreover have "region (start, k) \<subseteq> {lo..<unat stop}" using r k(5) prems(3) by auto
    ultimately obtain b1 where b1: "free_push k start b = Inr b1" "heap_inv lo (unat stop) b1 (fl(k := start # fl k)) {}"
      using free_push_ok [OF prems(1) k(2) nin] by auto
    have by1: "bytes (free_blocks (fl(k := start # fl k))) = {lo..<unat (start + 2 ^ k)}"
      using free_blocks_push [OF k(2), of fl start] prems(2,3) k(6) r by (auto simp: bytes_insert)
    have tz: "trailing_zeros (2 ^ k) = k" using k(2) by (intro trailing_zeros_power) simp
    have step: "init_loop start stop b = init_loop (start + 2 ^ k) stop b1"
      using True b1(1) k(3) tz by (subst init_loop.simps) (simp add: Let_def)
    have "start + 2 ^ k \<le> stop" "lo \<le> unat (start + 2 ^ k)" using k(5,6) prems(3) by (simp_all add: word_le_nat_alt)
    moreover have "(8 :: nat) dvd 2 ^ k" using le_imp_power_dvd [OF k(1), of "2 :: nat"] by simp
    then have "unat (start + 2 ^ k) mod 8 = 0" using k(6) prems(5) by (simp add: mod_eq_0_iff_dvd)
    moreover have "start + 2 ^ k \<noteq> 0" using k(6) by (auto simp: word_unat_eq_iff)
    ultimately show ?thesis
      unfolding step using True "1.IH" [OF True refl refl, of b1] b1 by1 k(3) tz prems(6) by simp
  qed
qed

lemma and_minus_8: "unat (x AND (NOT 8 + 1) :: usize) = 8 * (unat x div 8)"
proof -
  have e: "NOT 8 + 1 = (NOT (mask 3) :: usize)" by (simp add: mask_eq_exp_minus_1)
  have "x AND (NOT 8 + 1) = push_bit 3 (drop_bit 3 x)"
    unfolding e by (rule bit_word_eqI) (auto simp: bit_simps)
  also have "\<dots> = 8 * drop_bit 3 x" by (simp add: push_bit_eq_mult)
  also have "unat (8 * drop_bit 3 x) = 8 * (unat x div 8)"
  proof -
    have "8 * (unat x div 8) \<le> unat x" by simp
    then have "8 * (unat x div 8) < 2 ^ 64" using unat_less_2p_64 [of x] by simp
    moreover have "unat (drop_bit 3 x) = unat x div 8" by (simp add: unat_drop_bit)
    ultimately show ?thesis by (simp add: unat_word_ariths)
  qed
  finally show ?thesis .
qed

text \<open>The range that \<open>init\<close> gives to the heap: both ends are rounded, the start upwards.\<close>

definition heap_start :: "usize \<Rightarrow> nat" where
  "heap_start start = 8 * ((unat start + 7) div 8)"

definition heap_end :: "usize \<Rightarrow> usize \<Rightarrow> nat" where
  "heap_end start sz = 8 * ((heap_start start + unat sz) div 8)"

lemma BuddyAllocator_init_ok:
  assumes "0 < start" "unat start + 7 + unat sz < 2 ^ 64" "unat sz < 2 ^ 32"
  shows "\<exists>b fl. BuddyAllocator_init start sz (BuddyAllocator_empty m) = Inr b
    \<and> heap_inv (heap_start start) (heap_end start sz) b fl {} \<and> bytes (free_blocks fl) = {heap_start start..<heap_end start sz}"
proof -
  define s where "s = (start + 8 - 1) AND (NOT 8 + 1)"
  define e where "e = (s + sz) AND (NOT 8 + 1)"
  have "start + 8 - 1 = start + 7" by simp
  moreover have "unat (start + 7) = unat start + 7" using assms(2) by (simp add: unat_word_ariths)
  ultimately have "unat (start + 8 - 1) = unat start + 7" by metis
  then have us: "unat s = heap_start start" by (simp only: s_def and_minus_8 heap_start_def)
  have hs: "heap_start start \<le> unat start + 7" "unat start \<le> heap_start start" by (simp_all add: heap_start_def)
  have "unat (s + sz) = unat s + unat sz" using assms(2) hs us by (simp add: unat_word_ariths)
  then have ue: "unat e = heap_end start sz" by (simp only: e_def and_minus_8 us heap_end_def)
  have "heap_start start mod 8 = 0" "heap_end start sz mod 8 = 0" by (simp_all add: heap_start_def heap_end_def)
  moreover have se: "heap_start start \<le> heap_end start sz" "heap_end start sz \<le> heap_start start + unat sz"
    by (simp_all add: heap_start_def heap_end_def)
  moreover have "s \<noteq> 0" using us hs assms(1) by (auto simp: word_unat_eq_iff word_less_nat_alt)
  moreover have "heap_inv (heap_start start) (heap_end start sz) (BuddyAllocator_empty m) (\<lambda>_. []) {}"
    using se(2) assms(3) by (simp add: heap_inv_def BuddyAllocator_empty_def free_blocks_def blocks_ok_def bytes_def)
  ultimately obtain b fl where "init_loop s e (BuddyAllocator_empty m) = Inr b"
    "heap_inv (heap_start start) (heap_end start sz) b fl {}" "bytes (free_blocks fl) = {heap_start start..<heap_end start sz}"
    using init_loop_ok [of "heap_start start" e "BuddyAllocator_empty m" "\<lambda>_. []" s] us ue
    by (auto simp: word_le_nat_alt free_blocks_def bytes_def)
  moreover have "s \<le> e" using us ue se(1) by (simp add: word_le_nat_alt)
  ultimately show ?thesis by (auto simp: BuddyAllocator_init_def Let_def s_def e_def)
qed

section \<open>Runs of the heap\<close>

text \<open>
  The allocator and the live allocations, each with the layout it was requested with. Clients
  allocate, release what is live, and write to their live memory.
\<close>

type_synonym heap = "BuddyAllocator \<times> (usize \<times> Layout) list"

definition block_of :: "usize \<times> Layout \<Rightarrow> block" where
  "block_of a = (fst a, class_of (snd a))"

inductive heap_step :: "heap \<Rightarrow> heap \<Rightarrow> bool" where
  heap_alloc: "layout_ok l \<Longrightarrow> global_alloc l b = Inr (p, b') \<Longrightarrow>
    heap_step (b, live) (b', if p = 0 then live else (p, l) # live)"
| heap_free: "(p, l) \<in> set live \<Longrightarrow> BuddyAllocator_dealloc p l b = Inr b' \<Longrightarrow> heap_step (b, live) (b', remove1 (p, l) live)"
| heap_write: "(p, l) \<in> set live \<Longrightarrow> unat p \<le> unat x \<Longrightarrow> unat x < unat p + unat (layout_size l) \<Longrightarrow>
    heap_step (b, live) (b\<lparr>ba_mem := (ba_mem b)(x := v)\<rparr>, live)"

inductive_cases heap_stepE: "heap_step h h'"

definition heap_ok :: "nat \<Rightarrow> nat \<Rightarrow> heap \<Rightarrow> bool" where
  "heap_ok lo hi h \<longleftrightarrow>
     (\<exists>fl. heap_inv lo hi (fst h) fl (block_of ` set (snd h))
       \<and> bytes (free_blocks fl) \<union> bytes (block_of ` set (snd h)) = {lo..<hi})
     \<and> distinct (map block_of (snd h)) \<and> (\<forall>a \<in> set (snd h). layout_ok (snd a) \<and> class_of (snd a) < 32)"

lemma load64_write_other:
  assumes "aligned8 a" "block_ok (a, i)" "unat (x :: usize) \<notin> region (a, i)"
  shows "load64 (m(x := v)) a = load64 m a"
proof (rule load64_cong)
  fix k :: nat assume k: "k < 8"
  have "3 \<le> i" "unat a mod 2 ^ i = 0" "i < 64" using assms(2) by (auto simp: block_ok_def)
  then have b: "unat a + 2 ^ i \<le> 2 ^ 64" "(2 :: nat) ^ 3 \<le> 2 ^ i"
    using block_ok_bound [of a i] power_increasing [of 3 i "2 :: nat"] by simp_all
  have "unat (a + of_nat k) = unat a + k"
    using k b by (simp add: unat_word_ariths unat_of_nat)
  then have "unat (a + of_nat k) \<in> region (a, i)" using k b by (simp add: region_def)
  then have "a + of_nat k \<noteq> x" using assms(3) by auto
  then show "(m(x := v)) (a + of_nat k) = m (a + of_nat k)" by simp
qed

lemma is_list_write:
  "is_list m h xs \<Longrightarrow> \<forall>a \<in> set xs. block_ok (a, i) \<and> unat x \<notin> region (a, i) \<Longrightarrow> is_list (m(x := v)) h xs"
  by (induction xs arbitrary: h) (auto simp: load64_write_other block_ok_aligned8)

lemma heap_inv_write:
  assumes inv: "heap_inv lo hi b fl L" and x: "unat x \<in> bytes L"
  shows "heap_inv lo hi (b\<lparr>ba_mem := (ba_mem b)(x := v)\<rparr>) fl L"
proof -
  have "unat x \<notin> region (a, i)" if "i < 32" "a \<in> set (fl i)" for a i
  proof -
    obtain q where q: "q \<in> L" "unat x \<in> region q" using x by (auto simp: bytes_def)
    have "(a, i) \<noteq> q" using heap_inv_free_live [OF inv that] q(1) by auto
    then have "region (a, i) \<inter> region q = {}"
      using inv that q(1) blocks_okD [of "free_blocks fl \<union> L" "(a, i)" q] by (auto simp: heap_inv_def free_blocks_def)
    then show ?thesis using q(2) by blast
  qed
  then have "is_list ((ba_mem b)(x := v)) (ba_free_list b ! i) (fl i)" if "i < 32" for i
    using inv that heap_inv_nodes(2) [OF inv that] by (intro is_list_write [of _ _ _ i]) (auto simp: heap_inv_def)
  then show ?thesis using inv by (simp add: heap_inv_def)
qed

lemma block_of_remove1:
  assumes "distinct (map block_of live)" "a \<in> set live"
  shows "block_of ` set live = insert (block_of a) (block_of ` set (remove1 a live))" "block_of a \<notin> block_of ` set (remove1 a live)"
    "distinct (map block_of (remove1 a live))"
  using assms
proof (induction live)
  case (Cons c live)
  { case 1 then show ?case using Cons by (cases "c = a") auto }
  { case 2 then show ?case using Cons by (cases "c = a") (auto simp: image_iff) }
  { case 3 then show ?case using Cons by (cases "c = a") (auto dest: set_remove1_subset [THEN subsetD]) }
qed simp_all

text \<open>Allocation and release in a run.\<close>

lemma global_alloc_ok:
  assumes h: "heap_ok lo hi (b, live)" and l: "layout_ok l"
  shows "\<exists>p b'. global_alloc l b = Inr (p, b') \<and> heap_ok lo hi (b', if p = 0 then live else (p, l) # live)
    \<and> untouched (block_of ` set live) (ba_mem b) (ba_mem b')"
proof -
  obtain fl where fl: "heap_inv lo hi b fl (block_of ` set live)" "bytes (free_blocks fl) \<union> bytes (block_of ` set live) = {lo..<hi}"
    and d: "distinct (map block_of live)" "\<forall>a \<in> set live. layout_ok (snd a) \<and> class_of (snd a) < 32"
    using h by (auto simp: heap_ok_def)
  obtain r b' where r: "BuddyAllocator_alloc l b = Inr (r, b')" and post: "case r of
      None \<Rightarrow> b' = b \<and> (\<forall>i. class_of l \<le> i \<and> i < 32 \<longrightarrow> fl i = [])
    | Some p \<Rightarrow> \<exists>fl'. heap_inv lo hi b' fl' (insert (p, class_of l) (block_of ` set live)) \<and> (p, class_of l) \<notin> block_of ` set live
        \<and> class_of l < 32 \<and> untouched (block_of ` set live) (ba_mem b) (ba_mem b')
        \<and> bytes (free_blocks fl') \<union> region (p, class_of l) = bytes (free_blocks fl)"
    using BuddyAllocator_alloc_ok [OF fl(1) l] by (auto simp: post_iff)
  show ?thesis
  proof (cases r)
    case None
    then show ?thesis using r post h by (simp add: global_alloc_def)
  next
    case (Some p)
    then obtain fl' where f: "heap_inv lo hi b' fl' (insert (p, class_of l) (block_of ` set live))" "(p, class_of l) \<notin> block_of ` set live"
      "class_of l < 32" "untouched (block_of ` set live) (ba_mem b) (ba_mem b')"
      "bytes (free_blocks fl') \<union> region (p, class_of l) = bytes (free_blocks fl)" using post by auto
    have "p \<noteq> 0" using f(1) by (auto simp: heap_inv_def blocks_ok_insert block_ok_def)
    moreover have "heap_ok lo hi (b', (p, l) # live)"
      using f d l fl(2) by (auto simp: heap_ok_def block_of_def bytes_insert intro!: exI [of _ fl'])
    ultimately show ?thesis using r Some f(4) by (simp add: global_alloc_def)
  qed
qed

lemma dealloc_live_ok:
  assumes h: "heap_ok lo hi (b, live)" and a: "(p, l) \<in> set live"
  shows "\<exists>b'. BuddyAllocator_dealloc p l b = Inr b' \<and> heap_ok lo hi (b', remove1 (p, l) live)
    \<and> untouched (block_of ` set (remove1 (p, l) live)) (ba_mem b) (ba_mem b')"
proof -
  let ?L = "block_of ` set (remove1 (p, l) live)"
  obtain fl where fl: "heap_inv lo hi b fl (block_of ` set live)" "bytes (free_blocks fl) \<union> bytes (block_of ` set live) = {lo..<hi}"
    and d: "distinct (map block_of live)" "\<forall>a \<in> set live. layout_ok (snd a) \<and> class_of (snd a) < 32"
    using h by (auto simp: heap_ok_def)
  note r = block_of_remove1 [OF d(1) a]
  have c: "class_of l < 32" using d(2) a by auto
  have "heap_inv lo hi b fl (insert (p, class_of l) ?L)" "(p, class_of l) \<notin> ?L"
    using fl(1) r by (simp_all add: block_of_def)
  from BuddyAllocator_dealloc_ok [OF this c] obtain b' fl' where b': "BuddyAllocator_dealloc p l b = Inr b'"
    "heap_inv lo hi b' fl' ?L" "untouched ?L (ba_mem b) (ba_mem b')" "bytes (free_blocks fl') = bytes (free_blocks fl) \<union> region (p, class_of l)"
    by (auto simp: post_iff)
  have "heap_ok lo hi (b', remove1 (p, l) live)"
    using b'(2,4) fl(2) r d(2) by (auto simp: heap_ok_def bytes_insert block_of_def intro!: exI [of _ fl'] dest: set_remove1_subset [THEN subsetD])
  then show ?thesis using b' by blast
qed

lemma heap_step_ok: "heap_step h h' \<Longrightarrow> heap_ok lo hi h \<Longrightarrow> heap_ok lo hi h'"
proof (induction rule: heap_step.induct)
  case (heap_alloc l b p b' live)
  then show ?case using global_alloc_ok [of lo hi b live l] by auto
next
  case (heap_free p l live b b')
  then show ?case using dealloc_live_ok [of lo hi b live p l] by auto
next
  case (heap_write p l live x b v)
  obtain fl where fl: "heap_inv lo hi b fl (block_of ` set live)" "bytes (free_blocks fl) \<union> bytes (block_of ` set live) = {lo..<hi}"
    using heap_write(4) by (auto simp: heap_ok_def)
  have "unat (layout_size l) \<le> 2 ^ class_of l" using heap_write(1,4) class_of_ok(3) [of l] by (auto simp: heap_ok_def)
  then have "unat x \<in> region (block_of (p, l))" using heap_write(2,3) by (simp add: region_def block_of_def)
  then have "unat x \<in> bytes (block_of ` set live)" using heap_write(1) by (auto simp: bytes_def)
  then have "heap_inv lo hi (b\<lparr>ba_mem := (ba_mem b)(x := v)\<rparr>) fl (block_of ` set live)" by (rule heap_inv_write [OF fl(1)])
  then show ?case using fl(2) heap_write(4) by (auto simp: heap_ok_def)
qed

lemma heap_run_ok: "heap_step\<^sup>*\<^sup>* h h' \<Longrightarrow> heap_ok lo hi h \<Longrightarrow> heap_ok lo hi h'"
  by (induction rule: rtranclp_induct) (auto intro: heap_step_ok)

definition alloc_bytes :: "usize \<times> Layout \<Rightarrow> nat set" where
  "alloc_bytes a = {unat (fst a) ..< unat (fst a) + unat (layout_size (snd a))}"

lemma alloc_bytes_region: "layout_ok (snd a) \<Longrightarrow> alloc_bytes a \<subseteq> region (block_of a)"
  using class_of_ok(3) [of "snd a"] by (auto simp: alloc_bytes_def region_def block_of_def)

lemma heap_ok_live:
  assumes h: "heap_ok lo hi (b, live)"
  shows "i < length live \<Longrightarrow> j < length live \<Longrightarrow> i \<noteq> j \<Longrightarrow> alloc_bytes (live ! i) \<inter> alloc_bytes (live ! j) = {}"
    "a \<in> set live \<Longrightarrow> fst a \<noteq> 0 \<and> unat (fst a) mod unat (layout_align (snd a)) = 0 \<and> alloc_bytes a \<subseteq> {lo..<hi}"
proof -
  obtain fl where fl: "heap_inv lo hi b fl (block_of ` set live)"
    and d: "distinct (map block_of live)" and l: "a \<in> set live \<Longrightarrow> layout_ok (snd a)" for a
    using h by (auto simp: heap_ok_def)
  show "alloc_bytes (live ! i) \<inter> alloc_bytes (live ! j) = {}" if ij: "i < length live" "j < length live" "i \<noteq> j"
  proof -
    have "block_of (live ! i) \<noteq> block_of (live ! j)" using d ij by (metis length_map nth_eq_iff_index_eq nth_map)
    moreover have "blocks_ok (free_blocks fl \<union> block_of ` set live)" using fl by (simp add: heap_inv_def)
    ultimately have "region (block_of (live ! i)) \<inter> region (block_of (live ! j)) = {}"
      using ij by (intro blocks_okD) (auto simp: image_iff)
    moreover have "alloc_bytes (live ! i) \<subseteq> region (block_of (live ! i))" "alloc_bytes (live ! j) \<subseteq> region (block_of (live ! j))"
      using ij l by (simp_all add: alloc_bytes_region)
    ultimately show ?thesis by blast
  qed
  show "fst a \<noteq> 0 \<and> unat (fst a) mod unat (layout_align (snd a)) = 0 \<and> alloc_bytes a \<subseteq> {lo..<hi}" if a: "a \<in> set live"
  proof -
    have ok: "block_ok (block_of a)" "region (block_of a) \<subseteq> {lo..<hi}"
      using fl a by (auto simp: heap_inv_def blocks_ok_def bytes_def)
    then have "2 ^ class_of (snd a) dvd unat (fst a)" by (simp add: block_ok_def block_of_def mod_eq_0_iff_dvd)
    then have "unat (layout_align (snd a)) dvd unat (fst a)" using class_of_ok(4) [OF l [OF a]] by (rule dvd_trans [rotated])
    then show ?thesis using ok alloc_bytes_region [OF l [OF a]] by (auto simp: block_ok_def block_of_def mod_eq_0_iff_dvd)
  qed
qed

lemma untouched_alloc_bytes:
  "untouched (block_of ` S) m m' \<Longrightarrow> a \<in> S \<Longrightarrow> layout_ok (snd a) \<Longrightarrow> unat x \<in> alloc_bytes a \<Longrightarrow> m' x = m x"
  using alloc_bytes_region [of a] by (auto simp: untouched_def bytes_def)

text \<open>
  C4. After any sequence of allocations, releases and writes of the clients on an initialised
  heap: live allocations do not overlap, are aligned as requested and lie in the range of the heap
  as \<open>init\<close> rounds it; every further request returns without a panic and changes no byte of a live
  allocation; every live allocation can be released without a panic, leaving the bytes of the
  other live allocations alone.
\<close>

theorem heap_allocations_safe:
  assumes "0 < start" "unat start + 7 + unat sz < 2 ^ 64" "unat sz < 2 ^ 32"
    "BuddyAllocator_init start sz (BuddyAllocator_empty m) = Inr b0" "heap_step\<^sup>*\<^sup>* (b0, []) (b, live)"
  shows "(\<forall>i j. i < length live \<longrightarrow> j < length live \<longrightarrow> i \<noteq> j \<longrightarrow> alloc_bytes (live ! i) \<inter> alloc_bytes (live ! j) = {})
    \<and> (\<forall>a \<in> set live. fst a \<noteq> 0 \<and> unat (fst a) mod unat (layout_align (snd a)) = 0
         \<and> alloc_bytes a \<subseteq> {heap_start start..<heap_end start sz})
    \<and> (\<forall>l. layout_ok l \<longrightarrow> (\<exists>p b'. global_alloc l b = Inr (p, b')
         \<and> (\<forall>a \<in> set live. \<forall>x. unat x \<in> alloc_bytes a \<longrightarrow> ba_mem b' x = ba_mem b x)))
    \<and> (\<forall>p l. (p, l) \<in> set live \<longrightarrow> (\<exists>b'. BuddyAllocator_dealloc p l b = Inr b'
         \<and> (\<forall>a \<in> set (remove1 (p, l) live). \<forall>x. unat x \<in> alloc_bytes a \<longrightarrow> ba_mem b' x = ba_mem b x)))"
proof -
  obtain fl where "heap_inv (heap_start start) (heap_end start sz) b0 fl {}" "bytes (free_blocks fl) = {heap_start start..<heap_end start sz}"
    using BuddyAllocator_init_ok [OF assms(1-3), of m] assms(4) by auto
  then have "heap_ok (heap_start start) (heap_end start sz) (b0, [])" by (auto simp: heap_ok_def bytes_def)
  then have h: "heap_ok (heap_start start) (heap_end start sz) (b, live)" by (rule heap_run_ok [OF assms(5)])
  have l: "a \<in> set live \<Longrightarrow> layout_ok (snd a)" for a using h by (simp add: heap_ok_def)
  have alloc: "\<exists>p b'. global_alloc k b = Inr (p, b') \<and> (\<forall>a \<in> set live. \<forall>x. unat x \<in> alloc_bytes a \<longrightarrow> ba_mem b' x = ba_mem b x)"
    if k: "layout_ok k" for k
  proof -
    obtain p b' where "global_alloc k b = Inr (p, b')" "untouched (block_of ` set live) (ba_mem b) (ba_mem b')"
      using global_alloc_ok [OF h k] by blast
    then show ?thesis using untouched_alloc_bytes l by blast
  qed
  have dealloc: "\<exists>b'. BuddyAllocator_dealloc p k b = Inr b'
      \<and> (\<forall>a \<in> set (remove1 (p, k) live). \<forall>x. unat x \<in> alloc_bytes a \<longrightarrow> ba_mem b' x = ba_mem b x)"
    if pk: "(p, k) \<in> set live" for p k
  proof -
    obtain b' where b': "BuddyAllocator_dealloc p k b = Inr b'"
      "untouched (block_of ` set (remove1 (p, k) live)) (ba_mem b) (ba_mem b')"
      using dealloc_live_ok [OF h pk] by blast
    then show ?thesis using untouched_alloc_bytes [OF b'(2)] l set_remove1_subset [of "(p, k)" live] by blast
  qed
  show ?thesis using heap_ok_live [OF h] alloc dealloc by blast
qed

theorem heap_allocations_safe_witness:
  "\<exists>b0. init_heap 0x80300000 (BuddyAllocator_empty (\<lambda>_. 0)) = Inr b0
    \<and> (\<exists>p b'. global_alloc \<lparr>layout_size = 100, layout_align = 8\<rparr> b0 = Inr (p, b'))"
proof -
  obtain b0 where b0: "BuddyAllocator_init 0x80300000 0x200000 (BuddyAllocator_empty (\<lambda>_. 0)) = Inr b0"
    using BuddyAllocator_init_ok [of "0x80300000" "0x200000" "\<lambda>_. 0"] by auto
  have "layout_ok \<lparr>layout_size = 100, layout_align = 8\<rparr>"
    by (auto simp: layout_ok_def intro: exI [of _ 3])
  then have "\<exists>p b'. global_alloc \<lparr>layout_size = 100, layout_align = 8\<rparr> b0 = Inr (p, b')"
    using heap_allocations_safe [OF _ _ _ b0 rtranclp.rtrancl_refl] by auto
  then show ?thesis using b0 by (simp add: init_heap_def)
qed

end
