(* ===== verification/Spec2Isabelle.thy ===== *)
theory Spec2Isabelle
  imports Recycle_Allocator User_Space User_Memory Kernel_Runs File_Writes Buddy_Proofs
begin

text \<open>
  A verification library for the \<open>acore\<close> operating system: a RISC-V kernel (\<open>os/\<close>), its heap
  allocator (\<open>buddy-allocator/\<close>), its file system (\<open>easy-fs/\<close>), the program that builds disk images
  (\<open>easy-fs-fuse/\<close>) and user programs (\<open>user/\<close>).

  \<^bold>\<open>How the parts interact.\<close> At boot, \<open>rust_main\<close> lists the programs on the disk and starts the first
  process. A trap from user mode enters \<open>trap_handler\<close>, which dispatches system calls, handles faults
  and timer interrupts, delivers signals and returns to user mode; a thread that waits or ends leaves
  the processor to the idle loop, which takes the next thread of the ready queue. System calls use
  address spaces (page tables on frames of the frame allocator), files (the console, pipes, inodes of
  the file system), the objects of the process for synchronisation, and timers. Inodes go through the
  bitmaps and the layout of the disk to the block cache, and this to a block device.

  \<^bold>\<open>Modelling.\<close> The kernel is built in release mode, so machine arithmetic wraps; a \<open>usize\<close> is a 64-bit
  word. A panic is a value of \<open>panic\<close>, and code that may panic returns a \<open>result\<close>, which is \<open>Inl\<close> of
  the panic or \<open>Inr\<close> of the value. Structures are records with the names of the source and a prefix,
  functions of the source are functions here, and code that changes state takes the state and returns
  it. Physical memory is a function from addresses to bytes, shared by frames, page tables, kernel
  stacks and user memory. The kernel has one processor and does not interrupt itself, so it runs
  sequentially; a call that gives up the processor ends in a continuation, a value that says with
  what the thread goes on when it runs again. Reference-counted objects are entries of tables of the
  kernel state, by number.

  \<^bold>\<open>Foundations.\<close>
  \<^item> \<open>Prelude\<close>: machine integers, panics, vectors, the predicate \<open>post\<close> for total correctness (the
    code returns, and the result satisfies the postcondition), generic lemmas. \<open>Memory\<close>: bytes,
    little-endian words and ranges of bytes. \<open>Strings\<close>: UTF-8.

  \<^bold>\<open>Memory management\<close> (\<open>os/src/mm\<close>, \<open>os/src/task/utils.rs\<close>).
  \<^item> \<open>Allocator_Spec\<close> is the contract of identifier allocators (what is handed out was not in use).
    \<open>Recycle_Allocator\<close> (\<open>task/utils.rs\<close>) and \<open>Frame_Allocator\<close> (\<open>frame_allocator.rs\<close>) satisfy it: handles
    and frame trackers that live at the same time are different, in every sequence of operations, and
    no more identifiers are created than handles were live at the same time.
  \<^item> \<open>Address\<close> (\<open>address.rs\<close>): addresses, page numbers and ranges.
  \<^item> \<open>Paging_Spec\<close> is the contract of the paging layer; \<open>Page_Table\<close> (\<open>page_table.rs\<close>) satisfies it: \<open>map\<close>
    adds one translation, \<open>unmap\<close> removes it, and translation walks three levels of tables in memory.
  \<^item> \<open>Address_Space\<close> and \<open>Address_Space_Proofs\<close> (\<open>address_space.rs\<close>): segments, loading of programs,
    kernel and user spaces. \<open>User_Space\<close>: segments map exactly their pages, loading a program puts its
    image in place, and the copy that fork makes reads like the parent and is separate from it.
  \<^item> \<open>User_Memory\<close> (the second half of \<open>page_table.rs\<close>): buffers and strings of user memory are the bytes
    that user addresses translate to. \<open>translated_byte_buffer\<close> may not end when a range wraps around,
    so its loop is a partial function, and the theorem says when it returns.

  \<^bold>\<open>Heap\<close> (\<open>buddy-allocator\<close>, \<open>os/src/mm/heap_allocator.rs\<close>).
  \<^item> \<open>Buddy_Allocator\<close>: free lists threaded through memory, splitting and merging. \<open>Buddy_Proofs\<close>: in every
    run live allocations are aligned, inside the heap and disjoint, and the free lists are kept intact.

  \<^bold>\<open>File system\<close> (\<open>easy-fs\<close>, \<open>os/src/fs\<close>).
  \<^item> \<open>Block_Cache\<close> (\<open>block_dev.rs\<close>, \<open>block_cache.rs\<close>): the manager of sixteen cached blocks. The locale
    \<open>block_device\<close> is the contract of devices, satisfied by the file of the image builder; under it the
    cache is transparent, evictions included. The predicate \<open>rep\<close> relates the manager to what its
    clients see, with the blocks that enclosing accesses hold.
  \<^item> \<open>Bitmap\<close> (\<open>bitmap.rs\<close>), \<open>Disk_Layout\<close> (\<open>layout.rs\<close>), \<open>Easy_FS\<close> (\<open>efs.rs\<close>, \<open>vfs.rs\<close>): allocation of the
    lowest free bit, the super block, inodes and directory entries, formatting, and the operations on
    inodes.
  \<^item> \<open>File_Contents\<close>, \<open>File_Growth\<close>, \<open>File_Updates\<close> and \<open>File_Writes\<close>: the contents of a file through its
    direct, indirect and doubly indirect blocks; growing is the iteration of appending one block;
    writing to an inode changes the contents of its file and of no other, and reading returns them.
  \<^item> \<open>OS_Inode\<close> (\<open>fs/inode.rs\<close>): open files with an offset. \<open>Pipe\<close> (\<open>fs/pipe.rs\<close>): the ring buffer refines a
    bounded queue (\<open>Queue_Spec\<close>), and bytes arrive in order in every interleaving of a reader and a
    writer, none lost, and without deadlock.

  \<^bold>\<open>Tasks\<close> (\<open>os/src/task\<close>, \<open>os/src/sync\<close>, \<open>os/src/timer\<close>).
  \<^item> \<open>Trap_Context\<close> (\<open>trap/context.rs\<close>, \<open>task/thread/context.rs\<close>): contexts and their layout in memory.
  \<^item> \<open>Scheduler\<close> (\<open>task/scheduler\<close>): the ready queue, and that it is fair. \<open>BTreeMap\<close>: the ordered map of the
    process table.
  \<^item> \<open>Sync\<close> (\<open>sync\<close>): mutexes, semaphores and condition variables, with mutual exclusion in every run
    and the bound on permits in every run of threads that call \<open>down\<close> and \<open>up\<close> in any order. \<open>Timer\<close>
    (\<open>timer/mod.rs\<close>): through the ticks and the steps of other threads a sleeping thread stays blocked
    until the first tick at or after its time. \<open>Signals\<close> (\<open>task/signal\<close>, \<open>task/mod.rs\<close>): delivery, handlers and the return from them.
  \<^item> \<open>Process\<close> (\<open>task/process\<close>, \<open>task/thread\<close>, \<open>task/mod.rs\<close>): control blocks, resources of threads, fork,
    exit and the death of processes, with the control blocks and pointers that are never dropped. \<open>Syscalls\<close> (\<open>syscall\<close>): every system call. \<open>Trap\<close> (\<open>trap/mod.rs\<close>,
    \<open>syscall/mod.rs\<close>): the dispatcher and the trap handler. \<open>Kernel_Main\<close> (\<open>main.rs\<close>): the first process, and
    the transition system of kernel and users: user programs change memory as they like and trap, or
    the idle loop takes the next thread.
  \<^item> \<open>Kernel_Proofs\<close>: properties of single system calls. \<open>Thread_Places\<close>, \<open>Kernel_Invariant\<close> and
    \<open>Kernel_Runs\<close>: an invariant of the whole kernel that every system call and every trap keeps; in every
    run each thread that has not ended is in exactly one place, and its status agrees with the place;
    and a run in which waiting for a process panics.

  \<^bold>\<open>Bounds and fuel.\<close> A read or write of a pipe passes over the buffer at most twice before it gives up
  the processor: after one pass the ring buffer is empty or full, or the transfer is complete, so the
  fuel 2 of \<open>pipe_read_call\<close> and \<open>pipe_write_call\<close> is enough, and more fuel does not change the result
  (\<open>pipe_read_call_fuel\<close> and \<open>pipe_write_call_fuel\<close> in \<open>Kernel_Proofs\<close>). The invariant of threads is for runs
  that create fewer than \<open>2 ^ 64\<close> threads, as the numbers of threads do not wrap around before. The
  counter of a semaphore is right as long as fewer than \<open>2 ^ 61\<close> permits are given in total. The
  theorem on files is for files up to the size that two levels of indirection can hold and needs as
  many free blocks as the file grows by.

  \<^bold>\<open>Not modelled.\<close> The assembly that saves and restores registers, writes to machine registers and the
  clearing of memory at boot; device registers (\<open>os/src/sbi\<close>) and the driver of the disk
  (\<open>os/src/drivers\<close>), which is a wrapper around a third-party crate: a disk is a parameter of the model
  that satisfies \<open>block_device\<close>, console input and the clock are inputs of each trap; the ELF parser is
  a third-party crate, its result is an argument of loading; formatting of log messages; the command
  line and the host directory of the image builder; boot-time self-tests; user programs, which are
  tests that run in user mode, and the wrappers around the \<open>ecall\<close> instruction they use.
\<close>

end
